(* ===== verification/Ks_Prelude.thy ===== *)
theory Ks_Prelude
  imports Main "HOL-Library.Word" "HOL-Library.List_Lexorder"
begin

text \<open>
  Shared vocabulary of the development: bytes and machine integers, the I/O error kinds the
  source reports (an \<^verbatim>\<open>io::Error\<close> is modelled by its kind; its message is dropped), the
  collections of rewrite rules the component theories fill, and the generic list lemmas they
  share.
\<close>

unbundle bit_operations_syntax

named_theorems codec_simps \<open>lengths and round trips of the fixed-width encoders\<close>
named_theorems wf_intros \<open>well-formedness is kept by an operation\<close>

type_synonym u8 = "8 word"
type_synonym u32 = "32 word"
type_synonym u64 = "64 word"
type_synonym bytes = "u8 list"

datatype error_kind =
    NotFound | PermissionDenied | AlreadyExists | WouldBlock | InvalidInput | InvalidData
  | TimedOut | Interrupted | UnexpectedEof | StorageFull | Unsupported | Other

type_synonym 'a io_result = "error_kind + 'a"

text \<open>Sequencing of fallible steps: the source's \<^verbatim>\<open>?\<close> operator.\<close>

definition try_bind :: "'e + 'a \<Rightarrow> ('a \<Rightarrow> 'e + 'b) \<Rightarrow> 'e + 'b" where
  "try_bind r f = (case r of Inl e \<Rightarrow> Inl e | Inr a \<Rightarrow> f a)"

lemma try_bind_simps [simp]:
  "try_bind (Inl e) f = Inl e"
  "try_bind (Inr a) f = f a"
  by (simp_all add: try_bind_def)

lemma try_bind_Inr_iff: "try_bind r f = Inr b \<longleftrightarrow> (\<exists>a. r = Inr a \<and> f a = Inr b)"
  by (cases r) simp_all

lemma try_bind_Inl_iff:
  "try_bind r f = Inl e \<longleftrightarrow> r = Inl e \<or> (\<exists>a. r = Inr a \<and> f a = Inl e)"
  by (cases r) simp_all

lemma try_bind_cong [fundef_cong]:
  "r = r' \<Longrightarrow> (\<And>a. r' = Inr a \<Longrightarrow> f a = f' a) \<Longrightarrow> try_bind r f = try_bind r' f'"
  by (cases r') simp_all

subsection \<open>Words\<close>

lemma unat_bound: "unat (w :: 'a :: len word) < 2 ^ LENGTH('a)"
  by (rule unsigned_less)

lemma word_of_unat: "word_of_nat (unat w) = (w :: 'a :: len word)"
  by simp

subsection \<open>Lists\<close>

lemma list_all_take: "list_all P xs \<Longrightarrow> list_all P (take n xs)"
  by (auto simp: list_all_iff dest: in_set_takeD)

lemma take_append_exact [simp]: "length xs = n \<Longrightarrow> take n (xs @ ys) = xs"
  by simp

lemma drop_append_exact [simp]: "length xs = n \<Longrightarrow> drop n (xs @ ys) = ys"
  by simp

lemma take_drop_append: "length xs = n \<Longrightarrow> take m (drop n (xs @ ys)) = take m ys"
  by simp

text \<open>
  Rust's \<^verbatim>\<open>partition_point\<close>: the number of leading elements that satisfy the predicate. On a
  slice that the predicate partitions this is the point a binary search finds.
\<close>

definition partition_point :: "('a \<Rightarrow> bool) \<Rightarrow> 'a list \<Rightarrow> nat" where
  "partition_point p xs = length (takeWhile p xs)"

lemma partition_point_le [simp]: "partition_point p xs \<le> length xs"
  by (simp add: partition_point_def length_takeWhile_le)

lemma take_partition_point: "take (partition_point p xs) xs = takeWhile p xs"
  by (simp add: partition_point_def takeWhile_eq_take [symmetric])

lemma drop_partition_point: "drop (partition_point p xs) xs = dropWhile p xs"
  by (simp add: partition_point_def dropWhile_eq_drop [symmetric])

lemma takeWhile_eq_filter_sorted:
  assumes "sorted_wrt r xs" and "\<And>x y. r x y \<Longrightarrow> p y \<Longrightarrow> p x"
  shows "takeWhile p xs = filter p xs"
  using assms(1)
proof (induction xs)
  case (Cons x xs)
  moreover from Cons.prems have "filter p xs = []" if "\<not> p x"
    using that assms(2) by (auto simp: filter_empty_conv)
  ultimately show ?case by simp
qed simp

lemma dropWhile_eq_filter_sorted:
  assumes "sorted_wrt r xs" and "\<And>x y. r x y \<Longrightarrow> p y \<Longrightarrow> p x"
  shows "dropWhile p xs = filter (\<lambda>x. \<not> p x) xs"
  using assms(1)
proof (induction xs)
  case (Cons x xs)
  moreover from Cons.prems have "filter (\<lambda>x. \<not> p x) xs = xs" if "\<not> p x"
    using that assms(2) by (auto simp: filter_id_conv)
  ultimately show ?case by simp
qed simp

subsection \<open>The byte order of keys\<close>

lemma bytes_less_Cons [simp]:
  "((x :: 'a :: linorder) # xs < y # ys) \<longleftrightarrow> x < y \<or> x = y \<and> xs < ys"
  by (auto simp: list_less_def)

lemma bytes_Nil_less [simp]: "([] < (ys :: ('a :: linorder) list)) \<longleftrightarrow> ys \<noteq> []"
  by (cases ys) (auto simp: list_less_def)

lemma bytes_not_less_Nil [simp]: "\<not> (xs :: ('a :: linorder) list) < []"
  by (simp add: list_less_def)

lemma bytes_le_Cons [simp]:
  "((x :: 'a :: linorder) # xs \<le> y # ys) \<longleftrightarrow> x < y \<or> x = y \<and> xs \<le> ys"
  by (auto simp: list_le_def)

lemma bytes_Nil_le [simp]: "[] \<le> (ys :: ('a :: linorder) list)"
  by (cases ys) (auto simp: list_le_def)

lemma append_le_cancel [simp]:
  "((q :: ('a :: linorder) list) @ x \<le> q @ y) \<longleftrightarrow> x \<le> y"
  by (induction q) auto

lemma append_less_cancel [simp]:
  "((q :: ('a :: linorder) list) @ x < q @ y) \<longleftrightarrow> x < y"
  by (induction q) auto

lemma append_less_same_length:
  "length xs = length ys \<Longrightarrow> ((xs :: ('a :: linorder) list) @ zs < ys @ zs) \<longleftrightarrow> xs < ys"
  by (induction xs ys rule: list_induct2) auto

end
