(* ===== verification/Ordered_Map.thy ===== *)
theory Ordered_Map
  imports Ks_Prelude
begin

text \<open>
  The ordered maps the source takes from the standard library (\<^verbatim>\<open>BTreeMap\<close>, and \<^verbatim>\<open>HashMap\<close>
  where the order does not matter), as association lists strictly sorted by key, and the
  interface \<open>kv_map\<close> they share with the B+ tree of \<^verbatim>\<open>src/btree_store.rs\<close>: a lookup, an
  insert, a removal and the listing in key order.
\<close>

type_synonym ('k, 'v) bmap = "('k \<times> 'v) list"

definition bm_wf :: "('k :: linorder, 'v) bmap \<Rightarrow> bool" where
  "bm_wf m \<longleftrightarrow> sorted_wrt (<) (map fst m)"

abbreviation bm_get :: "('k, 'v) bmap \<Rightarrow> 'k \<Rightarrow> 'v option" where
  "bm_get m k \<equiv> map_of m k"

primrec bm_insert :: "'k :: linorder \<Rightarrow> 'v \<Rightarrow> ('k, 'v) bmap \<Rightarrow> ('k, 'v) bmap" where
  "bm_insert k v [] = [(k, v)]"
| "bm_insert k v (e # m) =
     (if fst e < k then e # bm_insert k v m
      else if fst e = k then (k, v) # m
      else (k, v) # e # m)"

definition bm_remove :: "'k \<Rightarrow> ('k, 'v) bmap \<Rightarrow> ('k, 'v) bmap" where
  "bm_remove k m = filter (\<lambda>e. fst e \<noteq> k) m"

text \<open>
  \<^verbatim>\<open>BTreeMap::range\<close> from an inclusive lower bound to an optional exclusive upper bound. The
  library panics on an inverted range; \<open>None\<close> is that panic.
\<close>

definition bm_range :: "'k :: linorder \<Rightarrow> 'k option \<Rightarrow> ('k, 'v) bmap \<Rightarrow> ('k, 'v) bmap option" where
  "bm_range lo hi m =
     (case hi of
        None \<Rightarrow> Some (filter (\<lambda>e. lo \<le> fst e) m)
      | Some h \<Rightarrow> if h < lo then None else Some (filter (\<lambda>e. lo \<le> fst e \<and> fst e < h) m))"

subsection \<open>The laws of the sorted association list\<close>

lemma bm_wf_Nil [simp]: "bm_wf []"
  by (simp add: bm_wf_def)

lemma bm_wf_Cons [simp]: "bm_wf (e # m) \<longleftrightarrow> (\<forall>k \<in> fst ` set m. fst e < k) \<and> bm_wf m"
  by (simp add: bm_wf_def)

lemma bm_wf_distinct: "bm_wf m \<Longrightarrow> distinct (map fst m)"
  by (simp add: bm_wf_def strict_sorted_iff)

lemma bm_wf_sorted: "bm_wf m \<Longrightarrow> sorted (map fst m)"
  by (simp add: bm_wf_def strict_sorted_iff)

lemma keys_bm_insert [simp]: "fst ` set (bm_insert k v m) = insert k (fst ` set m)"
  by (induction m) auto

lemma bm_wf_insert [wf_intros]: "bm_wf m \<Longrightarrow> bm_wf (bm_insert k v m)"
  by (induction m) auto

lemma bm_wf_filter [wf_intros]: "bm_wf m \<Longrightarrow> bm_wf (filter p m)"
  by (induction m) auto

lemma bm_wf_remove [wf_intros]: "bm_wf m \<Longrightarrow> bm_wf (bm_remove k m)"
  by (simp add: bm_remove_def bm_wf_filter)

lemma bm_get_insert: "bm_wf m \<Longrightarrow> bm_get (bm_insert k v m) = (bm_get m)(k \<mapsto> v)"
proof (induction m)
  case (Cons e m)
  have "bm_get (e # m) k = None" if "k < fst e"
    using that Cons.prems by (auto simp: map_of_eq_None_iff)
  with Cons show ?case by (cases e) (auto simp: fun_eq_iff)
qed simp

lemma bm_get_remove: "bm_get (bm_remove k m) = (bm_get m)(k := None)"
  by (induction m) (auto simp: bm_remove_def fun_eq_iff)

lemma bm_remove_absent: "bm_get m k = None \<Longrightarrow> bm_remove k m = m"
  by (auto simp: bm_remove_def filter_id_conv map_of_eq_None_iff)

text \<open>A sorted listing is determined by the map it lists.\<close>

lemma bm_ext:
  assumes "bm_wf m" and "bm_wf m'" and "bm_get m = bm_get m'"
  shows "m = m'"
proof (rule map_sorted_distinct_set_unique)
  have mem: "e \<in> set l \<longleftrightarrow> map_of l (fst e) = Some (snd e)" if "bm_wf l" for l :: "('a, 'b) bmap" and e
    using bm_wf_distinct [OF that] by (cases e) simp
  show "set m = set m'" using assms by (auto simp: mem)
  then show "inj_on fst (set m \<union> set m')"
    using bm_wf_distinct [OF assms(1)] by (simp add: distinct_map)
qed (use assms in \<open>simp_all add: bm_wf_distinct bm_wf_sorted\<close>)

lemma bm_insert_same:
  "bm_wf m \<Longrightarrow> bm_get m k = Some v \<Longrightarrow> bm_insert k v m = m"
  by (rule bm_ext) (auto simp: bm_get_insert bm_wf_insert fun_eq_iff)

lemma length_bm_insert:
  "bm_wf m \<Longrightarrow> length (bm_insert k v m) = length m + (if bm_get m k = None then 1 else 0)"
proof (induction m)
  case (Cons e m)
  have "bm_get (e # m) k = None" if "k < fst e"
    using that Cons.prems by (auto simp: map_of_eq_None_iff)
  with Cons show ?case by (cases e) (auto dest!: map_of_SomeD)
qed simp

lemma bm_get_filter_key:
  "bm_get (filter (\<lambda>e. p (fst e)) m) k = (if p k then bm_get m k else None)"
  by (induction m) auto

lemma bm_insert_last:
  "\<forall>e \<in> set m. fst e < k \<Longrightarrow> bm_insert k v m = m @ [(k, v)]"
  by (induction m) auto

lemma bm_insert_replace_last:
  "bm_wf (m @ [(k, old)]) \<Longrightarrow> bm_insert k v (m @ [(k, old)]) = m @ [(k, v)]"
  by (induction m) auto

lemma bm_insert_twice: "bm_wf m \<Longrightarrow> bm_insert k v (bm_insert k u m) = bm_insert k v m"
  by (intro bm_ext) (auto simp: bm_wf_insert bm_get_insert)

lemma filter_bm_insert:
  assumes "bm_wf m" and "p k"
  shows "filter (\<lambda>e. p (fst e)) (bm_insert k v m) = bm_insert k v (filter (\<lambda>e. p (fst e)) m)"
  using assms
  by (intro bm_ext) (auto simp: bm_wf_filter bm_wf_insert bm_get_filter_key bm_get_insert fun_eq_iff)

lemma filter_bm_insert_other:
  "\<not> p k \<Longrightarrow> bm_wf m \<Longrightarrow>
   filter (\<lambda>e. p (fst e)) (bm_insert k v m) = filter (\<lambda>e. p (fst e)) m"
  by (intro bm_ext) (auto simp: bm_wf_filter bm_wf_insert bm_get_filter_key bm_get_insert fun_eq_iff)

subsection \<open>The interface: a finite map with a sorted listing\<close>

locale kv_map =
  fixes empty :: 'm
    and lookup :: "'m \<Rightarrow> 'k :: linorder \<Rightarrow> 'v option"
    and insert_kv :: "'k \<Rightarrow> 'v \<Rightarrow> 'm \<Rightarrow> 'm"
    and remove_kv :: "'k \<Rightarrow> 'm \<Rightarrow> 'm"
    and entries :: "'m \<Rightarrow> ('k \<times> 'v) list"
    and inv :: "'m \<Rightarrow> bool"
  assumes inv_empty: "inv empty"
    and inv_insert: "inv m \<Longrightarrow> inv (insert_kv k v m)"
    and inv_remove: "inv m \<Longrightarrow> inv (remove_kv k m)"
    and lookup_empty: "lookup empty k = None"
    and lookup_insert: "inv m \<Longrightarrow> lookup (insert_kv k v m) = (lookup m)(k \<mapsto> v)"
    and lookup_remove: "inv m \<Longrightarrow> lookup (remove_kv k m) = (lookup m)(k := None)"
    and entries_wf: "inv m \<Longrightarrow> bm_wf (entries m)"
    and lookup_entries: "inv m \<Longrightarrow> lookup m = map_of (entries m)"
begin

text \<open>A run of updates, each a put (\<open>Some v\<close>) or a removal (\<open>None\<close>).\<close>

primrec run :: "('k \<times> 'v option) list \<Rightarrow> 'm \<Rightarrow> 'm" where
  "run [] m = m"
| "run (u # us) m =
     run us (case snd u of Some v \<Rightarrow> insert_kv (fst u) v m | None \<Rightarrow> remove_kv (fst u) m)"

lemma inv_run: "inv m \<Longrightarrow> inv (run us m)"
  by (induction us arbitrary: m) (auto simp: inv_insert inv_remove split: option.split)

lemma lookup_run: "inv m \<Longrightarrow> lookup (run us m) = fold (\<lambda>u f. f(fst u := snd u)) us (lookup m)"
proof (induction us arbitrary: m)
  case (Cons u us)
  let ?m = "case snd u of Some v \<Rightarrow> insert_kv (fst u) v m | None \<Rightarrow> remove_kv (fst u) m"
  have "inv ?m" and "lookup ?m = (lookup m)(fst u := snd u)"
    using Cons.prems
    by (auto simp: inv_insert inv_remove lookup_insert lookup_remove split: option.split)
  then show ?case using Cons.IH [of ?m] by simp
qed simp

lemma entries_unique: "inv m \<Longrightarrow> bm_wf l \<Longrightarrow> map_of l = lookup m \<Longrightarrow> entries m = l"
  by (rule bm_ext) (auto simp: entries_wf lookup_entries)

lemma entries_insert: "inv m \<Longrightarrow> entries (insert_kv k v m) = bm_insert k v (entries m)"
  by (rule entries_unique)
    (simp_all add: inv_insert entries_wf bm_wf_insert bm_get_insert lookup_insert
      lookup_entries [of m])

lemma entries_remove: "inv m \<Longrightarrow> entries (remove_kv k m) = bm_remove k (entries m)"
  by (rule entries_unique)
    (simp_all add: inv_remove entries_wf bm_wf_remove bm_get_remove lookup_remove
      lookup_entries [of m])

end

interpretation bm: kv_map "[]" map_of bm_insert bm_remove "\<lambda>m. m" bm_wf
  by unfold_locales (simp_all add: bm_wf_insert bm_wf_remove bm_get_insert bm_get_remove)

end
