(* ===== verification/Types.thy ===== *)
theory Types
  imports Ordered_Map "HOL-Library.Sublist"
begin

text \<open>
  \<^verbatim>\<open>src/types.rs\<close>: the write operations \<open>op\<close> with their effect on the ordered map of entries, and
  the read-only \<open>snapshot\<close> view with its point reads and scans. A commit index is a \<open>u64\<close>.
\<close>

subsection \<open>The program\<close>

record entry =
  e_value :: bytes
  e_version :: u64

type_synonym kvmap = "(bytes, entry) bmap"

datatype op = Put (op_key: bytes) (put_value: bytes) | Delete (op_key: bytes)

text \<open>\<^verbatim>\<open>Op::apply\<close>: the new map and whether the visible state changed.\<close>

fun op_apply :: "op \<Rightarrow> kvmap \<Rightarrow> u64 \<Rightarrow> kvmap \<times> bool" where
  "op_apply (Put key val) m index =
     (case bm_get m key of
        Some e \<Rightarrow>
          if e_value e = val then (m, False)
          else (bm_insert key (e\<lparr>e_value := val, e_version := index\<rparr>) m, True)
      | None \<Rightarrow> (bm_insert key \<lparr>e_value = val, e_version = index\<rparr> m, True))"
| "op_apply (Delete key) m index = (bm_remove key m, bm_get m key \<noteq> None)"

record snapshot =
  sn_index :: u64
  sn_data :: kvmap

definition snapshot_empty :: snapshot where
  "snapshot_empty = \<lparr>sn_index = 0, sn_data = []\<rparr>"

definition snapshot_len :: "snapshot \<Rightarrow> nat" where
  "snapshot_len s = length (sn_data s)"

definition snapshot_is_empty :: "snapshot \<Rightarrow> bool" where
  "snapshot_is_empty s \<longleftrightarrow> sn_data s = []"

definition snapshot_get :: "snapshot \<Rightarrow> bytes \<Rightarrow> bytes option" where
  "snapshot_get s key = map_option e_value (bm_get (sn_data s) key)"

definition snapshot_get_with_version :: "snapshot \<Rightarrow> bytes \<Rightarrow> (bytes \<times> u64) option" where
  "snapshot_get_with_version s key =
     map_option (\<lambda>e. (e_value e, e_version e)) (bm_get (sn_data s) key)"

text \<open>
  \<^verbatim>\<open>prefix_end\<close>: the loop pops the last byte until one is below 255. The list is kept reversed,
  so its head is the byte \<^verbatim>\<open>pop\<close> returns.
\<close>

fun prefix_end_loop :: "bytes \<Rightarrow> bytes option" where
  "prefix_end_loop [] = None"
| "prefix_end_loop (b # rest) =
     (if b < 255 then Some (rev ((b + 1) # rest)) else prefix_end_loop rest)"

definition prefix_end :: "bytes \<Rightarrow> bytes option" where
  "prefix_end p = prefix_end_loop (rev p)"

text \<open>
  \<^verbatim>\<open>Entries\<close>: the entries still to come, consumed from either end. Creating one from a range
  panics (\<open>None\<close>) where the library's \<^verbatim>\<open>BTreeMap::range\<close> does.
\<close>

type_synonym entries = "(bytes \<times> entry) list"

definition entries_next :: "entries \<Rightarrow> (bytes \<times> bytes) option \<times> entries" where
  "entries_next es =
     (case es of [] \<Rightarrow> (None, []) | e # rest \<Rightarrow> (Some (fst e, e_value (snd e)), rest))"

definition entries_next_back :: "entries \<Rightarrow> (bytes \<times> bytes) option \<times> entries" where
  "entries_next_back es =
     (if es = [] then (None, [])
      else (Some (fst (last es), e_value (snd (last es))), butlast es))"

definition snapshot_iter :: "snapshot \<Rightarrow> entries" where
  "snapshot_iter s = sn_data s"

definition snapshot_scan :: "snapshot \<Rightarrow> bytes \<Rightarrow> entries option" where
  "snapshot_scan s p =
     (case prefix_end p of
        Some hi \<Rightarrow> bm_range p (Some hi) (sn_data s)
      | None \<Rightarrow> bm_range p None (sn_data s))"

definition snapshot_range_scan :: "snapshot \<Rightarrow> bytes \<Rightarrow> bytes \<Rightarrow> entries option" where
  "snapshot_range_scan s lo hi =
     (let hi' = (if lo < hi then hi else lo) in bm_range lo (Some hi') (sn_data s))"

text \<open>Draining an iterator: what \<^verbatim>\<open>collect\<close> makes of it.\<close>

definition entries_collect :: "entries \<Rightarrow> (bytes \<times> bytes) list" where
  "entries_collect es = map (\<lambda>e. (fst e, e_value (snd e))) es"

text \<open>Every op of a commit, in order, at one index (the loop in recovery and in a flush).\<close>

definition apply_ops :: "op list \<Rightarrow> u64 \<Rightarrow> kvmap \<Rightarrow> kvmap" where
  "apply_ops ops index m = fold (\<lambda>op m. fst (op_apply op m index)) ops m"

definition snapshot_wf :: "snapshot \<Rightarrow> bool" where
  "snapshot_wf s \<longleftrightarrow> bm_wf (sn_data s)"

subsection \<open>Applying an operation\<close>

text \<open>The map of values alone: what a reader that ignores versions sees.\<close>

definition values_of :: "kvmap \<Rightarrow> bytes \<Rightarrow> bytes option" where
  "values_of m k = map_option e_value (bm_get m k)"

definition op_value :: "op \<Rightarrow> bytes option" where
  "op_value op = (case op of Put _ v \<Rightarrow> Some v | Delete _ \<Rightarrow> None)"

text \<open>What one op does to the map of values: the specification of a write.\<close>

definition write_value :: "op \<Rightarrow> (bytes \<Rightarrow> bytes option) \<Rightarrow> bytes \<Rightarrow> bytes option" where
  "write_value op f = f(op_key op := op_value op)"

lemma op_apply_wf [wf_intros]: "bm_wf m \<Longrightarrow> bm_wf (fst (op_apply op m i))"
  by (cases op) (auto simp: wf_intros split: option.split)

lemma apply_ops_wf [wf_intros]: "bm_wf m \<Longrightarrow> bm_wf (apply_ops ops i m)"
  unfolding apply_ops_def by (induction ops arbitrary: m) (auto simp: wf_intros)

lemma op_apply_values:
  "bm_wf m \<Longrightarrow> values_of (fst (op_apply op m i)) = (values_of m)(op_key op := op_value op)"
  by (cases op)
    (auto simp: values_of_def op_value_def bm_get_insert bm_get_remove fun_eq_iff split: option.split)

lemma op_apply_unchanged: "bm_wf m \<Longrightarrow> \<not> snd (op_apply op m i) \<Longrightarrow> fst (op_apply op m i) = m"
  by (cases op) (auto simp: bm_remove_absent split: option.splits if_splits)

lemma op_apply_changed_iff:
  "bm_wf m \<Longrightarrow> snd (op_apply op m i) \<longleftrightarrow> values_of m (op_key op) \<noteq> op_value op"
  by (cases op) (auto simp: values_of_def op_value_def split: option.split)

lemma apply_ops_Nil [simp]: "apply_ops [] i m = m"
  by (simp add: apply_ops_def)

lemma apply_ops_Cons [simp]: "apply_ops (op # ops) i m = apply_ops ops i (fst (op_apply op m i))"
  by (simp add: apply_ops_def)

lemma apply_ops_values:
  "bm_wf m \<Longrightarrow>
   values_of (apply_ops ops i m) = fold write_value ops (values_of m)"
proof (induction ops arbitrary: m)
  case (Cons op ops)
  then show ?case by (simp add: op_apply_values op_apply_wf write_value_def)
qed simp

definition versions_upto :: "u64 \<Rightarrow> kvmap \<Rightarrow> bool" where
  "versions_upto i m \<longleftrightarrow> (\<forall>e \<in> snd ` set m. e_version e \<le> i)"

lemma versions_upto_insert:
  "versions_upto i m \<Longrightarrow> e_version e \<le> i \<Longrightarrow> versions_upto i (bm_insert k e m)"
  unfolding versions_upto_def by (induction m) auto

lemma op_apply_versions: "versions_upto i m \<Longrightarrow> versions_upto i (fst (op_apply op m i))"
  by (cases op)
    (auto simp: versions_upto_insert split: option.split, auto simp: versions_upto_def bm_remove_def)

lemma apply_ops_versions: "versions_upto i m \<Longrightarrow> versions_upto i (apply_ops ops i m)"
  by (induction ops arbitrary: m) (simp_all add: op_apply_versions)

subsection \<open>Prefix scans\<close>

lemma prefix_le: "prefix p k \<Longrightarrow> (p :: ('a :: linorder) list) \<le> k"
  by (induction p arbitrary: k) (auto simp: prefix_def)

lemma byte_succ_less: "(c :: u8) < 255 \<Longrightarrow> x < c + 1 \<longleftrightarrow> x \<le> c"
  by (auto simp: word_less_nat_alt word_le_nat_alt unat_word_ariths)

lemma byte_max: "(x :: u8) \<le> 255"
  using unat_bound [of x] by (simp add: word_le_nat_alt)

lemma byte_max_le: "(255 :: u8) \<le> x \<longleftrightarrow> x = 255"
  using byte_max [of x] by auto

lemma byte_max_less: "\<not> (255 :: u8) < x"
  using byte_max [of x] by (simp add: not_less)

lemma last_byte_range:
  assumes "(c :: u8) < 255"
  shows "q @ [c] \<le> k \<and> k < q @ [c + 1] \<longleftrightarrow> prefix (q @ [c]) k"
proof (induction q arbitrary: k)
  case Nil
  show ?case
  proof (cases k)
    case (Cons x xs)
    have "(c < x \<or> c = x) \<and> x \<le> c \<longleftrightarrow> c = x" by auto
    with Cons byte_succ_less [OF assms, of x] show ?thesis by simp
  qed simp
next
  case (Cons a q)
  note IH = Cons.IH
  show ?case
  proof (cases k)
    case (Cons x xs)
    show ?thesis
    proof (cases "a = x")
      case True
      with Cons IH [of xs] show ?thesis by simp
    next
      case False
      with Cons show ?thesis by auto
    qed
  qed simp
qed

lemma prefix_range_step:
  "p @ [255] \<le> k \<and> prefix p k \<longleftrightarrow> prefix (p @ [255 :: u8]) k"
proof
  assume "p @ [255] \<le> k \<and> prefix p k"
  then obtain r where k: "k = p @ r" and r: "[255] \<le> r" by (auto simp: prefix_def)
  from r have "prefix [255] r" by (cases r) (auto simp: byte_max_less)
  with k show "prefix (p @ [255]) k" by simp
next
  assume "prefix (p @ [255]) k"
  then show "p @ [255] \<le> k \<and> prefix p k"
    by (auto simp: prefix_le dest: append_prefixD)
qed

lemma le_append_single: "(p :: ('a :: linorder) list) @ q \<le> k \<Longrightarrow> p \<le> k"
  by (rule order_trans [OF prefix_le]) auto

lemma prefix_end_range:
  "(p \<le> k \<and> (case prefix_end p of Some hi \<Rightarrow> k < hi | None \<Rightarrow> True)) \<longleftrightarrow> prefix p k"
proof (induction p rule: rev_induct)
  case Nil
  show ?case by (simp add: prefix_end_def)
next
  case (snoc c p)
  show ?case
  proof (cases "c < 255")
    case True
    then show ?thesis using last_byte_range [OF True, of p k] by (simp add: prefix_end_def)
  next
    case False
    then have c: "c = 255" using byte_max_le [of c] by (simp add: not_less)
    have "prefix_end (p @ [c]) = prefix_end p" by (simp add: prefix_end_def c)
    with snoc c show ?thesis
      by (metis le_append_single prefix_range_step)
  qed
qed

lemma prefix_end_above: "prefix_end p = Some hi \<Longrightarrow> \<not> hi < p"
  using prefix_end_range [of p p] by auto

text \<open>
  A prefix scan never panics and returns exactly the live entries whose key starts with the
  prefix, in key order, whatever bytes (255 included) the prefix ends in.
\<close>

theorem scan_is_prefix_filter:
  "snapshot_scan s p = Some (filter (\<lambda>e. prefix p (fst e)) (snapshot_iter s))"
proof -
  have "snapshot_scan s p = Some (filter (\<lambda>e. p \<le> fst e \<and>
      (case prefix_end p of Some hi \<Rightarrow> fst e < hi | None \<Rightarrow> True)) (sn_data s))"
    using prefix_end_above [of p]
    by (auto simp: snapshot_scan_def bm_range_def split: option.split)
  then show ?thesis by (simp only: prefix_end_range snapshot_iter_def)
qed

text \<open>
  A range scan never panics, even on an inverted range, and returns exactly the live entries
  with \<open>lo \<le> key < hi\<close>, in key order.
\<close>

theorem range_scan_is_range_filter:
  "snapshot_range_scan s lo hi =
     Some (filter (\<lambda>e. lo \<le> fst e \<and> fst e < hi) (snapshot_iter s))"
  by (auto simp: snapshot_range_scan_def snapshot_iter_def bm_range_def intro!: filter_cong)

text \<open>The iterator yields the same entries from either end.\<close>

fun drain_back :: "nat \<Rightarrow> entries \<Rightarrow> (bytes \<times> bytes) list" where
  "drain_back 0 es = []"
| "drain_back (Suc n) es =
     (case entries_next_back es of (None, _) \<Rightarrow> [] | (Some kv, es') \<Rightarrow> kv # drain_back n es')"

lemma drain_back_rev: "length es \<le> n \<Longrightarrow> drain_back n es = rev (entries_collect es)"
proof (induction n arbitrary: es)
  case (Suc n)
  show ?case
  proof (cases es rule: rev_cases)
    case (snoc es' e)
    with Suc show ?thesis by (simp add: entries_next_back_def entries_collect_def)
  qed (simp add: entries_next_back_def entries_collect_def)
qed (simp add: entries_collect_def)

text \<open>
  \<^verbatim>\<open>Op::apply\<close> on a well-formed map: it keeps the map sorted, the value of its key becomes the
  one written (absent for a delete) and no other key's value changes, the returned flag says
  whether any value changed, and a write that changes nothing leaves the versions alone too.
\<close>

theorem op_apply_correct:
  assumes "bm_wf m"
  shows "bm_wf (fst (op_apply op m i))
    \<and> values_of (fst (op_apply op m i)) = (values_of m)(op_key op := op_value op)
    \<and> (snd (op_apply op m i) \<longleftrightarrow> values_of m (op_key op) \<noteq> op_value op)
    \<and> (\<not> snd (op_apply op m i) \<longrightarrow> fst (op_apply op m i) = m)
    \<and> (snd (op_apply op m i) \<and> op_value op \<noteq> None \<longrightarrow>
         map_option e_version (bm_get (fst (op_apply op m i)) (op_key op)) = Some i)"
proof (intro conjI impI)
  show "map_option e_version (bm_get (fst (op_apply op m i)) (op_key op)) = Some i"
    if "snd (op_apply op m i) \<and> op_value op \<noteq> None"
    using assms that
    by (cases op) (auto simp: op_value_def bm_get_insert split: option.splits if_splits)
qed (use assms in \<open>auto simp: op_apply_wf op_apply_values op_apply_changed_iff op_apply_unchanged\<close>)

theorem op_apply_correct_witness:
  "bm_wf [] \<and> values_of (fst (op_apply (Put [1] [2]) [] 5)) = Map.empty([1] \<mapsto> [2])"
  using op_apply_correct [of "[]" "Put [1] [2]" 5]
  by (simp add: values_of_def op_value_def fun_eq_iff)

end
