(* ===== verification/Codec.thy ===== *)
theory Codec
  imports Ks_Prelude
begin

text \<open>
  The integer encodings the on-disk formats use: \<^verbatim>\<open>to_le_bytes\<close>/\<^verbatim>\<open>from_le_bytes\<close> (write-ahead
  log, checkpoint, B+ tree document) and \<^verbatim>\<open>to_be_bytes\<close>/\<^verbatim>\<open>from_be_bytes\<close> (value store), with the
  interface \<open>fixed_codec\<close> of a fixed-width encoder that the formats rely on.
\<close>

primrec le_of_nat :: "nat \<Rightarrow> nat \<Rightarrow> bytes" where
  "le_of_nat 0 x = []"
| "le_of_nat (Suc n) x = word_of_nat (x mod 256) # le_of_nat n (x div 256)"

primrec nat_of_le :: "bytes \<Rightarrow> nat" where
  "nat_of_le [] = 0"
| "nat_of_le (b # bs) = unat b + 256 * nat_of_le bs"

definition u32_to_le :: "u32 \<Rightarrow> bytes" where
  "u32_to_le w = le_of_nat 4 (unat w)"

definition u32_from_le :: "bytes \<Rightarrow> u32" where
  "u32_from_le bs = word_of_nat (nat_of_le bs)"

definition u64_to_le :: "u64 \<Rightarrow> bytes" where
  "u64_to_le w = le_of_nat 8 (unat w)"

definition u64_from_le :: "bytes \<Rightarrow> u64" where
  "u64_from_le bs = word_of_nat (nat_of_le bs)"

definition u32_to_be :: "u32 \<Rightarrow> bytes" where
  "u32_to_be w = rev (u32_to_le w)"

definition u32_from_be :: "bytes \<Rightarrow> u32" where
  "u32_from_be bs = u32_from_le (rev bs)"

definition u64_to_be :: "u64 \<Rightarrow> bytes" where
  "u64_to_be w = rev (u64_to_le w)"

definition u64_from_be :: "bytes \<Rightarrow> u64" where
  "u64_from_be bs = u64_from_le (rev bs)"

subsection \<open>Little-endian digits\<close>

lemma length_le_of_nat [simp]: "length (le_of_nat n x) = n"
  by (induction n arbitrary: x) simp_all

lemma unat_byte_of_nat [simp]: "unat (word_of_nat (x mod 256) :: u8) = x mod 256"
  by (simp add: unat_of_nat)

lemma nat_of_le_of_nat: "nat_of_le (le_of_nat n x) = x mod 256 ^ n"
proof (induction n arbitrary: x)
  case (Suc n)
  then show ?case by (simp add: mod_mult2_eq)
qed simp

lemma nat_of_le_bound: "nat_of_le bs < 256 ^ length bs"
proof (induction bs)
  case (Cons b bs)
  have "unat b < 256" using unat_bound [of b] by simp
  with Cons show ?case by simp
qed simp

lemma le_of_nat_of_le: "le_of_nat (length bs) (nat_of_le bs) = bs"
proof (induction bs)
  case (Cons b bs)
  have "unat b < 256" using unat_bound [of b] by simp
  with Cons show ?case by simp
qed simp

subsection \<open>The interface of a fixed-width encoder\<close>

locale fixed_codec =
  fixes width :: nat
    and enc :: "'a \<Rightarrow> bytes"
    and dec :: "bytes \<Rightarrow> 'a"
  assumes length_enc: "length (enc x) = width"
    and dec_enc: "dec (enc x) = x"
    and enc_dec: "length bs = width \<Longrightarrow> enc (dec bs) = bs"
begin

lemma enc_inj: "enc x = enc y \<longleftrightarrow> x = y"
  by (metis dec_enc)

lemma take_enc: "take width (enc x @ rest) = enc x"
  by (simp add: length_enc)

lemma drop_enc: "drop width (enc x @ rest) = rest"
  by (simp add: length_enc)

lemma dec_take_enc: "dec (take width (enc x @ rest)) = x"
  by (simp only: take_enc dec_enc)

lemma dec_eq_iff: "length bs = width \<Longrightarrow> dec bs = x \<longleftrightarrow> bs = enc x"
  by (metis dec_enc enc_dec)

end

lemma unat_lt_256_4: "unat (w :: u32) mod 256 ^ 4 = unat w"
  using unat_bound [of w] by simp

lemma unat_lt_256_8: "unat (w :: u64) mod 256 ^ 8 = unat w"
  using unat_bound [of w] by simp

interpretation le32: fixed_codec 4 u32_to_le u32_from_le
proof
  fix bs :: bytes assume "length bs = 4"
  then show "u32_to_le (u32_from_le bs) = bs"
    using nat_of_le_bound [of bs] le_of_nat_of_le [of bs]
    by (simp add: u32_to_le_def u32_from_le_def unat_of_nat)
qed (simp_all only: u32_to_le_def u32_from_le_def nat_of_le_of_nat unat_lt_256_4
      length_le_of_nat word_of_unat)

interpretation le64: fixed_codec 8 u64_to_le u64_from_le
proof
  fix bs :: bytes assume "length bs = 8"
  then show "u64_to_le (u64_from_le bs) = bs"
    using nat_of_le_bound [of bs] le_of_nat_of_le [of bs]
    by (simp add: u64_to_le_def u64_from_le_def unat_of_nat)
qed (simp_all only: u64_to_le_def u64_from_le_def nat_of_le_of_nat unat_lt_256_8
      length_le_of_nat word_of_unat)

interpretation be32: fixed_codec 4 u32_to_be u32_from_be
  by unfold_locales
    (simp_all add: u32_to_be_def u32_from_be_def le32.length_enc le32.dec_enc le32.enc_dec)

interpretation be64: fixed_codec 8 u64_to_be u64_from_be
  by unfold_locales
    (simp_all add: u64_to_be_def u64_from_be_def le64.length_enc le64.dec_enc le64.enc_dec)

lemmas [codec_simps, simp] =
  le32.length_enc le32.dec_enc le64.length_enc le64.dec_enc
  be32.length_enc be32.dec_enc be64.length_enc be64.dec_enc

text \<open>A length that fits its field survives the cast to the field's width.\<close>

lemma unat_u32_of_nat: "n < 2 ^ 32 \<Longrightarrow> unat (word_of_nat n :: u32) = n"
  by (simp add: unat_of_nat)

lemma unat_u64_of_nat: "n < 2 ^ 64 \<Longrightarrow> unat (word_of_nat n :: u64) = n"
  by (simp add: unat_of_nat)

end
