(* ===== verification/Crc.thy ===== *)
theory Crc
  imports Codec
begin

text \<open>
  \<^verbatim>\<open>src/crc.rs\<close>: the table-driven IEEE CRC-32 and its streaming accumulator. The table is shown to
  compute eight rounds of the bitwise register, the register map is shown injective, and from
  that two messages that differ in one byte are shown to have different checksums.
\<close>

subsection \<open>The program\<close>

text \<open>One round of the table construction: \<open>crc_bit\<close> is the body of the inner loop.\<close>

definition crc_bit :: "u32 \<Rightarrow> u32" where
  "crc_bit c = (if c AND 1 \<noteq> 0 then 0xEDB88320 XOR drop_bit 1 c else drop_bit 1 c)"

definition build_table :: "u32 list" where
  "build_table = map (\<lambda>i. (crc_bit ^^ 8) (word_of_nat i)) [0..<256]"

definition crc_byte :: "u32 \<Rightarrow> u8 \<Rightarrow> u32" where
  "crc_byte crc b =
     (let e = unat ((crc XOR ucast b) AND 0xFF) in drop_bit 8 crc XOR build_table ! e)"

definition crc32 :: "bytes \<Rightarrow> u32" where
  "crc32 data = NOT (foldl crc_byte 0xFFFFFFFF data)"

definition crc_new :: u32 where
  "crc_new = 0xFFFFFFFF"

definition crc_update :: "u32 \<Rightarrow> bytes \<Rightarrow> u32" where
  "crc_update acc data = foldl crc_byte acc data"

definition crc_finish :: "u32 \<Rightarrow> u32" where
  "crc_finish acc = NOT acc"

subsection \<open>The register is linear and injective\<close>

lemma and_one_iff: "(c :: u32) AND 1 \<noteq> 0 \<longleftrightarrow> odd c"
  by (simp add: and_one_eq odd_iff_mod_2_eq_one)

lemma crc_bit_odd: "crc_bit c = (if odd c then 0xEDB88320 XOR drop_bit 1 c else drop_bit 1 c)"
  by (simp only: crc_bit_def and_one_iff)

lemma crc_bit_xor: "crc_bit (x XOR y) = crc_bit x XOR crc_bit y"
  by (auto simp: crc_bit_odd even_xor_iff ac_simps simp flip: xor.assoc)

lemma crc_bits_xor: "(crc_bit ^^ n) (x XOR y) = (crc_bit ^^ n) x XOR (crc_bit ^^ n) y"
  by (induction n) (simp_all add: crc_bit_xor)

lemma crc_bits_high:
  "\<forall>i < n. \<not> bit x i \<Longrightarrow> (crc_bit ^^ n) x = drop_bit n x"
proof (induction n arbitrary: x)
  case (Suc n)
  from Suc.prems have "even x" by (auto simp: bit_0)
  then have "crc_bit x = drop_bit 1 x" by (simp add: crc_bit_odd)
  moreover from Suc.prems have "\<forall>i < n. \<not> bit (drop_bit 1 x) i"
    by (simp add: bit_drop_bit_eq)
  ultimately show ?case
    using Suc.IH [of "drop_bit 1 x"] by (simp add: funpow_Suc_right del: funpow.simps)
qed simp

lemma build_table_nth: "i < 256 \<Longrightarrow> build_table ! i = (crc_bit ^^ 8) (word_of_nat i)"
  by (simp add: build_table_def)

lemma low_byte_bound: "unat ((x :: u32) AND 0xFF) < 256"
proof -
  have "x AND 0xFF = take_bit 8 x"
    by (simp add: take_bit_eq_mask mask_eq_exp_minus_1)
  then show ?thesis
    using take_bit_nat_less_exp [of 8 "unat x"] by (simp only: unsigned_take_bit_eq) simp
qed

text \<open>The table lookup is eight rounds of the register: the equivalence of the optimised loop.\<close>

lemma crc_byte_bitwise: "crc_byte crc b = (crc_bit ^^ 8) (crc XOR ucast b)"
proof -
  let ?x = "crc XOR (ucast b :: u32)"
  let ?lo = "?x AND 0xFF"
  let ?hi = "crc AND NOT 0xFF"
  have m: "(0xFF :: u32) = mask 8" by (simp add: mask_eq_exp_minus_1)
  have split: "?x = ?hi XOR ?lo"
    by (rule bit_word_eqI) (auto simp: m bit_simps dest: bit_imp_le_length)
  have "(crc_bit ^^ 8) ?hi = drop_bit 8 ?hi"
    by (rule crc_bits_high) (simp add: m bit_simps)
  also have "\<dots> = drop_bit 8 crc"
    by (rule bit_word_eqI) (auto simp: m bit_simps dest: bit_imp_le_length)
  finally have "(crc_bit ^^ 8) ?x = drop_bit 8 crc XOR (crc_bit ^^ 8) ?lo"
    by (subst split) (simp only: crc_bits_xor)
  then show ?thesis
    by (simp add: crc_byte_def build_table_nth low_byte_bound)
qed

lemma xor_cancel_left: "(a :: u32) XOR x = a XOR y \<longleftrightarrow> x = y"
  by (metis xor.assoc xor_self_eq xor.left_neutral)

lemma crc_bit_top: "bit (crc_bit c) 31 \<longleftrightarrow> odd c"
proof -
  have "bit (0xEDB88320 :: u32) 31" by simp
  moreover have "\<not> bit (drop_bit 1 c) 31" by (auto simp: bit_drop_bit_eq dest: bit_imp_le_length)
  ultimately show ?thesis by (simp add: crc_bit_odd bit_xor_iff)
qed

lemma crc_bit_inj: "crc_bit x = crc_bit y \<Longrightarrow> x = y"
proof -
  assume eq: "crc_bit x = crc_bit y"
  then have par: "odd x \<longleftrightarrow> odd y" by (metis crc_bit_top)
  have "drop_bit 1 x = drop_bit 1 y"
    using eq par by (cases "odd x") (simp_all add: crc_bit_odd xor_cancel_left)
  then have "x div 2 = y div 2" by (simp add: drop_bit_eq_div)
  with par show "x = y"
    by (metis bit_eq_rec)
qed

lemma crc_bits_inj: "(crc_bit ^^ n) x = (crc_bit ^^ n) y \<Longrightarrow> x = y"
  by (induction n) (auto dest: crc_bit_inj)

subsection \<open>What the checksum promises\<close>

lemma ucast_u8_u32_id: "ucast (ucast (b :: u8) :: u32) = b"
  by (rule bit_word_eqI) (auto simp: bit_simps)

lemma crc_byte_inj_state:
  assumes "crc_byte s b = crc_byte t b"
  shows "s = t"
proof -
  have "s XOR ucast b = t XOR ucast b"
    using assms by (auto simp: crc_byte_bitwise dest: crc_bits_inj)
  then show ?thesis by (metis xor.commute xor_cancel_left)
qed

lemma crc_byte_inj_data:
  assumes "crc_byte s a = crc_byte s b"
  shows "a = b"
proof -
  have "s XOR ucast a = s XOR ucast b"
    using assms by (auto simp: crc_byte_bitwise dest: crc_bits_inj)
  then have "(ucast a :: u32) = ucast b" by (simp only: xor_cancel_left)
  then show ?thesis by (metis ucast_u8_u32_id)
qed

lemma crc_fold_inj: "foldl crc_byte s bs = foldl crc_byte t bs \<Longrightarrow> s = t"
  by (induction bs arbitrary: s t) (auto dest: crc_byte_inj_state)

lemma crc_finish_inj: "NOT (a :: u32) = NOT b \<Longrightarrow> a = b"
  by (metis bit.double_compl)

lemma crc32_byte_inj:
  assumes "crc32 (pre @ a # post) = crc32 (pre @ b # post)"
  shows "a = b"
proof -
  have "crc_byte (foldl crc_byte 0xFFFFFFFF pre) a = crc_byte (foldl crc_byte 0xFFFFFFFF pre) b"
    using assms by (auto simp: crc32_def dest!: crc_finish_inj crc_fold_inj)
  then show ?thesis by (rule crc_byte_inj_data)
qed

lemma crc_update_chunks: "foldl crc_update s chunks = foldl crc_byte s (concat chunks)"
  by (induction chunks arbitrary: s) (simp_all add: crc_update_def)

lemma crc_finish_chunks: "crc_finish (foldl crc_update crc_new chunks) = crc32 (concat chunks)"
  by (simp add: crc_update_chunks crc_finish_def crc32_def crc_new_def)

text \<open>
  The streaming accumulator agrees with the one-shot checksum however the data is cut into
  chunks (the promise of the comment on \<^verbatim>\<open>Crc\<close>).
\<close>

theorem crc_streaming: "crc_finish (foldl crc_update crc_new chunks) = crc32 (concat chunks)"
  by (rule crc_finish_chunks)

text \<open>
  One damaged byte is always detected: two messages that differ in exactly one byte never
  have the same checksum.
\<close>

theorem crc_detects_byte_error:
  assumes "a \<noteq> b"
  shows "crc32 (pre @ a # post) \<noteq> crc32 (pre @ b # post)"
  using assms by (auto dest: crc32_byte_inj)

text \<open>The check value of the algorithm: the CRC of the nine ASCII digits.\<close>

lemma crc_bits_8:
  "crc_byte s b =
     crc_bit (crc_bit (crc_bit (crc_bit (crc_bit (crc_bit (crc_bit (crc_bit (s XOR ucast b))))))))"
  by (simp add: crc_byte_bitwise eval_nat_numeral)

theorem crc_detects_byte_error_witness:
  "(1 :: u8) \<noteq> 2 \<and> crc32 ([7, 7] @ 1 # [9]) \<noteq> crc32 ([7, 7] @ 2 # [9])"
  using crc_detects_byte_error [of 1 2 "[7, 7]" "[9]"] by simp

lemma crc_check_value: "crc32 [49, 50, 51, 52, 53, 54, 55, 56, 57] = 0xCBF43926"
  by (simp add: crc32_def crc_bits_8 crc_bit_def)

end
