(* ===== verification/Framing.thy ===== *)
theory Framing
  imports Ks_Prelude "HOL-Library.Sublist"
begin

text \<open>
  The contract between a log of framed records and the scanner that recovers it, shared by the
  write-ahead log (\<^verbatim>\<open>src/wal.rs\<close>) and the value store (\<^verbatim>\<open>src/valuestore.rs\<close>): a scanner positioned
  at a whole frame hands the record to its sink and moves past the frame, and positioned at a
  proper prefix of a frame it reports a torn tail there. From that contract the recovery of any
  byte prefix of a log follows once and for all.
\<close>

locale framed_log =
  fixes frame :: "'r \<Rightarrow> bytes"
    and ok :: "'r \<Rightarrow> bool"
    and emit :: "nat \<Rightarrow> 's \<Rightarrow> 'r \<Rightarrow> 'e + 's"
    and fail :: "'e \<Rightarrow> 'res"
    and stop :: "'s \<Rightarrow> nat \<Rightarrow> bool \<Rightarrow> 'res"
    and scan :: "bytes \<Rightarrow> nat \<Rightarrow> 's \<Rightarrow> 'res"
  assumes frame_nonempty: "ok r \<Longrightarrow> frame r \<noteq> []"
    and scan_end: "scan pre (length pre) s = stop s (length pre) True"
    and scan_frame: "ok r \<Longrightarrow> scan (pre @ frame r @ post) (length pre) s =
      (case emit (length pre) s r of
         Inl e \<Rightarrow> fail e
       | Inr s' \<Rightarrow> scan (pre @ frame r @ post) (length pre + length (frame r)) s')"
    and scan_torn: "ok r \<Longrightarrow> strict_prefix t (frame r) \<Longrightarrow> t \<noteq> [] \<Longrightarrow>
      scan (pre @ t) (length pre) s = stop s (length pre) False"
begin

definition frames :: "'r list \<Rightarrow> bytes" where
  "frames rs = concat (map frame rs)"

primrec emit_all :: "nat \<Rightarrow> 's \<Rightarrow> 'r list \<Rightarrow> 'e + 's" where
  "emit_all pos s [] = Inr s"
| "emit_all pos s (r # rs) =
     (case emit pos s r of Inl e \<Rightarrow> Inl e | Inr s' \<Rightarrow> emit_all (pos + length (frame r)) s' rs)"

lemma frames_simps [simp]:
  "frames [] = []"
  "frames (r # rs) = frame r @ frames rs"
  "frames (rs @ rs') = frames rs @ frames rs'"
  by (simp_all add: frames_def)

lemma scan_frames:
  assumes "list_all ok rs"
  shows "scan (pre @ frames rs @ post) (length pre) s =
    (case emit_all (length pre) s rs of
       Inl e \<Rightarrow> fail e
     | Inr s' \<Rightarrow> scan (pre @ frames rs @ post) (length pre + length (frames rs)) s')"
  using assms
proof (induction rs arbitrary: pre s)
  case (Cons r rs)
  have step: "scan (pre @ frame r @ frames rs @ post) (length pre) s =
      (case emit (length pre) s r of
         Inl e \<Rightarrow> fail e
       | Inr s' \<Rightarrow> scan (pre @ frame r @ frames rs @ post) (length pre + length (frame r)) s')"
    using Cons.prems by (intro scan_frame) simp
  have "scan (pre @ frame r @ frames rs @ post) (length pre + length (frame r)) s' =
      (case emit_all (length pre + length (frame r)) s' rs of
         Inl e \<Rightarrow> fail e
       | Inr s'' \<Rightarrow> scan (pre @ frame r @ frames rs @ post)
           (length pre + length (frame r) + length (frames rs)) s'')" for s'
    using Cons.IH [of "pre @ frame r" s'] Cons.prems by (simp cong: sum.case_cong)
  then show ?case by (simp add: step add.assoc split: sum.split)
qed simp

text \<open>A log of whole frames ends cleanly, with every record handed to the sink in order.\<close>

lemma scan_whole:
  assumes "list_all ok rs"
  shows "scan (pre @ frames rs) (length pre) s =
    (case emit_all (length pre) s rs of
       Inl e \<Rightarrow> fail e
     | Inr s' \<Rightarrow> stop s' (length pre + length (frames rs)) True)"
  using scan_frames [OF assms, of pre "[]" s] scan_end [of "pre @ frames rs"]
  by (simp cong: sum.case_cong)

lemma scan_whole_torn:
  assumes "list_all ok rs" and "ok r" and "strict_prefix t (frame r)" and "t \<noteq> []"
  shows "scan (pre @ frames rs @ t) (length pre) s =
    (case emit_all (length pre) s rs of
       Inl e \<Rightarrow> fail e
     | Inr s' \<Rightarrow> stop s' (length pre + length (frames rs)) False)"
  using scan_frames [OF assms(1), of pre t s] scan_torn [OF assms(2-4), of "pre @ frames rs"]
  by (simp cong: sum.case_cong)

text \<open>Any byte prefix of a log is a run of whole frames and a proper prefix of the next one.\<close>

lemma frames_cut:
  assumes "n \<le> length (frames rs)"
  obtains k where "k \<le> length rs" and "take n (frames rs) = frames (take k rs)"
  | k t where "k < length rs" and "take n (frames rs) = frames (take k rs) @ t"
      and "strict_prefix t (frame (rs ! k))" and "t \<noteq> []"
proof -
  have "(\<exists>k \<le> length rs. take n (frames rs) = frames (take k rs)) \<or>
    (\<exists>k t. k < length rs \<and> take n (frames rs) = frames (take k rs) @ t
       \<and> strict_prefix t (frame (rs ! k)) \<and> t \<noteq> [])"
    using assms
  proof (induction rs arbitrary: n)
    case (Cons r rs)
    show ?case
    proof (cases "length (frame r) \<le> n")
      case True
      define m where "m = n - length (frame r)"
      from True Cons.prems have m: "m \<le> length (frames rs)" and
        n: "take n (frames (r # rs)) = frame r @ take m (frames rs)"
        by (simp_all add: m_def)
      from Cons.IH [OF m] show ?thesis
      proof (elim disjE exE conjE)
        fix k assume "k \<le> length rs" "take m (frames rs) = frames (take k rs)"
        with n show ?thesis by (intro disjI1 exI [of _ "Suc k"]) simp
      next
        fix k t assume "k < length rs" "take m (frames rs) = frames (take k rs) @ t"
          "strict_prefix t (frame (rs ! k))" "t \<noteq> []"
        with n show ?thesis by (intro disjI2 exI [of _ "Suc k"] exI [of _ t]) simp
      qed
    next
      case False
      then have n: "take n (frames (r # rs)) = take n (frame r)" by simp
      have "strict_prefix (take n (frame r)) (frame r)"
        using False arg_cong [where f = length, of "take n (frame r)" "frame r"]
        by (auto simp: strict_prefix_def take_is_prefix)
      with n show ?thesis
        by (cases "take n (frame r) = []")
          (intro disjI1 exI [of _ 0], simp, intro disjI2 exI [of _ 0] exI [of _ "take n (frame r)"], simp)
    qed
  qed simp
  then show thesis using that by blast
qed

end

end
