(* ===== verification/Wal_Codec.thy ===== *)
theory Wal_Codec
  imports Types Crc Framing
begin

text \<open>
  The record and segment formats of the write-ahead log (\<^verbatim>\<open>src/wal.rs\<close>, the encoding half): the
  payload encoder and the bounded-cursor decoder, the record frame, the segment header, and the
  scanner that walks one segment. A file is the list of its bytes, an offset is a \<open>nat\<close>: offsets
  never exceed a file's length, so no \<^verbatim>\<open>u64\<close> sum of the source can wrap.
\<close>

subsection \<open>Constants and records\<close>

definition SEGMENT_MAGIC :: bytes where "SEGMENT_MAGIC = [75, 83, 87, 76]"

definition SEGMENT_VERSION :: u32 where "SEGMENT_VERSION = 1"

definition HEADER_LEN :: nat where "HEADER_LEN = 12"

definition MIN_PAYLOAD :: nat where "MIN_PAYLOAD = 1 + 8 + 8 + 4 + 4"

definition MIN_RECORD :: nat where "MIN_RECORD = 4 + MIN_PAYLOAD + 4"

definition MAX_PAYLOAD :: nat where "MAX_PAYLOAD = 2 ^ 32 - 1"

definition TAG_PUT :: u8 where "TAG_PUT = 1"
definition TAG_DELETE :: u8 where "TAG_DELETE = 2"
definition TAG_BATCH :: u8 where "TAG_BATCH = 3"

lemmas tag_defs = TAG_PUT_def TAG_DELETE_def TAG_BATCH_def

record wal_record =
  r_term :: u64
  r_index :: u64
  r_ops :: "op list"

subsection \<open>Encoding\<close>

definition header_for :: "u32 \<Rightarrow> bytes" where
  "header_for version =
     (let h = SEGMENT_MAGIC @ u32_to_le version in h @ u32_to_le (crc32 h))"

definition segment_header :: bytes where
  "segment_header = header_for SEGMENT_VERSION"

fun op_tag :: "op \<Rightarrow> u8" where
  "op_tag (Put _ _) = TAG_PUT"
| "op_tag (Delete _) = TAG_DELETE"

fun body_len :: "op \<Rightarrow> nat" where
  "body_len (Put key val) = 4 + length key + 4 + length val"
| "body_len (Delete key) = 4 + length key + 4 + 0"

definition payload_len :: "op list \<Rightarrow> nat" where
  "payload_len ops =
     (case ops of
        [op] \<Rightarrow> 1 + 8 + 8 + body_len op
      | ops \<Rightarrow> 1 + 8 + 8 + 4 + sum_list (map (\<lambda>op. 1 + body_len op) ops))"

definition check_ops :: "op list \<Rightarrow> unit io_result" where
  "check_ops ops =
     (if ops = [] then Inl InvalidInput
      else if payload_len ops > MAX_PAYLOAD then Inl InvalidInput
      else Inr ())"

fun encode_op_body :: "op \<Rightarrow> bytes" where
  "encode_op_body (Put key val) =
     u32_to_le (word_of_nat (length key)) @ key @ u32_to_le (word_of_nat (length val)) @ val"
| "encode_op_body (Delete key) =
     u32_to_le (word_of_nat (length key)) @ key @ u32_to_le (word_of_nat 0) @ []"

definition encode_payload :: "wal_record \<Rightarrow> bytes" where
  "encode_payload rec =
     (case r_ops rec of
        [op] \<Rightarrow> [op_tag op] @ u64_to_le (r_term rec) @ u64_to_le (r_index rec) @ encode_op_body op
      | ops \<Rightarrow> [TAG_BATCH] @ u64_to_le (r_term rec) @ u64_to_le (r_index rec)
          @ u32_to_le (word_of_nat (length ops))
          @ concat (map (\<lambda>op. [op_tag op] @ encode_op_body op) ops))"

text \<open>One record as \<^verbatim>\<open>append_many\<close> writes it: length, payload, checksum.\<close>

definition encode_record :: "wal_record \<Rightarrow> bytes" where
  "encode_record rec =
     (let payload = encode_payload rec in
      u32_to_le (word_of_nat (length payload)) @ payload @ u32_to_le (crc32 payload))"

subsection \<open>Decoding\<close>

record cursor =
  cur_b :: bytes
  cur_at :: nat

definition cur_take :: "cursor \<Rightarrow> nat \<Rightarrow> (bytes \<times> cursor) io_result" where
  "cur_take c n =
     (if cur_at c + n > length (cur_b c) then Inl InvalidData
      else Inr (take n (drop (cur_at c) (cur_b c)), c\<lparr>cur_at := cur_at c + n\<rparr>))"

definition cur_u8 :: "cursor \<Rightarrow> (u8 \<times> cursor) io_result" where
  "cur_u8 c = try_bind (cur_take c 1) (\<lambda>(s, c). Inr (s ! 0, c))"

definition cur_u32 :: "cursor \<Rightarrow> (u32 \<times> cursor) io_result" where
  "cur_u32 c = try_bind (cur_take c 4) (\<lambda>(s, c). Inr (u32_from_le s, c))"

definition cur_u64 :: "cursor \<Rightarrow> (u64 \<times> cursor) io_result" where
  "cur_u64 c = try_bind (cur_take c 8) (\<lambda>(s, c). Inr (u64_from_le s, c))"

definition cur_remaining :: "cursor \<Rightarrow> nat" where
  "cur_remaining c = length (cur_b c) - cur_at c"

definition decode_op :: "u8 \<Rightarrow> cursor \<Rightarrow> (op \<times> cursor) io_result" where
  "decode_op tag c =
     try_bind (cur_u32 c) (\<lambda>(k_len, c).
     try_bind (cur_take c (unat k_len)) (\<lambda>(key, c).
     try_bind (cur_u32 c) (\<lambda>(v_len, c).
     try_bind (cur_take c (unat v_len)) (\<lambda>(val, c).
       if tag = TAG_PUT then Inr (Put key val, c)
       else if tag = TAG_DELETE then Inr (Delete key, c)
       else Inl InvalidData))))"

text \<open>The loop over the ops of a batch.\<close>

primrec decode_ops :: "nat \<Rightarrow> cursor \<Rightarrow> (op list \<times> cursor) io_result" where
  "decode_ops 0 c = Inr ([], c)"
| "decode_ops (Suc n) c =
     try_bind (cur_u8 c) (\<lambda>(sub, c).
     try_bind (decode_op sub c) (\<lambda>(op, c).
     try_bind (decode_ops n c) (\<lambda>(ops, c). Inr (op # ops, c))))"

definition decode_batch :: "cursor \<Rightarrow> (op list \<times> cursor) io_result" where
  "decode_batch c =
     try_bind (cur_u32 c) (\<lambda>(n, c).
       if unat n = 0 \<or> unat n > cur_remaining c div 9 then Inl InvalidData
       else decode_ops (unat n) c)"

definition decode_payload :: "bytes \<Rightarrow> wal_record io_result" where
  "decode_payload b =
     (let c = \<lparr>cur_b = b, cur_at = 0\<rparr> in
      try_bind (cur_u8 c) (\<lambda>(tag, c).
      try_bind (cur_u64 c) (\<lambda>(term, c).
      try_bind (cur_u64 c) (\<lambda>(index, c).
      try_bind
        (if tag = TAG_PUT \<or> tag = TAG_DELETE
         then try_bind (decode_op tag c) (\<lambda>(op, c). Inr ([op], c))
         else if tag = TAG_BATCH then decode_batch c
         else Inl InvalidData) (\<lambda>(ops, c).
        if cur_remaining c \<noteq> 0 then Inl InvalidData
        else Inr \<lparr>r_term = term, r_index = index, r_ops = ops\<rparr>)))))"

subsection \<open>Scanning one segment\<close>

text \<open>
  The record loop of \<^verbatim>\<open>scan_segment\<close> from offset \<open>pos\<close>: the sink's state and, where the segment does
  not end cleanly, the offset of the first torn record. The sink may refuse a record.
\<close>

function scan_loop ::
  "('s \<Rightarrow> wal_record \<Rightarrow> 's io_result) \<Rightarrow> bytes \<Rightarrow> nat \<Rightarrow> 's \<Rightarrow> ('s \<times> nat option) io_result" where
  "scan_loop sink f pos s =
     (if pos + 4 > length f then Inr (s, if pos = length f then None else Some pos)
      else let payload_len = unat (u32_from_le (take 4 (drop pos f))) in
        if payload_len < MIN_PAYLOAD then Inr (s, Some pos)
        else let total = 4 + payload_len + 4 in
          if pos + total > length f then Inr (s, Some pos)
          else
            let pbuf = take payload_len (drop (pos + 4) f);
                cb = take 4 (drop (pos + 4 + payload_len) f)
            in if crc32 pbuf \<noteq> u32_from_le cb then Inr (s, Some pos)
               else case decode_payload pbuf of
                   Inl _ \<Rightarrow> Inl InvalidData
                 | Inr rec \<Rightarrow> try_bind (sink s rec) (\<lambda>s. scan_loop sink f (pos + total) s))"
  by pat_completeness auto
termination
  by (relation "measure (\<lambda>(_, f, pos, _). length f - pos)") auto

declare scan_loop.simps [simp del]

definition scan_segment ::
  "('s \<Rightarrow> wal_record \<Rightarrow> 's io_result) \<Rightarrow> bytes \<Rightarrow> 's \<Rightarrow> ('s \<times> nat option) io_result" where
  "scan_segment sink f s =
     (if length f < HEADER_LEN then Inr (s, Some 0)
      else
        let header = take HEADER_LEN f; stored_crc = u32_from_le (take 4 (drop 8 header)) in
        if take 4 header \<noteq> SEGMENT_MAGIC \<or> crc32 (take 8 header) \<noteq> stored_crc then
          (if length f = HEADER_LEN then Inr (s, Some 0) else Inl InvalidData)
        else if u32_from_le (take 4 (drop 4 header)) \<noteq> SEGMENT_VERSION then Inl Unsupported
        else scan_loop sink f HEADER_LEN s)"

subsection \<open>The decoder inverts the encoder\<close>

text \<open>\<open>cur_is c xs\<close>: the cursor is in range and \<open>xs\<close> is what it has still to read.\<close>

definition cur_is :: "cursor \<Rightarrow> bytes \<Rightarrow> bool" where
  "cur_is c xs \<longleftrightarrow> cur_at c \<le> length (cur_b c) \<and> drop (cur_at c) (cur_b c) = xs"

lemma cur_take_append:
  assumes "cur_is c (x @ rest)" and "length x = n"
  obtains c' where "cur_take c n = Inr (x, c')" and "cur_is c' rest"
proof -
  from assms have d: "drop (cur_at c) (cur_b c) = x @ rest" and le: "cur_at c \<le> length (cur_b c)"
    by (simp_all add: cur_is_def)
  from arg_cong [OF d, of length] le assms(2) have "cur_at c + n \<le> length (cur_b c)" by simp
  moreover from d assms(2) have "drop (cur_at c + n) (cur_b c) = rest"
    by (metis add.commute drop_append_exact drop_drop)
  ultimately show thesis
    using that [of "c\<lparr>cur_at := cur_at c + n\<rparr>"] d assms(2)
    by (simp add: cur_take_def cur_is_def)
qed

lemma cur_u8_append:
  assumes "cur_is c (x # rest)"
  obtains c' where "cur_u8 c = Inr (x, c')" and "cur_is c' rest"
  using assms by (rule_tac cur_take_append [of c "[x]" rest 1]) (auto simp: cur_u8_def)

lemma cur_u32_append:
  assumes "cur_is c (u32_to_le x @ rest)"
  obtains c' where "cur_u32 c = Inr (x, c')" and "cur_is c' rest"
  using assms by (rule cur_take_append [where n = 4]) (auto simp: cur_u32_def)

lemma cur_u64_append:
  assumes "cur_is c (u64_to_le x @ rest)"
  obtains c' where "cur_u64 c = Inr (x, c')" and "cur_is c' rest"
  using assms by (rule cur_take_append [where n = 8]) (auto simp: cur_u64_def)

lemma cur_remaining_is: "cur_is c xs \<Longrightarrow> cur_remaining c = length xs"
  by (auto simp: cur_is_def cur_remaining_def)

text \<open>An op whose lengths fit their \<open>u32\<close> fields.\<close>

fun op_fits :: "op \<Rightarrow> bool" where
  "op_fits (Put key val) \<longleftrightarrow> length key < 2 ^ 32 \<and> length val < 2 ^ 32"
| "op_fits (Delete key) \<longleftrightarrow> length key < 2 ^ 32"

definition rec_ok :: "wal_record \<Rightarrow> bool" where
  "rec_ok rec \<longleftrightarrow> check_ops (r_ops rec) = Inr ()"

lemma length_encode_op_body: "length (encode_op_body op) = body_len op"
  by (cases op) simp_all

lemma length_encode_payload: "length (encode_payload rec) = payload_len (r_ops rec)"
  by (auto simp: encode_payload_def payload_len_def length_encode_op_body length_concat comp_def
      split: list.split)

lemma body_len_ge: "8 \<le> body_len op"
  by (cases op) simp_all

lemma rec_ok_iff: "rec_ok rec \<longleftrightarrow> r_ops rec \<noteq> [] \<and> payload_len (r_ops rec) < 2 ^ 32"
  by (auto simp: rec_ok_def check_ops_def MAX_PAYLOAD_def)

lemma body_len_le_payload: "op \<in> set ops \<Longrightarrow> body_len op < payload_len ops"
proof -
  assume "op \<in> set ops"
  then have "1 + body_len op \<le> sum_list (map (\<lambda>op. 1 + body_len op) ops)"
    by (intro member_le_sum_list) auto
  with \<open>op \<in> set ops\<close> show ?thesis
    by (auto simp: payload_len_def split: list.split)
qed

lemma op_fits_body: "body_len op < 2 ^ 32 \<Longrightarrow> op_fits op"
  by (cases op) simp_all

lemma rec_ok_op_fits: "rec_ok rec \<Longrightarrow> op \<in> set (r_ops rec) \<Longrightarrow> op_fits op"
  by (meson body_len_le_payload less_trans op_fits_body rec_ok_iff)

lemma payload_len_min: "ops \<noteq> [] \<Longrightarrow> MIN_PAYLOAD \<le> payload_len ops"
proof -
  assume "ops \<noteq> []"
  then obtain op ops' where ops: "ops = op # ops'" by (cases ops) auto
  then show ?thesis
    using body_len_ge [of op] by (auto simp: payload_len_def MIN_PAYLOAD_def split: list.split)
qed

lemma decode_op_body:
  assumes "cur_is c (encode_op_body op @ rest)" and "op_fits op"
  obtains c' where "decode_op (op_tag op) c = Inr (op, c')" and "cur_is c' rest"
proof -
  define key val where "key = op_key op" and "val = (case op of Put _ v \<Rightarrow> v | Delete _ \<Rightarrow> [])"
  have len: "length key < 2 ^ 32" "length val < 2 ^ 32"
    using assms(2) by (cases op; simp add: key_def val_def)+
  have "cur_is c (u32_to_le (word_of_nat (length key)) @ key
      @ u32_to_le (word_of_nat (length val)) @ val @ rest)"
    using assms(1) by (cases op) (simp_all add: key_def val_def)
  then obtain c1 where c1: "cur_u32 c = Inr (word_of_nat (length key), c1)"
      "cur_is c1 (key @ u32_to_le (word_of_nat (length val)) @ val @ rest)"
    by (rule cur_u32_append)
  obtain c2 where c2: "cur_take c1 (length key) = Inr (key, c2)"
      "cur_is c2 (u32_to_le (word_of_nat (length val)) @ val @ rest)"
    using c1(2) by (rule cur_take_append) simp
  obtain c3 where c3: "cur_u32 c2 = Inr (word_of_nat (length val), c3)" "cur_is c3 (val @ rest)"
    using c2(2) by (rule cur_u32_append)
  obtain c4 where c4: "cur_take c3 (length val) = Inr (val, c4)" "cur_is c4 rest"
    using c3(2) by (rule cur_take_append) simp
  have "decode_op (op_tag op) c = Inr (op, c4)"
    using c1 c2 c3 c4 len
    by (cases op) (simp_all add: decode_op_def unat_u32_of_nat key_def val_def tag_defs)
  with c4 that show thesis by blast
qed

lemma decode_ops_concat:
  assumes "cur_is c (concat (map (\<lambda>op. [op_tag op] @ encode_op_body op) ops) @ rest)"
    and "\<forall>op \<in> set ops. op_fits op"
  shows "\<exists>c'. decode_ops (length ops) c = Inr (ops, c') \<and> cur_is c' rest"
  using assms
proof (induction ops arbitrary: c)
  case (Cons op ops)
  let ?tail = "concat (map (\<lambda>op. [op_tag op] @ encode_op_body op) ops) @ rest"
  from Cons.prems(1) have "cur_is c (op_tag op # encode_op_body op @ ?tail)" by simp
  then obtain c1 where c1: "cur_u8 c = Inr (op_tag op, c1)" "cur_is c1 (encode_op_body op @ ?tail)"
    by (rule cur_u8_append)
  from Cons.prems(2) have "op_fits op" by simp
  with c1(2) obtain c2 where c2: "decode_op (op_tag op) c1 = Inr (op, c2)" "cur_is c2 ?tail"
    by (rule decode_op_body)
  from Cons.IH [OF c2(2)] Cons.prems(2) obtain c3 where
    "decode_ops (length ops) c2 = Inr (ops, c3)" "cur_is c3 rest" by auto
  with c1 c2 show ?case by simp
qed auto

lemma sum_body_ge: "9 * length ops \<le> sum_list (map (\<lambda>op. 1 + body_len op) ops)"
proof (induction ops)
  case (Cons op ops)
  then show ?case using body_len_ge [of op] by simp
qed simp

lemma decode_batch_encode:
  assumes "cur_is c (u32_to_le (word_of_nat (length ops))
      @ concat (map (\<lambda>op. [op_tag op] @ encode_op_body op) ops))"
    and "\<forall>op \<in> set ops. op_fits op" and "ops \<noteq> []" and "length ops < 2 ^ 32"
  obtains c' where "decode_batch c = Inr (ops, c')" and "cur_is c' []"
proof -
  let ?body = "concat (map (\<lambda>op. [op_tag op] @ encode_op_body op) ops)"
  obtain c1 where c1: "cur_u32 c = Inr (word_of_nat (length ops), c1)" "cur_is c1 ?body"
    using assms(1) by (rule cur_u32_append)
  have "9 * length ops \<le> length ?body"
    using sum_body_ge [of ops] by (simp add: length_concat comp_def length_encode_op_body)
  then have "length ops \<le> cur_remaining c1 div 9" using cur_remaining_is [OF c1(2)] by simp
  moreover obtain c2 where "decode_ops (length ops) c1 = Inr (ops, c2)" "cur_is c2 []"
    using decode_ops_concat [of c1 ops "[]"] c1(2) assms(2) by auto
  ultimately show thesis
    using that c1(1) assms(3,4) by (simp add: decode_batch_def unat_u32_of_nat not_less)
qed

lemma cur_start: "cur_is \<lparr>cur_b = b, cur_at = 0\<rparr> b"
  by (simp add: cur_is_def)

lemma length_ops_le_payload: "length ops \<le> payload_len ops"
  using sum_body_ge [of ops] by (auto simp: payload_len_def split: list.split)

lemma decode_payload_encode:
  assumes "rec_ok rec"
  shows "decode_payload (encode_payload rec) = Inr rec"
proof -
  define tag where "tag = (case r_ops rec of [op] \<Rightarrow> op_tag op | _ \<Rightarrow> TAG_BATCH)"
  define body where "body = (case r_ops rec of [op] \<Rightarrow> encode_op_body op
    | ops \<Rightarrow> u32_to_le (word_of_nat (length ops))
        @ concat (map (\<lambda>op. [op_tag op] @ encode_op_body op) ops))"
  let ?c = "\<lparr>cur_b = encode_payload rec, cur_at = 0\<rparr>"
  have "encode_payload rec = tag # u64_to_le (r_term rec) @ u64_to_le (r_index rec) @ body"
    by (simp add: encode_payload_def tag_def body_def split: list.split)
  then have "cur_is ?c (tag # u64_to_le (r_term rec) @ u64_to_le (r_index rec) @ body)"
    by (metis cur_start)
  then obtain c1 where c1: "cur_u8 ?c = Inr (tag, c1)"
      "cur_is c1 (u64_to_le (r_term rec) @ u64_to_le (r_index rec) @ body)"
    by (rule cur_u8_append)
  obtain c2 where c2: "cur_u64 c1 = Inr (r_term rec, c2)" "cur_is c2 (u64_to_le (r_index rec) @ body)"
    using c1(2) by (rule cur_u64_append)
  obtain c3 where c3: "cur_u64 c2 = Inr (r_index rec, c3)" "cur_is c3 body"
    using c2(2) by (rule cur_u64_append)
  have ne: "r_ops rec \<noteq> []" and len: "length (r_ops rec) < 2 ^ 32"
    using assms length_ops_le_payload [of "r_ops rec"] by (auto simp: rec_ok_iff)
  have fits: "\<forall>op \<in> set (r_ops rec). op_fits op" using assms by (simp add: rec_ok_op_fits)
  show ?thesis
  proof (cases "\<exists>op. r_ops rec = [op]")
    case True
    then obtain op where op: "r_ops rec = [op]" by blast
    then have "cur_is c3 (encode_op_body op @ [])" "op_fits op"
      using c3(2) fits by (simp_all add: body_def)
    then obtain c4 where "decode_op (op_tag op) c3 = Inr (op, c4)" "cur_is c4 []"
      by (rule decode_op_body)
    moreover have "op_tag op = TAG_PUT \<or> op_tag op = TAG_DELETE" by (cases op) simp_all
    ultimately show ?thesis
      using c1(1) c2(1) c3(1) op
      by (auto simp: decode_payload_def tag_def cur_remaining_is)
  next
    case False
    with ne obtain o1 o2 os where ops: "r_ops rec = o1 # o2 # os"
      by (metis list.exhaust)
    then have "cur_is c3 (u32_to_le (word_of_nat (length (r_ops rec)))
        @ concat (map (\<lambda>op. [op_tag op] @ encode_op_body op) (r_ops rec)))"
      using c3(2) by (simp add: body_def)
    then obtain c4 where "decode_batch c3 = Inr (r_ops rec, c4)" "cur_is c4 []"
      using fits ne len by (rule decode_batch_encode)
    moreover have "tag = TAG_BATCH" by (simp add: tag_def ops)
    ultimately show ?thesis
      using c1(1) c2(1) c3(1)
      by (simp add: decode_payload_def cur_remaining_is) (simp add: tag_defs)
  qed
qed

subsection \<open>Frames and the scanner\<close>

lemma length_encode_record:
  "rec_ok rec \<Longrightarrow> length (encode_record rec) = 8 + payload_len (r_ops rec)"
  by (simp add: encode_record_def Let_def length_encode_payload)

lemma encode_record_parts:
  assumes "rec_ok rec"
  shows "encode_record rec = u32_to_le (word_of_nat (payload_len (r_ops rec)))
      @ encode_payload rec @ u32_to_le (crc32 (encode_payload rec))"
    and "unat (word_of_nat (payload_len (r_ops rec)) :: u32) = payload_len (r_ops rec)"
    and "MIN_PAYLOAD \<le> payload_len (r_ops rec)"
  using assms payload_len_min [of "r_ops rec"]
  by (simp_all add: encode_record_def Let_def length_encode_payload rec_ok_iff unat_u32_of_nat)

definition scan_result :: "'s \<Rightarrow> nat \<Rightarrow> bool \<Rightarrow> ('s \<times> nat option) io_result" where
  "scan_result s pos clean = Inr (s, if clean then None else Some pos)"

lemma scan_loop_end: "scan_loop sink pre (length pre) s = scan_result s (length pre) True"
  by (subst scan_loop.simps) (simp add: scan_result_def)

lemma scan_loop_frame:
  assumes "rec_ok rec"
  shows "scan_loop sink (pre @ encode_record rec @ post) (length pre) s =
    (case sink s rec of
       Inl e \<Rightarrow> Inl e
     | Inr s' \<Rightarrow> scan_loop sink (pre @ encode_record rec @ post)
         (length pre + length (encode_record rec)) s')"
proof -
  note parts = encode_record_parts [OF assms]
  let ?p = "payload_len (r_ops rec)"
  define f where "f = pre @ encode_record rec @ post"
  have len: "length (encode_payload rec) = ?p" by (rule length_encode_payload)
  have f: "f = pre @ u32_to_le (word_of_nat ?p) @ encode_payload rec
      @ u32_to_le (crc32 (encode_payload rec)) @ post"
    by (simp add: f_def parts(1))
  have lb: "take 4 (drop (length pre) f) = u32_to_le (word_of_nat ?p)"
    and pb: "take ?p (drop (length pre + 4) f) = encode_payload rec"
    and cb: "take 4 (drop (length pre + 4 + ?p) f) = u32_to_le (crc32 (encode_payload rec))"
    and lf: "length f = length pre + (4 + ?p + 4) + length post"
    by (simp_all add: f len)
  have total: "length (encode_record rec) = 4 + ?p + 4"
    using assms by (simp add: length_encode_record)
  show ?thesis
    unfolding f_def [symmetric]
    by (subst scan_loop.simps)
      (use parts(2,3) in \<open>simp add: Let_def lb pb cb lf total decode_payload_encode assms try_bind_def
        cong: sum.case_cong\<close>)
qed

lemma scan_loop_torn:
  assumes "rec_ok rec" and "strict_prefix t (encode_record rec)" and "t \<noteq> []"
  shows "scan_loop sink (pre @ t) (length pre) s = scan_result s (length pre) False"
proof (cases "length t < 4")
  case True
  with assms(3) show ?thesis by (subst scan_loop.simps) (simp add: scan_result_def)
next
  case False
  note parts = encode_record_parts [OF assms(1)]
  obtain u where u: "encode_record rec = t @ u" and "u \<noteq> []"
    using assms(2) by (auto simp: strict_prefix_def prefix_def)
  then have short: "length t < 8 + payload_len (r_ops rec)"
    using length_encode_record [OF assms(1)] by (cases u) auto
  have "take 4 t = take 4 (encode_record rec)" using False u by simp
  also have "\<dots> = u32_to_le (word_of_nat (payload_len (r_ops rec)))" by (simp add: parts(1))
  finally show ?thesis
    using False parts(2,3) short by (subst scan_loop.simps) (simp add: Let_def scan_result_def)
qed

interpretation wal: framed_log encode_record rec_ok "\<lambda>_. sink" Inl scan_result "scan_loop sink"
  for sink
proof
  show "encode_record r \<noteq> []" if "rec_ok r" for r
    using length_encode_record [OF that] by auto
qed (simp_all add: scan_loop_end scan_loop_frame scan_loop_torn)

text \<open>The records of a run handed to a sink, one after the other.\<close>

primrec sink_all :: "('s \<Rightarrow> 'r \<Rightarrow> 'e + 's) \<Rightarrow> 's \<Rightarrow> 'r list \<Rightarrow> 'e + 's" where
  "sink_all sink s [] = Inr s"
| "sink_all sink s (r # rs) = try_bind (sink s r) (\<lambda>s. sink_all sink s rs)"

lemma sink_all_append:
  "sink_all sink s (rs @ rs') = try_bind (sink_all sink s rs) (\<lambda>s. sink_all sink s rs')"
  by (induction rs arbitrary: s) (auto simp: try_bind_def split: sum.split)

lemma sink_all_collect: "sink_all (\<lambda>s r. Inr (s @ [r])) s rs = Inr (s @ rs)"
  by (induction rs arbitrary: s) simp_all

lemma sink_all_unit: "sink_all (\<lambda>_ _. Inr ()) s rs = Inr ()"
  by (induction rs arbitrary: s) simp_all

lemma wal_emit_all: "wal.emit_all sink pos s rs = sink_all sink s rs"
  by (induction rs arbitrary: pos s) (auto simp: try_bind_def split: sum.split)

text \<open>A segment file that holds exactly the records \<open>rs\<close>.\<close>

definition seg_image :: "wal_record list \<Rightarrow> bytes" where
  "seg_image rs = segment_header @ wal.frames rs"

lemma length_header_for: "length (header_for v) = HEADER_LEN"
  by (simp add: header_for_def Let_def HEADER_LEN_def SEGMENT_MAGIC_def)

lemma length_segment_header [simp]: "length segment_header = HEADER_LEN"
  by (simp add: segment_header_def length_header_for)

lemma header_for_fields:
  "take 4 (header_for v) = SEGMENT_MAGIC"
  "take 8 (header_for v) = SEGMENT_MAGIC @ u32_to_le v"
  "take 4 (drop 4 (header_for v)) = u32_to_le v"
  "take 4 (drop 8 (header_for v)) = u32_to_le (crc32 (SEGMENT_MAGIC @ u32_to_le v))"
proof -
  have "length SEGMENT_MAGIC = 4" by (simp add: SEGMENT_MAGIC_def)
  then show "take 4 (header_for v) = SEGMENT_MAGIC"
    "take 8 (header_for v) = SEGMENT_MAGIC @ u32_to_le v"
    "take 4 (drop 4 (header_for v)) = u32_to_le v"
    "take 4 (drop 8 (header_for v)) = u32_to_le (crc32 (SEGMENT_MAGIC @ u32_to_le v))"
    by (simp_all add: header_for_def Let_def)
qed

lemma scan_segment_header_for:
  "scan_segment sink (header_for v @ body) s =
     (if v = SEGMENT_VERSION then scan_loop sink (header_for v @ body) HEADER_LEN s
      else Inl Unsupported)"
  using length_header_for [of v]
  by (simp add: scan_segment_def Let_def header_for_fields)

lemma scan_segment_image:
  "scan_segment sink (seg_image rs @ t) s = scan_loop sink (seg_image rs @ t) HEADER_LEN s"
  by (simp add: seg_image_def segment_header_def scan_segment_header_for)

lemma scan_image:
  assumes "list_all rec_ok rs"
  shows "scan_segment sink (seg_image rs) s =
    try_bind (sink_all sink s rs) (\<lambda>s. Inr (s, None))"
  using scan_segment_image [of sink rs "[]" s] wal.scan_whole [OF assms, of sink segment_header s]
  by (simp add: seg_image_def wal_emit_all scan_result_def try_bind_def cong: sum.case_cong)

lemma scan_image_torn:
  assumes "list_all rec_ok rs" and "rec_ok r" and "strict_prefix t (encode_record r)" and "t \<noteq> []"
  shows "scan_segment sink (seg_image rs @ t) s =
    try_bind (sink_all sink s rs) (\<lambda>s. Inr (s, Some (length (seg_image rs))))"
  using scan_segment_image [of sink rs t s]
    wal.scan_whole_torn [OF assms, of sink segment_header s]
  by (simp add: seg_image_def wal_emit_all scan_result_def try_bind_def cong: sum.case_cong)

lemma seg_image_append: "seg_image (rs @ rs') = seg_image rs @ wal.frames rs'"
  by (simp add: seg_image_def)

lemma seg_image_length_ge: "HEADER_LEN \<le> length (seg_image rs)"
  by (simp add: seg_image_def)

text \<open>
  What may follow the last whole record of a segment after a crash: nothing, or a proper prefix of
  one record.
\<close>

definition torn_tail :: "bytes \<Rightarrow> bool" where
  "torn_tail t \<longleftrightarrow> t = [] \<or> (\<exists>r. rec_ok r \<and> strict_prefix t (encode_record r))"

lemma scan_image_tail:
  assumes "list_all rec_ok rs" and "torn_tail t"
  shows "scan_segment sink (seg_image rs @ t) s =
    try_bind (sink_all sink s rs) (\<lambda>s. Inr (s, if t = [] then None else Some (length (seg_image rs))))"
  using assms scan_image [OF assms(1)] scan_image_torn [OF assms(1)] by (auto simp: torn_tail_def)

lemma frames_cut_tail:
  assumes "list_all rec_ok new" and "n \<le> length (wal.frames new)"
  obtains k t where "k \<le> length new" and "torn_tail t"
    and "take n (wal.frames new) = wal.frames (take k new) @ t"
proof -
  from assms(2) show thesis
  proof (rule wal.frames_cut)
    fix k assume "k \<le> length new" "take n (wal.frames new) = wal.frames (take k new)"
    then show thesis using that [of k "[]"] by (simp add: torn_tail_def)
  next
    fix k t assume k: "k < length new" "take n (wal.frames new) = wal.frames (take k new) @ t"
      "strict_prefix t (encode_record (new ! k))"
    then have "torn_tail t" using assms(1) by (auto simp: torn_tail_def list_all_length)
    with k show thesis using that [of k t] by simp
  qed
qed

end
