(* ===== verification/Disk.thy ===== *)
theory Disk
  imports Ordered_Map "HOL-Library.Char_ord"
begin

text \<open>
  What a power failure may leave of a directory. The calls of \<open>Fs\<close> act on the page cache; this
  theory keeps beside it what the storage medium may hold, as POSIX leaves it open: the bytes of a file
  are certain only after \<^verbatim>\<open>fsync\<close> of that file, its names only after \<^verbatim>\<open>fsync\<close> of the directory. Until
  then any part of an append, each length a file was cut to, and each of the directory's states since its last sync
  may be what is found after the failure. Files have identities of their own, so that a rename carries the bytes
  that may not be durable yet. Two orders are assumed, as journalling file systems keep them: an append reaches
  the medium front to back, and the entries of one directory change in the order of the calls.
\<close>

datatype fs_event =
  Created string
| Wrote string bytes
| Resized string nat
| Removed string
| Renamed string string
| Synced string
| SyncedDir

record disk =
  dk_dir :: "(string, nat) bmap"
  dk_dirs :: "(string, nat) bmap set"
  dk_next :: nat
  dk_data :: "nat \<Rightarrow> bytes"
  dk_maybe :: "nat \<Rightarrow> bytes set"

text \<open>A directory as it is found after a start: everything in it is durable.\<close>

definition boot_dir :: "(string, bytes) bmap \<Rightarrow> (string, nat) bmap" where
  "boot_dir fl = zip (map fst fl) [0..<length fl]"

definition boot_data :: "(string, bytes) bmap \<Rightarrow> nat \<Rightarrow> bytes" where
  "boot_data fl i = (if i < length fl then snd (fl ! i) else [])"

definition boot :: "(string, bytes) bmap \<Rightarrow> disk" where
  "boot fl = \<lparr>dk_dir = boot_dir fl, dk_dirs = {boot_dir fl}, dk_next = length fl,
     dk_data = boot_data fl, dk_maybe = (\<lambda>i. {boot_data fl i})\<rparr>"

definition dk_rename :: "(string, nat) bmap \<Rightarrow> disk \<Rightarrow> disk" where
  "dk_rename N k = k\<lparr>dk_dir := N, dk_dirs := insert N (dk_dirs k)\<rparr>"

definition dk_modify :: "string \<Rightarrow> (bytes \<Rightarrow> bytes) \<Rightarrow> (bytes \<Rightarrow> bytes set) \<Rightarrow> disk \<Rightarrow> disk" where
  "dk_modify x f g k =
     (case bm_get (dk_dir k) x of
        None \<Rightarrow> k
      | Some i \<Rightarrow> k\<lparr>dk_data := (dk_data k)(i := f (dk_data k i)),
                     dk_maybe := (dk_maybe k)(i := dk_maybe k i \<union> g (dk_data k i))\<rparr>)"

fun disk_step :: "fs_event \<Rightarrow> disk \<Rightarrow> disk" where
  "disk_step (Created x) k =
     (let i = dk_next k in
      (dk_rename (bm_insert x i (dk_dir k)) k)
        \<lparr>dk_next := i + 1, dk_data := (dk_data k)(i := []), dk_maybe := (dk_maybe k)(i := {[]})\<rparr>)"
| "disk_step (Wrote x b) k =
     dk_modify x (\<lambda>c. c @ b) (\<lambda>c. (\<lambda>n. c @ take n b) ` {0..length b}) k"
| "disk_step (Resized x n) k =
     dk_modify x (\<lambda>c. take n c @ replicate (n - length c) 0) (\<lambda>c. {take n c @ replicate (n - length c) 0}) k"
| "disk_step (Removed x) k = dk_rename (bm_remove x (dk_dir k)) k"
| "disk_step (Renamed x y) k =
     (case bm_get (dk_dir k) x of
        None \<Rightarrow> k
      | Some i \<Rightarrow> dk_rename (bm_insert y i (bm_remove x (dk_dir k))) k)"
| "disk_step (Synced x) k =
     (case bm_get (dk_dir k) x of
        None \<Rightarrow> k
      | Some i \<Rightarrow> k\<lparr>dk_maybe := (dk_maybe k)(i := {dk_data k i})\<rparr>)"
| "disk_step SyncedDir k = k\<lparr>dk_dirs := {dk_dir k}\<rparr>"

declare disk_step.simps [simp del]

text \<open>The files a directory state names, with the given contents.\<close>

definition image_of :: "(string, nat) bmap \<Rightarrow> (nat \<Rightarrow> bytes) \<Rightarrow> (string, bytes) bmap" where
  "image_of N D = map (\<lambda>(x, i). (x, D i)) N"

definition choice :: "disk \<Rightarrow> (nat \<Rightarrow> bytes) \<Rightarrow> bool" where
  "choice k D \<longleftrightarrow> (\<forall>i. D i \<in> dk_maybe k i)"

subsection \<open>Images\<close>

lemma image_of_Nil [simp]: "image_of [] D = []"
  by (simp add: image_of_def)

lemma bm_get_image: "bm_get (image_of N D) x = map_option D (bm_get N x)"
  by (induction N) (auto simp: image_of_def)

lemma map_fst_image [simp]: "map fst (image_of N D) = map fst N"
  by (simp add: image_of_def case_prod_beta comp_def)

lemma bm_wf_image [simp]: "bm_wf (image_of N D) \<longleftrightarrow> bm_wf N"
  by (simp add: bm_wf_def)

lemma image_insert: "image_of (bm_insert x i N) D = bm_insert x (D i) (image_of N D)"
  by (induction N) (auto simp: image_of_def)

lemma image_remove: "image_of (bm_remove x N) D = bm_remove x (image_of N D)"
  by (induction N) (auto simp: image_of_def bm_remove_def)

lemma image_cong: "(\<And>x i. (x, i) \<in> set N \<Longrightarrow> D i = D' i) \<Longrightarrow> image_of N D = image_of N D'"
  by (auto simp: image_of_def)

lemma image_fresh: "i \<notin> snd ` set N \<Longrightarrow> image_of N (D(i := c)) = image_of N D"
  by (rule image_cong) force

lemma image_upd:
  assumes "bm_wf N" and "distinct (map snd N)" and "bm_get N x = Some i"
  shows "image_of N (D(i := c)) = bm_insert x c (image_of N D)"
proof (rule bm_ext)
  have only: "y = x" if "bm_get N y = Some i" for y
  proof -
    have "(y, i) \<in> set N" "(x, i) \<in> set N" using that assms(3) by (auto dest: map_of_SomeD)
    with assms(2) show "y = x" by (fastforce simp: distinct_map inj_on_def)
  qed
  have "map_option (D(i := c)) (bm_get N y) = (if y = x then Some c else map_option D (bm_get N y))" for y
  proof (cases "bm_get N y")
    case None
    then show ?thesis using assms(3) by (cases "y = x") simp_all
  next
    case (Some j)
    then show ?thesis using assms(3) only [of y] by (cases "j = i") (simp, metis (lifting) fun_upd_apply option.inject option.map(2))
  qed
  then show "bm_get (image_of N (D(i := c))) = bm_get (bm_insert x c (image_of N D))"
    using assms(1) by (simp add: fun_eq_iff bm_get_image bm_get_insert)
qed (use assms(1) in \<open>simp_all add: bm_wf_insert\<close>)

lemma image_boot: "image_of (boot_dir fl) (boot_data fl) = fl"
  by (rule nth_equalityI) (auto simp: image_of_def boot_dir_def boot_data_def)

subsection \<open>Well-formed disks\<close>

definition dir_wf :: "nat \<Rightarrow> (string, nat) bmap \<Rightarrow> bool" where
  "dir_wf n N \<longleftrightarrow> bm_wf N \<and> distinct (map snd N) \<and> (\<forall>i \<in> snd ` set N. i < n)"

definition disk_wf :: "disk \<Rightarrow> bool" where
  "disk_wf k \<longleftrightarrow> dk_dir k \<in> dk_dirs k \<and> (\<forall>N \<in> dk_dirs k. dir_wf (dk_next k) N) \<and> (\<forall>i. dk_data k i \<in> dk_maybe k i)"

lemma set_bm_insert:
  assumes "bm_wf m"
  shows "set (bm_insert k v m) = insert (k, v) {e \<in> set m. fst e \<noteq> k}"
proof -
  have mem: "e \<in> set l \<longleftrightarrow> bm_get l (fst e) = Some (snd e)" if "bm_wf l" for l :: "('a, 'b) bmap" and e
    using bm_wf_distinct [OF that] by (cases e) simp
  show ?thesis using mem [OF assms] mem [OF bm_wf_insert [OF assms, of k v]]
    by (auto simp: bm_get_insert [OF assms] split: if_splits)
qed

lemma set_bm_remove: "set (bm_remove k m) = {e \<in> set m. fst e \<noteq> k}"
  by (auto simp: bm_remove_def)

lemma snd_inj_distinct:
  assumes "bm_wf N"
  shows "distinct (map snd N) \<longleftrightarrow> (\<forall>x y i. (x, i) \<in> set N \<longrightarrow> (y, i) \<in> set N \<longrightarrow> x = y)"
proof -
  have "distinct N" using bm_wf_distinct [OF assms] by (simp add: distinct_map)
  then show ?thesis by (fastforce simp: distinct_map inj_on_def)
qed

lemma dir_wf_iff:
  "dir_wf n N \<longleftrightarrow> bm_wf N \<and> (\<forall>x y i. (x, i) \<in> set N \<longrightarrow> (y, i) \<in> set N \<longrightarrow> x = y) \<and> (\<forall>(x, i) \<in> set N. i < n)"
  by (auto simp: dir_wf_def snd_inj_distinct)

lemma dir_wf_mono: "dir_wf n N \<Longrightarrow> n \<le> n' \<Longrightarrow> dir_wf n' N"
  by (force simp: dir_wf_def)

lemma dir_wf_insert_new: "dir_wf n N \<Longrightarrow> dir_wf (Suc n) (bm_insert x n N)"
  by (auto simp: dir_wf_iff set_bm_insert bm_wf_insert dest: less_imp_neq less_SucI)

lemma dir_wf_remove: "dir_wf n N \<Longrightarrow> dir_wf n (bm_remove x N)"
  by (auto simp: dir_wf_iff set_bm_remove bm_wf_remove)

lemma dir_wf_rename:
  assumes "dir_wf n N" and "bm_get N x = Some i"
  shows "dir_wf n (bm_insert y i (bm_remove x N))"
  using assms map_of_SomeD [OF assms(2)]
  by (auto simp: dir_wf_iff set_bm_insert set_bm_remove bm_wf_insert bm_wf_remove)

lemma disk_wf_boot: "bm_wf fl \<Longrightarrow> disk_wf (boot fl)"
  by (auto simp: disk_wf_def boot_def dir_wf_def boot_dir_def bm_wf_def dest: set_zip_rightD)

lemma disk_wf_modify:
  "disk_wf k \<Longrightarrow> (\<And>c. f c \<in> g c) \<Longrightarrow> disk_wf (dk_modify x f g k)"
  by (auto simp: disk_wf_def dk_modify_def split: option.split)

lemma disk_wf_step: "disk_wf k \<Longrightarrow> disk_wf (disk_step ev k)"
proof (cases ev)
  case (Wrote x b)
  assume "disk_wf k"
  then show ?thesis
    unfolding Wrote disk_step.simps by (rule disk_wf_modify) (auto intro!: image_eqI [where x = "length b"])
next
  case (Resized x n)
  assume "disk_wf k"
  then show ?thesis unfolding Resized disk_step.simps by (rule disk_wf_modify) simp
qed (auto simp: disk_wf_def disk_step.simps dk_rename_def Let_def dir_wf_insert_new dir_wf_remove dir_wf_rename
    split: option.split intro: dir_wf_mono)

end
