(* ===== verification/Fs.thy ===== *)
theory Fs
  imports Disk
begin

text \<open>
  The part of the filesystem the source uses, as \<^verbatim>\<open>std::fs\<close> promises it: a store directory is an
  ordered map from file names to contents. Every call that changes the directory may fail: a
  list of outcomes, one per such call, says which do and, for a write, how many bytes reached
  the file first; past its end every call succeeds. Theorems that hold for every such list hold
  for every pattern of I/O failures. Calls that only read succeed. Every call also notes in
  \<open>fs_disk\<close> what it changes of the storage medium, which no call reads.
\<close>

datatype io_outcome = IoOk | IoErr error_kind nat

record fs =
  fs_files :: "(string, bytes) bmap"
  fs_outcomes :: "io_outcome list"
  fs_disk :: disk

definition next_io :: "fs \<Rightarrow> io_outcome \<times> fs" where
  "next_io d =
     (case fs_outcomes d of
        [] \<Rightarrow> (IoOk, d)
      | out # outs \<Rightarrow> (out, d\<lparr>fs_outcomes := outs\<rparr>))"

definition fs_exists :: "string \<Rightarrow> fs \<Rightarrow> bool" where
  "fs_exists name d \<longleftrightarrow> bm_get (fs_files d) name \<noteq> None"

definition fs_content :: "string \<Rightarrow> fs \<Rightarrow> bytes" where
  "fs_content name d = (case bm_get (fs_files d) name of Some c \<Rightarrow> c | None \<Rightarrow> [])"

definition fs_set :: "string \<Rightarrow> bytes \<Rightarrow> fs \<Rightarrow> fs" where
  "fs_set name c d = d\<lparr>fs_files := bm_insert name c (fs_files d)\<rparr>"

definition fs_unset :: "string \<Rightarrow> fs \<Rightarrow> fs" where
  "fs_unset name d = d\<lparr>fs_files := bm_remove name (fs_files d)\<rparr>"

definition fs_note :: "fs_event \<Rightarrow> fs \<Rightarrow> fs" where
  "fs_note ev d = d\<lparr>fs_disk := disk_step ev (fs_disk d)\<rparr>"

text \<open>\<^verbatim>\<open>write_all\<close> at the end of an open file.\<close>

definition fs_write_all :: "string \<Rightarrow> bytes \<Rightarrow> fs \<Rightarrow> unit io_result \<times> fs" where
  "fs_write_all name buf d =
     (case next_io d of
        (IoOk, d) \<Rightarrow> (Inr (), fs_set name (fs_content name d @ buf) (fs_note (Wrote name buf) d))
      | (IoErr k n, d) \<Rightarrow>
          (Inl k, fs_set name (fs_content name d @ take n buf) (fs_note (Wrote name (take n buf)) d)))"

text \<open>\<^verbatim>\<open>sync_all\<close> of a file or of the directory: the event says which. A call that may fail and changes nothing is \<open>fs_call\<close>.\<close>

definition fs_sync :: "fs_event \<Rightarrow> fs \<Rightarrow> unit io_result \<times> fs" where
  "fs_sync ev d = (case next_io d of (IoOk, d) \<Rightarrow> (Inr (), fs_note ev d) | (IoErr k _, d) \<Rightarrow> (Inl k, d))"

definition fs_call :: "fs \<Rightarrow> unit io_result \<times> fs" where
  "fs_call d = (case next_io d of (IoOk, d) \<Rightarrow> (Inr (), d) | (IoErr k _, d) \<Rightarrow> (Inl k, d))"

definition fs_set_len :: "string \<Rightarrow> nat \<Rightarrow> fs \<Rightarrow> unit io_result \<times> fs" where
  "fs_set_len name n d =
     (case next_io d of
        (IoOk, d) \<Rightarrow>
          (let c = fs_content name d
           in (Inr (), fs_set name (take n c @ replicate (n - length c) 0) (fs_note (Resized name n) d)))
      | (IoErr k _, d) \<Rightarrow> (Inl k, d))"

definition fs_create :: "string \<Rightarrow> fs \<Rightarrow> fs" where
  "fs_create name d = fs_set name [] (fs_note (Created name) d)"

text \<open>
  \<^verbatim>\<open>open\<close> with \<^verbatim>\<open>create_new\<close>: it fails if the name is taken. An error reported for a call that did
  create the file (a retried request) is an \<open>IoErr\<close> with a non-zero count.
\<close>

definition fs_create_new :: "string \<Rightarrow> fs \<Rightarrow> unit io_result \<times> fs" where
  "fs_create_new name d =
     (case next_io d of
        (IoOk, d) \<Rightarrow> if fs_exists name d then (Inl AlreadyExists, d) else (Inr (), fs_create name d)
      | (IoErr k n, d) \<Rightarrow>
          (Inl k, if n = 0 \<or> fs_exists name d then d else fs_create name d))"

text \<open>\<^verbatim>\<open>open\<close> with \<^verbatim>\<open>create\<close>, and with \<^verbatim>\<open>create\<close> and \<^verbatim>\<open>truncate\<close>.\<close>

definition fs_open_create :: "string \<Rightarrow> fs \<Rightarrow> unit io_result \<times> fs" where
  "fs_open_create name d =
     (case next_io d of
        (IoOk, d) \<Rightarrow> (Inr (), if fs_exists name d then d else fs_create name d)
      | (IoErr k _, d) \<Rightarrow> (Inl k, d))"

definition fs_open_truncate :: "string \<Rightarrow> fs \<Rightarrow> unit io_result \<times> fs" where
  "fs_open_truncate name d =
     (case next_io d of
        (IoOk, d) \<Rightarrow> (Inr (), fs_set name [] (fs_note (if fs_exists name d then Resized name 0 else Created name) d))
      | (IoErr k _, d) \<Rightarrow> (Inl k, d))"

definition fs_remove :: "string \<Rightarrow> fs \<Rightarrow> unit io_result \<times> fs" where
  "fs_remove name d =
     (case next_io d of
        (IoOk, d) \<Rightarrow> if fs_exists name d then (Inr (), fs_unset name (fs_note (Removed name) d)) else (Inl NotFound, d)
      | (IoErr k _, d) \<Rightarrow> (Inl k, d))"

definition fs_rename :: "string \<Rightarrow> string \<Rightarrow> fs \<Rightarrow> unit io_result \<times> fs" where
  "fs_rename src dst d =
     (case next_io d of
        (IoOk, d) \<Rightarrow>
          (case bm_get (fs_files d) src of
             None \<Rightarrow> (Inl NotFound, d)
           | Some c \<Rightarrow> (Inr (), fs_set dst c (fs_unset src (fs_note (Renamed src dst) d))))
      | (IoErr k _, d) \<Rightarrow> (Inl k, d))"

text \<open>\<^verbatim>\<open>and_then\<close> on calls that change the directory: the next one runs only after success.\<close>

definition io_then ::
  "'a io_result \<times> fs \<Rightarrow> (fs \<Rightarrow> 'b io_result \<times> fs) \<Rightarrow> 'b io_result \<times> fs" where
  "io_then r g = (case r of (Inl e, d) \<Rightarrow> (Inl e, d) | (Inr _, d) \<Rightarrow> g d)"

lemma io_then_simps [simp]:
  "io_then (Inl e, d) g = (Inl e, d)"
  "io_then (Inr x, d) g = g d"
  by (simp_all add: io_then_def)

lemmas fs_call_defs =
  fs_write_all_def fs_sync_def fs_call_def fs_set_len_def fs_create_new_def fs_open_create_def
  fs_open_truncate_def fs_remove_def fs_rename_def

subsection \<open>Frame properties\<close>

lemma next_io_files [simp]: "next_io d = (out, d') \<Longrightarrow> fs_files d' = fs_files d"
  by (auto simp: next_io_def split: list.splits)

lemma fs_files_set [simp]: "fs_files (fs_set name c d) = bm_insert name c (fs_files d)"
  by (simp add: fs_set_def)

lemma fs_note_simps [simp]:
  "fs_files (fs_note ev d) = fs_files d" "fs_outcomes (fs_note ev d) = fs_outcomes d"
  "fs_content name (fs_note ev d) = fs_content name d" "fs_exists name (fs_note ev d) = fs_exists name d"
  by (simp_all add: fs_note_def fs_content_def fs_exists_def)

lemma fs_files_create [simp]: "fs_files (fs_create name d) = bm_insert name [] (fs_files d)"
  by (simp add: fs_create_def)

lemma fs_files_unset [simp]: "fs_files (fs_unset name d) = bm_remove name (fs_files d)"
  by (simp add: fs_unset_def)

lemma next_io_no_faults [simp]: "fs_outcomes d = [] \<Longrightarrow> next_io d = (IoOk, d)"
  by (simp add: next_io_def)

lemma fs_outcomes_set [simp]:
  "fs_outcomes (fs_set name c d) = fs_outcomes d"
  "fs_outcomes (fs_unset name d) = fs_outcomes d"
  "fs_outcomes (fs_create name d) = fs_outcomes d"
  by (simp_all add: fs_set_def fs_unset_def fs_create_def)

lemma fs_content_files: "fs_files d' = fs_files d \<Longrightarrow> fs_content name d' = fs_content name d"
  by (simp add: fs_content_def)

lemma fs_exists_files: "fs_files d' = fs_files d \<Longrightarrow> fs_exists name d' = fs_exists name d"
  by (simp add: fs_exists_def)

lemma sync_files: "fs_sync ev d = (res, d') \<Longrightarrow> fs_files d' = fs_files d"
  by (auto simp: fs_sync_def split: prod.splits io_outcome.splits)

lemma call_files: "fs_call d = (res, d') \<Longrightarrow> fs_files d' = fs_files d"
  by (auto simp: fs_call_def split: prod.splits io_outcome.splits)

lemma io_then_sync:
  assumes "io_then (res0, d0) (fs_sync ev) = (res, d')"
  shows "fs_files d' = fs_files d0" and "res = Inr () \<Longrightarrow> \<exists>x. res0 = Inr x"
  using assms by (cases res0; auto dest: sync_files)+

lemma io_then_call:
  assumes "io_then (res0, d0) fs_call = (res, d')"
  shows "fs_files d' = fs_files d0" and "res = Inr () \<Longrightarrow> \<exists>x. res0 = Inr x"
  using assms by (cases res0; auto dest: call_files)+

subsection \<open>The calls and the medium\<close>

text \<open>The directory that the calls see is the current state of the disk.\<close>

definition linked :: "fs \<Rightarrow> bool" where
  "linked d \<longleftrightarrow> disk_wf (fs_disk d) \<and> fs_files d = image_of (dk_dir (fs_disk d)) (dk_data (fs_disk d))"

lemma next_io_disk [simp]: "next_io d = (out, d') \<Longrightarrow> fs_disk d' = fs_disk d"
  by (cases "fs_outcomes d") (auto simp: next_io_def)

lemma fs_disk_simps [simp]:
  "fs_disk (fs_set x c d) = fs_disk d" "fs_disk (fs_unset x d) = fs_disk d"
  "fs_disk (fs_note ev d) = disk_step ev (fs_disk d)"
  "fs_disk (fs_create x d) = disk_step (Created x) (fs_disk d)"
  by (simp_all add: fs_set_def fs_unset_def fs_note_def fs_create_def)

lemma linked_cong: "fs_files d' = fs_files d \<Longrightarrow> fs_disk d' = fs_disk d \<Longrightarrow> linked d' \<longleftrightarrow> linked d"
  by (simp add: linked_def)

lemma linked_wf: "linked d \<Longrightarrow> bm_wf (fs_files d)"
  using bm_wf_image by (auto simp: linked_def disk_wf_def dir_wf_def)

lemma linked_exists: "linked d \<Longrightarrow> fs_exists x d \<longleftrightarrow> (\<exists>i. bm_get (dk_dir (fs_disk d)) x = Some i)"
  by (auto simp: linked_def fs_exists_def bm_get_image)

lemma linked_content: "linked d \<Longrightarrow> bm_get (dk_dir (fs_disk d)) x = Some i \<Longrightarrow> fs_content x d = dk_data (fs_disk d) i"
  by (simp add: linked_def fs_content_def bm_get_image)

lemma linked_modify:
  assumes "linked d" and "bm_get (dk_dir (fs_disk d)) x = Some i" and "disk_wf k'" and "dk_dir k' = dk_dir (fs_disk d)"
    and "dk_data k' = (dk_data (fs_disk d))(i := c)" and "fs_files d' = bm_insert x c (fs_files d)" and "fs_disk d' = k'"
  shows "linked d'"
  using assms by (auto simp: linked_def disk_wf_def dir_wf_def image_upd)

lemma linked_wrote:
  assumes "linked d" and "fs_exists x d"
  shows "linked (fs_set x (fs_content x d @ b) (fs_note (Wrote x b) d))"
proof -
  obtain i where i: "bm_get (dk_dir (fs_disk d)) x = Some i" using assms by (auto simp: linked_exists)
  have "disk_wf (disk_step (Wrote x b) (fs_disk d))" using assms(1) by (simp add: linked_def disk_wf_step)
  from linked_modify [OF assms(1) i this, of "fs_content x d @ b"] i show ?thesis
    by (simp add: disk_step.simps dk_modify_def linked_content [OF assms(1) i])
qed

lemma linked_resized:
  assumes "linked d" and "fs_exists x d"
  shows "linked (fs_set x (take n (fs_content x d) @ replicate (n - length (fs_content x d)) 0) (fs_note (Resized x n) d))"
proof -
  obtain i where i: "bm_get (dk_dir (fs_disk d)) x = Some i" using assms by (auto simp: linked_exists)
  have "disk_wf (disk_step (Resized x n) (fs_disk d))" using assms(1) by (simp add: linked_def disk_wf_step)
  from linked_modify [OF assms(1) i this] i show ?thesis
    by (simp add: disk_step.simps dk_modify_def linked_content [OF assms(1) i])
qed

lemma linked_created: "linked d \<Longrightarrow> linked (fs_create x d)"
proof -
  assume l: "linked d"
  then have "dk_next (fs_disk d) \<notin> snd ` set (dk_dir (fs_disk d))" by (fastforce simp: linked_def disk_wf_def dir_wf_def)
  with l show ?thesis
    by (simp add: linked_def disk_wf_step) (simp add: disk_step.simps dk_rename_def Let_def image_insert image_fresh)
qed

lemma linked_removed: "linked d \<Longrightarrow> linked (fs_unset x (fs_note (Removed x) d))"
  by (simp add: linked_def disk_wf_step) (simp add: disk_step.simps dk_rename_def image_remove)

lemma linked_renamed:
  "linked d \<Longrightarrow> bm_get (fs_files d) x = Some c \<Longrightarrow> linked (fs_set y c (fs_unset x (fs_note (Renamed x y) d)))"
  by (auto simp: linked_def disk_wf_step bm_get_image)
    (simp add: disk_step.simps dk_rename_def image_insert image_remove)

lemma linked_synced:
  assumes "linked d" and "ev = SyncedDir \<or> (\<exists>x. ev = Synced x)"
  shows "linked (fs_note ev d)"
  using assms disk_wf_step [of "fs_disk d" ev]
  by (auto simp: linked_def) (simp_all add: disk_step.simps split: option.split)

subsubsection \<open>What each call does to the medium\<close>

lemma sync_disk:
  "fs_sync ev d = (r, d') \<Longrightarrow> fs_disk d' = (case r of Inl _ \<Rightarrow> fs_disk d | Inr _ \<Rightarrow> disk_step ev (fs_disk d))"
  by (auto simp: fs_sync_def split: prod.splits io_outcome.splits)

lemma call_disk: "fs_call d = (r, d') \<Longrightarrow> fs_disk d' = fs_disk d"
  by (auto simp: fs_call_def split: prod.splits io_outcome.splits)

lemma write_disk:
  assumes "fs_write_all x b d = (r, d')"
  obtains n where "n \<le> length b" and "r = Inr () \<Longrightarrow> n = length b"
    and "fs_disk d' = disk_step (Wrote x (take n b)) (fs_disk d)"
proof -
  obtain out d1 where "next_io d = (out, d1)" by (cases "next_io d")
  with assms that [of "length b"] that [of "min (case out of IoErr k n \<Rightarrow> n | IoOk \<Rightarrow> 0) (length b)"] show thesis
    by (cases out) (auto simp: fs_write_all_def min_def split: if_splits)
qed

lemma set_len_disk:
  "fs_set_len x n d = (r, d') \<Longrightarrow> fs_disk d' = (case r of Inl _ \<Rightarrow> fs_disk d | Inr _ \<Rightarrow> disk_step (Resized x n) (fs_disk d))"
  by (auto simp: fs_set_len_def Let_def split: prod.splits io_outcome.splits)

lemma create_new_disk:
  "fs_create_new x d = (r, d') \<Longrightarrow> fs_disk d' = fs_disk d \<and> fs_files d' = fs_files d \<and> (\<exists>e. r = Inl e)
     \<or> \<not> fs_exists x d \<and> fs_disk d' = disk_step (Created x) (fs_disk d) \<and> fs_files d' = bm_insert x [] (fs_files d)"
  by (auto simp: fs_create_new_def fs_exists_def split: prod.splits io_outcome.splits if_splits)

lemma open_create_disk:
  "fs_open_create x d = (r, d') \<Longrightarrow> fs_disk d' = fs_disk d \<and> fs_files d' = fs_files d
     \<or> \<not> fs_exists x d \<and> fs_disk d' = disk_step (Created x) (fs_disk d) \<and> fs_files d' = bm_insert x [] (fs_files d)"
  by (auto simp: fs_open_create_def fs_exists_def split: prod.splits io_outcome.splits if_splits)

lemma open_truncate_disk:
  "fs_open_truncate x d = (r, d') \<Longrightarrow> fs_disk d' = (case r of Inl _ \<Rightarrow> fs_disk d
     | Inr _ \<Rightarrow> disk_step (if fs_exists x d then Resized x 0 else Created x) (fs_disk d))"
  by (auto simp: fs_open_truncate_def fs_exists_def split: prod.splits io_outcome.splits if_splits)

lemma remove_disk:
  "fs_remove x d = (r, d') \<Longrightarrow> fs_disk d' = (case r of Inl _ \<Rightarrow> fs_disk d | Inr _ \<Rightarrow> disk_step (Removed x) (fs_disk d))"
  by (auto simp: fs_remove_def split: prod.splits io_outcome.splits if_splits)

lemma rename_disk:
  "fs_rename x y d = (r, d') \<Longrightarrow> fs_disk d' = (case r of Inl _ \<Rightarrow> fs_disk d | Inr _ \<Rightarrow> disk_step (Renamed x y) (fs_disk d))"
  by (auto simp: fs_rename_def split: prod.splits io_outcome.splits option.splits)

lemma linked_calls:
  assumes "linked d"
  shows "fs_sync SyncedDir d = (r, d') \<Longrightarrow> linked d'" and "fs_sync (Synced x) d = (r, d') \<Longrightarrow> linked d'"
    and "fs_call d = (r, d') \<Longrightarrow> linked d'" and "fs_exists x d \<Longrightarrow> fs_write_all x b d = (r, d') \<Longrightarrow> linked d'"
    and "fs_exists x d \<Longrightarrow> fs_set_len x n d = (r, d') \<Longrightarrow> linked d'"
    and "fs_create_new x d = (r, d') \<Longrightarrow> linked d'" and "fs_open_create x d = (r, d') \<Longrightarrow> linked d'"
    and "fs_open_truncate x d = (r, d') \<Longrightarrow> linked d'" and "fs_remove x d = (r, d') \<Longrightarrow> linked d'"
    and "fs_rename x y d = (r, d') \<Longrightarrow> linked d'"
proof -
  obtain out d1 where n: "next_io d = (out, d1)" by (cases "next_io d")
  then have l: "linked d1" using assms by (simp add: linked_def)
  have e: "fs_exists x d1 = fs_exists x d" for x using n by (simp add: fs_exists_def)
  have trunc: "linked (fs_set x [] (fs_note (Resized x 0) d1))" if "fs_exists x d1"
    using linked_resized [OF l that, of 0] by simp
  show "fs_sync SyncedDir d = (r, d') \<Longrightarrow> linked d'" "fs_sync (Synced x) d = (r, d') \<Longrightarrow> linked d'"
    "fs_call d = (r, d') \<Longrightarrow> linked d'"
    using n l by (auto simp: fs_sync_def fs_call_def linked_synced split: io_outcome.splits)
  show "fs_exists x d \<Longrightarrow> fs_write_all x b d = (r, d') \<Longrightarrow> linked d'"
    using n linked_wrote [OF l, of x] by (auto simp: fs_write_all_def e split: io_outcome.splits)
  show "fs_exists x d \<Longrightarrow> fs_set_len x n d = (r, d') \<Longrightarrow> linked d'"
    using n l linked_resized [OF l, of x] by (auto simp: fs_set_len_def Let_def e split: io_outcome.splits)
  show "fs_create_new x d = (r, d') \<Longrightarrow> linked d'" "fs_open_create x d = (r, d') \<Longrightarrow> linked d'"
    using n l by (auto simp: fs_create_new_def fs_open_create_def linked_created split: io_outcome.splits if_splits)
  show "fs_open_truncate x d = (r, d') \<Longrightarrow> linked d'"
    using n l trunc linked_created [OF l, of x, unfolded fs_create_def]
    by (auto simp: fs_open_truncate_def split: io_outcome.splits)
  show "fs_remove x d = (r, d') \<Longrightarrow> linked d'"
    using n l by (auto simp: fs_remove_def linked_removed split: io_outcome.splits if_splits)
  show "fs_rename x y d = (r, d') \<Longrightarrow> linked d'"
    using n l by (auto simp: fs_rename_def linked_renamed split: io_outcome.splits option.splits)
qed

subsection \<open>A power failure\<close>

definition power_on :: "(string, bytes) bmap \<Rightarrow> fs" where
  "power_on fl = \<lparr>fs_files = fl, fs_outcomes = [], fs_disk = boot fl\<rparr>"

lemma power_on_simps [simp]:
  "fs_files (power_on fl) = fl" "fs_outcomes (power_on fl) = []" "fs_disk (power_on fl) = boot fl"
  by (simp_all add: power_on_def)

text \<open>The power fails: any state of the directory and any contents the medium may hold are found at the next start.\<close>

definition cut :: "fs \<Rightarrow> fs \<Rightarrow> bool" where
  "cut d d' \<longleftrightarrow> (\<exists>N \<in> dk_dirs (fs_disk d). \<exists>D. choice (fs_disk d) D \<and> d' = power_on (image_of N D))"

lemma cut_nothing_lost: "linked d \<Longrightarrow> cut d (power_on (fs_files d))"
  unfolding cut_def
  by (rule bexI [of _ "dk_dir (fs_disk d)"], rule exI [of _ "dk_data (fs_disk d)"]) (simp_all add: linked_def disk_wf_def choice_def)

text \<open>A file that is synced in a directory that is synced is found as it was.\<close>

lemma cut_durable:
  assumes "cut d d'" and "linked d" and "dk_dirs (fs_disk d) = {dk_dir (fs_disk d)}"
    and "bm_get (dk_dir (fs_disk d)) x = Some i" and "dk_maybe (fs_disk d) i = {dk_data (fs_disk d) i}"
  shows "fs_content x d' = fs_content x d" and "bm_wf (fs_files d')" and "fs_outcomes d' = []"
proof -
  obtain D where D: "choice (fs_disk d) D" "d' = power_on (image_of (dk_dir (fs_disk d)) D)"
    using assms(1) unfolding cut_def assms(3) by blast
  have "D i \<in> dk_maybe (fs_disk d) i" using D(1) by (simp add: choice_def)
  then show "fs_content x d' = fs_content x d"
    using assms(2,4,5) D(2) by (simp add: fs_content_def linked_def bm_get_image)
  show "bm_wf (fs_files d')" "fs_outcomes d' = []" using assms(2) D(2) by (simp_all add: linked_def disk_wf_def dir_wf_def)
qed

subsection \<open>Segment names\<close>

primrec dec_digits :: "nat \<Rightarrow> nat \<Rightarrow> string" where
  "dec_digits 0 n = []"
| "dec_digits (Suc k) n = char_of (48 + n div 10 ^ k mod 10) # dec_digits k n"

definition dec_value :: "string \<Rightarrow> nat" where
  "dec_value ds = foldl (\<lambda>a c. 10 * a + (of_char c - 48)) 0 ds"

definition is_ascii_digit :: "char \<Rightarrow> bool" where
  "is_ascii_digit c \<longleftrightarrow> 48 \<le> (of_char c :: nat) \<and> (of_char c :: nat) \<le> 57"

definition segment_path :: "u32 \<Rightarrow> string" where
  "segment_path seq = ''wal-'' @ dec_digits 10 (unat seq) @ ''.log''"

definition strip_prefix :: "string \<Rightarrow> string \<Rightarrow> string option" where
  "strip_prefix p name = (if take (length p) name = p then Some (drop (length p) name) else None)"

definition strip_suffix :: "string \<Rightarrow> string \<Rightarrow> string option" where
  "strip_suffix q name = map_option rev (strip_prefix (rev q) (rev name))"

definition segment_seq :: "string \<Rightarrow> u32 option" where
  "segment_seq name =
     (case Option.bind (strip_prefix ''wal-'' name) (strip_suffix ''.log'') of
        None \<Rightarrow> None
      | Some digits \<Rightarrow>
          if length digits \<noteq> 10 \<or> \<not> list_all is_ascii_digit digits then None
          else if dec_value digits < 2 ^ 32 then Some (word_of_nat (dec_value digits))
          else None)"

text \<open>Every segment file of the directory, sorted by name.\<close>

definition list_segments :: "fs \<Rightarrow> (string \<times> bytes) list" where
  "list_segments d = filter (\<lambda>e. segment_seq (fst e) \<noteq> None) (fs_files d)"

lemma length_dec_digits [simp]: "length (dec_digits k n) = k"
  by (induction k) simp_all

lemma of_char_digit: "(of_char (char_of (48 + n mod 10) :: char) :: nat) = 48 + n mod 10"
  by (simp add: of_char_of)

lemma digit_char_eq:
  "(char_of (48 + x mod 10) :: char) = char_of (48 + y mod 10) \<longleftrightarrow> x mod 10 = (y :: nat) mod 10"
  by (metis add_left_cancel of_char_digit)

lemma dec_digits_ascii: "list_all is_ascii_digit (dec_digits k n)"
  by (induction k) (simp_all add: is_ascii_digit_def of_char_digit)

lemma dec_value_fold:
  "foldl (\<lambda>a c. 10 * a + (of_char c - 48)) a (dec_digits k n) = a * 10 ^ k + n mod 10 ^ k"
proof (induction k arbitrary: a)
  case (Suc k)
  have "n mod 10 ^ Suc k = 10 ^ k * (n div 10 ^ k mod 10) + n mod 10 ^ k"
    by (metis mod_mult2_eq mult.commute power_Suc)
  with Suc show ?case by (simp add: of_char_digit algebra_simps)
qed simp

lemma dec_value_digits: "n < 10 ^ k \<Longrightarrow> dec_value (dec_digits k n) = n"
  by (simp add: dec_value_def dec_value_fold)

lemma u32_ten_digits: "unat (q :: u32) < 10 ^ 10"
  using unat_bound [of q] by simp

lemma strip_suffix_append [simp]: "strip_suffix q (x @ q) = Some x"
  by (simp add: strip_suffix_def strip_prefix_def)

lemma segment_seq_path [simp]: "segment_seq (segment_path q) = Some q"
  using dec_value_digits [OF u32_ten_digits [of q]] unat_bound [of q] strip_suffix_append [of "''.log''"]
  by (simp add: segment_seq_def segment_path_def strip_prefix_def dec_digits_ascii
      del: strip_suffix_append)

lemma digit_lex:
  assumes "y < (p :: nat)" and "y' < p"
  shows "p * x + y < p * x' + y' \<longleftrightarrow> x < x' \<or> x = x' \<and> y < y'"
proof (cases x x' rule: linorder_cases)
  case less
  then have "p * Suc x \<le> p * x'" by (intro mult_le_mono2) simp
  with less assms show ?thesis by simp
next
  case greater
  then have "p * Suc x' \<le> p * x" by (intro mult_le_mono2) simp
  with greater assms show ?thesis by simp
qed simp

lemma dec_digits_less:
  "dec_digits k a < dec_digits k b \<longleftrightarrow> a mod 10 ^ k < b mod 10 ^ k"
proof (induction k)
  case (Suc k)
  have split: "n mod 10 ^ Suc k = 10 ^ k * (n div 10 ^ k mod 10) + n mod 10 ^ k" for n :: nat
    by (metis mod_mult2_eq mult.commute power_Suc)
  let ?p = "(10 :: nat) ^ k"
  have lex: "?p * x + y < ?p * x' + y' \<longleftrightarrow> x < x' \<or> x = x' \<and> y < y'"
    if "y < ?p" "y' < ?p" for x x' y y' :: nat
    using that by (rule digit_lex)
  show ?case
    unfolding split dec_digits.simps bytes_less_Cons
    using Suc lex [of "a mod ?p" "b mod ?p"]
    by (simp add: less_char_def of_char_digit digit_char_eq)
qed simp

lemma segment_path_less: "segment_path a < segment_path b \<longleftrightarrow> a < b"
  using u32_ten_digits [of a] u32_ten_digits [of b]
  by (simp add: segment_path_def append_less_same_length dec_digits_less word_less_nat_alt)

end
