(* ===== verification/Wal_Log.thy ===== *)
theory Wal_Log
  imports Wal_Codec Fs
begin

text \<open>
  The segmented write-ahead log (\<^verbatim>\<open>src/wal.rs\<close>, the file half): \<open>wal\<close> is the open log, its
  operations run on a directory \<open>fs\<close> whose calls may fail. The handle of the current segment is
  its name; why a log is poisoned (a message) is dropped, that it is poisoned is kept.
\<close>

subsection \<open>The program\<close>

record wal =
  wl_seg_seq :: u32
  wl_seg_bytes :: nat
  wl_max_seg_bytes :: nat
  wl_poisoned :: bool

definition check_usable :: "wal \<Rightarrow> unit io_result" where
  "check_usable wl = (if wl_poisoned wl then Inl Other else Inr ())"

definition current_segment :: "wal \<Rightarrow> u32" where
  "current_segment wl = wl_seg_seq wl"

definition repair_tail :: "string \<Rightarrow> fs \<Rightarrow> unit io_result \<times> fs" where
  "repair_tail path d =
     (case scan_segment (\<lambda>_ _. Inr ()) (fs_content path d) () of
        Inl e \<Rightarrow> (Inl e, d)
      | Inr (_, None) \<Rightarrow> (Inr (), d)
      | Inr (_, Some off) \<Rightarrow> io_then (fs_set_len path off d) (fs_sync (Synced path)))"

definition wal_open :: "nat \<Rightarrow> fs \<Rightarrow> wal io_result \<times> fs" where
  "wal_open max_seg_bytes d =
     (let segs = list_segments d;
          seq = (if segs = [] then 1 else the (segment_seq (fst (last segs))));
          path = (if segs = [] then segment_path 1 else fst (last segs))
      in case (if fs_exists path d then repair_tail path d else (Inr (), d)) of
           (Inl e, d) \<Rightarrow> (Inl e, d)
         | (Inr _, d) \<Rightarrow>
             (case fs_open_create path d of
                (Inl e, d) \<Rightarrow> (Inl e, d)
              | (Inr _, d) \<Rightarrow>
                  let seg_bytes = length (fs_content path d) in
                  (case (if seg_bytes = 0
                         then io_then (fs_write_all path segment_header d) (fs_sync (Synced path))
                         else (Inr (), d)) of
                     (Inl e, d) \<Rightarrow> (Inl e, d)
                   | (Inr _, d) \<Rightarrow>
                       (case fs_sync SyncedDir d of
                          (Inl e, d) \<Rightarrow> (Inl e, d)
                        | (Inr _, d) \<Rightarrow>
                            (Inr \<lparr>wl_seg_seq = seq,
                                  wl_seg_bytes = (if seg_bytes = 0 then HEADER_LEN else seg_bytes),
                                  wl_max_seg_bytes = max max_seg_bytes (HEADER_LEN + MIN_RECORD),
                                  wl_poisoned = False\<rparr>, d)))))"

text \<open>Undo a failed append; if the cut itself fails the log is poisoned.\<close>

definition roll_back :: "wal \<Rightarrow> fs \<Rightarrow> wal \<times> fs" where
  "roll_back wl d =
     (case io_then (io_then (fs_set_len (segment_path (wl_seg_seq wl)) (wl_seg_bytes wl) d) fs_call)
             (fs_sync (Synced (segment_path (wl_seg_seq wl)))) of
        (Inl _, d) \<Rightarrow> (wl\<lparr>wl_poisoned := True\<rparr>, d)
      | (Inr _, d) \<Rightarrow> (wl, d))"

definition rotate_segment :: "wal \<Rightarrow> fs \<Rightarrow> u32 io_result \<times> wal \<times> fs" where
  "rotate_segment wl d =
     (case check_usable wl of Inl e \<Rightarrow> (Inl e, wl, d) | Inr _ \<Rightarrow>
     (case fs_sync (Synced (segment_path (wl_seg_seq wl))) d of (Inl e, d) \<Rightarrow> (Inl e, wl, d) | (Inr _, d) \<Rightarrow>
      if unat (wl_seg_seq wl) + 1 \<ge> 2 ^ 32 then (Inl Other, wl, d)
      else
        let nxt = wl_seg_seq wl + 1; path = segment_path nxt in
        (case fs_create_new path d of
           (Inl e, d) \<Rightarrow> (Inl e, if fs_exists path d then wl\<lparr>wl_poisoned := True\<rparr> else wl, d)
         | (Inr _, d) \<Rightarrow>
             (case io_then (fs_write_all path segment_header d) (fs_sync (Synced path)) of
                (Inl e, d) \<Rightarrow>
                  (case io_then (fs_remove path d) (fs_sync SyncedDir) of
                     (Inl _, d) \<Rightarrow> (Inl e, wl\<lparr>wl_poisoned := True\<rparr>, d)
                   | (Inr _, d) \<Rightarrow> (Inl e, wl, d))
              | (Inr _, d) \<Rightarrow>
                  (case fs_sync SyncedDir d of
                     (Inl e, d) \<Rightarrow> (Inl e, wl\<lparr>wl_poisoned := True\<rparr>, d)
                   | (Inr _, d) \<Rightarrow>
                       (Inr nxt, wl\<lparr>wl_seg_seq := nxt, wl_seg_bytes := HEADER_LEN\<rparr>, d))))))"

text \<open>The buffer of a group, or the error of the first record the framing cannot hold.\<close>

primrec encode_group :: "wal_record list \<Rightarrow> bytes io_result" where
  "encode_group [] = Inr []"
| "encode_group (rec # recs) =
     try_bind (check_ops (r_ops rec)) (\<lambda>_.
     try_bind (encode_group recs) (\<lambda>buf. Inr (encode_record rec @ buf)))"

definition append_buffer :: "bytes \<Rightarrow> wal \<Rightarrow> fs \<Rightarrow> unit io_result \<times> wal \<times> fs" where
  "append_buffer buf wl d =
     (case io_then (fs_write_all (segment_path (wl_seg_seq wl)) buf d) (fs_sync (Synced (segment_path (wl_seg_seq wl)))) of
        (Inl e, d) \<Rightarrow> (Inl e, roll_back wl d)
      | (Inr _, d) \<Rightarrow> (Inr (), wl\<lparr>wl_seg_bytes := wl_seg_bytes wl + length buf\<rparr>, d))"

definition append_many :: "wal_record list \<Rightarrow> wal \<Rightarrow> fs \<Rightarrow> unit io_result \<times> wal \<times> fs" where
  "append_many recs wl d =
     (case check_usable wl of Inl e \<Rightarrow> (Inl e, wl, d) | Inr _ \<Rightarrow>
      if recs = [] then (Inr (), wl, d)
      else
        (case encode_group recs of Inl e \<Rightarrow> (Inl e, wl, d) | Inr buf \<Rightarrow>
         if wl_seg_bytes wl + length buf > wl_max_seg_bytes wl \<and> wl_seg_bytes wl > HEADER_LEN
         then (case rotate_segment wl d of
                 (Inl e, wl, d) \<Rightarrow> (Inl e, wl, d)
               | (Inr _, wl, d) \<Rightarrow> append_buffer buf wl d)
         else append_buffer buf wl d))"

primrec remove_files :: "string list \<Rightarrow> fs \<Rightarrow> unit io_result \<times> fs" where
  "remove_files [] d = (Inr (), d)"
| "remove_files (p # ps) d = io_then (fs_remove p d) (remove_files ps)"

definition remove_segments_before :: "u32 \<Rightarrow> wal \<Rightarrow> fs \<Rightarrow> nat io_result \<times> fs" where
  "remove_segments_before seq wl d =
     (let doomed = filter (\<lambda>p. case segment_seq p of
                             Some s \<Rightarrow> s < seq \<and> s \<noteq> wl_seg_seq wl | None \<Rightarrow> False)
                     (map fst (list_segments d))
      in io_then (remove_files doomed d) (\<lambda>d.
           if doomed \<noteq> []
           then io_then (fs_sync SyncedDir d) (\<lambda>d. (Inr (length doomed), d))
           else (Inr (length doomed), d)))"

text \<open>
  \<^verbatim>\<open>replay\<close>: every segment in name order. A name that \<open>list_segments\<close> returns always parses, so
  the \<^verbatim>\<open>expect\<close> of the source (the first branch) is never taken.
\<close>

fun replay_files ::
  "(u32 \<Rightarrow> 's \<Rightarrow> wal_record \<Rightarrow> 's io_result) \<Rightarrow> (string \<times> bytes) list \<Rightarrow> 's
     \<Rightarrow> ('s \<times> nat option) io_result" where
  "replay_files sink [] s = Inr (s, None)"
| "replay_files sink ((path, f) # files) s =
     (case segment_seq path of
        None \<Rightarrow> Inl Other
      | Some seq \<Rightarrow>
          try_bind (scan_segment (sink seq) f s) (\<lambda>(s, torn).
            case torn of
              Some offset \<Rightarrow> if files \<noteq> [] then Inl InvalidData else Inr (s, Some offset)
            | None \<Rightarrow> replay_files sink files s))"

definition replay ::
  "(u32 \<Rightarrow> 's \<Rightarrow> wal_record \<Rightarrow> 's io_result) \<Rightarrow> fs \<Rightarrow> 's \<Rightarrow> ('s \<times> nat option) io_result" where
  "replay sink d s = replay_files sink (list_segments d) s"

subsection \<open>The log a directory holds\<close>

type_synonym log = "(u32 \<times> wal_record list) list"

definition files_of :: "log \<Rightarrow> (string \<times> bytes) list" where
  "files_of L = map (\<lambda>(q, rs). (segment_path q, seg_image rs)) L"

definition log_ok :: "log \<Rightarrow> bool" where
  "log_ok L \<longleftrightarrow> (\<forall>(q, rs) \<in> set L. list_all rec_ok rs)"

definition log_is :: "fs \<Rightarrow> log \<Rightarrow> bool" where
  "log_is d L \<longleftrightarrow> bm_wf (fs_files d) \<and> list_segments d = files_of L \<and> log_ok L"

text \<open>The records of a log in replay order, each with the number of its segment.\<close>

definition log_records :: "log \<Rightarrow> (u32 \<times> wal_record) list" where
  "log_records L = concat (map (\<lambda>(q, rs). map (Pair q) rs) L)"

text \<open>An open log and the directory agree: the current segment is the last and ends cleanly.\<close>

definition wal_inv :: "wal \<Rightarrow> fs \<Rightarrow> log \<Rightarrow> bool" where
  "wal_inv wl d L \<longleftrightarrow> log_is d L \<and> L \<noteq> [] \<and> fst (last L) = wl_seg_seq wl
     \<and> wl_seg_bytes wl = length (seg_image (snd (last L)))"

lemma files_of_simps [simp]:
  "files_of [] = []"
  "files_of (L @ L') = files_of L @ files_of L'"
  "files_of ((q, rs) # L) = (segment_path q, seg_image rs) # files_of L"
  by (simp_all add: files_of_def)

lemma log_ok_simps [simp]:
  "log_ok []" "log_ok (L @ L') \<longleftrightarrow> log_ok L \<and> log_ok L'"
  "log_ok ((q, rs) # L) \<longleftrightarrow> list_all rec_ok rs \<and> log_ok L"
  by (auto simp: log_ok_def)

lemma log_records_simps [simp]:
  "log_records [] = []"
  "log_records (L @ L') = log_records L @ log_records L'"
  "log_records ((q, rs) # L) = map (Pair q) rs @ log_records L"
  by (simp_all add: log_records_def)

lemma list_segments_files: "fs_files d' = fs_files d \<Longrightarrow> list_segments d' = list_segments d"
  by (simp add: list_segments_def)

lemma log_is_files: "fs_files d' = fs_files d \<Longrightarrow> log_is d' L \<longleftrightarrow> log_is d L"
  by (simp add: log_is_def list_segments_def)

lemma wal_inv_files: "fs_files d' = fs_files d \<Longrightarrow> wal_inv wl d' L \<longleftrightarrow> wal_inv wl d L"
  by (simp add: wal_inv_def log_is_files [of d' d])

lemma bm_wf_list_segments: "bm_wf (fs_files d) \<Longrightarrow> bm_wf (list_segments d)"
  by (simp add: list_segments_def bm_wf_filter)

lemma list_segments_set:
  assumes "bm_wf (fs_files d)"
  shows "list_segments (fs_set (segment_path q) c d) = bm_insert (segment_path q) c (list_segments d)"
  using filter_bm_insert [OF assms, of "\<lambda>n. segment_seq n \<noteq> None" "segment_path q"]
  by (simp add: list_segments_def)

lemma list_segments_set_last:
  assumes "bm_wf (fs_files d)" and "list_segments d = fl @ [(segment_path q, old)]"
  shows "list_segments (fs_set (segment_path q) c d) = fl @ [(segment_path q, c)]"
  using bm_wf_list_segments [OF assms(1)] assms
  by (simp add: list_segments_set bm_insert_replace_last)

lemma fs_content_segment:
  assumes "bm_wf (fs_files d)" and "(segment_path q, c) \<in> set (list_segments d)"
  shows "fs_content (segment_path q) d = c" and "fs_exists (segment_path q) d"
proof -
  have "(segment_path q, c) \<in> set (fs_files d)" using assms(2) by (simp add: list_segments_def)
  then have "bm_get (fs_files d) (segment_path q) = Some c"
    using bm_wf_distinct [OF assms(1)] by simp
  then show "fs_content (segment_path q) d = c" "fs_exists (segment_path q) d"
    by (simp_all add: fs_content_def fs_exists_def)
qed

lemma sink_all_pair:
  "sink_all (\<lambda>s p. sink (fst p) s (snd p)) s (map (Pair q) rs) = sink_all (sink q) s rs"
  by (induction rs arbitrary: s) simp_all

lemma replay_files_append:
  assumes "log_ok L"
  shows "replay_files sink (files_of L @ fl) s =
    try_bind (sink_all (\<lambda>s p. sink (fst p) s (snd p)) s (log_records L)) (replay_files sink fl)"
  using assms
proof (induction L arbitrary: s)
  case (Cons p L)
  obtain q rs where p: "p = (q, rs)" by (cases p)
  with Cons show ?case
    by (simp add: scan_image sink_all_append sink_all_pair)
      (cases "sink_all (sink q) s rs"; simp)
qed simp

lemma replay_log:
  assumes "log_is d L"
  shows "replay sink d s =
    try_bind (sink_all (\<lambda>s p. sink (fst p) s (snd p)) s (log_records L)) (\<lambda>s. Inr (s, None))"
  using replay_files_append [of L sink "[]" s] assms
  by (simp add: replay_def log_is_def try_bind_def cong: sum.case_cong)

subsection \<open>What each call leaves behind\<close>

text \<open>
  A directory that an append of \<open>new\<close> to the log \<open>L\<close> may leave, whether it succeeded, failed, or
  was cut short by a crash: part of the group's bytes at the end of the last segment, or a
  half-born segment after it.
\<close>

definition crash_log :: "fs \<Rightarrow> log \<Rightarrow> wal_record list \<Rightarrow> bool" where
  "crash_log d L new \<longleftrightarrow> bm_wf (fs_files d) \<and> log_ok L \<and> list_all rec_ok new \<and>
     ((\<exists>Li q rs n. L = Li @ [(q, rs)] \<and> n \<le> length (wal.frames new) \<and>
         list_segments d = files_of Li @ [(segment_path q, seg_image rs @ take n (wal.frames new))])
      \<or> (\<exists>q m. m \<le> HEADER_LEN \<and>
           list_segments d = files_of L @ [(segment_path q, take m segment_header)]))"

lemma crash_log_files: "fs_files d' = fs_files d \<Longrightarrow> crash_log d' L new \<longleftrightarrow> crash_log d L new"
  by (simp add: crash_log_def list_segments_def)

lemma wal_inv_snoc:
  "wal_inv wl d L \<longleftrightarrow> (\<exists>Li rs. L = Li @ [(wl_seg_seq wl, rs)] \<and> log_is d L
     \<and> wl_seg_bytes wl = length (seg_image rs))"
  by (cases L rule: rev_cases) (auto simp: wal_inv_def)

lemma wal_inv_crash_log:
  assumes "wal_inv wl d L" and "list_all rec_ok new"
  shows "crash_log d L new"
proof -
  obtain Li rs where "L = Li @ [(wl_seg_seq wl, rs)]" and "log_is d L"
    using assms(1) by (auto simp: wal_inv_snoc)
  then show ?thesis
    using assms(2) unfolding crash_log_def log_is_def
    by (intro conjI disjI1 exI [of _ Li] exI [of _ "wl_seg_seq wl"] exI [of _ rs] exI [of _ 0]) auto
qed

text \<open>Write and sync: all of the buffer, or some part of it and an error.\<close>

lemma write_sync_cases:
  assumes "io_then (fs_write_all path buf d) (fs_sync ev) = (res, d')"
  obtains n where "n \<le> length buf" and "res = Inr () \<Longrightarrow> n = length buf"
    and "fs_files d' = bm_insert path (fs_content path d @ take n buf) (fs_files d)"
proof -
  obtain out d1 where d1: "next_io d = (out, d1)" by (cases "next_io d")
  have same: "fs_content path d1 = fs_content path d"
    by (rule fs_content_files) (use d1 in simp)
  let ?d = "fs_set path (fs_content path d @ buf) (fs_note (Wrote path buf) d1)"
  obtain out2 d2 where d2: "next_io ?d = (out2, d2)" by (cases "next_io ?d")
  show thesis
  proof (cases out)
    case IoOk
    then show ?thesis
      using assms that [of "length buf"] d1 d2 same
      by (auto simp: fs_write_all_def fs_sync_def split: io_outcome.splits)
  next
    case (IoErr k n)
    then show ?thesis
      using assms that [of "min n (length buf)"] d1 same
      by (auto simp: fs_write_all_def min_def split: if_splits)
  qed
qed

lemma set_len_cases:
  assumes "fs_set_len path n d = (res, d')" and "n \<le> length (fs_content path d)"
  shows "(res = Inr () \<and> fs_files d' = bm_insert path (take n (fs_content path d)) (fs_files d))
    \<or> (\<exists>e. res = Inl e \<and> fs_files d' = fs_files d)"
proof -
  obtain out d1 where d1: "next_io d = (out, d1)" by (cases "next_io d")
  have "fs_content path d1 = fs_content path d"
    by (rule fs_content_files) (use d1 in simp)
  then show ?thesis
    using assms d1 by (cases out) (auto simp: fs_set_len_def Let_def)
qed

lemma roll_back_cases:
  assumes "roll_back wl d = (wl', d')"
    and "wl_seg_bytes wl \<le> length (fs_content (segment_path (wl_seg_seq wl)) d)"
  shows "(wl' = wl \<and> fs_files d' = bm_insert (segment_path (wl_seg_seq wl))
           (take (wl_seg_bytes wl) (fs_content (segment_path (wl_seg_seq wl)) d)) (fs_files d))
    \<or> (wl' = wl\<lparr>wl_poisoned := True\<rparr> \<and> (fs_files d' = fs_files d
         \<or> fs_files d' = bm_insert (segment_path (wl_seg_seq wl))
           (take (wl_seg_bytes wl) (fs_content (segment_path (wl_seg_seq wl)) d)) (fs_files d)))"
proof -
  let ?path = "segment_path (wl_seg_seq wl)"
  obtain r1 d1 where c1: "fs_set_len ?path (wl_seg_bytes wl) d = (r1, d1)" by force
  obtain r2 d2 where c2: "io_then (r1, d1) fs_call = (r2, d2)" by force
  obtain r3 d3 where c3: "io_then (r2, d2) (fs_sync (Synced (segment_path (wl_seg_seq wl)))) = (r3, d3)" by force
  have fl: "fs_files d3 = fs_files d1"
    using io_then_call(1) [OF c2] io_then_sync(1) [OF c3] by simp
  have wl': "(wl', d') = (if (\<exists>e. r3 = Inl e) then wl\<lparr>wl_poisoned := True\<rparr> else wl, d3)"
    using assms(1) c1 c2 c3 by (auto simp: roll_back_def split: sum.splits)
  have ok: "\<exists>x. r1 = Inr x" if "r3 = Inr ()"
    using io_then_sync(2) [OF c3 that] io_then_call(2) [OF c2] by auto
  from set_len_cases [OF c1 assms(2)] show ?thesis
    using wl' fl ok by (cases r3) auto
qed

lemma segs_after_insert:
  assumes "bm_wf (fs_files d)" and "list_segments d = fl @ [(segment_path q, old)]"
    and "fs_files d' = bm_insert (segment_path q) c (fs_files d)"
  shows "bm_wf (fs_files d')" and "list_segments d' = fl @ [(segment_path q, c)]"
    and "fs_content (segment_path q) d' = c"
proof -
  show wf: "bm_wf (fs_files d')" using assms(1,3) by (simp add: bm_wf_insert)
  show "list_segments d' = fl @ [(segment_path q, c)]"
    using list_segments_set_last [OF assms(1,2), of c] assms(3)
    by (simp add: list_segments_def fs_set_def)
  then show "fs_content (segment_path q) d' = c"
    using wf by (intro fs_content_segment) simp_all
qed

lemma append_buffer_spec:
  assumes inv: "wal_inv wl d L" and L: "L = Li @ [(wl_seg_seq wl, rs)]"
    and ok: "list_all rec_ok recs"
    and run: "append_buffer (wal.frames recs) wl d = (res, wl', d')"
  shows "crash_log d' L recs"
    and "res = Inr () \<Longrightarrow> wal_inv wl' d' (Li @ [(wl_seg_seq wl, rs @ recs)])
           \<and> wl_poisoned wl' = wl_poisoned wl \<and> wl_seg_seq wl' = wl_seg_seq wl"
    and "res = Inl e \<Longrightarrow> wl' = wl\<lparr>wl_poisoned := True\<rparr> \<or> wl' = wl \<and> wal_inv wl d' L"
proof -
  let ?q = "wl_seg_seq wl" and ?buf = "wal.frames recs"
  have wf: "bm_wf (fs_files d)" and lok: "log_ok L" and bytes: "wl_seg_bytes wl = length (seg_image rs)"
    and segs: "list_segments d = files_of Li @ [(segment_path ?q, seg_image rs)]"
    using inv L by (auto simp: wal_inv_def log_is_def)
  have content: "fs_content (segment_path ?q) d = seg_image rs"
    using fs_content_segment(1) [OF wf] segs by simp
  obtain r1 d1 where w: "io_then (fs_write_all (segment_path ?q) ?buf d) (fs_sync (Synced (segment_path ?q))) = (r1, d1)" by force
  obtain n where n: "n \<le> length ?buf" "r1 = Inr () \<Longrightarrow> n = length ?buf"
      "fs_files d1 = bm_insert (segment_path ?q) (seg_image rs @ take n ?buf) (fs_files d)"
    using write_sync_cases [OF w] content by metis
  note d1 = segs_after_insert [OF wf segs n(3)]
  have cut: "bm_wf (fs_files d2) \<and> list_segments d2 = files_of L"
    if "fs_files d2 = bm_insert (segment_path ?q) (seg_image rs) (fs_files d1)" for d2
    using segs_after_insert [OF d1(1,2) that] L by simp
  have cl1: "crash_log d2 L recs" if "fs_files d2 = fs_files d1" for d2
    using d1 L lok ok n(1) that by (auto simp: crash_log_def list_segments_files [OF that])
  have inv2: "wal_inv wl d2 L" if "fs_files d2 = bm_insert (segment_path ?q) (seg_image rs) (fs_files d1)" for d2
    using cut [OF that] lok inv by (simp add: wal_inv_def log_is_def)
  have "crash_log d' L recs \<and>
    (res = Inr () \<longrightarrow> wal_inv wl' d' (Li @ [(?q, rs @ recs)]) \<and> wl_poisoned wl' = wl_poisoned wl
      \<and> wl_seg_seq wl' = wl_seg_seq wl) \<and>
    (\<forall>e. res = Inl e \<longrightarrow> wl' = wl\<lparr>wl_poisoned := True\<rparr> \<or> wl' = wl \<and> wal_inv wl d' L)"
  proof (cases r1)
    case (Inl e1)
    then have res: "res = Inl e1" and rb: "roll_back wl d1 = (wl', d')"
      using run w by (simp_all add: append_buffer_def)
    have "wl_seg_bytes wl \<le> length (fs_content (segment_path ?q) d1)"
      by (simp add: d1(3) bytes)
    from roll_back_cases [OF rb this] show ?thesis
      using res cl1 [of d'] inv2 [of d'] wal_inv_crash_log [OF inv2 ok, of d'] by (auto simp: d1(3) bytes)
  next
    case (Inr x)
    then have "r1 = Inr ()" by simp
    with n(2) have full: "take n ?buf = ?buf" by simp
    have res: "res = Inr ()" "wl' = wl\<lparr>wl_seg_bytes := wl_seg_bytes wl + length ?buf\<rparr>" "d' = d1"
      using run w Inr by (simp_all add: append_buffer_def)
    have "wal_inv wl' d' (Li @ [(?q, rs @ recs)])"
      using d1(1,2) lok L ok res(2,3) full bytes
      by (simp add: wal_inv_def log_is_def seg_image_append)
    with res cl1 show ?thesis by simp
  qed
  then show "crash_log d' L recs"
    and "res = Inr () \<Longrightarrow> wal_inv wl' d' (Li @ [(?q, rs @ recs)]) \<and> wl_poisoned wl' = wl_poisoned wl
        \<and> wl_seg_seq wl' = ?q"
    and "res = Inl e \<Longrightarrow> wl' = wl\<lparr>wl_poisoned := True\<rparr> \<or> wl' = wl \<and> wal_inv wl d' L"
    by auto
qed

subsection \<open>Rotation\<close>

lemma segs_below_next:
  assumes "wal_inv wl d L" and "unat (wl_seg_seq wl) + 1 < 2 ^ 32"
  shows "\<forall>e \<in> set (list_segments d). fst e < segment_path (wl_seg_seq wl + 1)"
proof -
  have "wl_seg_seq wl < wl_seg_seq wl + 1"
    using assms(2) by (simp add: word_less_nat_alt unat_word_ariths)
  then have lt: "segment_path (wl_seg_seq wl) < segment_path (wl_seg_seq wl + 1)"
    by (simp add: segment_path_less)
  obtain Li rs where segs: "list_segments d = files_of Li @ [(segment_path (wl_seg_seq wl), seg_image rs)]"
    using assms(1) by (auto simp: wal_inv_snoc log_is_def)
  have "bm_wf (list_segments d)"
    using assms(1) bm_wf_list_segments [of d] by (simp add: wal_inv_def log_is_def)
  then have "\<forall>e \<in> set (files_of Li). fst e < segment_path (wl_seg_seq wl)"
    by (simp add: segs bm_wf_def sorted_wrt_append)
  with lt show ?thesis by (auto simp: segs)
qed

lemma fs_exists_segment:
  assumes "bm_wf (fs_files d)"
  shows "fs_exists (segment_path q) d \<longleftrightarrow> segment_path q \<in> fst ` set (list_segments d)"
proof -
  have "fs_exists (segment_path q) d \<longleftrightarrow> segment_path q \<in> fst ` set (fs_files d)"
    by (auto simp: fs_exists_def map_of_eq_None_iff)
  also have "\<dots> \<longleftrightarrow> segment_path q \<in> fst ` set (list_segments d)"
    by (force simp: list_segments_def)
  finally show ?thesis .
qed

text \<open>The next segment's file put after the log, with any content.\<close>

lemma segs_with_next:
  assumes "wal_inv wl d L" and "unat (wl_seg_seq wl) + 1 < 2 ^ 32"
    and "fs_files d' = bm_insert (segment_path (wl_seg_seq wl + 1)) c (fs_files d)"
  shows "bm_wf (fs_files d')"
    and "list_segments d' = files_of L @ [(segment_path (wl_seg_seq wl + 1), c)]"
    and "bm_remove (segment_path (wl_seg_seq wl + 1)) (fs_files d') = fs_files d"
proof -
  let ?n = "segment_path (wl_seg_seq wl + 1)"
  note below = segs_below_next [OF assms(1,2)]
  have wf: "bm_wf (fs_files d)" and segs: "list_segments d = files_of L"
    using assms(1) by (simp_all add: wal_inv_def log_is_def)
  show wf': "bm_wf (fs_files d')" using wf assms(3) by (simp add: bm_wf_insert)
  have "list_segments d' = list_segments (fs_set ?n c d)" using assms(3) by (simp add: list_segments_def)
  also have "\<dots> = list_segments d @ [(?n, c)]"
    using below by (simp add: list_segments_set [OF wf] bm_insert_last)
  finally show "list_segments d' = files_of L @ [(?n, c)]" by (simp add: segs)
  have "bm_get (fs_files d) ?n = None"
    using fs_exists_segment [OF wf, of "wl_seg_seq wl + 1"] below by (auto simp: fs_exists_def)
  then show "bm_remove ?n (fs_files d') = fs_files d"
    using wf wf' assms(3)
    by (intro bm_ext) (auto simp: bm_wf_remove bm_get_remove bm_get_insert fun_eq_iff)
qed

lemma create_new_cases:
  assumes "fs_create_new path d = (res, d')" and "\<not> fs_exists path d"
  shows "res = Inr () \<and> fs_files d' = bm_insert path [] (fs_files d)
    \<or> (\<exists>e. res = Inl e \<and> (fs_files d' = fs_files d \<or> fs_files d' = bm_insert path [] (fs_files d)))"
proof -
  obtain out d1 where d1: "next_io d = (out, d1)" by (cases "next_io d")
  then have "\<not> fs_exists path d1" using assms(2) by (simp add: fs_exists_files [of d1 d])
  then show ?thesis
    using assms(1) d1 by (cases out) (auto simp: fs_create_new_def split: if_splits)
qed

lemma remove_sync_cases:
  assumes "io_then (fs_remove path d) (fs_sync ev) = (res, d')"
  shows "res = Inr () \<and> fs_files d' = bm_remove path (fs_files d)
    \<or> (\<exists>e. res = Inl e \<and> (fs_files d' = fs_files d \<or> fs_files d' = bm_remove path (fs_files d)))"
proof -
  obtain out d1 where d1: "next_io d = (out, d1)" by (cases "next_io d")
  then show ?thesis
    using assms
    by (cases out) (auto simp: fs_remove_def split: if_splits sum.splits dest!: sync_files
        intro: unit.exhaust, (metis old.unit.exhaust sum.exhaust)+)
qed

text \<open>The steps of a rotation, from the directory \<open>d0\<close> in which the next segment does not exist.\<close>

lemma next_segment_half:
  assumes "wal_inv wl d0 L" and "unat (wl_seg_seq wl) + 1 < 2 ^ 32" and "list_all rec_ok new"
    and "fs_files d2 = bm_insert (segment_path (wl_seg_seq wl + 1)) (take m segment_header) (fs_files d0)" and "m \<le> HEADER_LEN"
  shows "crash_log d2 L new"
  using segs_with_next(1,2) [OF assms(1,2,4)] assms(1,3,5) by (auto simp: crash_log_def wal_inv_def log_is_def)

lemma next_segment_header:
  assumes "bm_wf (fs_files d0)" and "fs_files d1 = bm_insert path [] (fs_files d0)"
    and "io_then (fs_write_all path segment_header d1) (fs_sync ev) = (r2, d2)"
  obtains m where "m \<le> HEADER_LEN" and "r2 = Inr () \<Longrightarrow> m = HEADER_LEN"
    and "fs_files d2 = bm_insert path (take m segment_header) (fs_files d0)"
proof -
  have "fs_content path d1 = []" by (simp add: fs_content_def assms(2) bm_get_insert assms(1))
  then show thesis
    using write_sync_cases [OF assms(3)] assms(2) bm_insert_twice [OF assms(1)] that
    by (metis append_Nil length_segment_header)
qed

lemma next_segment_removed:
  assumes inv: "wal_inv wl d0 L" and small: "unat (wl_seg_seq wl) + 1 < 2 ^ 32" and ok: "list_all rec_ok new"
    and f2: "fs_files d2 = bm_insert (segment_path (wl_seg_seq wl + 1)) (take m segment_header) (fs_files d0)"
    and m: "m \<le> HEADER_LEN" and c3: "io_then (fs_remove (segment_path (wl_seg_seq wl + 1)) d2) (fs_sync ev) = (r3, d3)"
  shows "crash_log d3 L new" and "r3 = Inr () \<Longrightarrow> wal_inv wl d3 L"
proof -
  have gone: "wal_inv wl d3 L" if "fs_files d3 = bm_remove (segment_path (wl_seg_seq wl + 1)) (fs_files d2)"
    using that segs_with_next(3) [OF inv small f2] inv wal_inv_files [of d3 d0 wl L] by simp
  show "crash_log d3 L new"
    using remove_sync_cases [OF c3] next_segment_half [OF inv small ok f2 m] crash_log_files [of d3 d2] gone
      wal_inv_crash_log [OF _ ok, of wl d3 L] by auto
  show "wal_inv wl d3 L" if "r3 = Inr ()" using remove_sync_cases [OF c3] gone that by auto
qed

lemma next_segment_synced:
  assumes inv: "wal_inv wl d0 L" and small: "unat (wl_seg_seq wl) + 1 < 2 ^ 32"
    and f2: "fs_files d2 = bm_insert (segment_path (wl_seg_seq wl + 1)) (take HEADER_LEN segment_header) (fs_files d0)"
    and c3: "fs_sync ev d2 = (r3, d3)"
  shows "wal_inv (wl\<lparr>wl_seg_seq := wl_seg_seq wl + 1, wl_seg_bytes := HEADER_LEN\<rparr>) d3 (L @ [(wl_seg_seq wl + 1, [])])"
proof -
  have "list_segments d3 = files_of (L @ [(wl_seg_seq wl + 1, [])])" "bm_wf (fs_files d3)"
    using segs_with_next(1,2) [OF inv small f2] sync_files [OF c3]
    by (simp_all add: list_segments_files [of d3 d2] seg_image_def)
  with inv show ?thesis by (simp add: wal_inv_def log_is_def seg_image_def)
qed

lemma next_segment_ends:
  assumes inv: "wal_inv wl d0 L" and small: "unat (wl_seg_seq wl) + 1 < 2 ^ 32" and ok: "list_all rec_ok new"
    and f1: "fs_files d1 = bm_insert (segment_path (wl_seg_seq wl + 1)) [] (fs_files d0)"
    and c2: "io_then (fs_write_all (segment_path (wl_seg_seq wl + 1)) segment_header d1) (fs_sync ev) = (r2, d2)"
    and c3: "io_then (fs_remove (segment_path (wl_seg_seq wl + 1)) d2) (fs_sync ev2) = (r3, d3)" and c4: "fs_sync ev3 d2 = (r4, d4)"
  shows "crash_log d3 L new" and "r3 = Inr () \<Longrightarrow> wal_inv wl d3 L" and "crash_log d4 L new"
    and "r2 = Inr () \<Longrightarrow>
      wal_inv (wl\<lparr>wl_seg_seq := wl_seg_seq wl + 1, wl_seg_bytes := HEADER_LEN\<rparr>) d4 (L @ [(wl_seg_seq wl + 1, [])])"
proof -
  have wf0: "bm_wf (fs_files d0)" using inv by (simp add: wal_inv_def log_is_def)
  obtain m where m: "m \<le> HEADER_LEN" "r2 = Inr () \<Longrightarrow> m = HEADER_LEN"
      "fs_files d2 = bm_insert (segment_path (wl_seg_seq wl + 1)) (take m segment_header) (fs_files d0)"
    using next_segment_header [OF wf0 f1 c2] by metis
  show "crash_log d3 L new" and "r3 = Inr () \<Longrightarrow> wal_inv wl d3 L"
    using next_segment_removed [OF inv small ok m(3,1) c3] by simp_all
  show "crash_log d4 L new"
    using next_segment_half [OF inv small ok m(3,1)] crash_log_files [OF sync_files [OF c4]] by simp
  show "wal_inv (wl\<lparr>wl_seg_seq := wl_seg_seq wl + 1, wl_seg_bytes := HEADER_LEN\<rparr>) d4 (L @ [(wl_seg_seq wl + 1, [])])"
    if "r2 = Inr ()" using next_segment_synced [OF inv small _ c4] m(3) m(2) [OF that] by simp
qed

lemma rotate_segment_spec:
  assumes inv: "wal_inv wl d L" and usable: "\<not> wl_poisoned wl" and ok: "list_all rec_ok new"
    and run: "rotate_segment wl d = (res, wl', d')"
  shows "res = Inr nxt \<Longrightarrow> nxt = wl_seg_seq wl + 1 \<and> wl_seg_seq wl' = nxt \<and> wl_seg_seq wl < nxt \<and> wal_inv wl' d' (L @ [(nxt, [])])
           \<and> wl_max_seg_bytes wl' = wl_max_seg_bytes wl \<and> \<not> wl_poisoned wl'"
    and "res = Inl e \<Longrightarrow> wl' = wl \<and> wal_inv wl d' L \<or> wl' = wl\<lparr>wl_poisoned := True\<rparr> \<and> crash_log d' L new"
proof -
  let ?path = "segment_path (wl_seg_seq wl + 1)" and ?next = "wl\<lparr>wl_seg_seq := wl_seg_seq wl + 1, wl_seg_bytes := HEADER_LEN\<rparr>"
  obtain r0 d0 where c0: "fs_sync (Synced (segment_path (wl_seg_seq wl))) d = (r0, d0)" by force
  have inv0: "wal_inv wl d0 L" using inv sync_files [OF c0] by (simp add: wal_inv_files [of d0 d])
  have "(\<exists>e. res = Inl e \<and> wl' = wl \<and> wal_inv wl d' L) \<or> (\<exists>e. res = Inl e \<and> wl' = wl\<lparr>wl_poisoned := True\<rparr> \<and> crash_log d' L new)
    \<or> res = Inr (wl_seg_seq wl + 1) \<and> wl' = ?next \<and> unat (wl_seg_seq wl) + 1 < 2 ^ 32 \<and> wal_inv ?next d' (L @ [(wl_seg_seq wl + 1, [])])"
  proof (cases "(\<exists>e. r0 = Inl e) \<or> unat (wl_seg_seq wl) + 1 \<ge> 2 ^ 32")
    case True
    then show ?thesis
      using run usable c0 inv0 by (auto simp: rotate_segment_def check_usable_def split: sum.splits)
  next
    case False
    then have small: "unat (wl_seg_seq wl) + 1 < 2 ^ 32" by simp
    have wf0: "bm_wf (fs_files d0)" using inv0 by (simp add: wal_inv_def log_is_def)
    have fresh: "\<not> fs_exists ?path d0"
      using fs_exists_segment [OF wf0] segs_below_next [OF inv0 small] by auto
    obtain r1 d1 where c1: "fs_create_new ?path d0 = (r1, d1)" by force
    note created = create_new_cases [OF c1 fresh]
    show ?thesis
    proof (cases r1)
      case (Inl e1)
      then have "(res, wl', d') = (Inl e1, if fs_exists ?path d1 then wl\<lparr>wl_poisoned := True\<rparr> else wl, d1)"
        using run usable c0 c1 False by (auto simp: rotate_segment_def check_usable_def Let_def split: sum.splits)
      moreover have "fs_exists ?path d1 \<or> fs_files d1 = fs_files d0"
        using created Inl wf0 by (auto simp: fs_exists_def bm_get_insert)
      moreover have "fs_exists ?path d1 \<longrightarrow> crash_log d1 L new"
        using created Inl next_segment_half [OF inv0 small ok, of d1 0] fresh by (auto simp: fs_exists_def)
      ultimately show ?thesis
        using inv0 by (auto simp: wal_inv_files [of d1 d0] split: if_splits)
    next
      case (Inr u1)
      obtain r2 d2 where c2: "io_then (fs_write_all ?path segment_header d1) (fs_sync (Synced ?path)) = (r2, d2)" by force
      obtain r3 d3 where c3: "io_then (fs_remove ?path d2) (fs_sync SyncedDir) = (r3, d3)" by force
      obtain r4 d4 where c4: "fs_sync SyncedDir d2 = (r4, d4)" by force
      have step: "(res, wl', d') = (case r2 of
          Inl e \<Rightarrow> (Inl e, if (\<exists>e. r3 = Inl e) then wl\<lparr>wl_poisoned := True\<rparr> else wl, d3)
        | Inr _ \<Rightarrow> (case r4 of Inl e \<Rightarrow> (Inl e, wl\<lparr>wl_poisoned := True\<rparr>, d4) | Inr _ \<Rightarrow> (Inr (wl_seg_seq wl + 1), ?next, d4)))"
        using run usable c0 c1 c2 c3 c4 False Inr
        by (auto simp: rotate_segment_def check_usable_def Let_def split: sum.splits)
      have f1: "fs_files d1 = bm_insert ?path [] (fs_files d0)" using created Inr by auto
      note fin = next_segment_ends [OF inv0 small ok f1 c2 c3 c4]
      show ?thesis using step fin small by (cases r2; cases r3; cases r4) auto
    qed
  qed
  moreover have "wl_seg_seq wl < wl_seg_seq wl + 1" if "unat (wl_seg_seq wl) + 1 < 2 ^ 32"
    using that by (simp add: word_less_nat_alt unat_word_ariths)
  ultimately show "res = Inr nxt \<Longrightarrow> nxt = wl_seg_seq wl + 1 \<and> wl_seg_seq wl' = nxt \<and> wl_seg_seq wl < nxt \<and> wal_inv wl' d' (L @ [(nxt, [])])
           \<and> wl_max_seg_bytes wl' = wl_max_seg_bytes wl \<and> \<not> wl_poisoned wl'"
    and "res = Inl e \<Longrightarrow> wl' = wl \<and> wal_inv wl d' L \<or> wl' = wl\<lparr>wl_poisoned := True\<rparr> \<and> crash_log d' L new"
    using usable by auto
qed

subsection \<open>Appending a group\<close>

lemma encode_group_Inr:
  "encode_group recs = Inr buf \<longleftrightarrow> list_all rec_ok recs \<and> buf = wal.frames recs"
  by (induction recs arbitrary: buf) (auto simp: try_bind_Inr_iff rec_ok_def)

text \<open>
  The outcome of an append, whatever calls fail. \<open>L'\<close> is the log after a rotation the append may
  have made first; it holds the same records.
\<close>

text \<open>What an append leaves: the records of the log are the old ones, with the new ones whole after it or cut by a crash.\<close>

definition append_post ::
  "wal_record list \<Rightarrow> wal \<Rightarrow> fs \<Rightarrow> log \<Rightarrow> unit io_result \<Rightarrow> wal \<Rightarrow> fs \<Rightarrow> log \<Rightarrow> bool" where
  "append_post recs wl d L res wl' d' L' \<longleftrightarrow> log_records L' = log_records L
     \<and> (list_all rec_ok recs \<longrightarrow> crash_log d' L' recs)
     \<and> (res = Inr () \<longrightarrow> list_all rec_ok recs \<and> \<not> wl_poisoned wl' \<and>
           (\<exists>L2. wal_inv wl' d' L2 \<and> log_records L2 = log_records L @ map (Pair (wl_seg_seq wl')) recs))
     \<and> (\<forall>e. res = Inl e \<longrightarrow> (\<not> wl_poisoned wl' \<longrightarrow> wal_inv wl' d' L') \<and> L' \<noteq> [] \<and> fst (last L') = wl_seg_seq wl')
     \<and> wl_seg_seq wl \<le> wl_seg_seq wl'
     \<and> (\<not> list_all rec_ok recs \<longrightarrow> (\<exists>e. res = Inl e) \<and> wl' = wl \<and> d' = d)"

lemma append_many_trivial:
  assumes inv: "wal_inv wl d L" and usable: "\<not> wl_poisoned wl" and triv: "recs = [] \<or> \<not> list_all rec_ok recs"
    and run: "append_many recs wl d = (res, wl', d')"
  shows "append_post recs wl d L res wl' d' L"
proof -
  have "(if recs = [] then res = Inr () else \<exists>e. res = Inl e) \<and> wl' = wl \<and> d' = d"
    using run usable triv
    by (cases "encode_group recs") (auto simp: append_many_def check_usable_def encode_group_Inr split: if_splits)
  then have "recs = [] \<and> res = Inr () \<and> wl' = wl \<and> d' = d \<or> \<not> list_all rec_ok recs \<and> (\<exists>e. res = Inl e) \<and> wl' = wl \<and> d' = d"
    using triv by (auto split: if_splits)
  moreover have "crash_log d L []" using wal_inv_crash_log [OF inv, of "[]"] by simp
  moreover have "L \<noteq> [] \<and> fst (last L) = wl_seg_seq wl" using inv by (simp add: wal_inv_def)
  ultimately show ?thesis using inv usable by (auto simp: append_post_def)
qed

lemma append_many_rotates:
  assumes inv: "wal_inv wl d L" and usable: "\<not> wl_poisoned wl" and ok: "list_all rec_ok recs"
    and run: "rotate_segment wl d = (Inl e, wl', d')"
  shows "append_post recs wl d L (Inl e) wl' d' L"
proof -
  have "L \<noteq> [] \<and> fst (last L) = wl_seg_seq wl" using inv by (simp add: wal_inv_def)
  with rotate_segment_spec(2) [OF inv usable ok run refl] usable wal_inv_crash_log [OF _ ok, of wl d' L] ok show ?thesis
    by (auto simp: append_post_def)
qed

lemma append_many_writes:
  assumes inv: "wal_inv wl1 d1 L1" and same: "log_records L1 = log_records L" and usable: "\<not> wl_poisoned wl1"
    and mono: "wl_seg_seq wl \<le> wl_seg_seq wl1" and ok: "list_all rec_ok recs"
    and run: "append_buffer (wal.frames recs) wl1 d1 = (res, wl', d')"
  shows "append_post recs wl d L res wl' d' L1"
proof -
  obtain Li rs where L1: "L1 = Li @ [(wl_seg_seq wl1, rs)]" using inv by (auto simp: wal_inv_snoc)
  note spec = append_buffer_spec [OF inv L1 ok run]
  have seq: "wl_seg_seq wl' = wl_seg_seq wl1" using spec(2,3) by (cases res) auto
  have "log_records (Li @ [(wl_seg_seq wl1, rs @ recs)]) = log_records L @ map (Pair (wl_seg_seq wl')) recs"
    unfolding same [symmetric] L1 using seq by simp
  with spec(2) have "\<exists>L2. wal_inv wl' d' L2 \<and> log_records L2 = log_records L @ map (Pair (wl_seg_seq wl')) recs" if "res = Inr ()"
    using that by blast
  moreover have "L1 \<noteq> [] \<and> fst (last L1) = wl_seg_seq wl'" using L1 seq by simp
  ultimately show ?thesis
    unfolding append_post_def using spec same usable ok mono seq by fastforce
qed

lemma append_many_spec:
  assumes inv: "wal_inv wl d L" and usable: "\<not> wl_poisoned wl" and run: "append_many recs wl d = (res, wl', d')"
  obtains L' where "append_post recs wl d L res wl' d' L'"
proof (cases "recs = [] \<or> \<not> list_all rec_ok recs")
  case True
  from that [OF append_many_trivial [OF inv usable True run]] show thesis .
next
  case False
  then have ok: "list_all rec_ok recs" and enc: "encode_group recs = Inr (wal.frames recs)"
    by (simp_all add: encode_group_Inr)
  show thesis
  proof (cases "wl_seg_bytes wl + length (wal.frames recs) > wl_max_seg_bytes wl \<and> wl_seg_bytes wl > HEADER_LEN")
    case big: True
    obtain r1 wl1 d1 where rot: "rotate_segment wl d = (r1, wl1, d1)" by (metis prod_cases3)
    show thesis
    proof (cases r1)
      case (Inl e)
      then have "res = Inl e" "wl' = wl1" "d' = d1"
        using run usable False enc rot big by (auto simp: append_many_def check_usable_def)
      with that append_many_rotates [OF inv usable ok rot [unfolded Inl]] show thesis by simp
    next
      case (Inr q)
      then have "append_buffer (wal.frames recs) wl1 d1 = (res, wl', d')"
        using run usable False enc rot big by (auto simp: append_many_def check_usable_def)
      moreover note rotate_segment_spec(1) [OF inv usable ok rot Inr]
      ultimately have "append_post recs wl d L res wl' d' (L @ [(q, [])])"
        by (intro append_many_writes [OF _ _ _ _ ok]) auto
      then show thesis by (rule that)
    qed
  next
    case small: False
    then have "append_buffer (wal.frames recs) wl d = (res, wl', d')"
      using run usable False enc by (auto simp: append_many_def check_usable_def)
    from that [OF append_many_writes [OF inv refl usable order_refl ok this]] show thesis .
  qed
qed

lemma append_many_poisoned:
  "wl_poisoned wl \<Longrightarrow> append_many recs wl d = (Inl Other, wl, d)"
  by (simp add: append_many_def check_usable_def)

lemma rotate_segment_poisoned:
  "wl_poisoned wl \<Longrightarrow> rotate_segment wl d = (Inl Other, wl, d)"
  by (simp add: rotate_segment_def check_usable_def)

subsection \<open>Replay and reopening after a crash\<close>

lemma scan_half_header:
  assumes "m \<le> HEADER_LEN"
  shows "scan_segment sink (take m segment_header) s = Inr (s, if m = HEADER_LEN then None else Some 0)"
proof (cases "m = HEADER_LEN")
  case True
  then show ?thesis using scan_image [of "[]" sink s] by (simp add: seg_image_def)
next
  case False
  with assms show ?thesis by (simp add: scan_segment_def)
qed

text \<open>
  A directory as a crash may leave it, with the log \<open>L\<close> that recovery is to find in it: no segment
  yet, a last segment that ends in a torn record, or a half-born last segment.
\<close>

definition torn_log :: "fs \<Rightarrow> log \<Rightarrow> bool" where
  "torn_log d L \<longleftrightarrow> bm_wf (fs_files d) \<and> log_ok L \<and>
     (L = [] \<and> list_segments d = []
      \<or> (\<exists>Li q rs t. L = Li @ [(q, rs)] \<and> torn_tail t \<and>
           list_segments d = files_of Li @ [(segment_path q, seg_image rs @ t)])
      \<or> (\<exists>q m. m < HEADER_LEN \<and>
           list_segments d = files_of L @ [(segment_path q, take m segment_header)]))"

lemma torn_log_cases [consumes 1, case_names none torn half]:
  assumes "torn_log d L"
  obtains "L = []" and "list_segments d = []"
  | Li q rs t where "L = Li @ [(q, rs)]" and "torn_tail t"
      and "list_segments d = files_of Li @ [(segment_path q, seg_image rs @ t)]"
  | q m where "m < HEADER_LEN" and "list_segments d = files_of L @ [(segment_path q, take m segment_header)]"
  using assms unfolding torn_log_def by blast

lemma torn_log_files: "fs_files d' = fs_files d \<Longrightarrow> torn_log d' L \<longleftrightarrow> torn_log d L"
  by (simp add: torn_log_def list_segments_def)

lemma torn_log_outcomes [simp]: "torn_log (d\<lparr>fs_outcomes := outs\<rparr>) L \<longleftrightarrow> torn_log d L"
  by (rule torn_log_files) simp

lemma log_is_torn_log: "log_is d L \<Longrightarrow> torn_log d L"
  by (cases L rule: rev_cases) (force simp: log_is_def torn_log_def torn_tail_def)+

text \<open>After an interrupted append, recovery is to find the old records and a prefix of the group.\<close>

lemma crash_log_torn_log:
  assumes "crash_log d L new"
  obtains L' k where "k \<le> length new" and "torn_log d L'"
    and "map snd (log_records L') = map snd (log_records L) @ take k new"
proof -
  have wf: "bm_wf (fs_files d)" and lok: "log_ok L" and ok: "list_all rec_ok new"
    using assms by (simp_all add: crash_log_def)
  from assms consider
    (cut) Li q rs n where "L = Li @ [(q, rs)]" "n \<le> length (wal.frames new)"
      "list_segments d = files_of Li @ [(segment_path q, seg_image rs @ take n (wal.frames new))]"
  | (half) q m where "m \<le> HEADER_LEN"
      "list_segments d = files_of L @ [(segment_path q, take m segment_header)]"
    unfolding crash_log_def by blast
  then show thesis
  proof cases
    case cut
    obtain k t where k: "k \<le> length new" "torn_tail t"
        "take n (wal.frames new) = wal.frames (take k new) @ t"
      using ok cut(2) by (rule frames_cut_tail)
    let ?L = "Li @ [(q, rs @ take k new)]"
    have "list_segments d = files_of Li @ [(segment_path q, seg_image (rs @ take k new) @ t)]"
      using cut(3) k(3) by (simp add: seg_image_append)
    moreover have "log_ok ?L"
      using lok cut(1) ok by (auto simp: list_all_iff dest: in_set_takeD)
    ultimately have "torn_log d ?L"
      using wf k(2) unfolding torn_log_def by blast
    with k(1) cut(1) show thesis by (intro that [of k ?L]) (simp_all add: comp_def)
  next
    case half
    show thesis
    proof (cases "m = HEADER_LEN")
      case True
      then have "list_segments d = files_of L @ [(segment_path q, seg_image [] @ [])]"
        using half(2) by (simp add: seg_image_def)
      then have "torn_log d (L @ [(q, [])])"
        using wf lok unfolding torn_log_def torn_tail_def by auto
      then show thesis by (intro that [of 0 "L @ [(q, [])]"]) simp_all
    next
      case False
      then have "m < HEADER_LEN" using half(1) by simp
      then have "torn_log d L" using half(2) wf lok unfolding torn_log_def by blast
      then show thesis by (intro that [of 0 L]) simp_all
    qed
  qed
qed

lemma replay_torn_log:
  assumes "torn_log d L"
  shows "try_bind (replay sink d s) (\<lambda>(s, _). Inr s) =
    sink_all (\<lambda>s p. sink (fst p) s (snd p)) s (log_records L)"
proof -
  have lok: "log_ok L" using assms by (simp add: torn_log_def)
  note app = replay_files_append [OF lok]
  from assms consider (none) "L = []" "list_segments d = []"
  | (torn) Li q rs t where "L = Li @ [(q, rs)]" "torn_tail t"
      "list_segments d = files_of Li @ [(segment_path q, seg_image rs @ t)]"
  | (half) q m where "m < HEADER_LEN"
      "list_segments d = files_of L @ [(segment_path q, take m segment_header)]"
    unfolding torn_log_def by blast
  then show ?thesis
  proof cases
    case torn
    then have "log_ok Li" "list_all rec_ok rs" using lok by simp_all
    moreover from this(2) torn(2) have
      "replay_files sink [(segment_path q, seg_image rs @ t)] s' = try_bind (sink_all (sink q) s' rs)
         (\<lambda>s. Inr (s, if t = [] then None else Some (length (seg_image rs))))" for s'
      by (cases "sink_all (sink q) s' rs") (simp_all add: scan_image_tail)
    ultimately show ?thesis
      using torn(1,3)
      by (cases "sink_all (\<lambda>s p. sink (fst p) s (snd p)) s (log_records Li)")
        (simp_all add: replay_def replay_files_append sink_all_append sink_all_pair,
          auto simp: try_bind_def split: sum.splits)
  next
    case half
    then show ?thesis
      by (cases "sink_all (\<lambda>s p. sink (fst p) s (snd p)) s (log_records L)")
        (simp_all add: replay_def app scan_half_header)
  qed (simp add: replay_def)
qed

lemma segs_last_file:
  assumes "bm_wf (fs_files d)" and "list_segments d = fl @ [(segment_path q, c)]"
  shows "fs_content (segment_path q) d = c" and "fs_exists (segment_path q) d"
  using fs_content_segment [OF assms(1), of q c] assms(2) by simp_all

text \<open>Without failures the directory is only changed where \<^verbatim>\<open>open\<close> means to change it.\<close>

lemma repair_tail_ok:
  assumes "fs_outcomes d = []"
    and "scan_segment (\<lambda>_ _. Inr ()) (fs_content path d) () = Inr ((), torn)"
    and "\<And>off. torn = Some off \<Longrightarrow> off \<le> length (fs_content path d)"
  shows "repair_tail path d = (Inr (), case torn of None \<Rightarrow> d
    | Some off \<Rightarrow> fs_note (Synced path) (fs_set path (take off (fs_content path d)) (fs_note (Resized path off) d)))"
  using assms
  by (auto simp: repair_tail_def fs_set_len_def fs_sync_def Let_def split: option.split)

lemma wal_open_existing:
  assumes "fs_outcomes d = []" and "bm_wf (fs_files d)"
    and "list_segments d = fl @ [(segment_path q, c)]"
    and "scan_segment (\<lambda>_ _. Inr ()) c () = Inr ((), torn)"
    and "\<And>off. torn = Some off \<Longrightarrow> off \<le> length c"
    and "c' = (case torn of None \<Rightarrow> c | Some off \<Rightarrow> take off c)"
  obtains wl d' where "wal_open mx d = (Inr wl, d')" and "fs_outcomes d' = []"
    and "fs_files d' = bm_insert (segment_path q) (if c' = [] then segment_header else c') (fs_files d)"
    and "wl = \<lparr>wl_seg_seq = q, wl_seg_bytes = (if c' = [] then HEADER_LEN else length c'),
               wl_max_seg_bytes = max mx (HEADER_LEN + MIN_RECORD), wl_poisoned = False\<rparr>"
proof -
  let ?path = "segment_path q"
  note cont = segs_last_file [OF assms(2,3)]
  define d1 where "d1 = (case torn of None \<Rightarrow> d
    | Some off \<Rightarrow> fs_note (Synced ?path) (fs_set ?path (take off c) (fs_note (Resized ?path off) d)))"
  have rep: "repair_tail ?path d = (Inr (), d1)"
    using repair_tail_ok [OF assms(1), of ?path torn] assms(4,5) cont(1)
    by (cases torn) (simp_all add: d1_def)
  have d1: "fs_outcomes d1 = []" "fs_files d1 = bm_insert ?path c' (fs_files d)" "bm_wf (fs_files d1)"
    using assms(1,2,6) cont bm_insert_same [OF assms(2), of ?path c]
    by (auto simp: d1_def fs_content_def fs_exists_def bm_wf_insert split: option.splits)
  have c1: "fs_content ?path d1 = c'" "fs_exists ?path d1"
    using d1(2) assms(2) by (simp_all add: fs_content_def fs_exists_def bm_get_insert)
  define d2 where "d2 = fs_note SyncedDir (if c' = []
    then fs_note (Synced ?path) (fs_set ?path segment_header (fs_note (Wrote ?path segment_header) d1)) else d1)"
  have d2: "fs_outcomes d2 = []"
      "fs_files d2 = bm_insert ?path (if c' = [] then segment_header else c') (fs_files d)"
    using d1 assms(2) by (simp_all add: d2_def bm_insert_twice)
  have "wal_open mx d = (Inr \<lparr>wl_seg_seq = q,
      wl_seg_bytes = (if c' = [] then HEADER_LEN else length c'),
      wl_max_seg_bytes = max mx (HEADER_LEN + MIN_RECORD), wl_poisoned = False\<rparr>, d2)"
    using rep d1(1) c1 d2(1) cont(2)
    by (simp add: wal_open_def Let_def assms(3) fs_open_create_def fs_write_all_def fs_sync_def d2_def)
  then show thesis using that d2 by blast
qed

lemma wal_open_fresh:
  assumes "fs_outcomes d = []" and "bm_wf (fs_files d)" and "list_segments d = []"
  obtains wl d' where "wal_open mx d = (Inr wl, d')" and "fs_outcomes d' = []"
    and "fs_files d' = bm_insert (segment_path 1) segment_header (fs_files d)"
    and "wl = \<lparr>wl_seg_seq = 1, wl_seg_bytes = HEADER_LEN,
               wl_max_seg_bytes = max mx (HEADER_LEN + MIN_RECORD), wl_poisoned = False\<rparr>"
proof -
  let ?d = "fs_note SyncedDir (fs_note (Synced (segment_path 1)) (fs_set (segment_path 1) segment_header
    (fs_note (Wrote (segment_path 1) segment_header) (fs_create (segment_path 1) d))))"
  have "\<not> fs_exists (segment_path 1) d" using fs_exists_segment [OF assms(2), of 1] assms(3) by simp
  then have "wal_open mx d = (Inr \<lparr>wl_seg_seq = 1, wl_seg_bytes = HEADER_LEN,
      wl_max_seg_bytes = max mx (HEADER_LEN + MIN_RECORD), wl_poisoned = False\<rparr>, ?d)"
    using assms
    by (simp add: wal_open_def Let_def fs_open_create_def fs_write_all_def fs_sync_def fs_content_def
        fs_exists_def bm_get_insert)
  then show thesis
    by (rule that) (use assms in \<open>simp_all add: bm_insert_twice\<close>)
qed

text \<open>
  Reopening a directory that a crash left: it succeeds, what it leaves is a clean log with the same
  records, and only the last segment (or a fresh one) was touched.
\<close>

lemma scan_torn_image:
  assumes "list_all rec_ok rs" and "torn_tail t"
  shows "scan_segment (\<lambda>_ _. Inr ()) (seg_image rs @ t) () = Inr ((), if t = [] then None else Some (length (seg_image rs)))"
  using scan_image_tail [OF assms, of "\<lambda>_ _. Inr ()" "()"] by (simp add: sink_all_unit)

lemma wal_open_recovers:
  assumes "torn_log d L" and "fs_outcomes d = []"
  obtains wl d' L' q c where "wal_open mx d = (Inr wl, d')" and "wal_inv wl d' L'"
    and "\<not> wl_poisoned wl" and "log_records L' = log_records L" and "fs_outcomes d' = []"
    and "fs_files d' = bm_insert (segment_path q) c (fs_files d)"
    and "wl_max_seg_bytes wl = max mx (HEADER_LEN + MIN_RECORD)"
proof -
  have wf: "bm_wf (fs_files d)" and lok: "log_ok L" using assms(1) by (simp_all add: torn_log_def)
  let ?wl = "\<lambda>q n. \<lparr>wl_seg_seq = q, wl_seg_bytes = n, wl_max_seg_bytes = max mx (HEADER_LEN + MIN_RECORD), wl_poisoned = False\<rparr>"
  from assms(1) show thesis
  proof (cases rule: torn_log_cases)
    case none
    obtain wl d' where o: "wal_open mx d = (Inr wl, d')" "fs_outcomes d' = []"
        "fs_files d' = bm_insert (segment_path 1) segment_header (fs_files d)" "wl = ?wl 1 HEADER_LEN"
      using assms(2) wf none(2) by (rule wal_open_fresh)
    have "list_segments d' = [(segment_path 1, segment_header)]"
      using list_segments_set [OF wf, of 1 segment_header] none(2) o(3)
      by (simp add: list_segments_def fs_set_def)
    then have "wal_inv wl d' [(1, [])]"
      using o wf by (simp add: wal_inv_def log_is_def bm_wf_insert seg_image_def)
    with o none(1) show thesis by (intro that [of wl d' "[(1, [])]" 1 segment_header]) simp_all
  next
    case (torn Li q rs t)
    have ne: "seg_image rs \<noteq> []" using seg_image_length_ge [of rs] by (auto simp: HEADER_LEN_def)
    obtain wl d' where o: "wal_open mx d = (Inr wl, d')" "fs_outcomes d' = []"
        "fs_files d' = bm_insert (segment_path q) (seg_image rs) (fs_files d)" "wl = ?wl q (length (seg_image rs))"
      by (rule wal_open_existing [OF assms(2) wf torn(3) scan_torn_image, of "seg_image rs"])
        (use lok torn ne in \<open>auto split: if_splits\<close>)
    have "wal_inv wl d' L"
      using segs_after_insert [OF wf torn(3) o(3)] lok torn(1) o(4) by (simp add: wal_inv_def log_is_def)
    with o show thesis by (intro that [of wl d' L q "seg_image rs"]) simp_all
  next
    case (half q m)
    have sc: "scan_segment (\<lambda>_ _. Inr ()) (take m segment_header) () = Inr ((), Some 0)"
      using scan_half_header [of m] half(1) by simp
    obtain wl d' where o: "wal_open mx d = (Inr wl, d')" "fs_outcomes d' = []"
        "fs_files d' = bm_insert (segment_path q) segment_header (fs_files d)" "wl = ?wl q HEADER_LEN"
      by (rule wal_open_existing [OF assms(2) wf half(2) sc, of "[]"]) auto
    have "wal_inv wl d' (L @ [(q, [])])"
      using segs_after_insert [OF wf half(2) o(3)] lok o(4)
      by (simp add: wal_inv_def log_is_def seg_image_def)
    with o show thesis by (intro that [of wl d' "L @ [(q, [])]" q segment_header]) simp_all
  qed
qed

subsection \<open>Removing old segments\<close>

lemma log_is_sorted:
  assumes "log_is d L"
  shows "sorted_wrt (\<lambda>a b. fst a < fst b) L"
proof -
  have "bm_wf (files_of L)"
    using assms bm_wf_list_segments [of d] by (simp add: log_is_def)
  then show ?thesis
    by (simp add: bm_wf_def files_of_def sorted_wrt_map case_prod_unfold segment_path_less)
qed

lemma list_segments_unset:
  "list_segments (fs_unset p d) = bm_remove p (list_segments d)"
  by (simp add: list_segments_def bm_remove_def fs_unset_def filter_filter conj_commute)

lemma remove_call_cases:
  assumes "fs_remove p d = (res, d')"
  shows "res = Inr () \<and> fs_files d' = bm_remove p (fs_files d)
    \<or> (\<exists>e. res = Inl e \<and> fs_files d' = fs_files d)"
proof -
  obtain out d1 where d1: "next_io d = (out, d1)" by (cases "next_io d")
  with assms show ?thesis by (cases out) (auto simp: fs_remove_def split: if_splits)
qed

lemma bm_remove_first:
  "bm_wf ((k, v) # m) \<Longrightarrow> bm_remove k ((k, v) # m) = m"
  by (induction m) (auto simp: bm_wf_def bm_remove_def)

text \<open>Removing segment files from the front, in order, leaves a suffix of them at every point.\<close>

lemma remove_files_segs:
  assumes "bm_wf (fs_files d)" and "list_segments d = dead @ fl" and "remove_files (map fst dead) d = (res, d')"
  shows "\<exists>k \<le> length dead. bm_wf (fs_files d') \<and> list_segments d' = drop k dead @ fl
    \<and> (res = Inr () \<longrightarrow> k = length dead)"
  using assms
proof (induction dead arbitrary: d)
  case (Cons x dead)
  obtain r1 d1 where c1: "fs_remove (fst x) d = (r1, d1)" by force
  have rest: "io_then (r1, d1) (remove_files (map fst dead)) = (res, d')"
    using Cons.prems(3) c1 by simp
  from remove_call_cases [OF c1] show ?case
  proof
    assume ok: "r1 = Inr () \<and> fs_files d1 = bm_remove (fst x) (fs_files d)"
    then have wf1: "bm_wf (fs_files d1)" using Cons.prems(1) by (simp add: bm_wf_remove)
    have "list_segments d1 = bm_remove (fst x) (list_segments d)"
      using list_segments_unset [of "fst x" d] ok by (simp add: list_segments_def)
    also have "\<dots> = dead @ fl"
      using bm_remove_first [of "fst x" "snd x" "dead @ fl"] bm_wf_list_segments [OF Cons.prems(1)]
      by (simp add: Cons.prems(2))
    finally have segs1: "list_segments d1 = dead @ fl" .
    have "remove_files (map fst dead) d1 = (res, d')" using rest ok by simp
    from Cons.IH [OF wf1 segs1 this] obtain k where "k \<le> length dead" "bm_wf (fs_files d')"
      "list_segments d' = drop k dead @ fl" "res = Inr () \<longrightarrow> k = length dead" by blast
    then show ?case by (intro exI [of _ "Suc k"]) simp
  next
    assume "\<exists>e. r1 = Inl e \<and> fs_files d1 = fs_files d"
    then have "fs_files d' = fs_files d \<and> (\<exists>e. res = Inl e)" using rest by auto
    then show ?case using Cons.prems(1,2) by (intro exI [of _ 0]) (auto simp: list_segments_files [of d' d])
  qed
qed simp

lemma remove_files_log:
  assumes "log_is d (dead @ L)" and "remove_files (map (\<lambda>p. segment_path (fst p)) dead) d = (res, d')"
  shows "\<exists>k \<le> length dead. log_is d' (drop k (dead @ L)) \<and> (res = Inr () \<longrightarrow> k = length dead)"
proof -
  have names: "map fst (files_of dead) = map (\<lambda>p. segment_path (fst p)) dead"
    by (simp add: files_of_def case_prod_unfold)
  have len: "length (files_of dead) = length dead" by (simp add: files_of_def)
  have d: "bm_wf (fs_files d)" "list_segments d = files_of dead @ files_of L"
    using assms(1) by (simp_all add: log_is_def)
  obtain k where k: "k \<le> length dead" "bm_wf (fs_files d')"
      "list_segments d' = drop k (files_of dead) @ files_of L" "res = Inr () \<longrightarrow> k = length dead"
    using remove_files_segs [OF d, unfolded names, OF assms(2)] unfolding len by blast
  moreover have "log_ok (drop k (dead @ L))"
    using assms(1) by (auto simp: log_is_def log_ok_def dest: in_set_dropD)
  ultimately show ?thesis
    by (intro exI [of _ k]) (simp add: log_is_def files_of_def drop_map)
qed

lemma sorted_filter_less_prefix:
  assumes "sorted_wrt (\<lambda>a b. fst a < fst b) L"
  shows "filter (\<lambda>p. fst p < (q :: u32)) L = takeWhile (\<lambda>p. fst p < q) L"
  using assms
proof (induction L)
  case (Cons x L)
  have "filter (\<lambda>p. fst p < q) L = []" if "\<not> fst x < q"
    using Cons.prems that by (auto simp: filter_empty_conv dest: less_trans)
  with Cons show ?case by simp
qed simp

lemma sorted_dropWhile_ge:
  assumes "sorted_wrt (\<lambda>a b. fst a < fst b) L" and "p \<in> set (dropWhile (\<lambda>p. fst p < (q :: u32)) L)"
  shows "q \<le> fst p"
  using assms by (induction L) (auto simp: not_less split: if_splits)

lemma remove_segments_before_spec:
  assumes inv: "wal_inv wl d L" and run: "remove_segments_before seq wl d = (res, d')"
  obtains k where "wal_inv wl d' (drop k L)" and "k < length L"
    and "\<And>q rs. (q, rs) \<in> set (take k L) \<Longrightarrow> q < seq"
    and "\<And>n. res = Inr n \<Longrightarrow> n = k \<and> (\<forall>(q, rs) \<in> set (drop k L). seq \<le> q \<or> q = wl_seg_seq wl)"
proof -
  obtain Li rs where L: "L = Li @ [(wl_seg_seq wl, rs)]" and lg: "log_is d L"
    using inv by (auto simp: wal_inv_snoc)
  note sorted = log_is_sorted [OF lg]
  define dead where "dead = takeWhile (\<lambda>p. fst p < seq) Li"
  define rest where "rest = dropWhile (\<lambda>p. fst p < seq) Li"
  have Li: "Li = dead @ rest" by (simp add: dead_def rest_def)
  have sLi: "sorted_wrt (\<lambda>a b. fst a < fst b) Li" and below: "\<forall>p \<in> set Li. fst p < wl_seg_seq wl"
    using sorted by (auto simp: L sorted_wrt_append)
  have fdead: "filter (\<lambda>p. fst p < seq) Li = dead"
    unfolding dead_def by (rule sorted_filter_less_prefix [OF sLi])
  have kept: "\<forall>p \<in> set rest. seq \<le> fst p"
    unfolding rest_def using sorted_dropWhile_ge [OF sLi] by blast
  have "filter (\<lambda>p. fst p < seq \<and> fst p \<noteq> wl_seg_seq wl) L = dead"
  proof -
    have "filter (\<lambda>p. fst p < seq \<and> fst p \<noteq> wl_seg_seq wl) Li = filter (\<lambda>p. fst p < seq) Li"
      using below by (intro filter_cong) auto
    with fdead show ?thesis by (simp add: L)
  qed
  then have doomed: "filter (\<lambda>p. case segment_seq p of
        Some s \<Rightarrow> s < seq \<and> s \<noteq> wl_seg_seq wl | None \<Rightarrow> False) (map fst (list_segments d))
      = map (\<lambda>p. segment_path (fst p)) dead"
    using lg by (simp add: log_is_def files_of_def filter_map comp_def case_prod_unfold)
  obtain r1 d1 where c1: "remove_files (map (\<lambda>p. segment_path (fst p)) dead) d = (r1, d1)" by force
  obtain k where k: "k \<le> length dead" "log_is d1 (drop k L)" "r1 = Inr () \<longrightarrow> k = length dead"
    using remove_files_log [OF _ c1, of "rest @ [(wl_seg_seq wl, rs)]"] lg
    unfolding L Li append_assoc by blast
  have fin: "fs_files d' = fs_files d1 \<and> (\<forall>n. res = Inr n \<longrightarrow> r1 = Inr () \<and> n = length dead)"
    using run unfolding remove_segments_before_def Let_def doomed
    by (cases r1; cases "fs_sync SyncedDir d1"; cases "fst (fs_sync SyncedDir d1)")
      (auto simp: c1 split: if_splits dest: sync_files)
  have "wal_inv wl d' (drop k L)"
    using inv k(1,2) fin log_is_files [of d' d1] by (simp add: wal_inv_def L Li)
  moreover have "k < length L" using k(1) by (simp add: L Li)
  moreover have "q < seq" if "(q, x) \<in> set (take k L)" for q x
  proof -
    have "take k L = take k dead" using k(1) by (simp add: L Li)
    then have "(q, x) \<in> set dead" using that by (auto dest: in_set_takeD)
    then show ?thesis using set_takeWhileD [of "(q, x)" "\<lambda>p. fst p < seq" Li] by (simp add: dead_def)
  qed
  moreover have "n = k \<and> (\<forall>(q, x) \<in> set (drop k L). seq \<le> q \<or> q = wl_seg_seq wl)" if "res = Inr n" for n
    using fin k(3) kept that by (auto simp: L Li)
  ultimately show thesis by (rule that)
qed

text \<open>The same on a log that an interrupted append left: the tail is not among the files removed.\<close>

lemma doomed_prefix:
  assumes "bm_wf (fs_files d)" and "list_segments d = files_of Li @ fl"
    and "\<forall>e \<in> set fl. \<exists>q. fst e = segment_path q \<and> seq \<le> q" and "seq \<le> wl_seg_seq wl"
  obtains dead rest where "Li = dead @ rest" and "\<forall>(q, rs) \<in> set dead. q < seq"
    and "filter (\<lambda>p. case segment_seq p of
        Some s \<Rightarrow> s < seq \<and> s \<noteq> wl_seg_seq wl | None \<Rightarrow> False) (map fst (list_segments d)) = map fst (files_of dead)"
proof -
  have "bm_wf (files_of Li)"
    using bm_wf_list_segments [OF assms(1)] by (simp add: assms(2) bm_wf_def sorted_wrt_append)
  then have sorted: "sorted_wrt (\<lambda>a b. fst a < fst b) Li"
    by (simp add: bm_wf_def files_of_def sorted_wrt_map case_prod_unfold segment_path_less)
  define dead where "dead = takeWhile (\<lambda>p. fst p < seq) Li"
  have "filter (\<lambda>e. case segment_seq (fst e) of Some s \<Rightarrow> s < seq \<and> s \<noteq> wl_seg_seq wl | None \<Rightarrow> False) fl = []"
    using assms(3) by (fastforce simp: filter_empty_conv)
  moreover have "filter (\<lambda>p. fst p < seq \<and> fst p \<noteq> wl_seg_seq wl) Li = dead"
    using sorted_filter_less_prefix [OF sorted, of seq] assms(4)
    by (metis (mono_tags, lifting) dead_def filter_cong leD)
  ultimately have "filter (\<lambda>p. case segment_seq p of
        Some s \<Rightarrow> s < seq \<and> s \<noteq> wl_seg_seq wl | None \<Rightarrow> False) (map fst (list_segments d)) = map fst (files_of dead)"
    by (simp add: assms(2) filter_map comp_def files_of_def case_prod_unfold)
  moreover have "Li = dead @ dropWhile (\<lambda>p. fst p < seq) Li" by (simp add: dead_def)
  moreover have "\<forall>(q, rs) \<in> set dead. q < seq" by (auto simp: dead_def dest: set_takeWhileD)
  ultimately show thesis using that by blast
qed

lemma remove_segments_before_segs:
  assumes "bm_wf (fs_files d)" and "list_segments d = files_of Li @ fl"
    and "\<forall>e \<in> set fl. \<exists>q. fst e = segment_path q \<and> seq \<le> q"
    and "seq \<le> wl_seg_seq wl" and "remove_segments_before seq wl d = (res, d')"
  obtains k where "bm_wf (fs_files d')" and "list_segments d' = files_of (drop k Li) @ fl"
    and "k \<le> length Li" and "\<And>q rs. (q, rs) \<in> set (take k Li) \<Longrightarrow> q < seq"
proof -
  obtain dead rest where Li: "Li = dead @ rest" and below: "\<forall>(q, rs) \<in> set dead. q < seq"
    and doomed: "filter (\<lambda>p. case segment_seq p of
        Some s \<Rightarrow> s < seq \<and> s \<noteq> wl_seg_seq wl | None \<Rightarrow> False) (map fst (list_segments d)) = map fst (files_of dead)"
    by (rule doomed_prefix [OF assms(1-4)])
  obtain r1 d1 where c1: "remove_files (map fst (files_of dead)) d = (r1, d1)" by force
  obtain k where k: "k \<le> length dead" "bm_wf (fs_files d1)"
      "list_segments d1 = drop k (files_of dead) @ files_of rest @ fl"
    using remove_files_segs [OF assms(1) _ c1, of "files_of rest @ fl"] assms(2)
    by (auto simp: Li files_of_def)
  have fin: "fs_files d' = fs_files d1"
    using assms(5) unfolding remove_segments_before_def Let_def doomed
    by (cases r1; cases "fs_sync SyncedDir d1"; cases "fst (fs_sync SyncedDir d1)")
      (auto simp: c1 split: if_splits dest: sync_files)
  show thesis
  proof (rule that [of k])
    show "bm_wf (fs_files d')" using k(2) fin by simp
    show "list_segments d' = files_of (drop k Li) @ fl"
      using k(1,3) fin by (simp add: list_segments_files [OF fin] Li files_of_def drop_map)
    show "k \<le> length Li" using k(1) by (simp add: Li)
    show "q < seq" if "(q, rs) \<in> set (take k Li)" for q rs
      using that k(1) below by (auto simp: Li dest: in_set_takeD)
  qed
qed

lemma remove_segments_before_crash:
  assumes "crash_log d L new" and "L \<noteq> []" and "fst (last L) = wl_seg_seq wl"
    and "seq \<le> wl_seg_seq wl" and "remove_segments_before seq wl d = (res, d')"
  obtains k where "crash_log d' (drop k L) new" and "k < length L"
    and "\<And>q rs. (q, rs) \<in> set (take k L) \<Longrightarrow> q < seq"
proof -
  obtain Li rs where L: "L = Li @ [(wl_seg_seq wl, rs)]"
    using assms(2,3) by (metis append_butlast_last_id prod.collapse)
  have base: "bm_wf (fs_files d)" "log_ok L" "list_all rec_ok new" using assms(1) by (simp_all add: crash_log_def)
  note wfs = bm_wf_list_segments [OF base(1)]
  obtain fl where fl: "list_segments d = files_of Li @ fl"
      "\<forall>e \<in> set fl. \<exists>q. fst e = segment_path q \<and> seq \<le> q"
      "\<And>d' Lk. bm_wf (fs_files d') \<Longrightarrow> log_ok Lk \<Longrightarrow> list_segments d' = files_of Lk @ fl \<Longrightarrow>
         crash_log d' (Lk @ [(wl_seg_seq wl, rs)]) new"
  proof -
    from assms(1) consider (cut) n where "n \<le> length (wal.frames new)"
      "list_segments d = files_of Li @ [(segment_path (wl_seg_seq wl), seg_image rs @ take n (wal.frames new))]"
    | (half) q m where "m \<le> HEADER_LEN"
      "list_segments d = files_of L @ [(segment_path q, take m segment_header)]"
      by (auto simp: crash_log_def L)
    then show thesis
    proof cases
      case cut
      then show thesis
        using assms(4) base by (intro that) (auto simp: crash_log_def L)
    next
      case half
      have "segment_path (wl_seg_seq wl) < segment_path q"
        using wfs half(2) by (simp add: L bm_wf_def sorted_wrt_append)
      then have "seq \<le> q" using assms(4) by (simp add: segment_path_less)
      then show thesis
        using assms(4) base half
        by (intro that [of "[(segment_path (wl_seg_seq wl), seg_image rs), (segment_path q, take m segment_header)]"])
          (auto simp: crash_log_def L)
    qed
  qed
  obtain k where k: "bm_wf (fs_files d')" "list_segments d' = files_of (drop k Li) @ fl" "k \<le> length Li"
      "\<And>q rs. (q, rs) \<in> set (take k Li) \<Longrightarrow> q < seq"
    by (rule remove_segments_before_segs [OF base(1) fl(1,2) assms(4,5)]) blast
  have "log_ok (drop k Li)" using base(2) by (auto simp: L log_ok_def dest: in_set_dropD)
  then have "crash_log d' (drop k L) new" using fl(3) [OF k(1) _ k(2)] k(3) by (simp add: L)
  with k that [of k] show thesis by (simp add: L)
qed

end
