(* ===== verification/Wal.thy ===== *)
theory Wal
  imports Wal_Log
begin

text \<open>
  What the write-ahead log promises its caller (\<^verbatim>\<open>src/wal.rs\<close>): records survive the codec, any byte
  prefix of a segment recovers to the records it holds whole, a damaged record is never delivered,
  and however the directory's calls fail, reopening finds the acknowledged records.
\<close>

text \<open>
  C16: a record that the framing admits comes back from its encoding exactly as it was written.
\<close>

theorem wal_payload_roundtrip:
  assumes "check_ops (r_ops rec) = Inr ()"
  shows "decode_payload (encode_payload rec) = Inr rec"
  using assms by (simp add: decode_payload_encode rec_ok_def)

theorem wal_payload_roundtrip_witness:
  "decode_payload (encode_payload \<lparr>r_term = 3, r_index = 9, r_ops = [Put [1] [2, 3], Delete [1]]\<rparr>)
     = Inr \<lparr>r_term = 3, r_index = 9, r_ops = [Put [1] [2, 3], Delete [1]]\<rparr>"
  by (rule wal_payload_roundtrip) (simp add: check_ops_def payload_len_def MAX_PAYLOAD_def)

text \<open>
  Recovery of a segment cut at any byte (what a crash may leave of it): exactly the records that
  are whole are delivered, in order, and a torn tail is reported at the end of the last of them
  precisely when bytes are left over.
\<close>

theorem scan_segment_prefix:
  assumes "list_all rec_ok rs" and "HEADER_LEN \<le> n" and "n \<le> length (seg_image rs)"
  shows "\<exists>k \<le> length rs.
    scan_segment (\<lambda>s r. Inr (s @ [r])) (take n (seg_image rs)) [] =
      Inr (take k rs, if length (seg_image (take k rs)) = n then None
                      else Some (length (seg_image (take k rs))))
    \<and> length (seg_image (take k rs)) \<le> n
    \<and> (k < length rs \<longrightarrow> n < length (seg_image (take (Suc k) rs)))"
proof -
  have cut: "n - HEADER_LEN \<le> length (wal.frames rs)" using assms(3) by (simp add: seg_image_def)
  have img: "take n (seg_image rs) = segment_header @ take (n - HEADER_LEN) (wal.frames rs)"
    using assms(2) by (simp add: seg_image_def)
  have len: "length (seg_image xs) = HEADER_LEN + length (wal.frames xs)" for xs
    by (simp add: seg_image_def)
  have scan: "scan_segment (\<lambda>s r. Inr (s @ [r])) (seg_image (take k rs) @ t) [] =
      Inr (take k rs, if t = [] then None else Some (length (seg_image (take k rs))))"
    if "torn_tail t" for k t
    using scan_image_tail [OF list_all_take [OF assms(1)] that, of "\<lambda>s r. Inr (s @ [r])" k "[]"]
    by (simp add: sink_all_collect)
  have next_frame: "wal.frames (take (Suc k) rs) = wal.frames (take k rs) @ encode_record (rs ! k)"
    if "k < length rs" for k
    using that by (simp add: take_Suc_conv_app_nth)
  from cut show ?thesis
  proof (rule wal.frames_cut)
    fix k assume k: "k \<le> length rs" "take (n - HEADER_LEN) (wal.frames rs) = wal.frames (take k rs)"
    have "rec_ok (rs ! k)" if "k < length rs" using that assms(1) by (simp add: list_all_length)
    then have pos: "0 < length (encode_record (rs ! k))" if "k < length rs"
      using that wal.frame_nonempty by blast
    have n: "length (seg_image (take k rs)) = n"
      using arg_cong [OF k(2), of length] cut assms(2) by (simp add: len)
    have "take n (seg_image rs) = seg_image (take k rs) @ []" using img k(2) by (simp add: seg_image_def)
    with scan [of "[]" k] k(1) n pos show ?thesis
      by (intro exI [of _ k]) (auto simp: torn_tail_def len next_frame)
  next
    fix k t assume k: "k < length rs" "take (n - HEADER_LEN) (wal.frames rs) = wal.frames (take k rs) @ t"
      "strict_prefix t (encode_record (rs ! k))" "t \<noteq> []"
    have torn: "torn_tail t" using k assms(1) by (auto simp: torn_tail_def list_all_length)
    have n: "n = length (seg_image (take k rs)) + length t"
      using arg_cong [OF k(2), of length] cut assms(2) by (simp add: len)
    have "take n (seg_image rs) = seg_image (take k rs) @ t" using img k(2) by (simp add: seg_image_def)
    with scan [OF torn, of k] k n prefix_length_less [OF k(3)] show ?thesis
      by (intro exI [of _ k]) (auto simp: len next_frame)
  qed
qed

theorem scan_segment_prefix_witness:
  "\<exists>k \<le> length [\<lparr>r_term = 0, r_index = 1, r_ops = [Delete [5]]\<rparr>].
    scan_segment (\<lambda>s r. Inr (s @ [r]))
      (take 20 (seg_image [\<lparr>r_term = 0, r_index = 1, r_ops = [Delete [5]]\<rparr>])) [] =
      Inr (take k [\<lparr>r_term = 0, r_index = 1, r_ops = [Delete [5]]\<rparr>],
        if length (seg_image (take k [\<lparr>r_term = 0, r_index = 1, r_ops = [Delete [5]]\<rparr>])) = 20 then None
        else Some (length (seg_image (take k [\<lparr>r_term = 0, r_index = 1, r_ops = [Delete [5]]\<rparr>]))))
    \<and> length (seg_image (take k [\<lparr>r_term = 0, r_index = 1, r_ops = [Delete [5]]\<rparr>])) \<le> 20
    \<and> (k < length [\<lparr>r_term = 0, r_index = 1, r_ops = [Delete [5]]\<rparr>] \<longrightarrow>
         20 < length (seg_image (take (Suc k) [\<lparr>r_term = 0, r_index = 1, r_ops = [Delete [5]]\<rparr>])))"
proof (rule scan_segment_prefix)
  show ok: "list_all rec_ok [\<lparr>r_term = 0, r_index = 1, r_ops = [Delete [5]]\<rparr>]"
    by (simp add: rec_ok_def check_ops_def payload_len_def MAX_PAYLOAD_def)
  then show "20 \<le> length (seg_image [\<lparr>r_term = 0, r_index = 1, r_ops = [Delete [5]]\<rparr>])"
    by (simp add: seg_image_def HEADER_LEN_def length_encode_record payload_len_def)
qed (simp add: HEADER_LEN_def)

lemma scan_loop_bad_crc:
  assumes "length p < 2 ^ 32" and "MIN_PAYLOAD \<le> length p" and "length c = 4"
    and "crc32 p \<noteq> u32_from_le c"
  shows "scan_loop sink (pre @ u32_to_le (word_of_nat (length p)) @ p @ c @ post) (length pre) s =
    Inr (s, Some (length pre))"
  using assms by (subst scan_loop.simps) (simp add: Let_def unat_u32_of_nat)

text \<open>A record with one byte of its payload or of its checksum changed no longer checks.\<close>

lemma damaged_record:
  assumes "rec_ok r" and "4 \<le> j" and "j < length (encode_record r)" and "v \<noteq> encode_record r ! j"
  obtains p c where "(encode_record r)[j := v] = u32_to_le (word_of_nat (length p)) @ p @ c"
    and "length p = payload_len (r_ops r)" and "length c = 4" and "crc32 p \<noteq> u32_from_le c"
proof -
  let ?p = "encode_payload r" and ?n = "payload_len (r_ops r)"
  have len: "length ?p = ?n" by (rule length_encode_payload)
  have enc: "encode_record r = u32_to_le (word_of_nat ?n) @ ?p @ u32_to_le (crc32 ?p)"
    using encode_record_parts(1) [OF assms(1)] .
  show thesis
  proof (cases "j - 4 < ?n")
    case True
    have "?p = take (j - 4) ?p @ ?p ! (j - 4) # drop (Suc (j - 4)) ?p"
      using True len by (simp add: id_take_nth_drop)
    moreover have upd: "?p[j - 4 := v] = take (j - 4) ?p @ v # drop (Suc (j - 4)) ?p"
      using True len by (simp add: upd_conv_take_nth_drop)
    moreover have "v \<noteq> ?p ! (j - 4)" using assms(2,4) True len by (simp add: enc nth_append)
    ultimately have "crc32 (?p[j - 4 := v]) \<noteq> crc32 ?p" by (metis crc32_byte_inj)
    with that [of "?p[j - 4 := v]" "u32_to_le (crc32 ?p)"] True assms(2) len show thesis
      by (simp add: enc list_update_append)
  next
    case False
    let ?c = "(u32_to_le (crc32 ?p))[j - 4 - ?n := v]"
    have "j - 4 - ?n < 4"
      using assms(2,3) False length_encode_record [OF assms(1)] by simp
    moreover from this have "v \<noteq> u32_to_le (crc32 ?p) ! (j - 4 - ?n)"
      using assms(2,4) False len by (simp add: enc nth_append)
    ultimately have "?c \<noteq> u32_to_le (crc32 ?p)"
      by (metis le32.length_enc nth_list_update_eq)
    then have "crc32 ?p \<noteq> u32_from_le ?c"
      using le32.dec_eq_iff [of ?c "crc32 ?p"] by auto
    with that [of ?p ?c] False assms(2) len show thesis
      by (simp add: enc list_update_append)
  qed
qed

text \<open>
  C15: a record with one damaged byte in its payload or checksum is never delivered: the scan delivers
  the records before it and reports a torn tail exactly there.
\<close>

theorem scan_detects_damage:
  assumes "list_all rec_ok rs" and "rec_ok r" and "4 \<le> j" and "j < length (encode_record r)"
    and "v \<noteq> encode_record r ! j"
  shows "scan_segment (\<lambda>s r. Inr (s @ [r])) (seg_image rs @ (encode_record r)[j := v] @ rest) [] =
    Inr (rs, Some (length (seg_image rs)))"
proof -
  obtain p c where pc: "(encode_record r)[j := v] = u32_to_le (word_of_nat (length p)) @ p @ c"
      "length p = payload_len (r_ops r)" "length c = 4" "crc32 p \<noteq> u32_from_le c"
    using assms(2-5) by (rule damaged_record)
  have "length p < 2 ^ 32" "MIN_PAYLOAD \<le> length p"
    using assms(2) pc(2) encode_record_parts(3) [OF assms(2)] by (simp_all add: rec_ok_iff)
  note bad = scan_loop_bad_crc [OF this pc(3,4)]
  let ?f = "segment_header @ wal.frames rs @ (encode_record r)[j := v] @ rest"
  have "scan_loop (\<lambda>s r. Inr (s @ [r])) ?f HEADER_LEN [] =
      scan_loop (\<lambda>s r. Inr (s @ [r])) ?f (HEADER_LEN + length (wal.frames rs)) rs"
    using wal.scan_frames [OF assms(1), of "\<lambda>s r. Inr (s @ [r])" segment_header "(encode_record r)[j := v] @ rest" "[]"]
    by (simp add: wal_emit_all sink_all_collect)
  also have "\<dots> = Inr (rs, Some (length (seg_image rs)))"
    using bad [of _ "segment_header @ wal.frames rs" rest] by (simp add: pc(1) seg_image_def)
  finally show ?thesis by (simp add: scan_segment_image) (simp add: seg_image_def)
qed

theorem scan_detects_damage_witness:
  "scan_segment (\<lambda>s r. Inr (s @ [r]))
     (seg_image [] @ (encode_record \<lparr>r_term = 0, r_index = 1, r_ops = [Delete [5]]\<rparr>)[4 := 7] @ [1, 2]) [] =
     Inr ([], Some (length (seg_image [])))"
proof (rule scan_detects_damage)
  show ok: "rec_ok \<lparr>r_term = 0, r_index = 1, r_ops = [Delete [5]]\<rparr>"
    by (simp add: rec_ok_def check_ops_def payload_len_def MAX_PAYLOAD_def)
  show "4 < length (encode_record \<lparr>r_term = 0, r_index = 1, r_ops = [Delete [5]]\<rparr>)"
    using ok by (simp add: length_encode_record payload_len_def)
  show "(7 :: u8) \<noteq> encode_record \<lparr>r_term = 0, r_index = 1, r_ops = [Delete [5]]\<rparr> ! 4"
    by (simp add: encode_record_def encode_payload_def Let_def nth_append TAG_DELETE_def)
qed simp_all

subsection \<open>Opening a directory whose calls may fail\<close>

lemma torn_logI_half:
  assumes "bm_wf (fs_files d)" and "log_ok L" and "m \<le> HEADER_LEN"
    and "list_segments d = files_of L @ [(segment_path q, take m segment_header)]"
  shows "\<exists>L'. log_records L' = log_records L \<and> torn_log d L'
    \<and> (m = HEADER_LEN \<longrightarrow> L' = L @ [(q, [])])"
proof (cases "m = HEADER_LEN")
  case True
  then have "log_is d (L @ [(q, [])])" using assms by (simp add: log_is_def seg_image_def)
  then show ?thesis by (intro exI [of _ "L @ [(q, [])]"]) (simp add: log_is_torn_log)
next
  case False
  with assms(3) have "m < HEADER_LEN" by simp
  with assms have "torn_log d L" unfolding torn_log_def by blast
  with False show ?thesis by (intro exI [of _ L]) simp
qed

text \<open>The header phase of \<^verbatim>\<open>open\<close>, on a last segment that is empty.\<close>

lemma open_header_phase:
  assumes "bm_wf (fs_files d)" and "log_ok L" and "list_segments d = files_of L @ [(segment_path q, [])]"
    and "io_then (io_then (fs_write_all (segment_path q) segment_header d) (fs_sync (Synced (segment_path q)))) (fs_sync SyncedDir) = (res, d')"
  shows "\<exists>L'. log_records L' = log_records L \<and> torn_log d' L'
    \<and> (res = Inr () \<longrightarrow> L' = L @ [(q, [])] \<and> log_is d' L')"
proof -
  obtain r1 d1 where c1: "io_then (fs_write_all (segment_path q) segment_header d) (fs_sync (Synced (segment_path q))) = (r1, d1)"
    by force
  have empty: "fs_content (segment_path q) d = []" using segs_last_file(1) [OF assms(1,3)] .
  obtain m where m: "m \<le> HEADER_LEN" "r1 = Inr () \<Longrightarrow> m = HEADER_LEN"
      "fs_files d1 = bm_insert (segment_path q) (take m segment_header) (fs_files d)"
    using write_sync_cases [OF c1] empty by (metis append_Nil length_segment_header)
  have fl: "fs_files d' = fs_files d1" and res: "res = Inr () \<Longrightarrow> r1 = Inr ()"
    using io_then_sync [of r1 d1 SyncedDir res d'] assms(4) c1 by auto
  have segs: "bm_wf (fs_files d')" "list_segments d' = files_of L @ [(segment_path q, take m segment_header)]"
    using segs_after_insert(1,2) [OF assms(1,3) m(3)] fl by (simp_all add: list_segments_def)
  obtain L' where "log_records L' = log_records L" "torn_log d' L'" "m = HEADER_LEN \<longrightarrow> L' = L @ [(q, [])]"
    using torn_logI_half [OF segs(1) assms(2) m(1) segs(2)] by blast
  moreover have "log_is d' (L @ [(q, [])])" if "m = HEADER_LEN"
    using segs assms(2) that by (simp add: log_is_def seg_image_def)
  ultimately show ?thesis using res m(2) by blast
qed

lemma repair_tail_cases:
  assumes "repair_tail (segment_path q) d = (res, d')" and "bm_wf (fs_files d)"
    and "list_segments d = fl @ [(segment_path q, c)]"
    and "scan_segment (\<lambda>_ _. Inr ()) c () = Inr ((), torn)"
    and "\<And>off. torn = Some off \<Longrightarrow> off \<le> length c"
  obtains c' where "bm_wf (fs_files d')" and "list_segments d' = fl @ [(segment_path q, c')]"
    and "c' = c \<or> (\<exists>off. torn = Some off \<and> c' = take off c)"
    and "res = Inr () \<Longrightarrow> c' = (case torn of None \<Rightarrow> c | Some off \<Rightarrow> take off c)"
proof (cases torn)
  case None
  have "fs_content (segment_path q) d = c" using segs_last_file(1) [OF assms(2,3)] .
  then have "d' = d" using assms(1,4) None by (simp add: repair_tail_def)
  with assms(2,3) None that [of c] show thesis by simp
next
  case (Some off)
  have cont: "fs_content (segment_path q) d = c" using segs_last_file(1) [OF assms(2,3)] .
  obtain r1 d1 where c1: "fs_set_len (segment_path q) off d = (r1, d1)" by force
  then have sync: "io_then (r1, d1) (fs_sync (Synced (segment_path q))) = (res, d')"
    using assms(1,4) Some cont by (simp add: repair_tail_def)
  note fin = io_then_sync [OF sync]
  have same: "list_segments d' = list_segments d1" using fin(1) by (simp add: list_segments_def)
  from set_len_cases [OF c1] assms(5) [OF Some] cont have
    "r1 = Inr () \<and> fs_files d1 = bm_insert (segment_path q) (take off c) (fs_files d)
      \<or> (\<exists>e. r1 = Inl e) \<and> fs_files d1 = fs_files d" by auto
  then show thesis
  proof
    assume "r1 = Inr () \<and> fs_files d1 = bm_insert (segment_path q) (take off c) (fs_files d)"
    with segs_after_insert [OF assms(2,3), of d1 "take off c"] Some same fin that [of "take off c"]
    show thesis by simp
  next
    assume a: "(\<exists>e. r1 = Inl e) \<and> fs_files d1 = fs_files d"
    then have "list_segments d1 = list_segments d" by (simp add: list_segments_def)
    with a assms(2,3) Some same fin that [of c] show thesis by auto
  qed
qed

lemma open_create_cases:
  assumes "fs_open_create name d = (res, d')"
  shows "fs_files d' = fs_files d \<and> (res = Inr () \<longrightarrow> fs_exists name d)
    \<or> (\<not> fs_exists name d \<and> fs_files d' = bm_insert name [] (fs_files d))"
proof -
  obtain out d1 where d1: "next_io d = (out, d1)" by (cases "next_io d")
  then have "fs_exists name d1 = fs_exists name d" by (simp add: fs_exists_def)
  with d1 assms show ?thesis by (cases out) (auto simp: fs_open_create_def)
qed

text \<open>The last two phases of \<^verbatim>\<open>open\<close>: the header of an empty segment, the directory sync.\<close>

definition open_finish :: "u32 \<Rightarrow> nat \<Rightarrow> fs \<Rightarrow> wal io_result \<times> fs" where
  "open_finish q mx d =
     (let path = segment_path q; n = length (fs_content path d) in
      case io_then (if n = 0 then io_then (fs_write_all path segment_header d) (fs_sync (Synced path)) else (Inr (), d))
             (fs_sync SyncedDir) of
        (Inl e, d) \<Rightarrow> (Inl e, d)
      | (Inr _, d) \<Rightarrow> (Inr \<lparr>wl_seg_seq = q, wl_seg_bytes = (if n = 0 then HEADER_LEN else n),
            wl_max_seg_bytes = max mx (HEADER_LEN + MIN_RECORD), wl_poisoned = False\<rparr>, d))"

lemma wal_open_phases:
  assumes "q = (if list_segments d = [] then 1 else the (segment_seq (fst (last (list_segments d)))))"
    and "segment_path q = (if list_segments d = [] then segment_path 1 else fst (last (list_segments d)))"
  shows "wal_open mx d = io_then (io_then
      (if fs_exists (segment_path q) d then repair_tail (segment_path q) d else (Inr (), d))
      (fs_open_create (segment_path q))) (open_finish q mx)"
proof -
  have unfold: "wal_open mx d =
      (case (if fs_exists (segment_path q) d then repair_tail (segment_path q) d else (Inr (), d)) of
         (Inl e, d) \<Rightarrow> (Inl e, d)
       | (Inr _, d) \<Rightarrow>
           (case fs_open_create (segment_path q) d of
              (Inl e, d) \<Rightarrow> (Inl e, d)
            | (Inr _, d) \<Rightarrow> open_finish q mx d))"
    unfolding wal_open_def Let_def assms(1) [symmetric] assms(2) [symmetric]
    by (intro arg_cong3 [where f = case_prod] refl ext sum.case_cong prod.case_cong)
      (simp_all add: open_finish_def Let_def io_then_def split: prod.split sum.split)
  show ?thesis unfolding unfold io_then_def by (simp split: prod.split sum.split)
qed

lemma open_finish_empty:
  assumes "bm_wf (fs_files d)" and "log_ok L" and "list_segments d = files_of L @ [(segment_path q, [])]"
    and "open_finish q mx d = (res, d')"
  shows "\<exists>L'. log_records L' = log_records L \<and> torn_log d' L'
    \<and> (\<forall>wl. res = Inr wl \<longrightarrow> wal_inv wl d' L' \<and> \<not> wl_poisoned wl)"
proof -
  obtain r1 where c1: "io_then (io_then (fs_write_all (segment_path q) segment_header d) (fs_sync (Synced (segment_path q)))) (fs_sync SyncedDir) = (r1, d')"
    and res: "\<And>wl. res = Inr wl \<Longrightarrow> r1 = Inr () \<and> wl_seg_seq wl = q \<and> wl_seg_bytes wl = HEADER_LEN
        \<and> \<not> wl_poisoned wl"
    using assms(4) segs_last_file(1) [OF assms(1,3)]
    by (auto simp: open_finish_def Let_def split: prod.splits sum.splits)
  obtain L' where L': "log_records L' = log_records L" "torn_log d' L'"
      "r1 = Inr () \<longrightarrow> L' = L @ [(q, [])] \<and> log_is d' L'"
    using open_header_phase [OF assms(1-3) c1] by blast
  have "wal_inv wl d' L' \<and> \<not> wl_poisoned wl" if "res = Inr wl" for wl
    using res [OF that] L'(3) by (auto simp: wal_inv_def seg_image_def)
  with L'(1,2) show ?thesis by blast
qed

text \<open>\<^verbatim>\<open>open\<close> on a last segment that exists, whatever the scan finds at its end.\<close>

lemma wal_open_last:
  assumes "list_segments d = fl @ [(segment_path q, c)]" and "bm_wf (fs_files d)"
    and "scan_segment (\<lambda>_ _. Inr ()) c () = Inr ((), torn)"
    and "\<And>off. torn = Some off \<Longrightarrow> off \<le> length c"
    and "wal_open mx d = (res, d')"
  obtains c' where "c' = c \<or> (\<exists>off. torn = Some off \<and> c' = take off c)"
    and "bm_wf (fs_files d')" and "list_segments d' = fl @ [(segment_path q, c')]" and "\<exists>e. res = Inl e"
  | d2 where "bm_wf (fs_files d2)" and "open_finish q mx d2 = (res, d')"
    and "list_segments d2 = fl @ [(segment_path q, case torn of None \<Rightarrow> c | Some off \<Rightarrow> take off c)]"
proof -
  have ex: "fs_exists (segment_path q) d" using segs_last_file(2) [OF assms(2,1)] .
  obtain r1 d1 where c1: "repair_tail (segment_path q) d = (r1, d1)" by force
  obtain r2 d2 where c2: "io_then (r1, d1) (fs_open_create (segment_path q)) = (r2, d2)" by force
  have run: "io_then (r2, d2) (open_finish q mx) = (res, d')"
    using assms(5) c1 c2 ex by (simp add: wal_open_phases [of q d] assms(1))
  obtain c' where c': "bm_wf (fs_files d1)" "list_segments d1 = fl @ [(segment_path q, c')]"
      "c' = c \<or> (\<exists>off. torn = Some off \<and> c' = take off c)"
      "r1 = Inr () \<Longrightarrow> c' = (case torn of None \<Rightarrow> c | Some off \<Rightarrow> take off c)"
    by (rule repair_tail_cases [OF c1 assms(2,1,3,4)]) (assumption, rule that)
  have "fs_files d2 = fs_files d1"
  proof (cases r1)
    case (Inr u)
    with c2 have "fs_open_create (segment_path q) d1 = (r2, d2)" by simp
    from open_create_cases [OF this] segs_last_file(2) [OF c'(1,2)] show ?thesis by auto
  qed (use c2 in simp)
  then have d2: "bm_wf (fs_files d2)" "list_segments d2 = fl @ [(segment_path q, c')]"
    using c' by (simp_all add: list_segments_def)
  show thesis
  proof (cases r2)
    case (Inl e)
    with run d2 c'(3) that(1) [of c'] show thesis by auto
  next
    case (Inr u)
    then have "r1 = Inr ()" using c2 by (cases r1) auto
    with run Inr d2 c'(4) that(2) [of d2] show thesis by simp
  qed
qed

text \<open>
  Whatever fails, \<^verbatim>\<open>open\<close> loses no record: what it leaves recovers to the same records, and if it
  succeeds the log it returns is open on them.
\<close>

abbreviation recovers :: "log \<Rightarrow> wal io_result \<Rightarrow> fs \<Rightarrow> bool" where
  "recovers L res d' \<equiv> \<exists>L'. log_records L' = log_records L \<and> torn_log d' L'
    \<and> (\<forall>wl. res = Inr wl \<longrightarrow> wal_inv wl d' L' \<and> \<not> wl_poisoned wl)"

lemma wal_open_none:
  assumes wf: "bm_wf (fs_files d)" and segs: "list_segments d = []" and run: "wal_open mx d = (res, d')"
  shows "recovers [] res d'"
proof -
  have torn: "torn_log d []" using wf segs by (simp add: torn_log_def)
  have ex: "\<not> fs_exists (segment_path 1) d" using fs_exists_segment [OF wf, of 1] segs by simp
  obtain r2 d2 where c2: "fs_open_create (segment_path 1) d = (r2, d2)" by force
  have fin: "io_then (r2, d2) (open_finish 1 mx) = (res, d')"
    using run c2 ex by (simp add: wal_open_phases [of 1 d] segs)
  from open_create_cases [OF c2] show ?thesis
  proof (elim disjE conjE)
    assume "fs_files d2 = fs_files d" "r2 = Inr () \<longrightarrow> fs_exists (segment_path 1) d"
    with fin ex have "(\<exists>e. res = Inl e) \<and> d' = d2" by (cases r2) auto
    with torn torn_log_files [of d2 d "[]"] \<open>fs_files d2 = fs_files d\<close> show ?thesis
      by (intro exI [of _ "[]"]) auto
  next
    assume f2: "fs_files d2 = bm_insert (segment_path 1) [] (fs_files d)"
    have wf2: "bm_wf (fs_files d2)" using f2 wf by (simp add: bm_wf_insert)
    have segs2: "list_segments d2 = files_of [] @ [(segment_path 1, [])]"
      using list_segments_set [OF wf, of 1 "[]"] segs f2 by (simp add: list_segments_def fs_set_def)
    show ?thesis
    proof (cases r2)
      case (Inl e)
      from torn_logI_half [OF wf2, of "[]" 0 1] segs2 fin Inl show ?thesis by auto
    next
      case (Inr u)
      with fin have "open_finish 1 mx d2 = (res, d')" by simp
      from open_finish_empty [OF wf2 _ segs2 this] show ?thesis by simp
    qed
  qed
qed

lemma open_finish_whole:
  assumes wf: "bm_wf (fs_files d)" and lok: "log_ok (Li @ [(q, rs)])"
    and segs: "list_segments d = files_of Li @ [(segment_path q, seg_image rs)]" and run: "open_finish q mx d = (res, d')"
  shows "recovers (Li @ [(q, rs)]) res d'"
proof -
  have ne: "length (seg_image rs) \<noteq> 0" using seg_image_length_ge [of rs] by (auto simp: HEADER_LEN_def)
  have fin: "fs_files d' = fs_files d \<and> (\<forall>wl. res = Inr wl \<longrightarrow> wl_seg_seq wl = q
      \<and> wl_seg_bytes wl = length (seg_image rs) \<and> \<not> wl_poisoned wl)"
    using run segs_last_file(1) [OF wf segs] ne
    by (auto simp: open_finish_def Let_def split: prod.splits sum.splits dest: sync_files)
  then have "log_is d' (Li @ [(q, rs)])" using wf segs lok by (simp add: log_is_def list_segments_files [of d' d])
  with fin show ?thesis
    by (intro exI [of _ "Li @ [(q, rs)]"]) (auto simp: wal_inv_def log_is_torn_log)
qed

lemma wal_open_torn:
  assumes wf: "bm_wf (fs_files d)" and lok: "log_ok (Li @ [(q, rs)])" and tail: "torn_tail t"
    and segs: "list_segments d = files_of Li @ [(segment_path q, seg_image rs @ t)]" and run: "wal_open mx d = (res, d')"
  shows "recovers (Li @ [(q, rs)]) res d'"
proof -
  let ?cut = "if t = [] then None else Some (length (seg_image rs))"
  have sc: "scan_segment (\<lambda>_ _. Inr ()) (seg_image rs @ t) () = Inr ((), ?cut)"
    using lok tail by (intro scan_torn_image) simp_all
  from segs wf sc _ run show ?thesis
  proof (rule wal_open_last)
    fix c' assume c': "c' = seg_image rs @ t \<or> (\<exists>off. ?cut = Some off \<and> c' = take off (seg_image rs @ t))"
      "bm_wf (fs_files d')" "list_segments d' = files_of Li @ [(segment_path q, c')]" "\<exists>e. res = Inl e"
    then obtain t' where "c' = seg_image rs @ t'" "torn_tail t'"
      using tail by (auto simp: torn_tail_def split: if_splits)
    with c'(2,3) lok have "torn_log d' (Li @ [(q, rs)])" unfolding torn_log_def by blast
    with c'(4) show ?thesis by (intro exI [of _ "Li @ [(q, rs)]"]) auto
  next
    fix d2 assume d2: "bm_wf (fs_files d2)" "open_finish q mx d2 = (res, d')"
      "list_segments d2 = files_of Li @ [(segment_path q,
         case ?cut of None \<Rightarrow> seg_image rs @ t | Some off \<Rightarrow> take off (seg_image rs @ t))]"
    then have "list_segments d2 = files_of Li @ [(segment_path q, seg_image rs)]"
      by (auto split: if_splits)
    from open_finish_whole [OF d2(1) lok this d2(2)] show ?thesis .
  qed (auto split: if_splits)
qed

lemma wal_open_half:
  assumes wf: "bm_wf (fs_files d)" and lok: "log_ok L" and m: "m < HEADER_LEN"
    and segs: "list_segments d = files_of L @ [(segment_path q, take m segment_header)]" and run: "wal_open mx d = (res, d')"
  shows "recovers L res d'"
proof -
  have sc: "scan_segment (\<lambda>_ _. Inr ()) (take m segment_header) () = Inr ((), Some 0)"
    using scan_half_header [of m] m by simp
  from segs wf sc _ run show ?thesis
  proof (rule wal_open_last)
    fix c' assume c': "c' = take m segment_header \<or> (\<exists>off. Some 0 = Some off \<and> c' = take off (take m segment_header))"
      "bm_wf (fs_files d')" "list_segments d' = files_of L @ [(segment_path q, c')]" "\<exists>e. res = Inl e"
    then have "\<exists>m' < HEADER_LEN. c' = take m' segment_header" using m
      by (auto intro: exI [of _ m] exI [of _ 0])
    with c'(2,3) lok have "torn_log d' L" unfolding torn_log_def by blast
    with c'(4) show ?thesis by auto
  next
    fix d2 assume d2: "bm_wf (fs_files d2)" "open_finish q mx d2 = (res, d')"
      "list_segments d2 = files_of L @ [(segment_path q,
         case Some 0 of None \<Rightarrow> take m segment_header | Some off \<Rightarrow> take off (take m segment_header))]"
    then have "list_segments d2 = files_of L @ [(segment_path q, [])]" by simp
    from open_finish_empty [OF d2(1) lok this d2(2)] show ?thesis .
  qed simp
qed

lemma wal_open_spec:
  assumes "torn_log d L" and "wal_open mx d = (res, d')"
  shows "recovers L res d'"
proof -
  have wf: "bm_wf (fs_files d)" and lok: "log_ok L" using assms(1) by (simp_all add: torn_log_def)
  from assms(1) show ?thesis
  proof (cases rule: torn_log_cases)
    case none
    from wal_open_none [OF wf none(2) assms(2)] none(1) show ?thesis by simp
  next
    case (torn Li q rs t)
    from wal_open_torn [OF wf lok [unfolded torn(1)] torn(2,3) assms(2)] torn(1) show ?thesis by simp
  next
    case (half q m)
    from wal_open_half [OF wf lok half assms(2)] show ?thesis .
  qed
qed

subsection \<open>Without failures an append is acknowledged\<close>

lemma append_buffer_ok:
  assumes "fs_outcomes d = []"
  obtains wl' d' where "append_buffer buf wl d = (Inr (), wl', d')" and "fs_outcomes d' = []"
  using assms by (simp add: append_buffer_def fs_write_all_def fs_sync_def)

lemma rotate_segment_ok:
  assumes "wal_inv wl d L" and "\<not> wl_poisoned wl" and "fs_outcomes d = []"
    and "unat (wl_seg_seq wl) + 1 < 2 ^ 32"
  obtains wl' d' where "rotate_segment wl d = (Inr (wl_seg_seq wl + 1), wl', d')" and "fs_outcomes d' = []"
proof -
  have wf: "bm_wf (fs_files d)" using assms(1) by (simp add: wal_inv_def log_is_def)
  have "\<not> fs_exists (segment_path (wl_seg_seq wl + 1)) d"
    using fs_exists_segment [OF wf] segs_below_next [OF assms(1,4)] by auto
  then show thesis
    using that assms(2-4)
    by (simp add: rotate_segment_def check_usable_def fs_sync_def fs_create_new_def fs_write_all_def Let_def)
qed

lemma append_many_ok:
  assumes "wal_inv wl d L" and "\<not> wl_poisoned wl" and "fs_outcomes d = []"
    and "unat (wl_seg_seq wl) + 1 < 2 ^ 32" and "list_all rec_ok recs"
  obtains wl' d' where "append_many recs wl d = (Inr (), wl', d')" and "fs_outcomes d' = []"
proof -
  obtain wl1 d1 where rot: "rotate_segment wl d = (Inr (wl_seg_seq wl + 1), wl1, d1)" "fs_outcomes d1 = []"
    using assms(1-4) by (rule rotate_segment_ok)
  have enc: "encode_group recs = Inr (wal.frames recs)" using assms(5) by (simp add: encode_group_Inr)
  obtain wl2 d2 where b: "append_buffer (wal.frames recs) wl d = (Inr (), wl2, d2)" "fs_outcomes d2 = []"
    using assms(3) by (rule append_buffer_ok)
  obtain wl3 d3 where c: "append_buffer (wal.frames recs) wl1 d1 = (Inr (), wl3, d3)" "fs_outcomes d3 = []"
    using rot(2) by (rule append_buffer_ok)
  have "\<exists>wl' d'. append_many recs wl d = (Inr (), wl', d') \<and> fs_outcomes d' = []"
    using assms(2,3) rot b c enc by (simp add: append_many_def check_usable_def)
  then show thesis using that by blast
qed

text \<open>
  An open log on a directory whose calls succeed acknowledges every group the framing admits,
  leaves the log open on the old records followed by the group, and a poisoned log refuses every
  group and every rotation and changes nothing.
\<close>

theorem append_many_functional:
  assumes "wal_inv wl d L" and "unat (wl_seg_seq wl) + 1 < 2 ^ 32" and "list_all rec_ok recs"
    and "fs_outcomes d = []"
  shows "if wl_poisoned wl then append_many recs wl d = (Inl Other, wl, d)
      \<and> rotate_segment wl d = (Inl Other, wl, d)
    else \<exists>wl' d' L'. append_many recs wl d = (Inr (), wl', d') \<and> wal_inv wl' d' L'
      \<and> \<not> wl_poisoned wl' \<and> map snd (log_records L') = map snd (log_records L) @ recs"
proof (cases "wl_poisoned wl")
  case False
  obtain wl' d' where run: "append_many recs wl d = (Inr (), wl', d')"
    using assms(1) False assms(4,2,3) by (rule append_many_ok)
  obtain L' where "wal_inv wl' d' L' \<and> \<not> wl_poisoned wl'
      \<and> log_records L' = log_records L @ map (Pair (wl_seg_seq wl')) recs"
    using append_many_spec [OF assms(1) False run] unfolding append_post_def by metis
  with run False show ?thesis by (auto simp: comp_def)
qed (simp add: append_many_poisoned rotate_segment_poisoned)

subsection \<open>The log over many appends and many lives\<close>

text \<open>
  A run of appends; the first component is what was acknowledged (the concatenation of the groups
  whose \<^verbatim>\<open>append_many\<close> returned \<^verbatim>\<open>Ok\<close>).
\<close>

primrec append_groups :: "wal_record list list \<Rightarrow> wal \<Rightarrow> fs \<Rightarrow> wal_record list \<times> wal \<times> fs" where
  "append_groups [] wl d = ([], wl, d)"
| "append_groups (g # gs) wl d =
     (case append_many g wl d of (res, wl, d) \<Rightarrow>
      case append_groups gs wl d of (acked, wl, d) \<Rightarrow>
        (if res = Inr () then g @ acked else acked, wl, d))"

lemma append_groups_poisoned: "wl_poisoned wl \<Longrightarrow> append_groups gs wl d = ([], wl, d)"
  by (induction gs) (simp_all add: append_many_poisoned)

lemma append_groups_spec:
  assumes "wal_inv wl d L" and "\<not> wl_poisoned wl" and "append_groups gs wl d = (acked, wl', d')"
  shows "(\<exists>L'. wal_inv wl' d' L' \<and> map snd (log_records L') = map snd (log_records L) @ acked
        \<and> subseq acked (concat gs))
    \<or> (\<exists>L' g. crash_log d' L' g \<and> map snd (log_records L') = map snd (log_records L) @ acked
        \<and> (\<forall>k. subseq (acked @ take k g) (concat gs)))"
  using assms
proof (induction gs arbitrary: wl d L acked)
  case (Cons g gs)
  obtain res wl1 d1 where c1: "append_many g wl d = (res, wl1, d1)" by (metis prod_cases3)
  obtain acked1 where c2: "append_groups gs wl1 d1 = (acked1, wl', d')"
    and acked: "acked = (if res = Inr () then g @ acked1 else acked1)"
    using Cons.prems(3) c1 by (auto split: prod.splits)
  obtain L1 where post: "append_post g wl d L res wl1 d1 L1" by (rule append_many_spec [OF Cons.prems(1,2) c1])
  note L1 = post [unfolded append_post_def]
  show ?case
  proof (cases "wl_poisoned wl1")
    case True
    then have fin: "acked1 = []" "d' = d1" using c2 append_groups_poisoned by auto
    have "\<exists>e. res = Inl e" using L1 True by (cases res) auto
    moreover have "list_all rec_ok g" using L1 True Cons.prems(2) by auto
    moreover have "subseq (take k g) (concat (g # gs))" for k
      by (metis append_Nil2 append_take_drop_id concat.simps(2) list_emb_append_mono list_emb_Nil subseq_order.refl)
    ultimately show ?thesis
      using L1 fin acked by (intro disjI2 exI [of _ L1] exI [of _ g]) auto
  next
    case False
    obtain L2 where L2: "wal_inv wl1 d1 L2"
        "map snd (log_records L2) @ acked1 = map snd (log_records L) @ acked"
    proof (cases res)
      case (Inl e)
      with L1 False acked that [of L1] show thesis by simp
    next
      case (Inr u)
      with L1 acked that show thesis by (auto simp: comp_def)
    qed
    have sub: "subseq (acked @ ys) (concat (g # gs))" if "subseq (acked1 @ ys) (concat gs)" for ys
      using that acked by (auto intro: list_emb_append_mono list_emb_append2)
    from Cons.IH [OF L2(1) False c2] show ?thesis
      unfolding L2(2) using sub sub [of "[]"] by (simp del: concat.simps) blast
  qed
qed auto

text \<open>
  The log over any number of lives, each with any I/O failures: a life opens the log (which may
  fail), appends groups, and ends at any point. The relation holds of the directory, the records
  acknowledged so far and the records whose append was attempted.
\<close>

inductive wal_lives :: "fs \<Rightarrow> wal_record list \<Rightarrow> wal_record list \<Rightarrow> bool" where
  fresh: "bm_wf (fs_files d) \<Longrightarrow> list_segments d = [] \<Longrightarrow> wal_lives d [] []"
| open_fails: "wal_lives d ack att \<Longrightarrow> wal_open mx (d\<lparr>fs_outcomes := outs\<rparr>) = (Inl e, d')
    \<Longrightarrow> wal_lives d' ack att"
| life: "wal_lives d ack att \<Longrightarrow> wal_open mx (d\<lparr>fs_outcomes := outs\<rparr>) = (Inr wl, d1)
    \<Longrightarrow> append_groups gs wl d1 = (acked, wl', d2)
    \<Longrightarrow> wal_lives d2 (ack @ acked) (att @ concat gs)"

lemma sink_all_collect_snd:
  "sink_all (\<lambda>s p. Inr (s @ [snd p])) s rs = Inr (s @ map snd rs)"
  by (induction rs arbitrary: s) simp_all

lemma replay_collect_torn:
  "torn_log d L \<Longrightarrow> try_bind (replay (\<lambda>_ s r. Inr (s @ [r])) d []) (\<lambda>(s, _). Inr s)
     = Inr (map snd (log_records L))"
  by (simp add: replay_torn_log sink_all_collect_snd)

lemma wal_lives_log:
  "wal_lives d ack att \<Longrightarrow>
   \<exists>L. torn_log d L \<and> subseq ack (map snd (log_records L)) \<and> subseq (map snd (log_records L)) att"
proof (induction rule: wal_lives.induct)
  case (fresh d)
  then show ?case by (intro exI [of _ "[]"]) (simp add: torn_log_def)
next
  case (open_fails d ack att mx outs e d')
  then obtain L where L: "torn_log d L" "subseq ack (map snd (log_records L))"
      "subseq (map snd (log_records L)) att" by blast
  then have "torn_log (d\<lparr>fs_outcomes := outs\<rparr>) L" by simp
  from wal_open_spec [OF this open_fails(2)] L(2,3) show ?case by auto
next
  case (life d ack att mx outs wl d1 gs acked wl' d2)
  then obtain L where L: "torn_log d L" "subseq ack (map snd (log_records L))"
      "subseq (map snd (log_records L)) att" by blast
  then have "torn_log (d\<lparr>fs_outcomes := outs\<rparr>) L" by simp
  from wal_open_spec [OF this life(2)] obtain L1 where
    L1: "log_records L1 = log_records L" "wal_inv wl d1 L1" "\<not> wl_poisoned wl" by auto
  from append_groups_spec [OF L1(2,3) life(3)] show ?case
  proof (elim disjE exE conjE)
    fix L' assume "wal_inv wl' d2 L'" "map snd (log_records L') = map snd (log_records L1) @ acked"
      "subseq acked (concat gs)"
    with L L1(1) show ?case
      by (intro exI [of _ L']) (auto simp: wal_inv_def log_is_torn_log intro: list_emb_append_mono)
  next
    fix L' g assume a: "crash_log d2 L' g" "map snd (log_records L') = map snd (log_records L1) @ acked"
      "\<forall>k. subseq (acked @ take k g) (concat gs)"
    obtain L2 k where L2: "torn_log d2 L2" "map snd (log_records L2) = map snd (log_records L') @ take k g"
      using crash_log_torn_log [OF a(1)] by metis
    have "subseq (ack @ acked) (map snd (log_records L2))"
      unfolding L2(2) a(2) L1(1) using L(2) by (intro list_emb_prefix list_emb_append_mono) auto
    moreover have "subseq (map snd (log_records L2)) (att @ concat gs)"
      unfolding L2(2) a(2) L1(1) append_assoc using L(3) a(3) by (blast intro: list_emb_append_mono)
    ultimately show ?case using L2(1) by blast
  qed
qed

text \<open>
  Durability across crashes. However the directory's calls fail, over any number of lives of the
  log and wherever each is cut, the next open without failures succeeds, and the records its replay
  delivers contain every acknowledged record in order, and nothing that was not appended, in the
  order of the appends.
\<close>

theorem wal_recovers_acknowledged:
  assumes "wal_lives d ack att"
  shows "\<exists>wl d' found. wal_open mx (d\<lparr>fs_outcomes := []\<rparr>) = (Inr wl, d') \<and>
    replay (\<lambda>_ s r. Inr (s @ [r])) d' [] = Inr (found, None) \<and> subseq ack found \<and> subseq found att"
proof -
  obtain L where L: "torn_log d L" "subseq ack (map snd (log_records L))"
      "subseq (map snd (log_records L)) att"
    using wal_lives_log [OF assms] by blast
  then have "torn_log (d\<lparr>fs_outcomes := []\<rparr>) L" by simp
  then obtain wl d' L' q c where o: "wal_open mx (d\<lparr>fs_outcomes := []\<rparr>) = (Inr wl, d')"
      "wal_inv wl d' L'" "log_records L' = log_records L"
    by (rule wal_open_recovers [where mx = mx]) auto
  have "replay (\<lambda>_ s r. Inr (s @ [r])) d' [] = Inr (map snd (log_records L), None)"
    using replay_log [of d' L' "\<lambda>_ s r. Inr (s @ [r])" "[]"] o(2,3)
    by (simp add: wal_inv_def sink_all_collect_snd)
  with o(1) L(2,3) show ?thesis by blast
qed

lemma rec_ok_example: "rec_ok \<lparr>r_term = 0, r_index = 1, r_ops = [Delete [5]]\<rparr>"
  by (simp add: rec_ok_def check_ops_def payload_len_def MAX_PAYLOAD_def)

lemma fresh_log_example:
  obtains wl d where "wal_open 0 \<lparr>fs_files = [], fs_outcomes = [], fs_disk = boot []\<rparr> = (Inr wl, d)"
    and "wal_inv wl d [(1, [])]" and "\<not> wl_poisoned wl" and "fs_outcomes d = []" and "wl_seg_seq wl = 1"
proof -
  obtain wl d where o: "wal_open 0 \<lparr>fs_files = [], fs_outcomes = [], fs_disk = boot []\<rparr> = (Inr wl, d)" "fs_outcomes d = []"
      "fs_files d = bm_insert (segment_path 1) segment_header []"
      "wl = \<lparr>wl_seg_seq = 1, wl_seg_bytes = HEADER_LEN,
         wl_max_seg_bytes = max 0 (HEADER_LEN + MIN_RECORD), wl_poisoned = False\<rparr>"
    by (rule wal_open_fresh [of "\<lparr>fs_files = [], fs_outcomes = [], fs_disk = boot []\<rparr>" 0]) (simp_all add: list_segments_def)
  have "list_segments d = [(segment_path 1, segment_header)]" by (simp add: list_segments_def o(3))
  then have "wal_inv wl d [(1, [])]" using o(3,4) by (simp add: wal_inv_def log_is_def seg_image_def)
  with o that show thesis by simp
qed

theorem append_many_functional_witness:
  "\<exists>wl d wl' d' L'. append_many [\<lparr>r_term = 0, r_index = 1, r_ops = [Delete [5]]\<rparr>] wl d = (Inr (), wl', d')
     \<and> wal_inv wl' d' L' \<and> map snd (log_records L') = [\<lparr>r_term = 0, r_index = 1, r_ops = [Delete [5]]\<rparr>]"
proof -
  obtain wl d where "wal_inv wl d [(1, [])]" "\<not> wl_poisoned wl" "fs_outcomes d = []" "wl_seg_seq wl = 1"
    by (rule fresh_log_example)
  with append_many_functional [of wl d "[(1, [])]" "[\<lparr>r_term = 0, r_index = 1, r_ops = [Delete [5]]\<rparr>]"]
  have "\<exists>wl' d' L'. append_many [\<lparr>r_term = 0, r_index = 1, r_ops = [Delete [5]]\<rparr>] wl d = (Inr (), wl', d')
     \<and> wal_inv wl' d' L' \<and> map snd (log_records L') = [\<lparr>r_term = 0, r_index = 1, r_ops = [Delete [5]]\<rparr>]"
    by (simp add: rec_ok_example) (elim exE conjE, intro exI conjI, assumption+)
  then show ?thesis by (rule_tac exI [of _ wl], rule_tac exI [of _ d])
qed

theorem wal_recovers_acknowledged_witness:
  "\<exists>d wl d'. wal_open 0 (d\<lparr>fs_outcomes := []\<rparr>) = (Inr wl, d') \<and>
    replay (\<lambda>_ s r. Inr (s @ [r])) d' [] = Inr ([\<lparr>r_term = 0, r_index = 1, r_ops = [Delete [5]]\<rparr>], None)"
proof -
  let ?r = "\<lparr>r_term = 0, r_index = 1, r_ops = [Delete [5]]\<rparr> :: wal_record"
  let ?d = "\<lparr>fs_files = [], fs_outcomes = [], fs_disk = boot []\<rparr> :: fs"
  obtain wl d where o: "wal_open 0 ?d = (Inr wl, d)" "wal_inv wl d [(1, [])]" "\<not> wl_poisoned wl"
      "fs_outcomes d = []" "wl_seg_seq wl = 1"
    by (rule fresh_log_example)
  have u: "unat (wl_seg_seq wl) + 1 < 2 ^ 32" and ok: "list_all rec_ok [?r]"
    using o(5) by (simp_all add: rec_ok_example)
  obtain wl' d' where a: "append_many [?r] wl d = (Inr (), wl', d')"
    using o(2-4) u ok by (rule append_many_ok)
  have "wal_lives ?d [] []" by (rule wal_lives.fresh) (simp_all add: list_segments_def)
  moreover have "append_groups [[?r]] wl d = ([?r], wl', d')" using a by simp
  moreover have "wal_open 0 (?d\<lparr>fs_outcomes := []\<rparr>) = (Inr wl, d)" using o(1) by simp
  ultimately have "wal_lives d' ([] @ [?r]) ([] @ concat [[?r]])" by (blast intro: wal_lives.life)
  from wal_recovers_acknowledged [OF this, of 0] show ?thesis
    using subseq_order.antisym by fastforce
qed

end
