(* ===== verification/Checkpoint.thy ===== *)
theory Checkpoint
  imports Types Crc Fs
begin

text \<open>
  The durable checkpoint (\<^verbatim>\<open>src/checkpoint.rs\<close>): the body layout streamed into a sink with the CRC
  folded as it goes, the bounded parser, loading with the fall-back to the previous generation, and
  the atomic publish. The shown properties: a checkpoint decodes to the snapshot it was written
  from, one damaged byte anywhere is \<^verbatim>\<open>InvalidData\<close>, and a write cut at any call leaves the old or the
  new checkpoint loadable.
\<close>

subsection \<open>The program\<close>

definition CKPT_MAGIC :: bytes where "CKPT_MAGIC = [75, 83, 78, 49]"

definition CKPT_FORMAT :: u32 where "CKPT_FORMAT = 1"

definition SNAPSHOT_NAME :: string where "SNAPSHOT_NAME = ''snap.dat''"
definition SNAPSHOT_PREV :: string where "SNAPSHOT_PREV = ''snap.prev''"
definition SNAPSHOT_TMP :: string where "SNAPSHOT_TMP = ''snap.tmp''"

definition CKPT_HEADER_LEN :: nat where "CKPT_HEADER_LEN = 4 + 4 + 8 + 8"

definition MIN_ENTRY_LEN :: nat where "MIN_ENTRY_LEN = 4 + 4 + 8"

record loaded =
  ld_snapshot :: "snapshot option"
  ld_latest_damaged :: bool

datatype replaced = Retain | Discard

text \<open>The sink of \<^verbatim>\<open>write_body\<close>: the bytes written so far and the running checksum.\<close>

type_synonym body_sink = "bytes \<times> u32"

definition emit_bytes :: "bytes \<Rightarrow> body_sink \<Rightarrow> body_sink" where
  "emit_bytes bs sk = (fst sk @ bs, crc_update (snd sk) bs)"

definition len32 :: "nat \<Rightarrow> u32 io_result" where
  "len32 n = (if n < 2 ^ 32 then Inr (word_of_nat n) else Inl InvalidInput)"

primrec write_entries :: "(bytes \<times> entry) list \<Rightarrow> body_sink \<Rightarrow> unit io_result \<times> body_sink" where
  "write_entries [] sk = (Inr (), sk)"
| "write_entries (ke # rest) sk =
     (case len32 (length (fst ke)) of Inl e \<Rightarrow> (Inl e, sk) | Inr klen \<Rightarrow>
      let sk = emit_bytes (fst ke) (emit_bytes (u32_to_le klen) sk) in
      (case len32 (length (e_value (snd ke))) of Inl e \<Rightarrow> (Inl e, sk) | Inr vlen \<Rightarrow>
       write_entries rest
         (emit_bytes (u64_to_le (e_version (snd ke)))
           (emit_bytes (e_value (snd ke)) (emit_bytes (u32_to_le vlen) sk)))))"

definition write_body :: "snapshot \<Rightarrow> body_sink \<Rightarrow> unit io_result \<times> body_sink" where
  "write_body snap sk =
     write_entries (sn_data snap)
       (emit_bytes (u64_to_le (word_of_nat (length (sn_data snap))))
         (emit_bytes (u64_to_le (sn_index snap))
           (emit_bytes (u32_to_le CKPT_FORMAT) (emit_bytes CKPT_MAGIC sk))))"

text \<open>
  One entry of the body at \<open>pos\<close>, and the position after it.
\<close>

definition decode_entry :: "bytes \<Rightarrow> nat \<Rightarrow> (bytes \<times> entry \<times> nat) io_result" where
  "decode_entry body pos =
     (if pos + 4 > length body then Inl InvalidData
      else let klen = unat (u32_from_le (take 4 (drop pos body))); pos = pos + 4 in
      if pos + klen > length body then Inl InvalidData
      else let key = take klen (drop pos body); pos = pos + klen in
      if pos + 4 > length body then Inl InvalidData
      else let vlen = unat (u32_from_le (take 4 (drop pos body))); pos = pos + 4 in
      if pos + vlen > length body then Inl InvalidData
      else let val = take vlen (drop pos body); pos = pos + vlen in
      if pos + 8 > length body then Inl InvalidData
      else let version = u64_from_le (take 8 (drop pos body)) in
        Inr (key, \<lparr>e_value = val, e_version = version\<rparr>, pos + 8))"

primrec decode_entries :: "nat \<Rightarrow> bytes \<Rightarrow> nat \<Rightarrow> kvmap \<Rightarrow> (kvmap \<times> nat) io_result" where
  "decode_entries 0 body pos data = Inr (data, pos)"
| "decode_entries (Suc n) body pos data =
     try_bind (decode_entry body pos) (\<lambda>(key, e, pos).
       if bm_get data key \<noteq> None then Inl InvalidData
       else decode_entries n body pos (bm_insert key e data))"

definition ckpt_decode :: "bytes \<Rightarrow> snapshot io_result" where
  "ckpt_decode b =
     (if length b < length CKPT_MAGIC + 4 + 4 then Inl InvalidData
      else if take 4 b \<noteq> CKPT_MAGIC then Inl InvalidData
      else
        let stored = u32_from_le (drop (length b - 4) b); body = take (length b - 4) b in
        if crc32 body \<noteq> stored then Inl InvalidData
        else if u32_from_le (take 4 (drop 4 b)) \<noteq> CKPT_FORMAT then Inl Unsupported
        else if length b < CKPT_HEADER_LEN + 4 then Inl InvalidData
        else
          let index = u64_from_le (take 8 (drop 8 b)); count = unat (u64_from_le (take 8 (drop 16 b))) in
          if count > (length body - CKPT_HEADER_LEN) div MIN_ENTRY_LEN then Inl InvalidData
          else
            try_bind (decode_entries count body CKPT_HEADER_LEN []) (\<lambda>(data, pos).
              if pos \<noteq> length body then Inl InvalidData
              else Inr \<lparr>sn_index = index, sn_data = data\<rparr>))"

definition load_file :: "string \<Rightarrow> fs \<Rightarrow> snapshot option io_result" where
  "load_file path d =
     (case bm_get (fs_files d) path of
        None \<Rightarrow> Inr None
      | Some b \<Rightarrow> try_bind (ckpt_decode b) (\<lambda>snap. Inr (Some snap)))"

definition ckpt_load :: "fs \<Rightarrow> loaded io_result" where
  "ckpt_load d =
     (case load_file SNAPSHOT_NAME d of
        Inr (Some s) \<Rightarrow> Inr \<lparr>ld_snapshot = Some s, ld_latest_damaged = False\<rparr>
      | Inr None \<Rightarrow>
          try_bind (load_file SNAPSHOT_PREV d) (\<lambda>p.
            Inr \<lparr>ld_snapshot = p, ld_latest_damaged = False\<rparr>)
      | Inl e \<Rightarrow>
          if e = InvalidData then
            try_bind (load_file SNAPSHOT_PREV d) (\<lambda>p.
              case p of
                Some prev \<Rightarrow> Inr \<lparr>ld_snapshot = Some prev, ld_latest_damaged = True\<rparr>
              | None \<Rightarrow> Inl e)
          else Inl e)"

text \<open>
  \<^verbatim>\<open>write\<close>: the buffered writer's bytes reach the temporary file up to the first failing call; when a
  key or value does not fit, what was buffered before it is flushed as the writer is dropped.
\<close>

definition ckpt_write :: "snapshot \<Rightarrow> replaced \<Rightarrow> fs \<Rightarrow> unit io_result \<times> fs" where
  "ckpt_write snap rep d =
     io_then (fs_open_truncate SNAPSHOT_TMP d) (\<lambda>d.
       case write_body snap ([], crc_new) of
         (Inl e, sk) \<Rightarrow> (Inl e, snd (fs_write_all SNAPSHOT_TMP (fst sk) d))
       | (Inr _, sk) \<Rightarrow>
           io_then (fs_write_all SNAPSHOT_TMP (fst sk @ u32_to_le (crc_finish (snd sk))) d) (\<lambda>d.
           io_then (fs_sync (Synced SNAPSHOT_TMP) d) (\<lambda>d.
           io_then (if rep = Retain \<and> fs_exists SNAPSHOT_NAME d
                    then fs_rename SNAPSHOT_NAME SNAPSHOT_PREV d else (Inr (), d)) (\<lambda>d.
           io_then (fs_rename SNAPSHOT_TMP SNAPSHOT_NAME d) (fs_sync SyncedDir)))))"

subsection \<open>The body layout\<close>

definition entry_bytes :: "bytes \<times> entry \<Rightarrow> bytes" where
  "entry_bytes ke = u32_to_le (word_of_nat (length (fst ke))) @ fst ke
     @ u32_to_le (word_of_nat (length (e_value (snd ke)))) @ e_value (snd ke)
     @ u64_to_le (e_version (snd ke))"

definition body_bytes :: "snapshot \<Rightarrow> bytes" where
  "body_bytes snap = CKPT_MAGIC @ u32_to_le CKPT_FORMAT @ u64_to_le (sn_index snap)
     @ u64_to_le (word_of_nat (length (sn_data snap))) @ concat (map entry_bytes (sn_data snap))"

text \<open>The file a successful write publishes.\<close>

definition ckpt_image :: "snapshot \<Rightarrow> bytes" where
  "ckpt_image snap = body_bytes snap @ u32_to_le (crc32 (body_bytes snap))"

definition entry_fits :: "bytes \<times> entry \<Rightarrow> bool" where
  "entry_fits ke \<longleftrightarrow> length (fst ke) < 2 ^ 32 \<and> length (e_value (snd ke)) < 2 ^ 32"

definition snapshot_fits :: "snapshot \<Rightarrow> bool" where
  "snapshot_fits snap \<longleftrightarrow> snapshot_wf snap \<and> list_all entry_fits (sn_data snap)
     \<and> length (sn_data snap) < 2 ^ 64"

lemma crc_update_append: "crc_update (crc_update c x) y = crc_update c (x @ y)"
  by (simp add: crc_update_def)

lemma emit_bytes_twice: "emit_bytes b (emit_bytes a sk) = emit_bytes (a @ b) sk"
  by (simp add: emit_bytes_def crc_update_append)

lemma emit_bytes_new: "emit_bytes b ([], crc_new) = (b, foldl crc_byte crc_new b)"
  by (simp add: emit_bytes_def crc_update_def)

lemma crc_finish_new: "crc_finish (foldl crc_byte crc_new b) = crc32 b"
  using crc_finish_chunks [of "[b]"] by (simp add: crc_update_def)

lemma write_entries_ok:
  "list_all entry_fits es \<Longrightarrow> write_entries es sk = (Inr (), emit_bytes (concat (map entry_bytes es)) sk)"
  by (induction es arbitrary: sk)
    (simp_all add: len32_def entry_fits_def emit_bytes_twice entry_bytes_def Let_def,
      simp add: emit_bytes_def crc_update_def)

lemma write_entries_bad:
  "\<not> list_all entry_fits es \<Longrightarrow> \<exists>sk'. write_entries es sk = (Inl InvalidInput, sk')"
  by (induction es arbitrary: sk) (auto simp: len32_def entry_fits_def Let_def)

lemma write_body_ok:
  assumes "list_all entry_fits (sn_data snap)"
  shows "write_body snap ([], crc_new) = (Inr (), body_bytes snap, foldl crc_byte crc_new (body_bytes snap))"
  using assms
  by (simp add: write_body_def write_entries_ok emit_bytes_def crc_update_def body_bytes_def)

subsection \<open>The parser inverts the layout\<close>

lemma decode_entry_at:
  assumes "entry_fits ke"
  shows "decode_entry (pre @ entry_bytes ke @ post) (length pre) =
    Inr (fst ke, snd ke, length pre + length (entry_bytes ke))"
proof -
  obtain k v n where ke: "ke = (k, \<lparr>e_value = v, e_version = n\<rparr>)" by (metis entry.cases surj_pair)
  have fits: "length k < 2 ^ 32" "length v < 2 ^ 32" using assms by (simp_all add: ke entry_fits_def)
  then have u: "unat (word_of_nat (length k) :: u32) = length k" "unat (word_of_nat (length v) :: u32) = length v"
    by (simp_all add: unat_u32_of_nat)
  show ?thesis by (simp add: ke decode_entry_def entry_bytes_def Let_def u add.assoc)
qed

lemma decode_entries_at:
  assumes "list_all entry_fits es" and "bm_wf (done @ es)"
  shows "decode_entries (length es) (pre @ concat (map entry_bytes es) @ post) (length pre) done =
    Inr (done @ es, length pre + length (concat (map entry_bytes es)))"
  using assms
proof (induction es arbitrary: pre "done")
  case (Cons ke es)
  have above: "\<forall>e \<in> set done. fst e < fst ke"
    using Cons.prems(2) by (simp add: bm_wf_def sorted_wrt_append)
  then have "bm_get done (fst ke) = None" by (auto simp: map_of_eq_None_iff)
  moreover have "bm_insert (fst ke) (snd ke) done = done @ [ke]"
    using bm_insert_last [OF above, of "snd ke"] by simp
  moreover have "decode_entries (length es) (pre @ entry_bytes ke @ concat (map entry_bytes es) @ post)
      (length pre + length (entry_bytes ke)) (done @ [ke]) =
      Inr (done @ ke # es, length pre + length (entry_bytes ke) + length (concat (map entry_bytes es)))"
    using Cons.IH [of "done @ [ke]" "pre @ entry_bytes ke"] Cons.prems by simp
  ultimately show ?case
    using Cons.prems(1) by (simp add: decode_entry_at add.assoc)
qed simp

lemma length_entry_bytes_ge: "MIN_ENTRY_LEN \<le> length (entry_bytes ke)"
  by (simp add: entry_bytes_def MIN_ENTRY_LEN_def)

lemma entries_room: "length es \<le> length (concat (map entry_bytes es)) div MIN_ENTRY_LEN"
proof -
  have "MIN_ENTRY_LEN * length es \<le> length (concat (map entry_bytes es))"
    by (induction es) (use length_entry_bytes_ge in \<open>simp_all add: add_mono\<close>)
  then show ?thesis by (simp add: MIN_ENTRY_LEN_def less_eq_div_iff_mult_less_eq mult.commute)
qed

lemma length_CKPT_MAGIC [simp]: "length CKPT_MAGIC = 4"
  by (simp add: CKPT_MAGIC_def)

lemma length_ckpt_image: "length (ckpt_image snap) = length (body_bytes snap) + 4"
  by (simp add: ckpt_image_def)

lemma body_bytes_header:
  "take 4 (body_bytes s @ rest) = CKPT_MAGIC"
  "take 4 (drop 4 (body_bytes s @ rest)) = u32_to_le CKPT_FORMAT"
  "take 8 (drop 8 (body_bytes s @ rest)) = u64_to_le (sn_index s)"
  "take 8 (drop 16 (body_bytes s @ rest)) = u64_to_le (word_of_nat (length (sn_data s)))"
  "length (body_bytes s) = CKPT_HEADER_LEN + length (concat (map entry_bytes (sn_data s)))"
  by (simp_all add: body_bytes_def CKPT_HEADER_LEN_def)

lemma ckpt_decode_image:
  assumes "snapshot_fits s"
  shows "ckpt_decode (ckpt_image s) = Inr s"
proof -
  let ?es = "concat (map entry_bytes (sn_data s))"
  have count: "unat (word_of_nat (length (sn_data s)) :: u64) = length (sn_data s)"
    using assms by (simp add: snapshot_fits_def unat_u64_of_nat)
  let ?pre = "CKPT_MAGIC @ u32_to_le CKPT_FORMAT @ u64_to_le (sn_index s)
    @ u64_to_le (word_of_nat (length (sn_data s)))"
  have "decode_entries (length (sn_data s)) (?pre @ ?es @ []) (length ?pre) [] =
      Inr ([] @ sn_data s, length ?pre + length ?es)"
    using assms by (intro decode_entries_at) (simp_all add: snapshot_fits_def snapshot_wf_def)
  then have "decode_entries (length (sn_data s)) (body_bytes s) CKPT_HEADER_LEN [] =
      Inr (sn_data s, length (body_bytes s))"
    by (simp add: body_bytes_def CKPT_HEADER_LEN_def)
  moreover have "length (body_bytes s) \<ge> 24" and "CKPT_HEADER_LEN = 24"
    by (simp_all add: body_bytes_header CKPT_HEADER_LEN_def)
  moreover define b where "b = ckpt_image s"
  moreover have "length b = length (body_bytes s) + 4" "take 4 b = CKPT_MAGIC"
    "take 4 (drop 4 b) = u32_to_le CKPT_FORMAT" "take 8 (drop 8 b) = u64_to_le (sn_index s)"
    "take 8 (drop 16 b) = u64_to_le (word_of_nat (length (sn_data s)))"
    "drop (length (body_bytes s)) b = u32_to_le (crc32 (body_bytes s))"
    "take (length (body_bytes s)) b = body_bytes s"
    by (simp_all only: b_def ckpt_image_def body_bytes_header(1-4)) simp_all
  ultimately show ?thesis
    using entries_room [of "sn_data s"]
    by (simp add: ckpt_decode_def Let_def count body_bytes_header(5))
qed

text \<open>
  A checkpoint decodes to exactly the snapshot it was written from: index, keys, values and
  versions.
\<close>

theorem checkpoint_roundtrip:
  assumes "snapshot_fits s"
  shows "\<exists>body crc. write_body s ([], crc_new) = (Inr (), body, crc)
    \<and> ckpt_decode (body @ u32_to_le (crc_finish crc)) = Inr s"
  using assms ckpt_decode_image [OF assms]
  by (simp add: write_body_ok snapshot_fits_def crc_finish_new ckpt_image_def)

theorem checkpoint_roundtrip_witness:
  "\<exists>body crc. write_body \<lparr>sn_index = 7, sn_data = [([1], \<lparr>e_value = [2, 3], e_version = 5\<rparr>)]\<rparr> ([], crc_new)
      = (Inr (), body, crc)
    \<and> ckpt_decode (body @ u32_to_le (crc_finish crc))
      = Inr \<lparr>sn_index = 7, sn_data = [([1], \<lparr>e_value = [2, 3], e_version = 5\<rparr>)]\<rparr>"
  by (rule checkpoint_roundtrip) (simp add: snapshot_fits_def snapshot_wf_def entry_fits_def)

subsection \<open>Damage\<close>

lemma ckpt_decode_bad_crc:
  assumes "length b \<ge> 12" and "crc32 (take (length b - 4) b) \<noteq> u32_from_le (drop (length b - 4) b)"
  shows "ckpt_decode b = Inl InvalidData"
  using assms by (simp add: ckpt_decode_def Let_def)

lemma crc32_update_neq:
  assumes "j < length xs" and "v \<noteq> xs ! j"
  shows "crc32 (xs[j := v]) \<noteq> crc32 xs"
proof
  assume "crc32 (xs[j := v]) = crc32 xs"
  then have "crc32 (take j xs @ v # drop (Suc j) xs) = crc32 (take j xs @ xs ! j # drop (Suc j) xs)"
    using assms(1) by (simp add: upd_conv_take_nth_drop id_take_nth_drop [symmetric])
  then have "v = xs ! j" by (rule crc32_byte_inj)
  with assms(2) show False by simp
qed

text \<open>
  C19: one damaged byte anywhere in a checkpoint file, its version field and its checksum included, is
  reported as damage (\<^verbatim>\<open>InvalidData\<close>), never decoded and never mistaken for another version.
\<close>

theorem checkpoint_detects_damage:
  assumes "j < length (ckpt_image s)" and "v \<noteq> ckpt_image s ! j"
  shows "ckpt_decode ((ckpt_image s)[j := v]) = Inl InvalidData"
proof (rule ckpt_decode_bad_crc)
  let ?b = "body_bytes s" and ?c = "u32_to_le (crc32 (body_bytes s))"
  have len: "length ?b \<ge> 24" by (simp add: body_bytes_header(5) CKPT_HEADER_LEN_def)
  then show "12 \<le> length ((ckpt_image s)[j := v])" by (simp add: length_ckpt_image)
  show "crc32 (take (length ((ckpt_image s)[j := v]) - 4) ((ckpt_image s)[j := v]))
      \<noteq> u32_from_le (drop (length ((ckpt_image s)[j := v]) - 4) ((ckpt_image s)[j := v]))"
  proof (cases "j < length ?b")
    case True
    then have "(ckpt_image s)[j := v] = ?b[j := v] @ ?c" by (simp add: ckpt_image_def list_update_append)
    moreover have "v \<noteq> ?b ! j" using assms(2) True by (simp add: ckpt_image_def nth_append)
    ultimately show ?thesis using crc32_update_neq [OF True] by simp
  next
    case False
    let ?i = "j - length ?b"
    have i: "?i < 4" "v \<noteq> ?c ! ?i"
      using assms False by (simp_all add: ckpt_image_def nth_append)
    then have "?c[?i := v] \<noteq> ?c" by (metis le32.length_enc nth_list_update_eq)
    then have "u32_from_le (?c[?i := v]) \<noteq> crc32 ?b"
      using le32.dec_eq_iff [of "?c[?i := v]" "crc32 ?b"] by simp
    moreover have "(ckpt_image s)[j := v] = ?b @ ?c[?i := v]"
      using False by (simp add: ckpt_image_def list_update_append)
    ultimately show ?thesis by simp
  qed
qed

theorem checkpoint_detects_damage_witness:
  "ckpt_decode ((ckpt_image \<lparr>sn_index = 7, sn_data = []\<rparr>)[0 := 9]) = Inl InvalidData"
  by (rule checkpoint_detects_damage)
    (simp_all add: length_ckpt_image body_bytes_header(5) CKPT_HEADER_LEN_def,
      simp add: ckpt_image_def body_bytes_def CKPT_MAGIC_def)

subsection \<open>The publish protocol\<close>

lemma ckpt_names [simp]:
  "SNAPSHOT_NAME \<noteq> SNAPSHOT_PREV" "SNAPSHOT_NAME \<noteq> SNAPSHOT_TMP" "SNAPSHOT_PREV \<noteq> SNAPSHOT_TMP"
  "SNAPSHOT_PREV \<noteq> SNAPSHOT_NAME" "SNAPSHOT_TMP \<noteq> SNAPSHOT_NAME" "SNAPSHOT_TMP \<noteq> SNAPSHOT_PREV"
  by (simp_all add: SNAPSHOT_NAME_def SNAPSHOT_PREV_def SNAPSHOT_TMP_def)

lemma ckpt_names_not_segments [simp]:
  "segment_seq SNAPSHOT_NAME = None" "segment_seq SNAPSHOT_PREV = None" "segment_seq SNAPSHOT_TMP = None"
  by (simp_all add: SNAPSHOT_NAME_def SNAPSHOT_PREV_def SNAPSHOT_TMP_def segment_seq_def strip_prefix_def)

text \<open>
  What \<^verbatim>\<open>write\<close> may leave: the two checkpoint names as they were, the old latest demoted, or the new
  one published; every other name but the temporary one is untouched.
\<close>

definition demoted :: "replaced \<Rightarrow> fs \<Rightarrow> bool" where
  "demoted rep d \<longleftrightarrow> rep = Retain \<and> fs_exists SNAPSHOT_NAME d"

definition file_at :: "fs \<Rightarrow> string \<Rightarrow> bytes option" where
  "file_at d = map_of (fs_files d)"

lemma open_truncate_file:
  "fs_open_truncate n d = (res, d') \<Longrightarrow> bm_wf (fs_files d) \<Longrightarrow>
   bm_wf (fs_files d') \<and> (\<forall>x. x \<noteq> n \<longrightarrow> file_at d' x = file_at d x) \<and> (res = Inr () \<longrightarrow> file_at d' n = Some [])"
  by (auto simp: fs_open_truncate_def file_at_def bm_get_insert bm_wf_insert
      split: prod.splits io_outcome.splits)

lemma write_all_file:
  assumes "fs_write_all n buf d = (res, d')" and "bm_wf (fs_files d)" and "file_at d n = Some c"
  shows "bm_wf (fs_files d') \<and> (\<forall>x. x \<noteq> n \<longrightarrow> file_at d' x = file_at d x) \<and> (res = Inr () \<longrightarrow> file_at d' n = Some (c @ buf))"
proof -
  obtain out d1 where d1: "next_io d = (out, d1)" by (cases "next_io d")
  have "fs_content n d1 = c" using assms(3) d1 by (simp add: fs_content_def file_at_def)
  with assms d1 show ?thesis
    by (cases out) (auto simp: fs_write_all_def file_at_def bm_get_insert bm_wf_insert)
qed

lemma file_at_files: "fs_files d' = fs_files d \<Longrightarrow> file_at d' = file_at d"
  by (simp add: file_at_def)

lemma rename_file:
  assumes "fs_rename a b d = (res, d')" and "bm_wf (fs_files d)" and "a \<noteq> b" and "file_at d a = Some c"
  shows "bm_wf (fs_files d') \<and> (res = Inr () \<and> file_at d' = (file_at d)(b \<mapsto> c, a := None)
    \<or> (\<exists>e. res = Inl e) \<and> file_at d' = file_at d)"
proof -
  obtain out d1 where d1: "next_io d = (out, d1)" by (cases "next_io d")
  with assms show ?thesis
    by (cases out) (auto simp: fs_rename_def file_at_def bm_get_insert bm_wf_insert bm_wf_remove bm_get_remove fun_eq_iff)
qed

definition published :: "snapshot \<Rightarrow> replaced \<Rightarrow> fs \<Rightarrow> fs \<Rightarrow> bool" where
  "published snap rep d d' \<longleftrightarrow> file_at d' SNAPSHOT_NAME = Some (ckpt_image snap)
     \<and> file_at d' SNAPSHOT_PREV = file_at d (if demoted rep d then SNAPSHOT_NAME else SNAPSHOT_PREV)"

definition not_published :: "replaced \<Rightarrow> fs \<Rightarrow> fs \<Rightarrow> bool" where
  "not_published rep d d' \<longleftrightarrow>
     file_at d' SNAPSHOT_NAME = file_at d SNAPSHOT_NAME \<and> file_at d' SNAPSHOT_PREV = file_at d SNAPSHOT_PREV
     \<or> demoted rep d \<and> file_at d' SNAPSHOT_NAME = None \<and> file_at d' SNAPSHOT_PREV = file_at d SNAPSHOT_NAME"

text \<open>The two renames, once the temporary file is complete.\<close>

lemma publish_cases:
  assumes wf: "bm_wf (fs_files d)" and tmp: "file_at d SNAPSHOT_TMP = Some (ckpt_image snap)"
    and run: "io_then (if rep = Retain \<and> fs_exists SNAPSHOT_NAME d
        then fs_rename SNAPSHOT_NAME SNAPSHOT_PREV d else (Inr (), d)) (\<lambda>d.
      io_then (fs_rename SNAPSHOT_TMP SNAPSHOT_NAME d) (fs_sync SyncedDir)) = (res, d')"
  shows "bm_wf (fs_files d')"
    and "\<forall>x. x \<notin> {SNAPSHOT_TMP, SNAPSHOT_NAME, SNAPSHOT_PREV} \<longrightarrow> file_at d' x = file_at d x"
    and "published snap rep d d' \<or> (\<exists>e. res = Inl e) \<and> not_published rep d d'"
proof -
  obtain r1 d1 where c1: "(if rep = Retain \<and> fs_exists SNAPSHOT_NAME d
      then fs_rename SNAPSHOT_NAME SNAPSHOT_PREV d else (Inr (), d)) = (r1, d1)" by force
  define f1 where "f1 = (if demoted rep d then (file_at d)(SNAPSHOT_PREV := file_at d SNAPSHOT_NAME, SNAPSHOT_NAME := None)
    else file_at d)"
  have d1: "bm_wf (fs_files d1) \<and> (r1 = Inr () \<and> file_at d1 = f1 \<or> (\<exists>e. r1 = Inl e) \<and> file_at d1 = file_at d)"
  proof (cases "demoted rep d")
    case True
    then obtain c where c: "file_at d SNAPSHOT_NAME = Some c"
      by (auto simp: demoted_def fs_exists_def file_at_def)
    have "fs_rename SNAPSHOT_NAME SNAPSHOT_PREV d = (r1, d1)" using c1 True by (simp add: demoted_def)
    from rename_file [OF this wf _ c] show ?thesis using True c by (auto simp: f1_def)
  next
    case False
    with c1 wf show ?thesis by (auto simp: f1_def demoted_def split: if_splits)
  qed
  show "bm_wf (fs_files d')"
    and "\<forall>x. x \<notin> {SNAPSHOT_TMP, SNAPSHOT_NAME, SNAPSHOT_PREV} \<longrightarrow> file_at d' x = file_at d x"
    and "published snap rep d d' \<or> (\<exists>e. res = Inl e) \<and> not_published rep d d'"
  proof (atomize (full), cases r1)
    case (Inl e)
    then have "res = Inl e" "d' = d1" using run c1 by simp_all
    with Inl d1 show "bm_wf (fs_files d') \<and>
      (\<forall>x. x \<notin> {SNAPSHOT_TMP, SNAPSHOT_NAME, SNAPSHOT_PREV} \<longrightarrow> file_at d' x = file_at d x) \<and>
      (published snap rep d d' \<or> (\<exists>e. res = Inl e) \<and> not_published rep d d')"
      by (auto simp: not_published_def)
  next
    case (Inr u)
    then have f1: "file_at d1 = f1" and wf1: "bm_wf (fs_files d1)" using d1 by auto
    obtain r2 d2 where c2: "fs_rename SNAPSHOT_TMP SNAPSHOT_NAME d1 = (r2, d2)" by force
    have tmp1: "file_at d1 SNAPSHOT_TMP = Some (ckpt_image snap)" using f1 tmp by (simp add: f1_def)
    have fin: "io_then (r2, d2) (fs_sync SyncedDir) = (res, d')" using run c1 c2 Inr by simp
    have same: "fs_files d' = fs_files d2" "file_at d' = file_at d2"
      using io_then_sync(1) [OF fin] by (simp_all add: file_at_def)
    have ok: "\<exists>e. res = Inl e" if "\<exists>e. r2 = Inl e" using fin that by auto
    from rename_file [OF c2 wf1 _ tmp1] show "bm_wf (fs_files d') \<and>
      (\<forall>x. x \<notin> {SNAPSHOT_TMP, SNAPSHOT_NAME, SNAPSHOT_PREV} \<longrightarrow> file_at d' x = file_at d x) \<and>
      (published snap rep d d' \<or> (\<exists>e. res = Inl e) \<and> not_published rep d d')"
      using ok by (auto simp: same f1 f1_def published_def not_published_def)
  qed
qed

text \<open>How a write ends: with the new file published, or with an error and at most the old one demoted.\<close>

abbreviation write_ends :: "snapshot \<Rightarrow> replaced \<Rightarrow> fs \<Rightarrow> unit io_result \<Rightarrow> fs \<Rightarrow> bool" where
  "write_ends snap rep d res d' \<equiv> bm_wf (fs_files d')
    \<and> (\<forall>x. x \<notin> {SNAPSHOT_TMP, SNAPSHOT_NAME, SNAPSHOT_PREV} \<longrightarrow> file_at d' x = file_at d x)
    \<and> (list_all entry_fits (sn_data snap) \<and> published snap rep d d' \<or> (\<exists>e. res = Inl e) \<and> not_published rep d d')"

lemma write_ends_early:
  assumes "\<exists>e. res = Inl e" and "bm_wf (fs_files d')" and "\<forall>x. x \<noteq> SNAPSHOT_TMP \<longrightarrow> file_at d' x = file_at d x"
  shows "write_ends snap rep d res d'"
  using assms by (simp add: not_published_def)

lemma ckpt_write_framed:
  assumes wf1: "bm_wf (fs_files d1)" and o1: "\<And>x. x \<noteq> SNAPSHOT_TMP \<Longrightarrow> file_at d1 x = file_at d x"
    and empty: "file_at d1 SNAPSHOT_TMP = Some []" and fits: "list_all entry_fits (sn_data snap)"
    and run: "io_then (io_then (fs_write_all SNAPSHOT_TMP (ckpt_image snap) d1) (fs_sync (Synced SNAPSHOT_TMP))) (\<lambda>d.
        io_then (if rep = Retain \<and> fs_exists SNAPSHOT_NAME d
          then fs_rename SNAPSHOT_NAME SNAPSHOT_PREV d else (Inr (), d)) (\<lambda>d.
        io_then (fs_rename SNAPSHOT_TMP SNAPSHOT_NAME d) (fs_sync SyncedDir))) = (res, d')"
  shows "write_ends snap rep d res d'"
proof -
  obtain r2 d2 where c2: "fs_write_all SNAPSHOT_TMP (ckpt_image snap) d1 = (r2, d2)" by force
  obtain r3 d3 where c3: "io_then (r2, d2) (fs_sync (Synced SNAPSHOT_TMP)) = (r3, d3)" by force
  have w2: "bm_wf (fs_files d2) \<and> (\<forall>x. x \<noteq> SNAPSHOT_TMP \<longrightarrow> file_at d2 x = file_at d x)
      \<and> (r2 = Inr () \<longrightarrow> file_at d2 SNAPSHOT_TMP = Some (ckpt_image snap))"
    using write_all_file [OF c2] wf1 o1 empty by auto
  have w3: "fs_files d3 = fs_files d2" "file_at d3 = file_at d2" "r3 = Inr () \<Longrightarrow> r2 = Inr ()"
    using io_then_sync [OF c3] by (auto simp: file_at_def)
  show ?thesis
  proof (cases r3)
    case (Inl e)
    then show ?thesis using run c2 c3 w2 w3 by (intro write_ends_early) auto
  next
    case (Inr u)
    then have tmp3: "bm_wf (fs_files d3)" "file_at d3 SNAPSHOT_TMP = Some (ckpt_image snap)"
      using w2 w3 by auto
    note pub = publish_cases [OF tmp3 run [unfolded c2 c3 Inr, simplified]]
    have "file_at d3 x = file_at d x" if "x \<noteq> SNAPSHOT_TMP" for x using w2 w3 that by simp
    moreover from this have "demoted rep d3 = demoted rep d"
      by (simp add: demoted_def fs_exists_def flip: file_at_def)
    ultimately show ?thesis
      using pub fits by (auto simp: published_def not_published_def)
  qed
qed

lemma ckpt_write_ends:
  assumes wf: "bm_wf (fs_files d)" and run: "ckpt_write snap rep d = (res, d')"
  shows "write_ends snap rep d res d'"
proof -
  obtain r1 d1 where c1: "fs_open_truncate SNAPSHOT_TMP d = (r1, d1)" by force
  note o1 = open_truncate_file [OF c1 wf]
  obtain r sk where wb: "write_body snap ([], crc_new) = (r, sk)" by (rule prod.exhaust)
  consider (trunc) e where "r1 = Inl e" | (bad) e where "r1 = Inr ()" "r = Inl e" | (ok) "r1 = Inr ()" "r = Inr ()"
    by (cases r1; cases r) auto
  then show ?thesis
  proof cases
    case trunc
    then show ?thesis using run c1 o1 by (intro write_ends_early) (auto simp: ckpt_write_def)
  next
    case bad
    obtain r2 d2 where c2: "fs_write_all SNAPSHOT_TMP (fst sk) d1 = (r2, d2)" by force
    have "res = Inl e" "d' = d2" using run c1 wb bad c2 by (simp_all add: ckpt_write_def)
    then show ?thesis using write_all_file [OF c2] o1 bad(1) by (intro write_ends_early) auto
  next
    case ok
    then have fits: "list_all entry_fits (sn_data snap)"
      using wb write_entries_bad [of "sn_data snap"] by (metis Inl_Inr_False prod.inject write_body_def)
    have img: "fst sk @ u32_to_le (crc_finish (snd sk)) = ckpt_image snap"
      using wb write_body_ok [OF fits] by (auto simp: ckpt_image_def crc_finish_new)
    show ?thesis
    proof (rule ckpt_write_framed [OF _ _ _ fits])
      show "io_then (io_then (fs_write_all SNAPSHOT_TMP (ckpt_image snap) d1) (fs_sync (Synced SNAPSHOT_TMP))) (\<lambda>d.
        io_then (if rep = Retain \<and> fs_exists SNAPSHOT_NAME d
          then fs_rename SNAPSHOT_NAME SNAPSHOT_PREV d else (Inr (), d)) (\<lambda>d.
        io_then (fs_rename SNAPSHOT_TMP SNAPSHOT_NAME d) (fs_sync SyncedDir))) = (res, d')"
        using run c1 wb ok img by (auto simp: ckpt_write_def io_then_def split: prod.splits sum.splits)
    qed (use o1 ok(1) in auto)
  qed
qed

lemma ckpt_write_cases:
  assumes wf: "bm_wf (fs_files d)" and run: "ckpt_write snap rep d = (res, d')"
  shows "bm_wf (fs_files d')"
    and "\<forall>x. x \<notin> {SNAPSHOT_TMP, SNAPSHOT_NAME, SNAPSHOT_PREV} \<longrightarrow> file_at d' x = file_at d x"
    and "list_all entry_fits (sn_data snap) \<and> published snap rep d d'
      \<or> (\<exists>e. res = Inl e) \<and> not_published rep d d'"
  using ckpt_write_ends [OF wf run] by blast+

lemma load_file_at: "load_file n d =
    (case file_at d n of None \<Rightarrow> Inr None | Some b \<Rightarrow> try_bind (ckpt_decode b) (\<lambda>snap. Inr (Some snap)))"
  by (simp add: load_file_def file_at_def)

lemma load_file_cong: "file_at d' n' = file_at d n \<Longrightarrow> load_file n' d' = load_file n d"
  by (simp add: load_file_at)

lemma load_published:
  assumes "published snap rep d d'" and "snapshot_fits snap"
  shows "ckpt_load d' = Inr \<lparr>ld_snapshot = Some snap, ld_latest_damaged = False\<rparr>"
  using assms by (simp add: ckpt_load_def load_file_at published_def ckpt_decode_image)

lemma ckpt_load_Inr_cases:
  assumes "ckpt_load d = Inr ld"
  obtains (latest) s where "load_file SNAPSHOT_NAME d = Inr (Some s)" "ld = \<lparr>ld_snapshot = Some s, ld_latest_damaged = False\<rparr>"
  | (missing) p where "load_file SNAPSHOT_NAME d = Inr None" "load_file SNAPSHOT_PREV d = Inr p"
      "ld = \<lparr>ld_snapshot = p, ld_latest_damaged = False\<rparr>"
  | (damaged) p where "load_file SNAPSHOT_NAME d = Inl InvalidData" "load_file SNAPSHOT_PREV d = Inr (Some p)"
      "ld = \<lparr>ld_snapshot = Some p, ld_latest_damaged = True\<rparr>"
  using assms
  by (auto simp: ckpt_load_def try_bind_Inr_iff split: sum.splits option.splits if_splits)

lemma load_file_None: "load_file n d = Inr None \<longleftrightarrow> \<not> fs_exists n d"
  by (auto simp: load_file_def fs_exists_def try_bind_def split: option.split sum.split)

text \<open>How the engine chooses what happens to the checkpoint a write replaces.\<close>

definition replace_mode :: "loaded \<Rightarrow> replaced" where
  "replace_mode ld = (if ld_latest_damaged ld then Discard else Retain)"

lemma load_not_published:
  assumes "ckpt_load d = Inr ld" and "not_published (replace_mode ld) d d'"
  obtains ld' where "ckpt_load d' = Inr ld'" and "ld_snapshot ld' = ld_snapshot ld"
proof -
  consider (same) "file_at d' SNAPSHOT_NAME = file_at d SNAPSHOT_NAME" "file_at d' SNAPSHOT_PREV = file_at d SNAPSHOT_PREV"
  | (demoted) "demoted (replace_mode ld) d" "file_at d' SNAPSHOT_NAME = None"
      "file_at d' SNAPSHOT_PREV = file_at d SNAPSHOT_NAME"
    using assms(2) by (auto simp: not_published_def)
  then show thesis
  proof cases
    case same
    then have "ckpt_load d' = ckpt_load d" 
      unfolding ckpt_load_def load_file_cong [OF same(1)] load_file_cong [OF same(2)] by simp
    with assms(1) that show thesis by simp
  next
    case demoted
    then have prev: "load_file SNAPSHOT_PREV d' = load_file SNAPSHOT_NAME d"
      and gone: "load_file SNAPSHOT_NAME d' = Inr None" by (simp_all add: load_file_at)
    from assms(1) show thesis
    proof (cases rule: ckpt_load_Inr_cases)
      case latest
      with prev gone that show thesis by (simp add: ckpt_load_def)
    qed (use demoted(1) load_file_None in \<open>auto simp: demoted_def replace_mode_def\<close>)
  qed
qed

text \<open>The generation a successful write leaves behind as the fall-back is the one it replaced.\<close>

lemma prev_published:
  assumes "ckpt_load d = Inr ld" and "published snap (replace_mode ld) d d'" and "ld_snapshot ld = Some s"
  shows "load_file SNAPSHOT_PREV d' = Inr (Some s)"
  using assms(1)
proof (cases rule: ckpt_load_Inr_cases)
  case (latest t)
  then have "demoted (replace_mode ld) d"
    using load_file_None [of SNAPSHOT_NAME d] by (simp add: demoted_def replace_mode_def)
  with assms(2) latest assms(3) show ?thesis by (simp add: published_def load_file_at)
next
  case (missing p)
  then have "\<not> demoted (replace_mode ld) d"
    using load_file_None [of SNAPSHOT_NAME d] by (simp add: demoted_def)
  with assms(2) missing assms(3) show ?thesis by (simp add: published_def load_file_at)
next
  case (damaged p)
  then have "\<not> demoted (replace_mode ld) d" by (simp add: demoted_def replace_mode_def)
  with assms(2) damaged assms(3) show ?thesis by (simp add: published_def load_file_at)
qed

text \<open>
  C17: publishing a checkpoint is atomic under every failure and crash. Whatever call of \<^verbatim>\<open>write\<close>
  fails, loading afterwards succeeds and finds the checkpoint that was there before or the new one,
  and the new one if \<^verbatim>\<open>write\<close> returned \<^verbatim>\<open>Ok\<close>. If the published file is damaged later, the load falls
  back to the checkpoint it replaced.
\<close>

theorem checkpoint_write_atomic:
  assumes "bm_wf (fs_files d)" and "ckpt_load d = Inr ld" and "snapshot_wf snap"
    and "length (sn_data snap) < 2 ^ 64" and "ckpt_write snap (replace_mode ld) d = (res, d')"
  shows "\<exists>ld'. ckpt_load d' = Inr ld' \<and> ld_snapshot ld' \<in> {ld_snapshot ld, Some snap}
    \<and> (res = Inr () \<longrightarrow> ld' = \<lparr>ld_snapshot = Some snap, ld_latest_damaged = False\<rparr>
        \<and> (\<forall>s b. ld_snapshot ld = Some s \<longrightarrow> ckpt_decode b = Inl InvalidData \<longrightarrow>
             ckpt_load (fs_set SNAPSHOT_NAME b d') = Inr \<lparr>ld_snapshot = Some s, ld_latest_damaged = True\<rparr>))"
proof -
  note cases = ckpt_write_cases [OF assms(1,5)]
  from cases(3) show ?thesis
  proof
    assume pub: "list_all entry_fits (sn_data snap) \<and> published snap (replace_mode ld) d d'"
    then have "snapshot_fits snap" using assms(3,4) by (simp add: snapshot_fits_def)
    then have "ckpt_load d' = Inr \<lparr>ld_snapshot = Some snap, ld_latest_damaged = False\<rparr>"
      using pub load_published by blast
    moreover have "ckpt_load (fs_set SNAPSHOT_NAME b d') = Inr \<lparr>ld_snapshot = Some s, ld_latest_damaged = True\<rparr>"
      if "ld_snapshot ld = Some s" "ckpt_decode b = Inl InvalidData" for s b
      using prev_published [OF assms(2) conjunct2 [OF pub] that(1)] that(2) cases(1)
      by (simp add: ckpt_load_def load_file_def bm_get_insert)
    ultimately show ?thesis by auto
  next
    assume "(\<exists>e. res = Inl e) \<and> not_published (replace_mode ld) d d'"
    then show ?thesis using load_not_published [OF assms(2)] by (metis Inl_Inr_False insertI1)
  qed
qed

theorem checkpoint_write_atomic_witness:
  "\<exists>ld'. ckpt_load (snd (ckpt_write snapshot_empty Retain \<lparr>fs_files = [], fs_outcomes = [IoOk, IoErr Other 3], fs_disk = boot []\<rparr>)) = Inr ld'
     \<and> ld_snapshot ld' \<in> {None, Some snapshot_empty}"
proof -
  let ?d = "\<lparr>fs_files = [], fs_outcomes = [IoOk, IoErr Other 3], fs_disk = boot []\<rparr> :: fs"
  have "ckpt_load ?d = Inr \<lparr>ld_snapshot = None, ld_latest_damaged = False\<rparr>"
    by (simp add: ckpt_load_def load_file_def)
  from checkpoint_write_atomic [OF _ this, of snapshot_empty, OF _ _ _ surjective_pairing]
  show ?thesis by (fastforce simp: snapshot_wf_def snapshot_empty_def replace_mode_def)
qed

end
