(* ===== verification/Rcu.thy ===== *)
theory Rcu
  imports Ks_Prelude
begin

text \<open>
  The snapshot-swap cell (\<^verbatim>\<open>src/rcu.rs\<close>): one immutable value behind a lock that each operation
  holds only for itself, so an operation is one atomic step on the cell. A reader keeps the value it
  loaded, whatever is stored later: values of the model are immutable, as the pointees of the
  reference-counted pointers are.
\<close>

record 'a rcu_swap =
  rc_inner :: 'a

definition rcu_new :: "'a \<Rightarrow> 'a rcu_swap" where
  "rcu_new x = \<lparr>rc_inner = x\<rparr>"

definition rcu_load :: "'a rcu_swap \<Rightarrow> 'a" where
  "rcu_load c = rc_inner c"

text \<open>\<^verbatim>\<open>store\<close> returns the value it replaced.\<close>

definition rcu_store :: "'a \<Rightarrow> 'a rcu_swap \<Rightarrow> 'a \<times> 'a rcu_swap" where
  "rcu_store nxt c = (rc_inner c, c\<lparr>rc_inner := nxt\<rparr>)"

text \<open>The contract of a publication cell, which the engine's reads rest on.\<close>

locale publish_cell =
  fixes make :: "'a \<Rightarrow> 'c"
    and load :: "'c \<Rightarrow> 'a"
    and publish :: "'a \<Rightarrow> 'c \<Rightarrow> 'a \<times> 'c"
  assumes load_make: "load (make x) = x"
    and load_publish: "load (snd (publish x c)) = x"
    and publish_returns: "fst (publish x c) = load c"
begin

primrec publish_all :: "'a list \<Rightarrow> 'c \<Rightarrow> 'a list \<times> 'c" where
  "publish_all [] c = ([], c)"
| "publish_all (x # xs) c =
     (case publish x c of (old, c) \<Rightarrow> case publish_all xs c of (olds, c) \<Rightarrow> (old # olds, c))"

text \<open>A run of stores hands back every value once, in order, and leaves the last one in place.\<close>

lemma publish_all_chain:
  "fst (publish_all xs c) @ [load (snd (publish_all xs c))] = load c # xs"
proof (induction xs arbitrary: c)
  case (Cons x xs)
  obtain old c1 where p: "publish x c = (old, c1)" by (rule prod.exhaust)
  obtain olds c2 where q: "publish_all xs c1 = (olds, c2)" by (rule prod.exhaust)
  have "old = load c" "load c1 = x" using load_publish [of x c] publish_returns [of x c] p by simp_all
  with Cons.IH [of c1] p q show ?case by simp
qed simp

end

interpretation rcu: publish_cell rcu_new rcu_load rcu_store
  by unfold_locales (simp_all add: rcu_new_def rcu_load_def rcu_store_def)

declare rcu.load_make [simp] rcu.load_publish [simp]

end
