(* ===== verification/Engine.thy ===== *)
theory Engine
  imports Wal Checkpoint Rcu
begin

text \<open>
  The store engine (\<^verbatim>\<open>src/engine.rs\<close>): opening with recovery, the flush of a group of commits, the
  checkpoint, and the reads. A \<open>store\<close> is the struct without its locks; the directory it owns is the
  \<open>fs\<close> passed along. The queue and the tickets of concurrent writers are in \<open>Group_Commit\<close>; here a
  flush is given the group it took.
\<close>

subsection \<open>Options, counters and the store\<close>

definition DEFAULT_WAL_SEGMENT_SIZE :: nat where "DEFAULT_WAL_SEGMENT_SIZE = 2 ^ 20"

definition LOCK_NAME :: string where "LOCK_NAME = ''LOCK''"

definition SINGLE_NODE_TERM :: u64 where "SINGLE_NODE_TERM = 1"

record options =
  opt_wal_segment_size :: nat

definition options_default :: options where
  "options_default = \<lparr>opt_wal_segment_size = DEFAULT_WAL_SEGMENT_SIZE\<rparr>"

definition options_new :: options where
  "options_new = options_default"

definition wal_segment_size :: "options \<Rightarrow> nat \<Rightarrow> options" where
  "wal_segment_size opts n = opts\<lparr>opt_wal_segment_size := n\<rparr>"

record stats =
  commits :: u64
  wal_syncs :: u64
  checkpoints :: u64

record store =
  st_snap :: "snapshot rcu_swap"
  st_wal :: wal
  st_prev_boundary :: u32
  st_latest_damaged :: bool
  st_index :: u64
  st_stats :: stats

subsection \<open>Opening\<close>

text \<open>What the operating system answers to \<^verbatim>\<open>try_lock\<close>.\<close>

datatype try_lock = Locked | LockWouldBlock | LockError error_kind

definition lock_dir :: "try_lock \<Rightarrow> fs \<Rightarrow> unit io_result \<times> fs" where
  "lock_dir lk d =
     io_then (fs_open_create LOCK_NAME d) (\<lambda>d.
       case lk of
         Locked \<Rightarrow> (Inr (), d)
       | LockWouldBlock \<Rightarrow> (Inl WouldBlock, d)
       | LockError e \<Rightarrow> if e = Unsupported then (Inr (), d) else (Inl e, d))"

text \<open>The closure recovery hands to \<^verbatim>\<open>replay\<close>: its state is the data, the last index, the first uncovered segment.\<close>

type_synonym recovery = "kvmap \<times> u64 \<times> u32 option"

definition recover_record :: "u64 \<Rightarrow> u32 \<Rightarrow> recovery \<Rightarrow> wal_record \<Rightarrow> recovery io_result" where
  "recover_record base_index segment rs r =
     (case rs of (data, last_index, first_uncovered) \<Rightarrow>
        if r_index r \<le> last_index then
          (if last_index = base_index then Inr rs else Inl InvalidData)
        else if r_index r \<noteq> last_index + 1 then Inl InvalidData
        else Inr (apply_ops (r_ops r) (r_index r) data, r_index r,
               (case first_uncovered of None \<Rightarrow> Some segment | Some s \<Rightarrow> Some s)))"

text \<open>Steps 1 to 4 of \<^verbatim>\<open>open_with\<close>, once the directory is owned.\<close>

definition open_locked :: "options \<Rightarrow> fs \<Rightarrow> store io_result \<times> fs" where
  "open_locked opts d =
     (case ckpt_load d of Inl e \<Rightarrow> (Inl e, d) | Inr ld \<Rightarrow>
      let base = (case ld_snapshot ld of Some s \<Rightarrow> s | None \<Rightarrow> snapshot_empty) in
      case replay (recover_record (sn_index base)) d (sn_data base, sn_index base, None) of
        Inl e \<Rightarrow> (Inl e, d)
      | Inr ((data, last_index, first_uncovered), _) \<Rightarrow>
          (case wal_open (opt_wal_segment_size opts) d of
             (Inl e, d) \<Rightarrow> (Inl e, d)
           | (Inr wl, d) \<Rightarrow>
               (Inr \<lparr>st_snap = rcu_new \<lparr>sn_index = last_index, sn_data = data\<rparr>,
                     st_wal = wl,
                     st_prev_boundary =
                       (case first_uncovered of Some s \<Rightarrow> s | None \<Rightarrow> current_segment wl),
                     st_latest_damaged = ld_latest_damaged ld,
                     st_index = last_index,
                     st_stats = \<lparr>commits = 0, wal_syncs = 0, checkpoints = 0\<rparr>\<rparr>, d)))"

text \<open>
  \<^verbatim>\<open>open_with\<close>. Creating the directory and its parents durably and resolving its path happen before
  the store touches anything inside it: one call that may fail and changes no file here.
\<close>

definition open_with :: "options \<Rightarrow> try_lock \<Rightarrow> fs \<Rightarrow> store io_result \<times> fs" where
  "open_with opts lk d =
     io_then (fs_call d) (\<lambda>d. io_then (lock_dir lk d) (open_locked opts))"

definition store_open :: "try_lock \<Rightarrow> fs \<Rightarrow> store io_result \<times> fs" where
  "store_open lk d = open_with options_default lk d"

subsection \<open>Reads\<close>

definition store_index :: "store \<Rightarrow> u64" where
  "store_index st = st_index st"

definition store_stats :: "store \<Rightarrow> stats" where
  "store_stats st = st_stats st"

definition store_snapshot :: "store \<Rightarrow> snapshot" where
  "store_snapshot st = rcu_load (st_snap st)"

definition store_len :: "store \<Rightarrow> nat" where
  "store_len st = snapshot_len (rcu_load (st_snap st))"

definition store_is_empty :: "store \<Rightarrow> bool" where
  "store_is_empty st = snapshot_is_empty (rcu_load (st_snap st))"

definition store_get :: "store \<Rightarrow> bytes \<Rightarrow> bytes option" where
  "store_get st key = snapshot_get (rcu_load (st_snap st)) key"

definition store_get_with_version :: "store \<Rightarrow> bytes \<Rightarrow> (bytes \<times> u64) option" where
  "store_get_with_version st key = snapshot_get_with_version (rcu_load (st_snap st)) key"

definition store_scan :: "store \<Rightarrow> bytes \<Rightarrow> (bytes \<times> bytes) list option" where
  "store_scan st p = map_option entries_collect (snapshot_scan (rcu_load (st_snap st)) p)"

definition store_range_scan :: "store \<Rightarrow> bytes \<Rightarrow> bytes \<Rightarrow> (bytes \<times> bytes) list option" where
  "store_range_scan st lo hi =
     map_option entries_collect (snapshot_range_scan (rcu_load (st_snap st)) lo hi)"

subsection \<open>The commit path\<close>

text \<open>
  The loop of \<^verbatim>\<open>flush_group\<close> over the pending commits: the data, the index, the records and the indices.
\<close>

primrec build_group ::
  "op list list \<Rightarrow> kvmap \<Rightarrow> u64 \<Rightarrow> kvmap \<times> u64 \<times> wal_record list \<times> u64 list" where
  "build_group [] data index = (data, index, [], [])"
| "build_group (ops # grp) data index =
     (let index = index + 1;
          rec = \<lparr>r_term = SINGLE_NODE_TERM, r_index = index, r_ops = ops\<rparr>
      in case build_group grp (apply_ops ops index data) index of
           (data', index', recs, indices) \<Rightarrow> (data', index', rec # recs, index # indices))"

definition flush_group :: "op list list \<Rightarrow> store \<Rightarrow> fs \<Rightarrow> u64 list io_result \<times> store \<times> fs" where
  "flush_group grp st d =
     (let cur = rcu_load (st_snap st) in
      case build_group grp (sn_data cur) (sn_index cur) of
        (data, index, records, indices) \<Rightarrow>
          (case append_many records (st_wal st) d of
             (Inl e, wl, d) \<Rightarrow> (Inl e, st\<lparr>st_wal := wl\<rparr>, d)
           | (Inr _, wl, d) \<Rightarrow>
               (Inr indices,
                st\<lparr>st_wal := wl,
                   st_stats := (st_stats st)\<lparr>wal_syncs := wal_syncs (st_stats st) + 1,
                     commits := commits (st_stats st) + word_of_nat (length grp)\<rparr>,
                   st_snap := snd (rcu_store \<lparr>sn_index = index, sn_data = data\<rparr> (st_snap st)),
                   st_index := index\<rparr>, d)))"

text \<open>A lone writer: its group is its own commit. The queue is in \<open>Group_Commit\<close>.\<close>

definition commit_ops :: "op list \<Rightarrow> store \<Rightarrow> fs \<Rightarrow> u64 io_result \<times> store \<times> fs" where
  "commit_ops ops st d =
     (case check_ops ops of Inl e \<Rightarrow> (Inl e, st, d) | Inr _ \<Rightarrow>
      (case flush_group [ops] st d of
         (Inl e, st, d) \<Rightarrow> (Inl e, st, d)
       | (Inr indices, st, d) \<Rightarrow> (Inr (hd indices), st, d)))"

definition store_put :: "bytes \<Rightarrow> bytes \<Rightarrow> store \<Rightarrow> fs \<Rightarrow> u64 io_result \<times> store \<times> fs" where
  "store_put key val = commit_ops [Put key val]"

definition store_delete :: "bytes \<Rightarrow> store \<Rightarrow> fs \<Rightarrow> u64 io_result \<times> store \<times> fs" where
  "store_delete key = commit_ops [Delete key]"

definition apply_batch :: "op list \<Rightarrow> store \<Rightarrow> fs \<Rightarrow> u64 io_result \<times> store \<times> fs" where
  "apply_batch ops st d = (if ops = [] then (Inr (store_index st), st, d) else commit_ops ops st d)"

subsection \<open>The checkpoint\<close>

text \<open>
  Its two halves: the instant of exclusivity that pins the snapshot and rotates the log, and the
  write with the reclaiming of old segments, during which writers run.
\<close>

definition checkpoint_pin :: "store \<Rightarrow> fs \<Rightarrow> (snapshot \<times> u32) io_result \<times> store \<times> fs" where
  "checkpoint_pin st d =
     (let cur = rcu_load (st_snap st) in
      case rotate_segment (st_wal st) d of
        (Inl e, wl, d) \<Rightarrow> (Inl e, st\<lparr>st_wal := wl\<rparr>, d)
      | (Inr boundary, wl, d) \<Rightarrow> (Inr (cur, boundary), st\<lparr>st_wal := wl\<rparr>, d))"

definition checkpoint_finish :: "snapshot \<times> u32 \<Rightarrow> store \<Rightarrow> fs \<Rightarrow> u64 io_result \<times> store \<times> fs" where
  "checkpoint_finish pin st d =
     (case pin of (cur, boundary) \<Rightarrow>
      let rep = (if st_latest_damaged st then Discard else Retain) in
      case ckpt_write cur rep d of
        (Inl e, d) \<Rightarrow> (Inl e, st, d)
      | (Inr _, d) \<Rightarrow>
          let covered = st_prev_boundary st;
              st = st\<lparr>st_latest_damaged := False,
                      st_stats := (st_stats st)\<lparr>checkpoints := checkpoints (st_stats st) + 1\<rparr>,
                      st_prev_boundary := boundary\<rparr>
          in (case remove_segments_before covered (st_wal st) d of
                (Inl e, d) \<Rightarrow> (Inl e, st, d)
              | (Inr _, d) \<Rightarrow> (Inr (sn_index cur), st, d)))"

definition store_checkpoint :: "store \<Rightarrow> fs \<Rightarrow> u64 io_result \<times> store \<times> fs" where
  "store_checkpoint st d =
     (case checkpoint_pin st d of
        (Inl e, st, d) \<Rightarrow> (Inl e, st, d)
      | (Inr pin, st, d) \<Rightarrow> checkpoint_finish pin st d)"

end
