(* ===== verification/History.thy ===== *)
theory History
  imports Engine
begin

text \<open>
  The history a store is to hold: the list of its commits, the \<open>i\<close>-th at index \<open>i + 1\<close>. A snapshot is
  the fold of a history, the log holds the records of a part of it, and recovery folds the part of
  the log that the checkpoint does not cover.
\<close>

type_synonym history = "op list list"

primrec hist_from :: "nat \<Rightarrow> history \<Rightarrow> kvmap \<Rightarrow> kvmap" where
  "hist_from i [] m = m"
| "hist_from i (ops # H) m = hist_from (Suc i) H (apply_ops ops (word_of_nat (Suc i)) m)"

definition snap_of :: "history \<Rightarrow> snapshot" where
  "snap_of H = \<lparr>sn_index = word_of_nat (length H), sn_data = hist_from 0 H []\<rparr>"

primrec recs_of :: "nat \<Rightarrow> history \<Rightarrow> wal_record list" where
  "recs_of i [] = []"
| "recs_of i (ops # H) =
     \<lparr>r_term = SINGLE_NODE_TERM, r_index = word_of_nat (Suc i), r_ops = ops\<rparr> # recs_of (Suc i) H"

lemma hist_from_append: "hist_from i (H @ G) m = hist_from (i + length H) G (hist_from i H m)"
  by (induction H arbitrary: i m) simp_all

lemma recs_of_append: "recs_of i (H @ G) = recs_of i H @ recs_of (i + length H) G"
  by (induction H arbitrary: i) simp_all

lemma length_recs_of [simp]: "length (recs_of i H) = length H"
  by (induction H arbitrary: i) simp_all

lemma drop_recs_of: "drop k (recs_of i H) = recs_of (i + k) (drop k H)"
proof (induction k arbitrary: i H)
  case (Suc k)
  then show ?case by (cases H) simp_all
qed simp

lemma take_recs_of: "take k (recs_of i H) = recs_of i (take k H)"
proof (induction k arbitrary: i H)
  case (Suc k)
  then show ?case by (cases H) simp_all
qed simp

lemma nth_recs_of:
  "j < length H \<Longrightarrow> recs_of i H ! j =
     \<lparr>r_term = SINGLE_NODE_TERM, r_index = word_of_nat (Suc (i + j)), r_ops = H ! j\<rparr>"
proof (induction H arbitrary: i j)
  case (Cons ops H)
  then show ?case by (cases j) simp_all
qed simp

lemma rec_ok_recs_of: "list_all rec_ok (recs_of i H) \<longleftrightarrow> list_all (\<lambda>ops. check_ops ops = Inr ()) H"
  by (induction H arbitrary: i) (simp_all add: rec_ok_def)

lemma recs_of_index:
  assumes "r \<in> set (recs_of i H)" and "i + length H < 2 ^ 64"
  shows "i < unat (r_index r)" and "unat (r_index r) \<le> i + length H"
proof -
  have "i < unat (r_index r) \<and> unat (r_index r) \<le> i + length H" using assms
  proof (induction H arbitrary: i)
    case (Cons ops H)
    have "unat (word_of_nat (Suc i) :: u64) = Suc i"
      using Cons.prems(2) by (simp add: unat_u64_of_nat del: of_nat_Suc)
    moreover have "Suc i < unat (r_index r) \<and> unat (r_index r) \<le> Suc i + length H"
      if "r \<in> set (recs_of (Suc i) H)" using Cons.IH [OF that] Cons.prems(2) by simp
    ultimately show ?case using Cons.prems(1) by (auto simp del: of_nat_Suc)
  qed simp
  then show "i < unat (r_index r)" and "unat (r_index r) \<le> i + length H" by simp_all
qed

lemma bm_wf_hist_from: "bm_wf m \<Longrightarrow> bm_wf (hist_from i H m)"
  by (induction H arbitrary: i m) (simp_all add: apply_ops_wf)

lemma snap_of_wf: "snapshot_wf (snap_of H)"
  by (simp add: snapshot_wf_def snap_of_def bm_wf_hist_from)

lemma snap_of_Nil: "snap_of [] = snapshot_empty"
  by (simp add: snap_of_def snapshot_empty_def)

lemma sn_index_snap_of: "length H < 2 ^ 64 \<Longrightarrow> unat (sn_index (snap_of H)) = length H"
  by (simp add: snap_of_def unat_u64_of_nat)

subsection \<open>A flush extends the history\<close>

definition group_indices :: "nat \<Rightarrow> history \<Rightarrow> u64 list" where
  "group_indices i G = map (\<lambda>j. word_of_nat (Suc (i + j))) [0..<length G]"

lemma group_indices_Cons: "group_indices i (ops # G) = word_of_nat (Suc i) # group_indices (Suc i) G"
  by (simp add: group_indices_def upt_conv_Cons del: upt_Suc) (simp add: map_Suc_upt [symmetric] del: upt_Suc)

lemma build_group_history:
  "build_group G m (word_of_nat i) =
     (hist_from i G m, word_of_nat (i + length G), recs_of i G, group_indices i G)"
proof (induction G arbitrary: i m)
  case (Cons ops G)
  have "word_of_nat i + 1 = (word_of_nat (Suc i) :: u64)" by simp
  with Cons.IH [of "apply_ops ops (word_of_nat (Suc i)) m" "Suc i"] show ?case
    by (simp add: Let_def group_indices_Cons ac_simps)
qed (simp add: group_indices_def)

lemma flush_group_history:
  assumes "rcu_load (st_snap st) = snap_of H"
  shows "flush_group G st d =
    (case append_many (recs_of (length H) G) (st_wal st) d of
       (Inl e, wl, d) \<Rightarrow> (Inl e, st\<lparr>st_wal := wl\<rparr>, d)
     | (Inr _, wl, d) \<Rightarrow>
         (Inr (group_indices (length H) G),
          st\<lparr>st_wal := wl,
             st_stats := (st_stats st)\<lparr>wal_syncs := wal_syncs (st_stats st) + 1,
               commits := commits (st_stats st) + word_of_nat (length G)\<rparr>,
             st_snap := snd (rcu_store (snap_of (H @ G)) (st_snap st)),
             st_index := word_of_nat (length (H @ G))\<rparr>, d))"
proof -
  have "build_group G (sn_data (snap_of H)) (sn_index (snap_of H)) =
      (sn_data (snap_of (H @ G)), word_of_nat (length (H @ G)), recs_of (length H) G, group_indices (length H) G)"
    by (simp add: snap_of_def build_group_history hist_from_append)
  moreover have "\<lparr>sn_index = word_of_nat (length (H @ G)), sn_data = sn_data (snap_of (H @ G))\<rparr> = snap_of (H @ G)"
    by (simp add: snap_of_def)
  ultimately show ?thesis by (simp only: flush_group_def Let_def assms prod.case)
qed

subsection \<open>Recovery folds the uncovered records\<close>

abbreviation recover_pair :: "u64 \<Rightarrow> recovery \<Rightarrow> u32 \<times> wal_record \<Rightarrow> recovery io_result" where
  "recover_pair base s p \<equiv> recover_record base (fst p) s (snd p)"

lemma recover_covered:
  "\<forall>p \<in> set ps. r_index (snd p) \<le> base \<Longrightarrow>
   sink_all (recover_pair base) (m, base, f) ps = Inr (m, base, f)"
  by (induction ps) (simp_all add: recover_record_def)

lemma recover_uncovered:
  assumes "map snd ps = recs_of i G" and "i + length G < 2 ^ 64" and "unat base \<le> i"
  shows "sink_all (recover_pair base) (m, word_of_nat i, f) ps =
    Inr (hist_from i G m, word_of_nat (i + length G),
      case f of Some s \<Rightarrow> Some s | None \<Rightarrow> if ps = [] then None else Some (fst (hd ps)))"
  using assms
proof (induction G arbitrary: i ps m f)
  case Nil
  then show ?case by (cases f) simp_all
next
  case (Cons ops G)
  then obtain q ps' where ps: "ps = (q, \<lparr>r_term = SINGLE_NODE_TERM, r_index = word_of_nat (Suc i), r_ops = ops\<rparr>) # ps'"
    and tl: "map snd ps' = recs_of (Suc i) G" by (cases ps) auto
  have u: "unat (word_of_nat i :: u64) = i" "unat (word_of_nat (Suc i) :: u64) = Suc i"
    using Cons.prems(2) by (simp_all add: unat_u64_of_nat del: of_nat_Suc)
  then have "\<not> (word_of_nat (Suc i) :: u64) \<le> word_of_nat i"
    by (simp add: word_le_nat_alt del: of_nat_Suc)
  then have "recover_record base q (m, word_of_nat i, f)
      \<lparr>r_term = SINGLE_NODE_TERM, r_index = word_of_nat (Suc i), r_ops = ops\<rparr> =
    Inr (apply_ops ops (word_of_nat (Suc i)) m, word_of_nat (Suc i),
      (case f of None \<Rightarrow> Some q | Some s \<Rightarrow> Some s))"
    by (simp add: recover_record_def add.commute)
  moreover have "sink_all (recover_pair base) (apply_ops ops (word_of_nat (Suc i)) m, word_of_nat (Suc i), f') ps' =
      Inr (hist_from (Suc i) G (apply_ops ops (word_of_nat (Suc i)) m), word_of_nat (Suc i + length G),
        case f' of Some s \<Rightarrow> Some s | None \<Rightarrow> if ps' = [] then None else Some (fst (hd ps')))" for f'
    using Cons.IH [OF tl, of "apply_ops ops (word_of_nat (Suc i)) m"] Cons.prems(2,3) by simp
  ultimately show ?case by (cases f) (simp_all add: ps del: of_nat_Suc)
qed

text \<open>
  The log records of the indices above \<open>lo\<close>, with a checkpoint of the first \<open>n\<close> commits: recovery
  ends in the whole history, and reports the segment of the first record above \<open>n\<close>.
\<close>

lemma recover_history:
  assumes "map snd ps = recs_of lo (drop lo H)" and "lo \<le> n" and "n \<le> length H" and "length H < 2 ^ 64"
  shows "sink_all (recover_pair (sn_index (snap_of (take n H))))
      (sn_data (snap_of (take n H)), sn_index (snap_of (take n H)), None) ps =
    Inr (sn_data (snap_of H), word_of_nat (length H),
      if n = length H then None else Some (fst (ps ! (n - lo))))"
proof -
  let ?k = "n - lo" and ?b = "word_of_nat n :: u64"
  have b: "unat ?b = n" using assms(3,4) by (simp add: unat_u64_of_nat)
  have len: "length ps = length H - lo" using arg_cong [OF assms(1), of length] by simp
  have pre: "map snd (take ?k ps) = recs_of lo (take ?k (drop lo H))"
    by (simp add: take_map [symmetric] assms(1) take_recs_of)
  have suf: "map snd (drop ?k ps) = recs_of n (drop n H)"
    using assms(2) by (simp add: drop_map [symmetric] assms(1) drop_recs_of)
  have "r_index (snd p) \<le> ?b" if "p \<in> set (take ?k ps)" for p
  proof -
    have "snd p \<in> set (recs_of lo (take ?k (drop lo H)))" using that pre by (metis image_eqI set_map)
    then have "unat (r_index (snd p)) \<le> lo + length (take ?k (drop lo H))"
      using assms by (intro recs_of_index(2)) auto
    also have "\<dots> \<le> n" using assms(2,3) by simp
    finally show ?thesis by (simp add: word_le_nat_alt b)
  qed
  then have skip: "sink_all (recover_pair ?b) (m, ?b, None) (take ?k ps) = Inr (m, ?b, None)" for m
    by (intro recover_covered) blast
  have app: "sink_all (recover_pair ?b) (m, ?b, None) (drop ?k ps) =
      Inr (hist_from n (drop n H) m, word_of_nat (length H),
        if drop ?k ps = [] then None else Some (fst (hd (drop ?k ps))))" for m
    using recover_uncovered [OF suf, of ?b m None] assms(3,4) b by simp
  have "hist_from n (drop n H) (hist_from 0 (take n H) []) = hist_from 0 H []"
    using hist_from_append [of 0 "take n H" "drop n H" "[]"] assms(3) by simp
  then have "sink_all (recover_pair ?b) (hist_from 0 (take n H) [], ?b, None) (take ?k ps @ drop ?k ps) =
      Inr (hist_from 0 H [], word_of_nat (length H),
        if drop ?k ps = [] then None else Some (fst (hd (drop ?k ps))))"
    unfolding sink_all_append skip using app by simp
  moreover have "drop ?k ps = [] \<longleftrightarrow> n = length H" using len assms(2,3) by auto
  moreover have "hd (drop ?k ps) = ps ! ?k" if "n \<noteq> length H"
    using len assms(2,3) that by (intro hd_drop_conv_nth) simp
  ultimately show ?thesis using assms(3) by (cases "n = length H") (simp_all add: snap_of_def min_def)
qed

end
