(* ===== verification/Store_Inv.thy ===== *)
theory Store_Inv
  imports History
begin

text \<open>
  The invariant of the store (\<^verbatim>\<open>src/engine.rs\<close> over \<^verbatim>\<open>src/wal.rs\<close> and \<^verbatim>\<open>src/checkpoint.rs\<close>): what the
  directory holds of the history of commits while the store runs and after it crashed, and that opening, flushing and both
  halves of a checkpoint keep it whatever calls fail.
\<close>

subsection \<open>What each component leaves alone\<close>

text \<open>The log touches only segment files.\<close>

definition same_rest :: "fs \<Rightarrow> fs \<Rightarrow> bool" where
  "same_rest d d' \<longleftrightarrow> (\<forall>x. segment_seq x = None \<longrightarrow> file_at d' x = file_at d x)"

lemma same_rest_refl [simp]: "same_rest d d"
  by (simp add: same_rest_def)

lemma same_rest_trans [trans]: "same_rest d d1 \<Longrightarrow> same_rest d1 d2 \<Longrightarrow> same_rest d d2"
  by (simp add: same_rest_def)

lemma same_rest_files: "fs_files d' = fs_files d \<Longrightarrow> same_rest d d'"
  by (simp add: same_rest_def file_at_def)

lemma bm_get_insert_other: "x \<noteq> k \<Longrightarrow> bm_get (bm_insert k v m) x = bm_get m x"
  by (induction m) auto

lemma not_segment: "segment_seq x = None \<Longrightarrow> x \<noteq> segment_path q"
  by auto

lemma same_rest_set: "same_rest d1 d2 \<Longrightarrow> same_rest d1 (fs_set (segment_path q) c d2)"
  by (simp add: same_rest_def file_at_def bm_get_insert_other not_segment)

lemma same_rest_unset: "same_rest d1 d2 \<Longrightarrow> same_rest d1 (fs_unset (segment_path q) d2)"
  by (auto simp: same_rest_def file_at_def bm_get_remove)

lemma same_rest_note: "same_rest d d' \<Longrightarrow> same_rest d (fs_note ev d')"
  by (simp add: same_rest_def file_at_def)

lemma same_rest_create: "same_rest d1 d2 \<Longrightarrow> same_rest d1 (fs_create (segment_path q) d2)"
  by (simp add: fs_create_def same_rest_set same_rest_note)

lemma same_rest_next_io: "next_io d = (out, d') \<Longrightarrow> same_rest d d'"
  by (rule same_rest_files) simp

lemma same_rest_calls:
  "fs_sync ev d = (r, d') \<Longrightarrow> same_rest d d'"
  "fs_write_all (segment_path q) b d = (r, d') \<Longrightarrow> same_rest d d'"
  "fs_set_len (segment_path q) n d = (r, d') \<Longrightarrow> same_rest d d'"
  "fs_create_new (segment_path q) d = (r, d') \<Longrightarrow> same_rest d d'"
  "fs_open_create (segment_path q) d = (r, d') \<Longrightarrow> same_rest d d'"
  "fs_remove (segment_path q) d = (r, d') \<Longrightarrow> same_rest d d'"
  by (auto simp: fs_call_defs Let_def split: prod.splits io_outcome.splits if_splits
      intro: same_rest_note same_rest_set same_rest_unset same_rest_create dest: same_rest_next_io)

lemma same_rest_io_then:
  assumes "io_then r g = (res, d')" and "same_rest d (snd r)" and "\<And>d1 x y. g d1 = (x, y) \<Longrightarrow> same_rest d1 y"
  shows "same_rest d d'"
proof (cases r)
  case (Pair a d1)
  then show ?thesis using assms same_rest_trans by (cases a) auto
qed

lemma same_rest_sync: "io_then r (fs_sync ev) = (res, d') \<Longrightarrow> same_rest (snd r) d'"
  using io_then_sync(1) [of "fst r" "snd r" ev res d'] by (simp add: same_rest_files)

lemma same_rest_call: "io_then r fs_call = (res, d') \<Longrightarrow> same_rest (snd r) d'"
  using io_then_call(1) [of "fst r" "snd r" res d'] by (simp add: same_rest_files)

lemma same_rest_call_sync:
  "io_then (fs_write_all (segment_path q) b d) (fs_sync ev) = (r, d') \<Longrightarrow> same_rest d d'"
  "io_then (fs_remove (segment_path q) d) (fs_sync ev) = (r, d') \<Longrightarrow> same_rest d d'"
  "io_then (fs_set_len (segment_path q) n d) (fs_sync ev) = (r, d') \<Longrightarrow> same_rest d d'"
  "io_then (fs_set_len (segment_path q) n d) fs_call = (r, d') \<Longrightarrow> same_rest d d'"
  by (metis prod.collapse same_rest_calls same_rest_call same_rest_sync same_rest_trans)+

lemma same_rest_roll_back: "roll_back wl d = (wl', d') \<Longrightarrow> same_rest d d'"
proof -
  assume run: "roll_back wl d = (wl', d')"
  obtain r2 d2 where c2: "io_then (fs_set_len (segment_path (wl_seg_seq wl)) (wl_seg_bytes wl) d) fs_call = (r2, d2)"
    by force
  then obtain r3 where "io_then (r2, d2) (fs_sync (Synced (segment_path (wl_seg_seq wl)))) = (r3, d')"
    using run by (auto simp: roll_back_def split: prod.splits sum.splits)
  from same_rest_sync [OF this] same_rest_call_sync(4) [OF c2] show ?thesis
    by (auto intro: same_rest_trans)
qed

lemma same_rest_append_buffer: "append_buffer buf wl d = (res, wl', d') \<Longrightarrow> same_rest d d'"
  by (auto simp: append_buffer_def split: prod.splits sum.splits
      dest!: same_rest_call_sync same_rest_roll_back intro: same_rest_trans)

lemma same_rest_rotate: "rotate_segment wl d = (res, wl', d') \<Longrightarrow> same_rest d d'"
  unfolding rotate_segment_def Let_def
  by (auto split: prod.splits sum.splits if_splits
      dest!: same_rest_call_sync same_rest_calls intro: same_rest_trans)

lemma same_rest_append_many: "append_many recs wl d = (res, wl', d') \<Longrightarrow> same_rest d d'"
  unfolding append_many_def
  by (auto split: prod.splits sum.splits if_splits
      dest!: same_rest_append_buffer same_rest_rotate intro: same_rest_trans)

lemma same_rest_remove_files:
  "\<forall>n \<in> set ns. segment_seq n \<noteq> None \<Longrightarrow> remove_files ns d = (res, d') \<Longrightarrow> same_rest d d'"
proof (induction ns arbitrary: d)
  case (Cons n ns)
  obtain r1 d1 where c1: "fs_remove n d = (r1, d1)" by force
  have "same_rest d d1"
    using c1 Cons.prems(1)
    by (auto simp: fs_remove_def same_rest_def file_at_def bm_get_remove split: prod.splits io_outcome.splits if_splits)
  moreover have "same_rest d1 d'" using Cons c1 by (cases r1) auto
  ultimately show ?case by (rule same_rest_trans)
qed simp

lemma same_rest_remove_segments: "remove_segments_before seq wl d = (res, d') \<Longrightarrow> same_rest d d'"
proof -
  assume run: "remove_segments_before seq wl d = (res, d')"
  define doomed where "doomed = filter (\<lambda>p. case segment_seq p of
      Some s \<Rightarrow> s < seq \<and> s \<noteq> wl_seg_seq wl | None \<Rightarrow> False) (map fst (list_segments d))"
  obtain r1 d1 where c1: "remove_files doomed d = (r1, d1)" by force
  have "\<forall>n \<in> set doomed. segment_seq n \<noteq> None" by (auto simp: doomed_def split: option.splits)
  then have "same_rest d d1" using c1 by (rule same_rest_remove_files)
  moreover have "same_rest d1 d'"
    using run unfolding remove_segments_before_def Let_def doomed_def [symmetric] c1
    by (cases r1; cases "fs_sync SyncedDir d1"; cases "fst (fs_sync SyncedDir d1)")
      (auto split: if_splits intro: same_rest_calls)
  ultimately show ?thesis by (rule same_rest_trans)
qed

lemma same_rest_repair: "repair_tail (segment_path q) d = (res, d') \<Longrightarrow> same_rest d d'"
  by (auto simp: repair_tail_def split: sum.splits option.splits prod.splits dest: same_rest_call_sync(3))

lemma same_rest_write_header:
  "same_rest d (snd (io_then (fs_write_all (segment_path q) segment_header d) (fs_sync ev)))"
  by (metis prod.collapse same_rest_call_sync(1))

lemma same_rest_open_finish: "open_finish q mx d = (res, d') \<Longrightarrow> same_rest d d'"
  by (auto simp: open_finish_def Let_def split: prod.splits sum.splits if_splits
      dest!: same_rest_sync intro: same_rest_trans same_rest_write_header same_rest_calls(1))

lemma same_rest_wal_open:
  assumes "torn_log d L" and "wal_open mx d = (res, d')"
  shows "same_rest d d'"
proof -
  have "list_segments d = [] \<or> (\<exists>q fl c. list_segments d = fl @ [(segment_path q, c)])"
    using assms(1) by (auto simp: torn_log_def)
  then obtain q where
    "q = (if list_segments d = [] then 1 else the (segment_seq (fst (last (list_segments d)))))"
    "segment_path q = (if list_segments d = [] then segment_path 1 else fst (last (list_segments d)))"
    by auto
  note phases = wal_open_phases [OF this, of mx]
  obtain r1 d1 where c1: "(if fs_exists (segment_path q) d then repair_tail (segment_path q) d else (Inr (), d)) = (r1, d1)"
    by force
  obtain r2 d2 where c2: "io_then (r1, d1) (fs_open_create (segment_path q)) = (r2, d2)" by force
  have "same_rest d d1" using c1 same_rest_repair by (auto split: if_splits)
  also have "same_rest d1 d2" using c2 by (cases r1) (auto intro: same_rest_calls)
  also have "same_rest d2 d'"
    using assms(2) c1 c2 phases by (cases r2) (auto intro: same_rest_open_finish)
  finally show ?thesis .
qed

text \<open>The checkpoint touches no segment file, and the lock file is neither.\<close>

lemma list_segments_eqI:
  assumes "bm_wf (fs_files d)" and "bm_wf (fs_files d')"
    and "\<And>x. segment_seq x \<noteq> None \<Longrightarrow> file_at d' x = file_at d x"
  shows "list_segments d' = list_segments d"
proof (rule bm_ext)
  show "bm_wf (list_segments d')" "bm_wf (list_segments d)" using assms(1,2) by (simp_all add: bm_wf_list_segments)
  show "bm_get (list_segments d') = bm_get (list_segments d)"
  proof
    fix x show "bm_get (list_segments d') x = bm_get (list_segments d) x"
      unfolding list_segments_def bm_get_filter_key [of "\<lambda>x. segment_seq x \<noteq> None"]
      using assms(3) [of x] by (simp add: file_at_def)
  qed
qed

lemma segs_ckpt_write:
  assumes "bm_wf (fs_files d)" and "ckpt_write snap rep d = (res, d')"
  shows "bm_wf (fs_files d')" and "list_segments d' = list_segments d"
proof -
  note cases = ckpt_write_cases [OF assms]
  show wf: "bm_wf (fs_files d')" by (rule cases(1))
  show "list_segments d' = list_segments d"
  proof (rule list_segments_eqI [OF assms(1) wf])
    fix x assume "segment_seq x \<noteq> None"
    then have "x \<notin> {SNAPSHOT_TMP, SNAPSHOT_NAME, SNAPSHOT_PREV}" by auto
    with cases(2) show "file_at d' x = file_at d x" by blast
  qed
qed

lemma lock_name_free [simp]:
  "segment_seq LOCK_NAME = None" "LOCK_NAME \<noteq> SNAPSHOT_NAME" "LOCK_NAME \<noteq> SNAPSHOT_PREV"
  "SNAPSHOT_NAME \<noteq> LOCK_NAME" "SNAPSHOT_PREV \<noteq> LOCK_NAME"
  by (simp_all add: LOCK_NAME_def SNAPSHOT_NAME_def SNAPSHOT_PREV_def segment_seq_def strip_prefix_def)

lemma lock_dir_frame:
  assumes "bm_wf (fs_files d)" and "lock_dir lk d = (res, d')"
  shows "bm_wf (fs_files d')" and "\<And>x. x \<noteq> LOCK_NAME \<Longrightarrow> file_at d' x = file_at d x"
proof -
  obtain r1 d1 where c1: "fs_open_create LOCK_NAME d = (r1, d1)" by force
  then have "d' = d1" using assms(2) by (cases r1) (auto simp: lock_dir_def split: try_lock.splits if_splits)
  with open_create_cases [OF c1] assms(1)
  show "bm_wf (fs_files d')" "\<And>x. x \<noteq> LOCK_NAME \<Longrightarrow> file_at d' x = file_at d x"
    by (auto simp: file_at_def bm_get_insert_other bm_wf_insert)
qed

subsection \<open>The invariant\<close>

text \<open>
  A checkpoint generation, as loading its file reports it: absent, or the snapshot of a prefix of the
  history that reaches at least to where the log begins.
\<close>

definition gen :: "history \<Rightarrow> nat \<Rightarrow> snapshot option io_result \<Rightarrow> bool" where
  "gen H lo r \<longleftrightarrow> r = Inr None \<or> (\<exists>n. lo \<le> n \<and> n \<le> length H \<and> r = Inr (Some (snap_of (take n H))))"

abbreviation latest :: "fs \<Rightarrow> snapshot option io_result" where
  "latest d \<equiv> load_file SNAPSHOT_NAME d"

abbreviation previous :: "fs \<Rightarrow> snapshot option io_result" where
  "previous d \<equiv> load_file SNAPSHOT_PREV d"

definition has_prev :: "fs \<Rightarrow> bool" where
  "has_prev d \<longleftrightarrow> (\<exists>s. previous d = Inr (Some s))"

definition ck_ok :: "fs \<Rightarrow> history \<Rightarrow> nat \<Rightarrow> bool" where
  "ck_ok d H lo \<longleftrightarrow> (gen H lo (latest d) \<or> latest d = Inl InvalidData \<and> has_prev d) \<and> gen H lo (previous d)
     \<and> (latest d = Inr None \<longrightarrow> previous d = Inr None \<longrightarrow> lo = 0)"

text \<open>
  The checkpoint that the next write will leave as the previous generation holds the first \<open>m\<close>
  commits; \<open>flag\<close> is the store's \<^verbatim>\<open>latest_damaged\<close>.
\<close>

definition retained :: "fs \<Rightarrow> bool \<Rightarrow> history \<Rightarrow> nat \<Rightarrow> bool" where
  "retained d flag H m \<longleftrightarrow> m \<le> length H \<and>
     (let r = (if flag \<or> latest d = Inr None then previous d else latest d)
      in r = Inr (Some (snap_of (take m H))) \<or> r = Inr None \<and> m = 0)"

definition boundary_ok :: "log \<Rightarrow> u32 \<Rightarrow> nat \<Rightarrow> bool" where
  "boundary_ok L b m \<longleftrightarrow> (\<forall>(q, r) \<in> set (log_records L). q < b \<longrightarrow> unat (r_index r) \<le> m)"

definition log_part :: "wal \<Rightarrow> fs \<Rightarrow> history \<Rightarrow> log \<Rightarrow> op list set \<Rightarrow> bool" where
  "log_part wl d H L T \<longleftrightarrow> (if wl_poisoned wl
     then L \<noteq> [] \<and> fst (last L) = wl_seg_seq wl \<and>
       (\<exists>g. set g \<subseteq> T \<and> length H + length g < 2 ^ 64 \<and> crash_log d L (recs_of (length H) g))
     else wal_inv wl d L)"

definition pin_ok :: "(snapshot \<times> u32) option \<Rightarrow> store \<Rightarrow> history \<Rightarrow> log \<Rightarrow> nat \<Rightarrow> bool" where
  "pin_ok pin st H L m \<longleftrightarrow> (case pin of None \<Rightarrow> True
     | Some (cur, bd) \<Rightarrow> \<exists>c. m \<le> c \<and> c \<le> length H \<and> cur = snap_of (take c H)
         \<and> bd \<le> wl_seg_seq (st_wal st) \<and> boundary_ok L bd c)"

definition store_log :: "store \<Rightarrow> (snapshot \<times> u32) option \<Rightarrow> fs \<Rightarrow> history \<Rightarrow> nat \<Rightarrow> op list set \<Rightarrow> log \<Rightarrow> bool" where
  "store_log st pin d H lo T L \<longleftrightarrow> map snd (log_records L) = recs_of lo (drop lo H)
     \<and> log_part (st_wal st) d H L T
     \<and> st_prev_boundary st \<le> wl_seg_seq (st_wal st)
     \<and> (\<exists>m. retained d (st_latest_damaged st) H m \<and> boundary_ok L (st_prev_boundary st) m \<and> pin_ok pin st H L m)"

definition store_inv :: "store \<Rightarrow> (snapshot \<times> u32) option \<Rightarrow> fs \<Rightarrow> history \<Rightarrow> nat \<Rightarrow> op list set \<Rightarrow> bool" where
  "store_inv st pin d H lo T \<longleftrightarrow> length H < 2 ^ 64 \<and> lo \<le> length H \<and> set H \<subseteq> T
     \<and> rcu_load (st_snap st) = snap_of H \<and> st_index st = word_of_nat (length H)
     \<and> ck_ok d H lo \<and> (latest d = Inl InvalidData \<longrightarrow> st_latest_damaged st)
     \<and> (st_latest_damaged st \<longrightarrow> has_prev d) \<and> (\<exists>L. store_log st pin d H lo T L)"

definition dir_inv :: "fs \<Rightarrow> history \<Rightarrow> nat \<Rightarrow> bool" where
  "dir_inv d H lo \<longleftrightarrow> length H < 2 ^ 64 \<and> lo \<le> length H \<and> ck_ok d H lo
     \<and> (\<exists>L. torn_log d L \<and> map snd (log_records L) = recs_of lo (drop lo H))"

subsection \<open>The history grows, the checkpoint files stay\<close>

lemma gen_append: "gen H lo r \<Longrightarrow> gen (H @ G) lo r"
  by (force simp: gen_def)

lemma ck_ok_append: "ck_ok d H lo \<Longrightarrow> ck_ok d (H @ G) lo"
  by (auto simp: ck_ok_def gen_append)

lemma retained_append: "retained d flag H m \<Longrightarrow> retained d flag (H @ G) m"
  by (auto simp: retained_def Let_def)

lemma same_rest_load:
  assumes "same_rest d d'"
  shows "latest d' = latest d" and "previous d' = previous d"
  using assms by (simp_all add: same_rest_def load_file_at)

lemma ck_ok_same:
  assumes "latest d' = latest d" and "previous d' = previous d"
  shows "ck_ok d' H lo \<longleftrightarrow> ck_ok d H lo" and "has_prev d' \<longleftrightarrow> has_prev d"
    and "retained d' flag H m \<longleftrightarrow> retained d flag H m"
  using assms by (simp_all add: ck_ok_def has_prev_def retained_def)

lemma boundary_ok_mono: "boundary_ok L b m \<Longrightarrow> m \<le> m' \<Longrightarrow> boundary_ok L b m'"
  by (fastforce simp: boundary_ok_def)

lemma boundary_ok_records: "log_records L' = log_records L \<Longrightarrow> boundary_ok L' b m \<longleftrightarrow> boundary_ok L b m"
  by (simp add: boundary_ok_def)

lemma boundary_ok_append:
  assumes "log_records L' = log_records L @ map (Pair q) recs" and "b \<le> q" and "boundary_ok L b m"
  shows "boundary_ok L' b m"
  using assms by (auto simp: boundary_ok_def)

text \<open>Where recovery starts: what \<^verbatim>\<open>load\<close> finds is the retained generation.\<close>

lemma ckpt_load_base:
  assumes "ck_ok d H lo" and "lo \<le> length H"
  obtains ld n where "ckpt_load d = Inr ld" and "lo \<le> n" and "n \<le> length H"
    and "(case ld_snapshot ld of Some s \<Rightarrow> s | None \<Rightarrow> snapshot_empty) = snap_of (take n H)"
    and "ld_latest_damaged ld \<longleftrightarrow> latest d = Inl InvalidData"
    and "ld_latest_damaged ld \<Longrightarrow> has_prev d"
    and "retained d (ld_latest_damaged ld) H n"
proof -
  consider (dat) n where "lo \<le> n" "n \<le> length H" "latest d = Inr (Some (snap_of (take n H)))"
  | (prev) n where "lo \<le> n" "n \<le> length H" "previous d = Inr (Some (snap_of (take n H)))"
      "latest d = Inr None \<or> latest d = Inl InvalidData"
  | (none) "latest d = Inr None" "previous d = Inr None" "lo = 0"
    using assms(1) by (auto simp: ck_ok_def gen_def has_prev_def)
  then show thesis
  proof cases
    case dat
    then show thesis
      by (intro that [of "\<lparr>ld_snapshot = Some (snap_of (take n H)), ld_latest_damaged = False\<rparr>" n])
        (simp_all add: ckpt_load_def retained_def)
  next
    case prev
    then show thesis
      by (intro that [of "\<lparr>ld_snapshot = Some (snap_of (take n H)),
            ld_latest_damaged = (latest d = Inl InvalidData)\<rparr>" n])
        (auto simp: ckpt_load_def retained_def has_prev_def)
  next
    case none
    then show thesis
      by (intro that [of "\<lparr>ld_snapshot = None, ld_latest_damaged = False\<rparr>" 0])
        (simp_all add: ckpt_load_def retained_def snap_of_Nil)
  qed
qed

subsection \<open>Opening\<close>

lemma log_records_sorted:
  assumes "log_is d L"
  shows "sorted_wrt (\<lambda>a b. fst a \<le> fst b) (log_records L)"
proof -
  have "sorted_wrt (\<lambda>a b. fst a < fst b) L" by (rule log_is_sorted [OF assms])
  then show ?thesis
  proof (induction L)
    case (Cons p L)
    obtain q rs where p: "p = (q, rs)" by (cases p)
    have "q < q'" if "(q', r) \<in> set (log_records L)" for q' r
      using Cons.prems that by (auto simp: p log_records_def)
    then show ?case
      using Cons by (auto simp: p sorted_wrt_append sorted_wrt_map intro: less_imp_le)
  qed simp
qed

text \<open>The boundary recovery draws: below the segment of the first uncovered record, all is covered.\<close>

lemma first_uncovered_boundary:
  assumes "log_is d L" and "map snd (log_records L) = recs_of lo (drop lo H)"
    and "lo \<le> n" and "n \<le> length H" and "length H < 2 ^ 64"
    and "n \<noteq> length H \<Longrightarrow> b = fst (log_records L ! (n - lo))"
  shows "boundary_ok L b n"
proof -
  let ?ps = "log_records L"
  have len: "length ?ps = length H - lo" using arg_cong [OF assms(2), of length] by simp
  have idx: "unat (r_index (snd (?ps ! i))) = lo + i + 1" if "i < length ?ps" for i
  proof -
    have "snd (?ps ! i) = recs_of lo (drop lo H) ! i" using that by (simp flip: assms(2))
    then show ?thesis
      using that len assms(5) by (simp add: nth_recs_of unat_u64_of_nat del: of_nat_Suc)
  qed
  have covered: "unat (r_index (snd (?ps ! i))) \<le> n" if "i < length ?ps" "fst (?ps ! i) < b" for i
  proof (cases "n = length H")
    case True
    then show ?thesis using idx [OF that(1)] len that(1) by simp
  next
    case False
    have "\<not> n - lo \<le> i"
    proof
      assume "n - lo \<le> i"
      then have "fst (?ps ! (n - lo)) \<le> fst (?ps ! i)"
        using log_records_sorted [OF assms(1)] that(1)
        by (cases "n - lo = i") (simp_all add: sorted_wrt_iff_nth_less)
      with that(2) assms(6) [OF False] show False by simp
    qed
    with idx [OF that(1)] assms(3) show ?thesis by simp
  qed
  show ?thesis unfolding boundary_ok_def
  proof clarify
    fix q r assume "(q, r) \<in> set ?ps" and "q < b"
    then obtain i where "i < length ?ps" "?ps ! i = (q, r)" by (auto simp: in_set_conv_nth)
    with covered [of i] \<open>q < b\<close> show "unat (r_index r) \<le> n" by simp
  qed
qed

lemma dir_inv_cong:
  assumes "dir_inv d H lo" and "bm_wf (fs_files d')"
    and "\<And>x. segment_seq x \<noteq> None \<or> x = SNAPSHOT_NAME \<or> x = SNAPSHOT_PREV \<Longrightarrow> file_at d' x = file_at d x"
  shows "dir_inv d' H lo"
proof -
  have wf: "bm_wf (fs_files d)" using assms(1) by (auto simp: dir_inv_def torn_log_def)
  have "list_segments d' = list_segments d"
    by (rule list_segments_eqI [OF wf assms(2)]) (simp add: assms(3))
  then have "torn_log d' L \<longleftrightarrow> torn_log d L" for L using wf assms(2) by (simp add: torn_log_def)
  moreover have same: "latest d' = latest d" "previous d' = previous d"
    by (rule load_file_cong, rule assms(3), simp)+
  ultimately show ?thesis using assms(1) by (simp add: dir_inv_def ck_ok_same(1) [OF same])
qed

lemma dir_inv_frame:
  assumes "dir_inv d H lo" and "bm_wf (fs_files d')"
    and "\<And>x. x \<noteq> LOCK_NAME \<Longrightarrow> file_at d' x = file_at d x"
  shows "dir_inv d' H lo"
  using assms(1,2) by (rule dir_inv_cong) (use assms(3) lock_name_free in metis)

text \<open>The store that recovery of \<open>H\<close> returns, given the first uncovered segment.\<close>

definition opened :: "history \<Rightarrow> u32 option \<Rightarrow> bool \<Rightarrow> wal \<Rightarrow> store" where
  "opened H fu flag wl = \<lparr>st_snap = rcu_new (snap_of H), st_wal = wl,
     st_prev_boundary = (case fu of Some s \<Rightarrow> s | None \<Rightarrow> current_segment wl),
     st_latest_damaged = flag, st_index = word_of_nat (length H),
     st_stats = \<lparr>commits = 0, wal_syncs = 0, checkpoints = 0\<rparr>\<rparr>"

definition uncovered :: "log \<Rightarrow> nat \<Rightarrow> nat \<Rightarrow> history \<Rightarrow> u32 option" where
  "uncovered L lo n H = (if n = length H then None else Some (fst (log_records L ! (n - lo))))"

lemma dir_inv_outcomes: "dir_inv (d\<lparr>fs_outcomes := outs\<rparr>) H lo \<longleftrightarrow> dir_inv d H lo"
proof -
  have "latest (d\<lparr>fs_outcomes := outs\<rparr>) = latest d" "previous (d\<lparr>fs_outcomes := outs\<rparr>) = previous d"
    by (simp_all add: load_file_def)
  from ck_ok_same(1) [OF this] show ?thesis by (simp add: dir_inv_def)
qed

lemma store_opened:
  assumes "dir_inv d H lo" and "wal_open mx d = (Inr wl, d')"
    and "torn_log d L" and "map snd (log_records L) = recs_of lo (drop lo H)"
    and "lo \<le> n" and "n \<le> length H" and "retained d flag H n"
    and "flag \<longleftrightarrow> latest d = Inl InvalidData" and "flag \<Longrightarrow> has_prev d"
  shows "store_inv (opened H (uncovered L lo n H) flag wl) None d' H lo (set H)"
proof -
  obtain L' where L': "log_records L' = log_records L" "wal_inv wl d' L'" "\<not> wl_poisoned wl"
    using wal_open_spec [OF assms(3,2)] by auto
  note rest = same_rest_load [OF same_rest_wal_open [OF assms(3,2)]]
  note same = ck_ok_same [OF rest]
  let ?b = "case uncovered L lo n H of Some s \<Rightarrow> s | None \<Rightarrow> current_segment wl"
  have lg: "log_is d' L'" using L'(2) by (simp add: wal_inv_def)
  have h: "length H < 2 ^ 64" "lo \<le> length H" "ck_ok d H lo" using assms(1) by (simp_all add: dir_inv_def)
  have bd: "boundary_ok L' ?b n"
    using assms(4-6) h(1) by (intro first_uncovered_boundary [OF lg, of lo H]) (simp_all add: L'(1) uncovered_def)
  have "?b \<le> wl_seg_seq wl"
  proof (cases "n = length H")
    case False
    have "length (log_records L) = length H - lo" using arg_cong [OF assms(4), of length] by simp
    then have "log_records L' ! (n - lo) \<in> set (log_records L')"
      using False assms(5,6) L'(1) by (intro nth_mem) simp
    then have "\<exists>p \<in> set L'. fst (log_records L' ! (n - lo)) = fst p"
      unfolding log_records_def [of L'] by force
    then obtain p where "p \<in> set L'" "fst (log_records L ! (n - lo)) = fst p"
      unfolding L'(1) by blast
    moreover obtain Li rs where "L' = Li @ [(wl_seg_seq wl, rs)]" using L'(2) by (auto simp: wal_inv_snoc)
    ultimately show ?thesis
      using log_is_sorted [OF lg] False by (auto simp: uncovered_def sorted_wrt_append intro: less_imp_le)
  qed (simp add: uncovered_def current_segment_def)
  then have "store_log (opened H (uncovered L lo n H) flag wl) None d' H lo (set H) L'"
    unfolding store_log_def using L' assms(4,7) bd by (auto simp: opened_def log_part_def pin_ok_def same)
  then show ?thesis
    unfolding store_inv_def using h assms(8,9) by (auto simp: opened_def same rest)
qed

lemma dir_inv_wal_open:
  assumes "dir_inv d H lo" and "wal_open mx d = (res, d')"
  shows "dir_inv d' H lo"
proof -
  obtain L where L: "torn_log d L" "map snd (log_records L) = recs_of lo (drop lo H)"
    using assms(1) by (auto simp: dir_inv_def)
  obtain L' where "log_records L' = log_records L" "torn_log d' L'"
    using wal_open_spec [OF L(1) assms(2)] by auto
  moreover note same = ck_ok_same [OF same_rest_load [OF same_rest_wal_open [OF L(1) assms(2)]]]
  ultimately show ?thesis using assms(1) L(2) by (auto simp: dir_inv_def same)
qed

lemma open_locked_recovers:
  assumes "dir_inv d H lo"
  obtains L n flag where "torn_log d L" and "map snd (log_records L) = recs_of lo (drop lo H)"
    and "lo \<le> n" and "n \<le> length H" and "retained d flag H n"
    and "flag \<longleftrightarrow> latest d = Inl InvalidData" and "flag \<Longrightarrow> has_prev d"
    and "open_locked opts d = (case wal_open (opt_wal_segment_size opts) d of
        (Inl e, d) \<Rightarrow> (Inl e, d)
      | (Inr wl, d) \<Rightarrow> (Inr (opened H (uncovered L lo n H) flag wl), d))"
proof -
  have h: "length H < 2 ^ 64" "lo \<le> length H" "ck_ok d H lo" using assms by (simp_all add: dir_inv_def)
  obtain L where L: "torn_log d L" "map snd (log_records L) = recs_of lo (drop lo H)"
    using assms by (auto simp: dir_inv_def)
  obtain ld n where ld: "ckpt_load d = Inr ld" "lo \<le> n" "n \<le> length H"
      "(case ld_snapshot ld of Some s \<Rightarrow> s | None \<Rightarrow> snapshot_empty) = snap_of (take n H)"
      "ld_latest_damaged ld \<longleftrightarrow> latest d = Inl InvalidData" "ld_latest_damaged ld \<Longrightarrow> has_prev d"
      "retained d (ld_latest_damaged ld) H n"
    using ckpt_load_base [OF h(3,2)] by blast
  have "try_bind (replay (recover_record (sn_index (snap_of (take n H)))) d
      (sn_data (snap_of (take n H)), sn_index (snap_of (take n H)), None)) (\<lambda>(s, _). Inr s) =
    Inr (sn_data (snap_of H), word_of_nat (length H), uncovered L lo n H)"
    unfolding uncovered_def by (simp only: replay_torn_log [OF L(1)] recover_history [OF L(2) ld(2,3) h(1)])
  then obtain t where rep: "replay (recover_record (sn_index (snap_of (take n H)))) d
      (sn_data (snap_of (take n H)), sn_index (snap_of (take n H)), None) =
    Inr ((sn_data (snap_of H), word_of_nat (length H), uncovered L lo n H), t)"
    by (auto simp: try_bind_Inr_iff)
  have snap: "\<lparr>sn_index = word_of_nat (length H), sn_data = sn_data (snap_of H)\<rparr> = snap_of H"
    by (simp add: snap_of_def)
  have "open_locked opts d = (case wal_open (opt_wal_segment_size opts) d of
        (Inl e, d) \<Rightarrow> (Inl e, d)
      | (Inr wl, d) \<Rightarrow> (Inr (opened H (uncovered L lo n H) (ld_latest_damaged ld) wl), d))"
    by (simp only: open_locked_def opened_def ld(1,4) Let_def rep snap sum.case prod.case)
  with L ld that show thesis by blast
qed

text \<open>
  Recovery, whatever fails: a directory that holds a history still holds it after an \<^verbatim>\<open>open\<close>, and if
  the \<^verbatim>\<open>open\<close> succeeds the store it returns is in the state of that history.
\<close>

lemma open_with_spec:
  assumes "dir_inv d H lo" and "open_with opts lk d = (res, d')"
  shows "dir_inv d' H lo" and "res = Inr st \<Longrightarrow> store_inv st None d' H lo (set H)"
proof -
  obtain r0 d0 where c0: "fs_call d = (r0, d0)" by force
  have inv0: "dir_inv d0 H lo"
    by (rule dir_inv_frame [OF assms(1)])
      (use call_files [OF c0] assms(1) in \<open>auto simp: file_at_def dir_inv_def torn_log_def\<close>)
  then have wf0: "bm_wf (fs_files d0)" by (auto simp: dir_inv_def torn_log_def)
  obtain r1 d1 where c1: "lock_dir lk d0 = (r1, d1)" by force
  have inv1: "dir_inv d1 H lo" by (rule dir_inv_frame [OF inv0 lock_dir_frame [OF wf0 c1]])
  obtain L n flag where L: "torn_log d1 L" "map snd (log_records L) = recs_of lo (drop lo H)"
      "lo \<le> n" "n \<le> length H" "retained d1 flag H n" "flag \<longleftrightarrow> latest d1 = Inl InvalidData"
      "flag \<Longrightarrow> has_prev d1"
    and run: "open_locked opts d1 = (case wal_open (opt_wal_segment_size opts) d1 of
        (Inl e, d) \<Rightarrow> (Inl e, d)
      | (Inr wl, d) \<Rightarrow> (Inr (opened H (uncovered L lo n H) flag wl), d))"
    by (rule open_locked_recovers [OF inv1, of opts]) (rule that; blast)
  obtain r2 d2 where c2: "wal_open (opt_wal_segment_size opts) d1 = (r2, d2)" by force
  have inv2: "dir_inv d2 H lo" by (rule dir_inv_wal_open [OF inv1 c2])
  have st: "store_inv (opened H (uncovered L lo n H) flag wl) None d2 H lo (set H)" if "r2 = Inr wl" for wl
    using store_opened [OF inv1 c2 [unfolded that] L] .
  have "dir_inv d' H lo \<and> (\<forall>st. res = Inr st \<longrightarrow> store_inv st None d' H lo (set H))"
    using assms(2) c0 c1 inv0 inv1 inv2 st run c2
    by (cases r0; cases r1; cases r2) (auto simp: open_with_def)
  then show "dir_inv d' H lo" and "res = Inr st \<Longrightarrow> store_inv st None d' H lo (set H)" by auto
qed

subsection \<open>A crash, and damage to the latest checkpoint\<close>

lemma recs_of_extend:
  "lo \<le> length H \<Longrightarrow> recs_of lo (drop lo (H @ G)) = recs_of lo (drop lo H) @ recs_of (length H) G"
  by (simp add: recs_of_append)

lemma store_inv_crash:
  assumes "store_inv st pin d H lo T"
  obtains G where "set G \<subseteq> T" and "dir_inv d (H @ G) lo"
proof -
  obtain L where recs: "map snd (log_records L) = recs_of lo (drop lo H)" and lp: "log_part (st_wal st) d H L T"
    using assms by (auto simp: store_inv_def store_log_def)
  have h: "length H < 2 ^ 64" "lo \<le> length H" "ck_ok d H lo" using assms by (auto simp: store_inv_def)
  show thesis
  proof (cases "wl_poisoned (st_wal st)")
    case False
    then have "torn_log d L" using lp by (simp add: log_part_def wal_inv_def log_is_torn_log)
    with recs h that [of "[]"] show thesis by (auto simp: dir_inv_def)
  next
    case True
    then obtain g where g: "set g \<subseteq> T" "length H + length g < 2 ^ 64" "crash_log d L (recs_of (length H) g)"
      using lp by (auto simp: log_part_def)
    obtain L' k where L': "k \<le> length g" "torn_log d L'"
        "map snd (log_records L') = map snd (log_records L) @ take k (recs_of (length H) g)"
      using crash_log_torn_log [OF g(3)] by (metis length_recs_of)
    have "map snd (log_records L') = recs_of lo (drop lo (H @ take k g))"
      unfolding recs_of_extend [OF h(2)] L'(3) recs take_recs_of ..
    with L'(1,2) h g(2) have "dir_inv d (H @ take k g) lo" by (auto simp: dir_inv_def ck_ok_append)
    moreover have "set (take k g) \<subseteq> T" using g(1) by (auto dest: in_set_takeD)
    ultimately show thesis using that by blast
  qed
qed

lemma dir_inv_damage:
  assumes "dir_inv d H lo" and "has_prev d" and "ckpt_decode b = Inl InvalidData"
  shows "dir_inv (fs_set SNAPSHOT_NAME b d) H lo"
proof -
  let ?d = "fs_set SNAPSHOT_NAME b d"
  have wf: "bm_wf (fs_files d)" using assms(1) by (auto simp: dir_inv_def torn_log_def)
  then have wf': "bm_wf (fs_files ?d)" by (simp add: bm_wf_insert)
  have at: "file_at ?d = (file_at d)(SNAPSHOT_NAME \<mapsto> b)" using wf by (simp add: file_at_def bm_get_insert fun_eq_iff)
  have "list_segments ?d = list_segments d"
    by (rule list_segments_eqI [OF wf wf']) (auto simp: at)
  then have "torn_log ?d L \<longleftrightarrow> torn_log d L" for L using wf wf' by (simp add: torn_log_def)
  moreover have "latest ?d = Inl InvalidData" "previous ?d = previous d"
    using assms(3) by (simp_all add: load_file_at at)
  ultimately show ?thesis
    using assms(1,2) by (auto simp: dir_inv_def ck_ok_def has_prev_def)
qed

subsection \<open>A flush\<close>

lemma pin_ok_append:
  assumes "pin_ok pin st H L m" and "wl_seg_seq (st_wal st) \<le> wl_seg_seq (st_wal st')"
    and "log_records L' = log_records L @ map (Pair q) recs" and "wl_seg_seq (st_wal st) \<le> q"
  shows "pin_ok pin st' (H @ G) L' m"
proof (cases pin)
  case (Some p)
  then obtain cur bd c where p: "p = (cur, bd)" "m \<le> c" "c \<le> length H" "cur = snap_of (take c H)"
      "bd \<le> wl_seg_seq (st_wal st)" "boundary_ok L bd c"
    using assms(1) by (cases p) (auto simp: pin_ok_def)
  moreover have "boundary_ok L' bd c"
    using assms(3,4) p(5,6) by (intro boundary_ok_append [of L' L q recs]) auto
  ultimately show ?thesis using assms(2) Some by (auto simp: pin_ok_def intro!: exI [of _ c])
qed (simp add: pin_ok_def)

lemma pin_ok_same:
  assumes "pin_ok pin st H L m" and "log_records L' = log_records L"
    and "wl_seg_seq (st_wal st) \<le> wl_seg_seq (st_wal st')"
  shows "pin_ok pin st' H L' m"
  using pin_ok_append [OF assms(1,3), of L' "wl_seg_seq (st_wal st)" "[]" "[]"] assms(2) by simp

lemma store_inv_mono: "store_inv st pin d H lo T \<Longrightarrow> T \<subseteq> T' \<Longrightarrow> store_inv st pin d H lo T'"
proof -
  assume inv: "store_inv st pin d H lo T" and sub: "T \<subseteq> T'"
  obtain L where "store_log st pin d H lo T L" using inv by (auto simp: store_inv_def)
  then have "store_log st pin d H lo T' L"
    using sub unfolding store_log_def log_part_def by (auto split: if_splits)
  with inv sub show ?thesis unfolding store_inv_def by blast
qed

text \<open>The log of the store after a flush whose append failed, and after one that succeeded.\<close>

lemma store_log_failed:
  assumes log: "store_log st pin d H lo T L" and post: "append_post (recs_of (length H) G) (st_wal st) d L (Inl e) wl1 d1 L'"
    and rest: "same_rest d d1" and ok: "list_all (\<lambda>ops. check_ops ops = Inr ()) G"
    and room: "length H + length G < 2 ^ 64" and sub: "set G \<subseteq> T"
  shows "store_log (st\<lparr>st_wal := wl1\<rparr>) pin d1 H lo T L'"
proof -
  note same = ck_ok_same [OF same_rest_load [OF rest]]
  have okr: "list_all rec_ok (recs_of (length H) G)" using ok by (simp add: rec_ok_recs_of)
  have L': "log_records L' = log_records L" "wl_seg_seq (st_wal st) \<le> wl_seg_seq wl1"
    using post by (simp_all add: append_post_def)
  have "log_part wl1 d1 H L' T" using post okr room sub by (auto simp: append_post_def log_part_def)
  moreover have "pin_ok pin (st\<lparr>st_wal := wl1\<rparr>) H L' m" if "pin_ok pin st H L m" for m
    by (rule pin_ok_same [OF that L'(1)]) (use L'(2) in simp)
  ultimately show ?thesis
    using log L' unfolding store_log_def
    by (auto simp: boundary_ok_records [OF L'(1)] same intro: order_trans)
qed

lemma store_log_flushed:
  assumes log: "store_log st pin d H lo T L" and post: "append_post (recs_of (length H) G) (st_wal st) d L (Inr ()) wl1 d1 L'"
    and rest: "same_rest d d1" and lo: "lo \<le> length H"
    and st': "st_wal st' = wl1" "st_latest_damaged st' = st_latest_damaged st" "st_prev_boundary st' = st_prev_boundary st"
  shows "\<exists>L2. store_log st' pin d1 (H @ G) lo T L2"
proof -
  note same = ck_ok_same [OF same_rest_load [OF rest]]
  obtain m where recs: "map snd (log_records L) = recs_of lo (drop lo H)"
    and bd: "st_prev_boundary st \<le> wl_seg_seq (st_wal st)" "retained d (st_latest_damaged st) H m"
      "boundary_ok L (st_prev_boundary st) m" "pin_ok pin st H L m"
    using log by (auto simp: store_log_def)
  obtain L2 where L2: "\<not> wl_poisoned wl1" "wal_inv wl1 d1 L2"
      "log_records L2 = log_records L @ map (Pair (wl_seg_seq wl1)) (recs_of (length H) G)"
    and seq: "wl_seg_seq (st_wal st) \<le> wl_seg_seq wl1"
    using post by (auto simp: append_post_def)
  have "map snd (log_records L2) = recs_of lo (drop lo (H @ G))"
    unfolding recs_of_extend [OF lo] L2(3) using recs by (simp add: comp_def)
  moreover have "boundary_ok L2 (st_prev_boundary st) m"
    by (rule boundary_ok_append [OF L2(3) order_trans [OF bd(1) seq] bd(3)])
  moreover have "pin_ok pin st' (H @ G) L2 m"
    using bd(4) seq st'(1) L2(3) by (intro pin_ok_append) auto
  moreover have "retained d1 (st_latest_damaged st') (H @ G) m"
    using retained_append [OF bd(2)] st'(2) by (simp add: same)
  moreover have "log_part (st_wal st') d1 (H @ G) L2 T" using L2(1,2) st'(1) by (simp add: log_part_def)
  moreover have "st_prev_boundary st' \<le> wl_seg_seq (st_wal st')" using bd(1) seq st'(1,3) by simp
  ultimately have "store_log st' pin d1 (H @ G) lo T L2" unfolding store_log_def st'(3) by blast
  then show ?thesis ..
qed

lemma flush_group_inv:
  assumes inv: "store_inv st pin d H lo T" and ok: "list_all (\<lambda>ops. check_ops ops = Inr ()) G"
    and room: "length H + length G < 2 ^ 64" and sub: "set G \<subseteq> T"
    and run: "flush_group G st d = (res, st', d')"
  shows "case res of Inr idx \<Rightarrow> idx = group_indices (length H) G \<and> store_inv st' pin d' (H @ G) lo T
    | Inl e \<Rightarrow> store_inv st' pin d' H lo T"
proof -
  obtain L where log: "store_log st pin d H lo T L" using inv by (auto simp: store_inv_def)
  have snap: "rcu_load (st_snap st) = snap_of H" and lo: "lo \<le> length H" using inv by (simp_all add: store_inv_def)
  obtain r wl1 d1 where app: "append_many (recs_of (length H) G) (st_wal st) d = (r, wl1, d1)" by (metis prod_cases3)
  note flush = flush_group_history [OF snap, of G d, unfolded app]
  note rest = same_rest_append_many [OF app]
  note same = same_rest_load [OF rest] ck_ok_same [OF same_rest_load [OF rest]]
  show ?thesis
  proof (cases "wl_poisoned (st_wal st)")
    case True
    then have "r = Inl Other" "wl1 = st_wal st" "d1 = d" using app append_many_poisoned by auto
    with run flush inv show ?thesis by auto
  next
    case False
    then have winv: "wal_inv (st_wal st) d L" using log by (simp add: store_log_def log_part_def)
    obtain L' where post: "append_post (recs_of (length H) G) (st_wal st) d L r wl1 d1 L'"
      by (rule append_many_spec [OF winv False app])
    show ?thesis
    proof (cases r)
      case (Inl e)
      then have st': "res = Inl e" "st' = st\<lparr>st_wal := wl1\<rparr>" "d' = d1" using run flush by simp_all
      have "store_log st' pin d1 H lo T L'"
        unfolding st'(2) by (rule store_log_failed [OF log post [unfolded Inl] rest ok room sub])
      with inv st' show ?thesis by (auto simp: store_inv_def same)
    next
      case (Inr u)
      then have st': "res = Inr (group_indices (length H) G)" "st_wal st' = wl1" "d' = d1"
          "rcu_load (st_snap st') = snap_of (H @ G)" "st_index st' = word_of_nat (length (H @ G))"
          "st_latest_damaged st' = st_latest_damaged st" "st_prev_boundary st' = st_prev_boundary st"
        using run flush by auto
      have "\<exists>L2. store_log st' pin d1 (H @ G) lo T L2"
        using post Inr by (intro store_log_flushed [OF log _ rest lo st'(2,6,7)]) simp
      with inv st' room sub show ?thesis by (auto simp: store_inv_def same ck_ok_append)
    qed
  qed
qed

subsection \<open>The two halves of a checkpoint\<close>

lemma log_index_le:
  assumes "map snd (log_records L) = recs_of lo (drop lo H)" and "lo \<le> length H" and "length H < 2 ^ 64"
  shows "boundary_ok L b (length H)"
  unfolding boundary_ok_def
proof clarify
  fix q r assume "(q, r) \<in> set (log_records L)"
  then have "r \<in> set (recs_of lo (drop lo H))" by (metis assms(1) image_eqI set_map snd_conv)
  from recs_of_index(2) [OF this] assms(2,3) show "unat (r_index r) \<le> length H" by simp
qed

text \<open>The log of the store after a rotation that failed, and after one that pinned the current snapshot.\<close>

lemma store_log_unrotated:
  assumes log: "store_log st None d H lo T L" and len: "length H < 2 ^ 64" and winv: "wal_inv (st_wal st) d L"
    and usable: "\<not> wl_poisoned (st_wal st)" and rot: "rotate_segment (st_wal st) d = (Inl e, wl1, d1)"
  shows "store_log (st\<lparr>st_wal := wl1\<rparr>) None d1 H lo T L"
proof -
  note same = ck_ok_same [OF same_rest_load [OF same_rest_rotate [OF rot]]]
  have nil: "list_all rec_ok (recs_of (length H) [])" by simp
  have "L \<noteq> [] \<and> fst (last L) = wl_seg_seq (st_wal st)" using winv by (simp add: wal_inv_def)
  with rotate_segment_spec(2) [OF winv usable nil rot refl] len usable
  have "log_part wl1 d1 H L T \<and> wl_seg_seq wl1 = wl_seg_seq (st_wal st)"
    by (auto simp: log_part_def intro!: exI [of _ "[]"])
  then show ?thesis using log unfolding store_log_def by (auto simp: same pin_ok_def)
qed

lemma store_log_pinned:
  assumes log: "store_log st None d H lo T L" and len: "lo \<le> length H" "length H < 2 ^ 64"
    and winv: "wal_inv (st_wal st) d L" and usable: "\<not> wl_poisoned (st_wal st)"
    and rot: "rotate_segment (st_wal st) d = (Inr nxt, wl1, d1)"
  shows "store_log (st\<lparr>st_wal := wl1\<rparr>) (Some (snap_of H, nxt)) d1 H lo T (L @ [(nxt, [])])"
proof -
  note same = ck_ok_same [OF same_rest_load [OF same_rest_rotate [OF rot]]]
  let ?L = "L @ [(nxt, [])]" and ?st = "st\<lparr>st_wal := wl1\<rparr>"
  obtain m where recs: "map snd (log_records L) = recs_of lo (drop lo H)"
    and bd: "st_prev_boundary st \<le> wl_seg_seq (st_wal st)" "retained d (st_latest_damaged st) H m"
      "boundary_ok L (st_prev_boundary st) m"
    using log by (auto simp: store_log_def)
  have nil: "list_all rec_ok []" by simp
  note ok = rotate_segment_spec(1) [OF winv usable nil rot refl]
  have recsL: "log_records ?L = log_records L" by simp
  have "boundary_ok ?L nxt (length H)"
    unfolding boundary_ok_records [OF recsL] by (rule log_index_le [OF recs len])
  moreover have "m \<le> length H" using bd(2) by (simp add: retained_def)
  ultimately have "pin_ok (Some (snap_of H, nxt)) ?st H ?L m"
    using ok by (auto simp: pin_ok_def intro!: exI [of _ "length H"])
  moreover have "boundary_ok ?L (st_prev_boundary ?st) m"
    unfolding boundary_ok_records [OF recsL] using bd(3) by simp
  moreover have "retained d1 (st_latest_damaged ?st) H m" using bd(2) by (simp add: same)
  moreover have "st_prev_boundary ?st \<le> wl_seg_seq (st_wal ?st)" using bd(1) ok by auto
  moreover have "log_part (st_wal ?st) d1 H ?L T" using ok by (auto simp: log_part_def)
  moreover have "map snd (log_records ?L) = recs_of lo (drop lo H)" using recs by simp
  ultimately show ?thesis unfolding store_log_def by blast
qed

lemma checkpoint_pin_inv:
  assumes inv: "store_inv st None d H lo T" and run: "checkpoint_pin st d = (res, st', d')"
  shows "case res of Inr pin \<Rightarrow> fst pin = snap_of H \<and> store_inv st' (Some pin) d' H lo T
    | Inl e \<Rightarrow> store_inv st' None d' H lo T"
proof -
  obtain L where log: "store_log st None d H lo T L" using inv by (auto simp: store_inv_def)
  have len: "lo \<le> length H" "length H < 2 ^ 64" and snap: "rcu_load (st_snap st) = snap_of H"
    using inv by (simp_all add: store_inv_def)
  obtain r wl1 d1 where rot: "rotate_segment (st_wal st) d = (r, wl1, d1)" by (metis prod_cases3)
  note rest = same_rest_load [OF same_rest_rotate [OF rot]]
  note same = rest ck_ok_same [OF rest]
  have st': "st' = st\<lparr>st_wal := wl1\<rparr>" "d' = d1"
    "res = (case r of Inl e \<Rightarrow> Inl e | Inr b \<Rightarrow> Inr (snap_of H, b))"
    using run rot snap by (auto simp: checkpoint_pin_def Let_def split: sum.splits)
  show ?thesis
  proof (cases "wl_poisoned (st_wal st)")
    case True
    then have "r = Inl Other" "wl1 = st_wal st" "d1 = d" using rot rotate_segment_poisoned by auto
    with st' inv show ?thesis by simp
  next
    case False
    then have winv: "wal_inv (st_wal st) d L" using log by (simp add: store_log_def log_part_def)
    show ?thesis
    proof (cases r)
      case (Inl e)
      from store_log_unrotated [OF log len(2) winv False rot [unfolded Inl]] inv st' Inl show ?thesis
        by (auto simp: store_inv_def same)
    next
      case (Inr nxt)
      from store_log_pinned [OF log len winv False rot [unfolded Inr]] inv st' Inr show ?thesis
        by (auto simp: store_inv_def same)
    qed
  qed
qed

lemma retained_ge:
  assumes "ck_ok d H lo" and "retained d flag H m" and "length H < 2 ^ 64"
    and "flag \<longrightarrow> has_prev d" and "latest d = Inl InvalidData \<longrightarrow> flag"
  shows "lo \<le> m"
proof -
  have inj: "n = m" if "snap_of (take n H) = snap_of (take m H)" "n \<le> length H" for n
    using arg_cong [OF that(1), of "\<lambda>s. unat (sn_index s)"] that(2) assms(2,3)
    by (simp add: sn_index_snap_of retained_def)
  define r where "r = (if flag \<or> latest d = Inr None then previous d else latest d)"
  have "gen H lo r"
    using assms(1,5) unfolding r_def ck_ok_def by auto
  moreover have "r = Inr (Some (snap_of (take m H))) \<or> r = Inr None \<and> m = 0"
    using assms(2) by (simp only: retained_def Let_def r_def)
  moreover have "lo = 0" if "r = Inr None"
    using that assms(1,4) unfolding r_def ck_ok_def has_prev_def by (auto split: if_splits)
  ultimately show ?thesis using inj by (auto simp: gen_def)
qed

text \<open>
  The directory after the checkpoint write: the published file, or an error that leaves the
  generations recovery needs.
\<close>

lemma finish_write:
  assumes ck: "ck_ok d H lo" and len: "length H < 2 ^ 64"
    and flag: "flag \<longrightarrow> has_prev d" "latest d = Inl InvalidData \<longrightarrow> flag"
    and m: "retained d flag H m" and c: "m \<le> c" "c \<le> length H"
    and small: "length (sn_data (snap_of (take c H))) < 2 ^ 64" and wf: "bm_wf (fs_files d)"
    and run: "ckpt_write (snap_of (take c H)) (if flag then Discard else Retain) d = (res, d')"
  shows "ck_ok d' H lo \<and> latest d' \<noteq> Inl InvalidData \<or> (\<exists>e. res = Inl e) \<and> latest d' = latest d \<and> previous d' = previous d"
    and "flag \<longrightarrow> has_prev d'"
    and "retained d' flag H m \<or> \<not> flag \<and> retained d' flag H c"
    and "res = Inr () \<Longrightarrow> latest d' = Inr (Some (snap_of (take c H)))
      \<and> (previous d' = Inr (Some (snap_of (take m H))) \<or> previous d' = Inr None \<and> m = 0)"
proof -
  let ?snap = "snap_of (take c H)" and ?rep = "if flag then Discard else Retain"
  have lo: "lo \<le> m" by (rule retained_ge [OF ck m len flag])
  define r where "r = (if flag \<or> latest d = Inr None then previous d else latest d)"
  have r: "r = Inr (Some (snap_of (take m H))) \<or> r = Inr None \<and> m = 0"
    using m by (simp only: retained_def Let_def r_def)
  then have genr: "gen H lo r" using lo c by (auto simp: gen_def)
  have genc: "gen H lo (Inr (Some ?snap))" using lo c by (auto simp: gen_def intro!: exI [of _ c])
  have dem: "demoted ?rep d \<longleftrightarrow> \<not> flag \<and> latest d \<noteq> Inr None"
    by (simp add: demoted_def load_file_None)
  note cases = ckpt_write_cases [OF wf run]
  have pub: "latest d' = Inr (Some ?snap) \<and> previous d' = (if flag \<or> latest d = Inr None then previous d else latest d)"
    if "list_all entry_fits (sn_data ?snap)" "published ?snap ?rep d d'"
  proof -
    have "snapshot_fits ?snap" using that(1) small snap_of_wf by (simp add: snapshot_fits_def)
    with that(2) dem show ?thesis by (auto simp: published_def load_file_at ckpt_decode_image)
  qed
  have notpub: "latest d' = latest d \<and> previous d' = previous d
      \<or> \<not> flag \<and> latest d \<noteq> Inr None \<and> latest d' = Inr None \<and> previous d' = latest d"
    if "not_published ?rep d d'"
    using that dem by (auto simp: not_published_def load_file_at)
  have goal: "(ck_ok d' H lo \<and> latest d' \<noteq> Inl InvalidData \<or> (\<exists>e. res = Inl e) \<and> latest d' = latest d \<and> previous d' = previous d)
    \<and> (flag \<longrightarrow> has_prev d') \<and> (retained d' flag H m \<or> \<not> flag \<and> retained d' flag H c)
    \<and> (res = Inr () \<longrightarrow> latest d' = Inr (Some ?snap)
      \<and> (previous d' = Inr (Some (snap_of (take m H))) \<or> previous d' = Inr None \<and> m = 0))"
    using cases(3)
  proof (elim disjE conjE)
    assume "list_all entry_fits (sn_data ?snap)" "published ?snap ?rep d d'"
    then have p: "latest d' = Inr (Some ?snap)" "previous d' = r" using pub by (auto simp: r_def)
    have "ck_ok d' H lo" using genc genr by (simp add: ck_ok_def p)
    moreover have "flag \<longrightarrow> has_prev d'" using flag(1) p(2) by (simp add: r_def has_prev_def)
    moreover have "retained d' flag H m \<or> \<not> flag \<and> retained d' flag H c"
      using p r c by (cases flag) (auto simp: retained_def)
    ultimately show ?thesis using p r by auto
  next
    assume e: "\<exists>e. res = Inl e" and "not_published ?rep d d'"
    from notpub [OF this(2)] show ?thesis
    proof
      assume s: "latest d' = latest d \<and> previous d' = previous d"
      then show ?thesis using e flag(1) m ck_ok_same [of d' d] by auto
    next
      assume "\<not> flag \<and> latest d \<noteq> Inr None \<and> latest d' = Inr None \<and> previous d' = latest d"
      then have p: "\<not> flag" "latest d' = Inr None" "previous d' = r" "latest d = r" "r \<noteq> Inr None"
        by (auto simp: r_def)
      have "ck_ok d' H lo" using genr p(5) by (simp add: ck_ok_def p gen_def)
      moreover have "retained d' flag H m" using p r c by (auto simp: retained_def)
      ultimately show ?thesis using e p by auto
    qed
  qed
  then show "ck_ok d' H lo \<and> latest d' \<noteq> Inl InvalidData \<or> (\<exists>e. res = Inl e) \<and> latest d' = latest d \<and> previous d' = previous d"
    and "flag \<longrightarrow> has_prev d'" and "retained d' flag H m \<or> \<not> flag \<and> retained d' flag H c"
    and "res = Inr () \<Longrightarrow> latest d' = Inr (Some ?snap)
      \<and> (previous d' = Inr (Some (snap_of (take m H))) \<or> previous d' = Inr None \<and> m = 0)"
    by blast+
qed

lemma crash_log_segs:
  "crash_log d L new \<Longrightarrow> bm_wf (fs_files d') \<Longrightarrow> list_segments d' = list_segments d \<Longrightarrow> crash_log d' L new"
  by (simp add: crash_log_def)

lemma log_part_segs:
  assumes "log_part wl d H L T" and "bm_wf (fs_files d')" and "list_segments d' = list_segments d"
  shows "log_part wl d' H L T"
  using assms crash_log_segs [OF _ assms(2,3)]
  by (auto simp: log_part_def wal_inv_def log_is_def split: if_splits)

lemma log_part_wf: "log_part wl d H L T \<Longrightarrow> bm_wf (fs_files d)"
  by (auto simp: log_part_def wal_inv_def log_is_def crash_log_def split: if_splits)

lemma log_records_take_drop: "log_records L = log_records (take k L) @ log_records (drop k L)"
  using log_records_simps(2) [of "take k L" "drop k L"] by simp

text \<open>Reclaiming segments that a checkpoint of the first \<open>m\<close> commits covers.\<close>

lemma finish_remove:
  assumes recs: "map snd (log_records L) = recs_of lo (drop lo H)" and lp: "log_part wl d H L T"
    and b: "b \<le> wl_seg_seq wl" "boundary_ok L b m" and lo: "lo \<le> m" "m \<le> length H" "length H < 2 ^ 64"
    and run: "remove_segments_before b wl d = (res, d')"
  obtains L' lo' where "map snd (log_records L') = recs_of lo' (drop lo' H)" and "log_part wl d' H L' T"
    and "lo' \<le> m" and "set (log_records L') \<subseteq> set (log_records L)"
proof -
  obtain k where k: "log_part wl d' H (drop k L) T" "\<And>q rs. (q, rs) \<in> set (take k L) \<Longrightarrow> q < b"
  proof (cases "wl_poisoned wl")
    case True
    then obtain g where g: "L \<noteq> []" "fst (last L) = wl_seg_seq wl" "set g \<subseteq> T" "length H + length g < 2 ^ 64"
        "crash_log d L (recs_of (length H) g)" using lp by (auto simp: log_part_def)
    obtain k where "crash_log d' (drop k L) (recs_of (length H) g)" "k < length L"
        "\<And>q rs. (q, rs) \<in> set (take k L) \<Longrightarrow> q < b"
      by (rule remove_segments_before_crash [OF g(5,1,2) b(1) run]) blast
    with g True that [of k] show thesis by (auto simp: log_part_def)
  next
    case False
    then have "wal_inv wl d L" using lp by (simp add: log_part_def)
    then obtain k where "wal_inv wl d' (drop k L)" "\<And>q rs. (q, rs) \<in> set (take k L) \<Longrightarrow> q < b"
      by (rule remove_segments_before_spec [OF _ run]) blast
    with False that [of k] show thesis by (simp add: log_part_def)
  qed
  let ?j = "length (log_records (take k L))"
  note split = log_records_take_drop [of L k]
  have "map snd (log_records (drop k L)) = drop ?j (map snd (log_records L))"
    by (subst split) simp
  then have recs': "map snd (log_records (drop k L)) = recs_of (lo + ?j) (drop (lo + ?j) H)"
    by (simp add: recs drop_recs_of add.commute)
  have "lo + ?j \<le> m"
  proof (cases "?j = 0")
    case False
    have jle: "?j \<le> length H - lo"
      using arg_cong [OF recs, of length] split by (metis le_add1 length_append length_drop length_map length_recs_of)
    have mem: "last (log_records (take k L)) \<in> set (log_records (take k L))" using False by (intro last_in_set) auto
    then have "fst (last (log_records (take k L))) < b" using k(2) by (auto simp: log_records_def)
    moreover have "last (log_records (take k L)) \<in> set (log_records L)" using mem split by (metis UnCI set_append)
    ultimately have "unat (r_index (snd (last (log_records (take k L))))) \<le> m"
      using b(2) by (auto simp: boundary_ok_def)
    moreover have "snd (last (log_records (take k L))) = recs_of lo (drop lo H) ! (?j - 1)"
      unfolding recs [symmetric] using False split
      by (metis (no_types, lifting) One_nat_def diff_less last_conv_nth length_append length_greater_0_conv
          list.size(3) nth_append nth_map trans_less_add1 zero_less_Suc)
    moreover have "r_index (recs_of lo (drop lo H) ! (?j - 1)) = word_of_nat (lo + ?j)"
    proof -
      obtain i where i: "?j = Suc i" using False not0_implies_Suc by blast
      with jle have "i < length (drop lo H)" by simp
      with i show ?thesis by (simp add: nth_recs_of)
    qed
    moreover have "unat (word_of_nat (lo + ?j) :: u64) = lo + ?j"
      using jle lo by (intro unat_u64_of_nat) simp
    ultimately show ?thesis by (simp del: of_nat_add)
  qed (use lo in simp)
  moreover have "set (log_records (drop k L)) \<subseteq> set (log_records L)" using split by (metis Un_upper2 set_append)
  ultimately show thesis using that [OF recs' k(1)] by blast
qed

text \<open>The store after the write of a checkpoint failed, and after it was written and segments were reclaimed.\<close>

lemma checkpoint_unwritten:
  assumes inv: "store_inv st (Some (snap_of (take c H), bd)) d H lo T" and small: "length (sn_data (snap_of (take c H))) < 2 ^ 64"
    and c: "m \<le> c" "c \<le> length H" and log: "store_log st None d H lo T L"
    and m: "retained d (st_latest_damaged st) H m" "boundary_ok L (st_prev_boundary st) m"
    and w: "ckpt_write (snap_of (take c H)) (if st_latest_damaged st then Discard else Retain) d = (Inl e, d1)"
  shows "store_inv st None d1 H lo T"
proof -
  have base: "ck_ok d H lo" "length H < 2 ^ 64" "st_latest_damaged st \<longrightarrow> has_prev d" "latest d = Inl InvalidData \<longrightarrow> st_latest_damaged st"
    using inv by (simp_all add: store_inv_def)
  have lp: "log_part (st_wal st) d H L T" using log by (simp add: store_log_def)
  note fin = finish_write [OF base m(1) c small log_part_wf [OF lp] w]
  have lp1: "log_part (st_wal st) d1 H L T"
    by (rule log_part_segs [OF lp segs_ckpt_write [OF log_part_wf [OF lp] w]])
  obtain m' where m': "retained d1 (st_latest_damaged st) H m'" "m \<le> m'" using fin(3) c(1) by auto
  have "store_log st None d1 H lo T L"
    using log lp1 m' boundary_ok_mono [OF m(2) m'(2)] unfolding store_log_def by (auto simp: pin_ok_def)
  moreover have "ck_ok d1 H lo" "latest d1 = Inl InvalidData \<longrightarrow> st_latest_damaged st"
    using fin(1) base(1,4) ck_ok_same(1) [of d1 d] by auto
  ultimately show ?thesis using inv fin(2) unfolding store_inv_def by blast
qed

lemma checkpoint_written:
  assumes inv: "store_inv st (Some (snap_of (take c H), bd)) d H lo T" and small: "length (sn_data (snap_of (take c H))) < 2 ^ 64"
    and c: "m \<le> c" "c \<le> length H" "bd \<le> wl_seg_seq (st_wal st)" "boundary_ok L bd c" and log: "store_log st None d H lo T L"
    and m: "retained d (st_latest_damaged st) H m" "boundary_ok L (st_prev_boundary st) m"
    and w: "ckpt_write (snap_of (take c H)) (if st_latest_damaged st then Discard else Retain) d = (Inr (), d1)"
    and rem: "remove_segments_before (st_prev_boundary st) (st_wal st) d1 = (r2, d2)"
    and st': "st_wal st' = st_wal st" "st_latest_damaged st' = False" "st_prev_boundary st' = bd"
      "st_snap st' = st_snap st" "st_index st' = st_index st"
  shows "\<exists>lo'. store_inv st' None d2 H lo' T" and "latest d2 = Inr (Some (snap_of (take c H)))"
proof -
  have base: "ck_ok d H lo" "length H < 2 ^ 64" "st_latest_damaged st \<longrightarrow> has_prev d" "latest d = Inl InvalidData \<longrightarrow> st_latest_damaged st"
    using inv by (simp_all add: store_inv_def)
  have lp: "log_part (st_wal st) d H L T" and recs: "map snd (log_records L) = recs_of lo (drop lo H)"
    and b: "st_prev_boundary st \<le> wl_seg_seq (st_wal st)" using log by (auto simp: store_log_def)
  have lo: "lo \<le> m" and mlen: "m \<le> length H" using retained_ge [OF base(1) m(1) base(2-4)] c by simp_all
  have pub: "latest d1 = Inr (Some (snap_of (take c H)))"
      "previous d1 = Inr (Some (snap_of (take m H))) \<or> previous d1 = Inr None \<and> m = 0"
    using finish_write(4) [OF base m(1) c(1,2) small log_part_wf [OF lp] w] by auto
  have lp1: "log_part (st_wal st) d1 H L T"
    by (rule log_part_segs [OF lp segs_ckpt_write [OF log_part_wf [OF lp] w]])
  obtain L' lo' where L': "map snd (log_records L') = recs_of lo' (drop lo' H)" "log_part (st_wal st) d2 H L' T"
      "lo' \<le> m" "set (log_records L') \<subseteq> set (log_records L)"
    using recs lp1 b m(2) lo mlen base(2) rem by (rule finish_remove)
  note rest = same_rest_load [OF same_rest_remove_segments [OF rem]]
  have "gen H lo' (latest d2)"
    using pub(1) L'(3) c unfolding gen_def rest by (auto intro!: exI [of _ c])
  moreover have "gen H lo' (previous d2)"
    using pub(2) L'(3) mlen unfolding gen_def rest by (auto intro!: exI [of _ m])
  ultimately have "ck_ok d2 H lo'" by (simp add: ck_ok_def rest pub(1))
  moreover have "boundary_ok L' bd c" using c(4) L'(4) by (auto simp: boundary_ok_def)
  moreover have "retained d2 False H c" using pub(1) c(2) by (simp add: retained_def rest)
  ultimately have "store_inv st' None d2 H lo' T"
    using inv L' c st' pub(1) mlen unfolding store_inv_def store_log_def
    by (auto simp: pin_ok_def rest intro!: exI [of _ L'])
  then show "\<exists>lo'. store_inv st' None d2 H lo' T" ..
  show "latest d2 = Inr (Some (snap_of (take c H)))" using pub(1) rest by simp
qed

lemma checkpoint_finish_inv:
  assumes inv: "store_inv st (Some pin) d H lo T" and small: "length (sn_data (fst pin)) < 2 ^ 64"
    and run: "checkpoint_finish pin st d = (res, st', d')"
  shows "\<exists>lo'. store_inv st' None d' H lo' T"
    and "res = Inr i \<Longrightarrow> i = sn_index (fst pin) \<and> latest d' = Inr (Some (fst pin))"
proof -
  obtain L where log: "store_log st (Some pin) d H lo T L" using inv by (auto simp: store_inv_def)
  obtain m c bd where pin: "pin = (snap_of (take c H), bd)"
    and m: "retained d (st_latest_damaged st) H m" "boundary_ok L (st_prev_boundary st) m"
    and c: "m \<le> c" "c \<le> length H" "bd \<le> wl_seg_seq (st_wal st)" "boundary_ok L bd c"
    using log by (cases pin) (auto simp: store_log_def pin_ok_def)
  have log': "store_log st None d H lo T L" using log by (auto simp: store_log_def pin_ok_def)
  obtain r d1 where w: "ckpt_write (snap_of (take c H)) (if st_latest_damaged st then Discard else Retain) d = (r, d1)" by force
  note inv' = inv [unfolded pin] and small' = small [unfolded pin fst_conv]
  have "(\<exists>lo'. store_inv st' None d' H lo' T) \<and> (\<forall>i. res = Inr i \<longrightarrow> i = sn_index (fst pin) \<and> latest d' = Inr (Some (fst pin)))"
  proof (cases r)
    case (Inl e)
    then have "res = Inl e" "st' = st" "d' = d1" using run w by (simp_all add: checkpoint_finish_def pin)
    with checkpoint_unwritten [OF inv' small' c(1,2) log' m w [unfolded Inl]] show ?thesis by auto
  next
    case (Inr u)
    obtain r2 d2 where rem: "remove_segments_before (st_prev_boundary st) (st_wal st) d1 = (r2, d2)" by force
    have st': "st_wal st' = st_wal st" "st_latest_damaged st' = False" "st_prev_boundary st' = bd"
        "st_snap st' = st_snap st" "st_index st' = st_index st" "d' = d2" "\<And>i. res = Inr i \<Longrightarrow> i = sn_index (fst pin)"
      using run w Inr rem by (auto simp: checkpoint_finish_def pin Let_def split: sum.splits)
    from w Inr have "ckpt_write (snap_of (take c H)) (if st_latest_damaged st then Discard else Retain) d = (Inr (), d1)" by simp
    from checkpoint_written [OF inv' small' c log' m this rem st'(1-5)] st'(6,7) pin show ?thesis by auto
  qed
  then show "\<exists>lo'. store_inv st' None d' H lo' T"
    and "res = Inr i \<Longrightarrow> i = sn_index (fst pin) \<and> latest d' = Inr (Some (fst pin))" by auto
qed

end
