(* ===== verification/Power_Dir.thy ===== *)
theory Power_Dir
  imports Store_Inv
begin

text \<open>
  Directories as a power failure may leave them, and how the history they hold changes with the one file that differs: the
  last segment with other bytes at its end, one more segment, one segment less at the front, a checkpoint demoted or
  published.
\<close>

lemma dir_inv_files: "fs_files d' = fs_files d \<Longrightarrow> dir_inv d' H lo \<longleftrightarrow> dir_inv d H lo"
  using ck_ok_same(1) [of d' d H lo] by (simp add: dir_inv_def torn_log_files [of d' d] load_file_def)

subsection \<open>The records at the end of a log\<close>

text \<open>A last segment with the content \<open>c\<close> holds the records \<open>rs\<close>.\<close>

definition tail_holds :: "bytes \<Rightarrow> wal_record list \<Rightarrow> bool" where
  "tail_holds c rs \<longleftrightarrow> list_all rec_ok rs \<and> (\<exists>t. torn_tail t \<and> c = seg_image rs @ t)
     \<or> rs = [] \<and> (\<exists>m < HEADER_LEN. c = take m segment_header)"

lemma tail_holds_whole: "list_all rec_ok rs \<Longrightarrow> tail_holds (seg_image rs) rs"
  by (auto simp: tail_holds_def torn_tail_def)

lemma tail_holds_half: "m \<le> HEADER_LEN \<Longrightarrow> tail_holds (take m segment_header) []"
  using tail_holds_whole [of "[]"] by (cases "m = HEADER_LEN") (auto simp: tail_holds_def seg_image_def intro: exI [of _ m])

lemma tail_holds_scan:
  assumes "tail_holds c rs"
  shows "\<exists>off. scan_segment (\<lambda>s r. Inr (s @ [r])) c [] = Inr (rs, off)"
proof -
  have all: "sink_all (\<lambda>s r. Inr (s @ [r]) :: wal_record list io_result) s rs = Inr (s @ rs)" for s :: "wal_record list" and rs
    by (induction rs arbitrary: s) simp_all
  show ?thesis
    using assms all [of "[]" rs] by (auto simp: tail_holds_def scan_image_tail scan_half_header)
qed

lemma tail_holds_unique: "tail_holds c rs \<Longrightarrow> tail_holds c rs' \<Longrightarrow> rs = rs'"
  by (auto dest!: tail_holds_scan)

lemma tail_holds_append:
  assumes "list_all rec_ok rs" and "list_all rec_ok new" and "n \<le> length (wal.frames new)"
  obtains k where "k \<le> length new" and "tail_holds (seg_image rs @ take n (wal.frames new)) (rs @ take k new)"
proof -
  obtain k t where k: "k \<le> length new" "torn_tail t" "take n (wal.frames new) = wal.frames (take k new) @ t"
    using assms(2,3) by (rule frames_cut_tail)
  then have "tail_holds (seg_image rs @ take n (wal.frames new)) (rs @ take k new)"
    using assms(1,2) by (auto simp: tail_holds_def seg_image_append list_all_iff dest: in_set_takeD)
  with k(1) that show thesis by blast
qed

definition last_segment :: "fs \<Rightarrow> log \<Rightarrow> string \<Rightarrow> bytes \<Rightarrow> bool" where
  "last_segment d Li x c \<longleftrightarrow> log_ok Li \<and> list_segments d = files_of Li @ [(x, c)]"

lemma torn_log_tail:
  "(\<exists>L. torn_log d L \<and> map snd (log_records L) = R) \<longleftrightarrow> bm_wf (fs_files d) \<and>
     (list_segments d = [] \<and> R = [] \<or>
      (\<exists>Li q c rs. last_segment d Li (segment_path q) c \<and> tail_holds c rs \<and> R = map snd (log_records Li) @ rs))"
  (is "?l \<longleftrightarrow> ?r")
proof
  assume ?l
  then obtain L where L: "torn_log d L" "map snd (log_records L) = R" by blast
  have wf: "bm_wf (fs_files d)" and ok: "log_ok L" using L(1) by (simp_all add: torn_log_def)
  from L(1) show ?r
  proof (cases rule: torn_log_cases)
    case none
    with wf L(2) show ?thesis by simp
  next
    case (torn Li q rs t)
    then have "last_segment d Li (segment_path q) (seg_image rs @ t)" "tail_holds (seg_image rs @ t) rs"
      using ok by (auto simp: last_segment_def tail_holds_def)
    with wf torn(1) L(2) show ?thesis by (fastforce simp: comp_def)
  next
    case (half q m)
    then have "last_segment d L (segment_path q) (take m segment_header)" "tail_holds (take m segment_header) []"
      using ok by (auto simp: last_segment_def tail_holds_half)
    with wf L(2) show ?thesis by fastforce
  qed
next
  assume r: ?r
  then have wf: "bm_wf (fs_files d)" by simp
  from r consider "list_segments d = []" "R = []"
    | Li q c rs where "log_ok Li" "list_segments d = files_of Li @ [(segment_path q, c)]" "tail_holds c rs"
        "R = map snd (log_records Li) @ rs"
    by (auto simp: last_segment_def)
  then show ?l
  proof cases
    case 1
    with wf show ?thesis by (intro exI [of _ "[]"]) (simp add: torn_log_def)
  next
    case 2
    from 2(3) consider t where "list_all rec_ok rs" "torn_tail t" "c = seg_image rs @ t"
      | m where "rs = []" "m < HEADER_LEN" "c = take m segment_header"
      by (auto simp: tail_holds_def)
    then show ?thesis
    proof cases
      case 1
      with 2 wf have "torn_log d (Li @ [(q, rs)])" by (auto simp: torn_log_def)
      with 2 show ?thesis by (intro exI [of _ "Li @ [(q, rs)]"]) (simp add: comp_def)
    next
      case b: 2
      with 2 wf have "torn_log d Li" unfolding torn_log_def by blast
      with 2 b show ?thesis by auto
    qed
  qed
qed

definition dir_log :: "fs \<Rightarrow> wal_record list \<Rightarrow> bool" where
  "dir_log d R \<longleftrightarrow> bm_wf (fs_files d) \<and> (list_segments d = [] \<and> R = [] \<or>
     (\<exists>Li q c rs. last_segment d Li (segment_path q) c \<and> tail_holds c rs \<and> R = map snd (log_records Li) @ rs))"

lemma dir_inv_tail:
  "dir_inv d H lo \<longleftrightarrow> length H < 2 ^ 64 \<and> lo \<le> length H \<and> ck_ok d H lo \<and> dir_log d (recs_of lo (drop lo H))"
  unfolding dir_inv_def torn_log_tail dir_log_def ..

subsection \<open>One file changes\<close>

lemma same_rest_insert: "x = segment_path q \<Longrightarrow> fs_files d' = bm_insert x c (fs_files d) \<Longrightarrow> same_rest d d'"
  by (auto simp: same_rest_def file_at_def bm_get_insert_other not_segment)

lemma dir_inv_last:
  assumes "dir_inv d H lo" and "list_segments d = fl @ [(x, c)]" and "tail_holds c rs"
    and "tail_holds c' (rs @ recs_of (length H) G)" and "length H + length G < 2 ^ 64"
    and "fs_files d' = bm_insert x c' (fs_files d)"
  shows "dir_inv d' (H @ G) lo"
proof -
  have h: "lo \<le> length H" "ck_ok d H lo" "bm_wf (fs_files d)" "dir_log d (recs_of lo (drop lo H))"
    using assms(1) by (auto simp: dir_inv_tail dir_log_def)
  obtain Li q where Li: "log_ok Li" "fl = files_of Li" "x = segment_path q"
      "recs_of lo (drop lo H) = map snd (log_records Li) @ rs"
    using h(4) assms(2,3) by (auto simp: dir_log_def last_segment_def dest: tail_holds_unique)
  note segs = segs_after_insert(1,2) [OF h(3) assms(2) [unfolded Li(2,3)] assms(6) [unfolded Li(3)]]
  have recs: "recs_of lo (drop lo (H @ G)) = map snd (log_records Li) @ rs @ recs_of (length H) G"
    using Li(4) recs_of_extend [OF h(1), of G] by simp
  have log: "dir_log d' (recs_of lo (drop lo (H @ G)))"
    unfolding dir_log_def recs using segs Li(1) assms(4) by (auto simp: last_segment_def)
  have "ck_ok d' (H @ G) lo"
    using ck_ok_same(1) [OF same_rest_load [OF same_rest_insert [OF Li(3) assms(6)]]] ck_ok_append [OF h(2)] by blast
  with log assms(5) h(1) show ?thesis by (simp add: dir_inv_tail)
qed

lemma dir_inv_add:
  assumes "dir_inv d H lo" and "\<And>fl y c. list_segments d = fl @ [(y, c)] \<Longrightarrow> \<exists>rs. list_all rec_ok rs \<and> c = seg_image rs"
    and "\<forall>e \<in> set (list_segments d). fst e < segment_path q" and "tail_holds c' []"
    and "fs_files d' = bm_insert (segment_path q) c' (fs_files d)"
  shows "dir_inv d' H lo"
proof -
  have h: "ck_ok d H lo" "bm_wf (fs_files d)" "dir_log d (recs_of lo (drop lo H))"
    using assms(1) by (auto simp: dir_inv_tail dir_log_def)
  obtain L where L: "log_ok L" "list_segments d = files_of L" "recs_of lo (drop lo H) = map snd (log_records L)"
  proof (cases "list_segments d = []")
    case True
    then show thesis using h(3) that [of "[]"] by (auto simp: dir_log_def last_segment_def)
  next
    case False
    then obtain Li q c rs where Li: "log_ok Li" "list_segments d = files_of Li @ [(segment_path q, c)]" "tail_holds c rs"
        "recs_of lo (drop lo H) = map snd (log_records Li) @ rs"
      using h(3) by (auto simp: dir_log_def last_segment_def)
    obtain rs' where rs': "list_all rec_ok rs'" "c = seg_image rs'" using assms(2) [OF Li(2)] by blast
    then have "rs' = rs" using Li(3) tail_holds_whole tail_holds_unique by blast
    with Li rs' show thesis by (intro that [of "Li @ [(q, rs)]"]) (simp_all add: comp_def)
  qed
  have wf: "bm_wf (fs_files d')" using h(2) assms(5) by (simp add: bm_wf_insert)
  have "list_segments d' = bm_insert (segment_path q) c' (list_segments d)"
    using list_segments_set [OF h(2), of q c'] assms(5) by (simp add: list_segments_def)
  then have "list_segments d' = files_of L @ [(segment_path q, c')]"
    using assms(3) by (simp add: bm_insert_last L(2))
  then have "dir_log d' (recs_of lo (drop lo H))"
    unfolding dir_log_def using wf L assms(4) by (auto simp: last_segment_def)
  moreover have "ck_ok d' H lo"
    using ck_ok_same(1) [OF same_rest_load [OF same_rest_insert [OF refl assms(5)]]] h(1) by blast
  ultimately show ?thesis using assms(1) by (simp add: dir_inv_tail)
qed

lemma dir_log_first:
  assumes "dir_log d R" and "list_segments d = (segment_path q, seg_image rs) # fl" and "fl \<noteq> []" and "list_all rec_ok rs"
  obtains L q2 c rs2 where "log_ok L" and "fl = files_of L @ [(segment_path q2, c)]" and "tail_holds c rs2"
    and "R = rs @ map snd (log_records L) @ rs2"
proof -
  obtain Li q2 c rs2 where Li: "log_ok Li" "list_segments d = files_of Li @ [(segment_path q2, c)]" "tail_holds c rs2"
      "R = map snd (log_records Li) @ rs2"
    using assms(1,2) by (auto simp: dir_log_def last_segment_def)
  obtain q1 rs1 L where Lc: "Li = (q1, rs1) # L" using Li(2) assms(2,3) by (cases Li) auto
  then have e: "seg_image rs1 = seg_image rs" "fl = files_of L @ [(segment_path q2, c)]"
    using Li(2) assms(2) by auto
  have "rs1 = rs"
    using e(1) Li(1) Lc assms(4) tail_holds_whole [of rs1] tail_holds_whole [of rs] by (auto intro: tail_holds_unique)
  with Li Lc e(2) that [of L q2 c rs2] show thesis by (simp add: comp_def)
qed

lemma dir_inv_drop:
  assumes "dir_inv d H lo" and "list_segments d = (segment_path q, seg_image rs) # fl" and "fl \<noteq> []" and "list_all rec_ok rs"
    and "ck_ok d H (lo + length rs)" and "fs_files d' = bm_remove (segment_path q) (fs_files d)"
  shows "dir_inv d' H (lo + length rs)"
proof -
  have h: "length H < 2 ^ 64" "lo \<le> length H" "bm_wf (fs_files d)" "dir_log d (recs_of lo (drop lo H))"
    using assms(1) by (auto simp: dir_inv_tail dir_log_def)
  obtain L q2 c rs2 where L: "log_ok L" "fl = files_of L @ [(segment_path q2, c)]" "tail_holds c rs2"
      "recs_of lo (drop lo H) = rs @ map snd (log_records L) @ rs2"
    by (rule dir_log_first [OF h(4) assms(2-4)])
  have le: "lo + length rs \<le> length H" using arg_cong [OF L(4), of length] h(2) by simp
  have wf: "bm_wf (fs_files d')" using h(3) assms(6) by (simp add: bm_wf_remove)
  have "list_segments d' = bm_remove (segment_path q) (list_segments d)"
    using list_segments_unset [of "segment_path q" d] assms(6) by (simp add: list_segments_def)
  then have segs: "list_segments d' = files_of L @ [(segment_path q2, c)]"
    using bm_remove_first [of "segment_path q" "seg_image rs" fl] bm_wf_list_segments [OF h(3)] by (simp add: assms(2) L(2))
  have "recs_of (lo + length rs) (drop (lo + length rs) H) = map snd (log_records L) @ rs2"
    using arg_cong [OF L(4), of "drop (length rs)"] by (simp add: drop_recs_of add.commute)
  then have "dir_log d' (recs_of (lo + length rs) (drop (lo + length rs) H))"
    unfolding dir_log_def using wf segs L(1,3) by (auto simp: last_segment_def)
  moreover have "same_rest d d'"
    using assms(6) by (auto simp: same_rest_def file_at_def bm_get_remove)
  then have "ck_ok d' H (lo + length rs)" using ck_ok_same(1) [OF same_rest_load] assms(5) by blast
  ultimately show ?thesis using h(1) le by (simp add: dir_inv_tail)
qed

text \<open>What the records of the first segment say about where the log begins.\<close>

lemma dir_inv_first_index:
  assumes "dir_inv d H lo" and "list_segments d = (segment_path q, seg_image rs) # fl" and "fl \<noteq> []" and "list_all rec_ok rs"
    and "rs \<noteq> []" and "\<forall>r \<in> set rs. unat (r_index r) \<le> m"
  shows "lo + length rs \<le> m"
proof -
  have h: "length H < 2 ^ 64" "lo \<le> length H" "dir_log d (recs_of lo (drop lo H))"
    using assms(1) by (auto simp: dir_inv_tail)
  obtain R where R: "recs_of lo (drop lo H) = rs @ R" by (rule dir_log_first [OF h(3) assms(2-4)]) blast
  have le: "lo + length rs \<le> length H" using arg_cong [OF R, of length] h(2) by simp
  obtain i where i: "length rs = Suc i" using assms(5) by (cases rs) auto
  then have "i < length (drop lo H)" using le by simp
  then have "r_index (rs ! i) = word_of_nat (Suc (lo + i))"
    using nth_recs_of [of i "drop lo H" lo] R i by (simp add: nth_append)
  moreover have "unat (r_index (rs ! i)) \<le> m" using assms(6) i by simp
  moreover have "unat (word_of_nat (Suc (lo + i)) :: u64) = Suc (lo + i)" using le i h(1) by (intro unat_u64_of_nat) simp
  ultimately show ?thesis using i by (simp del: of_nat_Suc)
qed

lemma dir_log_segs:
  assumes "bm_wf (fs_files d)" and "bm_wf (fs_files d')" and "\<And>x. segment_seq x \<noteq> None \<Longrightarrow> file_at d' x = file_at d x"
  shows "dir_log d' R \<longleftrightarrow> dir_log d R"
  using list_segments_eqI [OF assms] assms(1,2) by (simp add: dir_log_def last_segment_def)

lemma dir_inv_demote:
  assumes "dir_inv d H lo" and "latest d \<noteq> Inl InvalidData" and "file_at d SNAPSHOT_NAME = Some c"
    and "fs_files d' = bm_insert SNAPSHOT_PREV c (bm_remove SNAPSHOT_NAME (fs_files d))"
  shows "dir_inv d' H lo"
proof -
  have h: "ck_ok d H lo" "bm_wf (fs_files d)" using assms(1) by (auto simp: dir_inv_tail dir_log_def)
  then have wf: "bm_wf (fs_files d')" using assms(4) by (simp add: bm_wf_insert bm_wf_remove)
  have at: "file_at d' = (file_at d)(SNAPSHOT_NAME := None, SNAPSHOT_PREV \<mapsto> c)"
    using h(2) assms(4) by (auto simp: file_at_def bm_get_insert bm_get_remove bm_wf_remove fun_eq_iff)
  have load: "latest d' = Inr None" "previous d' = latest d" "previous d' \<noteq> Inr None"
    using assms(3) by (auto simp: load_file_at at try_bind_Inr_iff)
  have "ck_ok d' H lo" using h(1) assms(2) load by (auto simp: ck_ok_def gen_def)
  moreover have "dir_log d' R \<longleftrightarrow> dir_log d R" for R
    by (rule dir_log_segs [OF h(2) wf]) (auto simp: at)
  ultimately show ?thesis using assms(1) by (simp add: dir_inv_tail)
qed

lemma dir_inv_publish:
  assumes "dir_inv d H lo" and "lo \<le> c" and "c \<le> length H" and "snapshot_fits (snap_of (take c H))"
    and "fs_files d' = bm_insert SNAPSHOT_NAME (ckpt_image (snap_of (take c H))) (bm_remove SNAPSHOT_TMP (fs_files d))"
  shows "dir_inv d' H lo" and "latest d' = Inr (Some (snap_of (take c H)))"
proof -
  have h: "ck_ok d H lo" "bm_wf (fs_files d)" using assms(1) by (auto simp: dir_inv_tail dir_log_def)
  then have wf: "bm_wf (fs_files d')" using assms(5) by (simp add: bm_wf_insert bm_wf_remove)
  have at: "file_at d' = (file_at d)(SNAPSHOT_TMP := None, SNAPSHOT_NAME \<mapsto> ckpt_image (snap_of (take c H)))"
    using h(2) assms(5) by (auto simp: file_at_def bm_get_insert bm_get_remove bm_wf_remove fun_eq_iff)
  show load: "latest d' = Inr (Some (snap_of (take c H)))"
    using assms(4) by (simp add: load_file_at at ckpt_decode_image)
  have prev: "previous d' = previous d" by (rule load_file_cong) (simp add: at)
  have "gen H lo (latest d')" using assms(2,3) load by (auto simp: gen_def)
  then have "ck_ok d' H lo" using h(1) prev load by (auto simp: ck_ok_def)
  moreover have "dir_log d' R \<longleftrightarrow> dir_log d R" for R
    by (rule dir_log_segs [OF h(2) wf]) (auto simp: at)
  ultimately show "dir_inv d' H lo" using assms(1) by (simp add: dir_inv_tail)
qed

end
