(* ===== verification/Power_Images.thy ===== *)
theory Power_Images
  imports Power_Dir
begin

text \<open>
  Power failures under the store. Whatever part of the pending writes and directory changes reached the medium, the
  directory that is found afterwards holds a history that agrees with the store's up to the last sync: the invariant
  \<open>images_hold\<close>, kept by every event that the calls of the log and of the checkpoint note.
\<close>

definition segs_of :: "(string, nat) bmap \<Rightarrow> (string, nat) bmap" where
  "segs_of N = filter (\<lambda>e. segment_seq (fst e) \<noteq> None) N"

definition settled :: "disk \<Rightarrow> nat \<Rightarrow> bool" where
  "settled k i \<longleftrightarrow> dk_maybe k i = {dk_data k i}"

text \<open>The segments have reached the medium as they are in the page cache.\<close>

definition agree :: "disk \<Rightarrow> (nat \<Rightarrow> bytes) \<Rightarrow> bool" where
  "agree k D \<longleftrightarrow> (\<forall>(x, i) \<in> set (segs_of (dk_dir k)). D i = dk_data k i)"

text \<open>
  Every directory a power failure may leave holds a history whose first \<open>p\<close> commits are those of \<open>H\<close>, out of the attempted
  commits \<open>T\<close>, with a log that begins no later than at \<open>b\<close>; it is \<open>H\<close> itself if the segments reached the medium.
\<close>

definition image_holds :: "history \<Rightarrow> nat \<Rightarrow> op list set \<Rightarrow> nat \<Rightarrow> (string, bytes) bmap \<Rightarrow> bool \<Rightarrow> bool" where
  "image_holds H p T l fl whole \<longleftrightarrow> (\<exists>H'. dir_inv (power_on fl) H' l \<and> p \<le> length H' \<and> take p H' = take p H \<and> set H' \<subseteq> T
     \<and> (whole \<longrightarrow> H' = H))"

definition images_hold :: "disk \<Rightarrow> history \<Rightarrow> nat \<Rightarrow> op list set \<Rightarrow> nat \<Rightarrow> bool" where
  "images_hold k H p T b \<longleftrightarrow>
     (\<forall>N \<in> dk_dirs k. \<exists>l \<le> b. \<forall>D. choice k D \<longrightarrow> image_holds H p T l (image_of N D) (agree k D))"

definition relevant :: "string \<Rightarrow> bool" where
  "relevant x \<longleftrightarrow> segment_seq x \<noteq> None \<or> x = SNAPSHOT_NAME \<or> x = SNAPSHOT_PREV"

text \<open>
  How names and bytes can differ between the page cache and the medium: segments before the last are settled, a file
  that is a segment or the temporary one had that name always, the checkpoints are settled, as long as the latest one is
  the same file the previous one is too, and the latest one was the temporary file before.
\<close>

definition shape :: "disk \<Rightarrow> bool" where
  "shape k \<longleftrightarrow>
     (\<forall>x i y j. (x, i) \<in> set (segs_of (dk_dir k)) \<longrightarrow> (y, j) \<in> set (segs_of (dk_dir k)) \<longrightarrow> x < y \<longrightarrow> settled k i)
   \<and> (\<forall>N \<in> dk_dirs k. \<forall>x y i. (y, i) \<in> set N \<longrightarrow> (x, i) \<in> set (dk_dir k) \<longrightarrow> x = SNAPSHOT_NAME \<or> x = SNAPSHOT_PREV \<or> y = x)
   \<and> (\<forall>x i. (x, i) \<in> set (dk_dir k) \<longrightarrow> x = SNAPSHOT_NAME \<or> x = SNAPSHOT_PREV \<longrightarrow> settled k i)
   \<and> (\<forall>N \<in> dk_dirs k. \<forall>i. bm_get N SNAPSHOT_NAME = Some i \<longrightarrow> bm_get (dk_dir k) SNAPSHOT_NAME = Some i
        \<longrightarrow> bm_get N SNAPSHOT_PREV = bm_get (dk_dir k) SNAPSHOT_PREV)
   \<and> (\<forall>N \<in> dk_dirs k. \<forall>y i. (y, i) \<in> set N \<longrightarrow> (SNAPSHOT_NAME, i) \<in> set (dk_dir k) \<longrightarrow> y = SNAPSHOT_NAME \<or> \<not> relevant y)"

subsection \<open>Segments of an image\<close>

lemma image_segs: "filter (\<lambda>e. P (fst e)) (image_of N D) = image_of (filter (\<lambda>e. P (fst e)) N) D"
  by (induction N) (auto simp: image_of_def)

lemma list_segments_image: "list_segments (power_on (image_of N D)) = image_of (segs_of N) D"
  unfolding list_segments_def segs_of_def power_on_simps by (rule image_segs)

lemma bm_wf_segs: "bm_wf N \<Longrightarrow> bm_wf (segs_of N)"
  unfolding segs_of_def by (rule bm_wf_filter)

lemma segs_of_mem: "(x, i) \<in> set (segs_of N) \<longleftrightarrow> (x, i) \<in> set N \<and> segment_seq x \<noteq> None"
  by (auto simp: segs_of_def)

lemma image_append: "image_of (N @ N') D = image_of N D @ image_of N' D"
  by (simp add: image_of_def)

lemma image_single: "image_of [(x, i)] D = [(x, D i)]"
  by (simp add: image_of_def)

lemma bm_get_mem: "bm_wf N \<Longrightarrow> bm_get N x = Some i \<longleftrightarrow> (x, i) \<in> set N"
  using bm_wf_distinct by fastforce

lemma disk_wf_dir: "disk_wf k \<Longrightarrow> N \<in> dk_dirs k \<Longrightarrow> dir_wf (dk_next k) N"
  by (simp add: disk_wf_def)

lemma disk_wf_cur: "disk_wf k \<Longrightarrow> dir_wf (dk_next k) (dk_dir k)"
  by (simp add: disk_wf_def)

lemma dir_wf_bm: "dir_wf n N \<Longrightarrow> bm_wf N"
  by (simp add: dir_wf_def)

lemma dir_wf_inj: "dir_wf n N \<Longrightarrow> (x, i) \<in> set N \<Longrightarrow> (y, i) \<in> set N \<Longrightarrow> x = y"
  by (auto simp: dir_wf_iff)

lemma dir_wf_below: "dir_wf n N \<Longrightarrow> (x, i) \<in> set N \<Longrightarrow> i < n"
  by (auto simp: dir_wf_iff)

lemma choice_data: "disk_wf k \<Longrightarrow> choice k (dk_data k)"
  by (simp add: disk_wf_def choice_def)

lemma agree_data: "agree k (dk_data k)"
  by (simp add: agree_def)

lemma choice_upd: "choice k D \<Longrightarrow> disk_wf k \<Longrightarrow> choice k (D(i := dk_data k i))"
  by (simp add: disk_wf_def choice_def)

lemma settled_choice: "settled k i \<Longrightarrow> choice k D \<Longrightarrow> D i = dk_data k i"
  by (auto simp: settled_def choice_def)

text \<open>With all but the last segment settled, the segments agree as soon as the last one does.\<close>

lemma agree_last:
  assumes "disk_wf k" and "shape k" and "choice k D" and "segs_of (dk_dir k) = pre @ [(x, i)]" and "D i = dk_data k i"
  shows "agree k D"
  unfolding agree_def
proof clarify
  fix y j assume mem: "(y, j) \<in> set (segs_of (dk_dir k))"
  have "bm_wf (segs_of (dk_dir k))" using bm_wf_segs [OF dir_wf_bm [OF disk_wf_cur [OF assms(1)]]] .
  then have "(y, j) = (x, i) \<or> y < x" using mem by (auto simp: assms(4) bm_wf_def sorted_wrt_append)
  then show "D j = dk_data k j"
  proof
    assume "y < x"
    moreover have "(x, i) \<in> set (segs_of (dk_dir k))" by (simp add: assms(4))
    ultimately have "settled k j" using mem assms(2) unfolding shape_def by blast
    then show ?thesis using assms(3) by (rule settled_choice)
  qed (use assms(5) in simp)
qed

subsection \<open>What the current directory holds\<close>

lemma images_current:
  assumes "linked d" and "images_hold (fs_disk d) H p T b"
  obtains l where "l \<le> b" and "dir_inv d H l"
proof -
  let ?k = "fs_disk d"
  have wf: "disk_wf ?k" and fl: "fs_files d = image_of (dk_dir ?k) (dk_data ?k)" using assms(1) by (simp_all add: linked_def)
  have "dk_dir ?k \<in> dk_dirs ?k" using wf by (simp add: disk_wf_def)
  then obtain l where l: "l \<le> b" "image_holds H p T l (image_of (dk_dir ?k) (dk_data ?k)) True"
    using assms(2) choice_data [OF wf] agree_data [of ?k] unfolding images_hold_def by metis
  then have "dir_inv d H l" using dir_inv_files [of d "power_on (image_of (dk_dir ?k) (dk_data ?k))"] fl by (auto simp: image_holds_def)
  with l(1) that show thesis by blast
qed

lemma image_holds_mono:
  assumes "image_holds H p T l fl w" and "p' \<le> p" and "T \<subseteq> T'" and "w' \<longrightarrow> w"
  shows "image_holds H p' T' l fl w'"
proof -
  obtain H' where H': "dir_inv (power_on fl) H' l" "p \<le> length H'" "take p H' = take p H" "set H' \<subseteq> T" "w \<longrightarrow> H' = H"
    using assms(1) by (auto simp: image_holds_def)
  have "take p' H' = take p' H" using arg_cong [OF H'(3), of "take p'"] assms(2) by (simp add: min_def)
  with H' assms(2-4) show ?thesis unfolding image_holds_def by (intro exI [of _ H']) auto
qed

lemma images_mono:
  assumes "images_hold k H p T b" and "p' \<le> p" and "T \<subseteq> T'" and "b \<le> b'"
  shows "images_hold k H p' T' b'"
  unfolding images_hold_def
proof
  fix N assume "N \<in> dk_dirs k"
  then obtain l where "l \<le> b" "\<And>D. choice k D \<Longrightarrow> image_holds H p T l (image_of N D) (agree k D)"
    using assms(1) unfolding images_hold_def by blast
  with assms(2-4) show "\<exists>l\<le>b'. \<forall>D. choice k D \<longrightarrow> image_holds H p' T' l (image_of N D) (agree k D)"
    by (meson image_holds_mono order_trans)
qed

text \<open>The log of every image begins within the history.\<close>

lemma images_bound:
  assumes "disk_wf k" and "images_hold k H p T b"
  shows "images_hold k H p T (length H)"
  unfolding images_hold_def
proof
  fix N assume "N \<in> dk_dirs k"
  then obtain l where l: "\<And>D. choice k D \<Longrightarrow> image_holds H p T l (image_of N D) (agree k D)"
    using assms(2) unfolding images_hold_def by blast
  have "l \<le> length H" using l [OF choice_data [OF assms(1)]] agree_data [of k] by (auto simp: image_holds_def dir_inv_def)
  with l show "\<exists>l\<le>length H. \<forall>D. choice k D \<longrightarrow> image_holds H p T l (image_of N D) (agree k D)" by blast
qed

subsection \<open>Events\<close>

text \<open>A change that leaves every image's segments and checkpoints as they were in some image before.\<close>

lemma images_frame:
  assumes "images_hold k H p T b"
    and "\<And>N. N \<in> dk_dirs k' \<Longrightarrow> bm_wf N \<and> (\<exists>N0 \<in> dk_dirs k. \<forall>D. choice k' D \<longrightarrow> (\<exists>D0. choice k D0
      \<and> (\<forall>x. relevant x \<longrightarrow> map_option D (bm_get N x) = map_option D0 (bm_get N0 x)) \<and> (agree k' D \<longrightarrow> agree k D0)))"
  shows "images_hold k' H p T b"
  unfolding images_hold_def
proof
  fix N assume N: "N \<in> dk_dirs k'"
  obtain N0 where wf: "bm_wf N" and N0: "N0 \<in> dk_dirs k" "\<And>D. choice k' D \<Longrightarrow> \<exists>D0. choice k D0
      \<and> (\<forall>x. relevant x \<longrightarrow> map_option D (bm_get N x) = map_option D0 (bm_get N0 x)) \<and> (agree k' D \<longrightarrow> agree k D0)"
    using assms(2) [OF N] by blast
  obtain l where l: "l \<le> b" "\<And>D. choice k D \<Longrightarrow> image_holds H p T l (image_of N0 D) (agree k D)"
    using assms(1) N0(1) unfolding images_hold_def by blast
  have "image_holds H p T l (image_of N D) (agree k' D)" if D: "choice k' D" for D
  proof -
    obtain D0 where D0: "choice k D0" "\<And>x. relevant x \<Longrightarrow> map_option D (bm_get N x) = map_option D0 (bm_get N0 x)"
        "agree k' D \<longrightarrow> agree k D0" using N0(2) [OF D] by blast
    have "dir_inv (power_on (image_of N D)) H' l" if "dir_inv (power_on (image_of N0 D0)) H' l" for H'
      by (rule dir_inv_cong [OF that]) (use wf D0(2) in \<open>auto simp: file_at_def bm_get_image relevant_def\<close>)
    with l(2) [OF D0(1)] D0(3) show ?thesis by (auto simp: image_holds_def)
  qed
  with l(1) show "\<exists>l\<le>b. \<forall>D. choice k' D \<longrightarrow> image_holds H p T l (image_of N D) (agree k' D)" by blast
qed

text \<open>Fewer possibilities: a file or the directory is synced.\<close>

lemma images_shrink:
  assumes "disk_wf k" and "images_hold k H p T b" and "dk_dir k' = dk_dir k" and "dk_data k' = dk_data k"
    and "dk_dirs k' \<subseteq> dk_dirs k" and "\<And>i. dk_maybe k' i \<subseteq> dk_maybe k i"
  shows "images_hold k' H p T b"
proof (rule images_frame [OF assms(2)])
  fix N assume N: "N \<in> dk_dirs k'"
  have "choice k D" if "choice k' D" for D using that assms(6) by (auto simp: choice_def)
  moreover have "agree k' D \<longleftrightarrow> agree k D" for D by (simp add: agree_def assms(3,4))
  ultimately show "bm_wf N \<and> (\<exists>N0 \<in> dk_dirs k. \<forall>D. choice k' D \<longrightarrow> (\<exists>D0. choice k D0
      \<and> (\<forall>x. relevant x \<longrightarrow> map_option D (bm_get N x) = map_option D0 (bm_get N0 x)) \<and> (agree k' D \<longrightarrow> agree k D0)))"
    using N assms(1,5) by (intro conjI bexI [of _ N]) (auto simp: disk_wf_def dir_wf_def)
qed

lemma synced_simps:
  assumes "disk_wf k"
  shows "dk_dir (disk_step (Synced x) k) = dk_dir k" and "dk_dirs (disk_step (Synced x) k) = dk_dirs k"
    and "dk_data (disk_step (Synced x) k) = dk_data k" and "dk_maybe (disk_step (Synced x) k) i \<subseteq> dk_maybe k i"
    and "bm_get (dk_dir k) x = Some j \<Longrightarrow> settled (disk_step (Synced x) k) j"
    and "settled k i \<Longrightarrow> settled (disk_step (Synced x) k) i" and "dk_next (disk_step (Synced x) k) = dk_next k"
  using assms by (auto simp: disk_step.simps settled_def disk_wf_def split: option.split)

lemma images_synced: "disk_wf k \<Longrightarrow> images_hold k H p T b \<Longrightarrow> images_hold (disk_step (Synced x) k) H p T b"
  by (rule images_shrink) (use synced_simps in blast)+

lemma images_synced_dir: "disk_wf k \<Longrightarrow> images_hold k H p T b \<Longrightarrow> images_hold (disk_step SyncedDir k) H p T b"
  by (rule images_shrink) (auto simp: disk_step.simps disk_wf_def)

text \<open>After a sync of the last segment the whole history is durable.\<close>

lemma images_synced_last:
  assumes "disk_wf k" and "shape k" and "images_hold k H p T b" and "segs_of (dk_dir k) = pre @ [(x, i)]"
  shows "images_hold (disk_step (Synced x) k) H (length H) T b"
proof -
  let ?k = "disk_step (Synced x) k"
  have wf: "disk_wf ?k" using assms(1) by (rule disk_wf_step)
  have "(x, i) \<in> set (dk_dir k)" using segs_of_mem [of x i "dk_dir k"] assms(4) by simp
  then have get: "bm_get (dk_dir k) x = Some i" using assms(1) by (simp add: bm_get_mem disk_wf_def dir_wf_def)
  note s = synced_simps [OF assms(1), where x = x]
  have ag: "agree k D" if D: "choice ?k D" for D
  proof (rule agree_last [OF assms(1,2) _ assms(4)])
    show "choice k D" using D s(4) by (auto simp: choice_def)
    show "D i = dk_data k i" using settled_choice [OF s(5) [OF get] D] s(3) by simp
  qed
  have hold: "images_hold ?k H p T b" by (rule images_synced [OF assms(1,3)])
  have "image_holds H (length H) T l fl True" if "image_holds H p T l fl True" for l fl
    using that by (auto simp: image_holds_def)
  moreover have "agree ?k D" if "choice ?k D" for D using ag [OF that] by (simp add: agree_def s(1,3))
  ultimately show ?thesis using hold unfolding images_hold_def by (metis (full_types))
qed

text \<open>
  The last segment changes: it may now have any of the contents \<open>M\<close>, and with the content \<open>z\<close> the history is \<open>h z\<close>.
\<close>

lemma images_modify:
  assumes wf: "disk_wf k" and sh: "shape k" and hold: "images_hold k H p T b" and last: "segs_of (dk_dir k) = pre @ [(x, i)]"
    and k': "dk_dir k' = dk_dir k" "dk_dirs k' = dk_dirs k" "dk_data k' = (dk_data k)(i := c')"
      "\<And>j. j \<noteq> i \<Longrightarrow> dk_maybe k' j \<subseteq> dk_maybe k j" "dk_maybe k' i \<subseteq> dk_maybe k i \<union> M" "c' \<in> M"
    and step: "\<And>N D l z. N \<in> dk_dirs k \<Longrightarrow> i \<in> snd ` set N \<Longrightarrow> choice k D \<Longrightarrow> D i = dk_data k i \<Longrightarrow> z \<in> M
      \<Longrightarrow> dir_inv (power_on (image_of N D)) H l \<Longrightarrow> dir_inv (power_on (image_of N (D(i := z)))) (h z) l"
    and hz: "\<And>z. z \<in> M \<Longrightarrow> p \<le> length (h z) \<and> take p (h z) = take p H \<and> set (h z) \<subseteq> T"
    and all: "(\<forall>N \<in> dk_dirs k. i \<in> snd ` set N) \<or> (\<forall>z \<in> M. h z = H)"
  shows "images_hold k' (h c') p T b"
  unfolding images_hold_def
proof
  fix N assume "N \<in> dk_dirs k'"
  then have N: "N \<in> dk_dirs k" using k'(2) by simp
  obtain l where l: "l \<le> b" "\<And>D. choice k D \<Longrightarrow> image_holds H p T l (image_of N D) (agree k D)"
    using hold N unfolding images_hold_def by blast
  have "image_holds (h c') p T l (image_of N D) (agree k' D)" if D: "choice k' D" for D
  proof (cases "D i \<in> M")
    case True
    let ?D = "D(i := dk_data k i)"
    have c: "choice k ?D" using D k'(4) wf by (auto simp: choice_def disk_wf_def)
    have "agree k ?D" by (rule agree_last [OF wf sh c last]) simp
    then have old: "dir_inv (power_on (image_of N ?D)) H l" using l(2) [OF c] by (auto simp: image_holds_def)
    have "dir_inv (power_on (image_of N D)) (h (D i)) l"
    proof (cases "i \<in> snd ` set N")
      case True
      from step [OF N this c _ \<open>D i \<in> M\<close> old] show ?thesis by simp
    next
      case False
      then have "h (D i) = H" using all N True by blast
      moreover have "image_of N D = image_of N ?D" using image_fresh [OF False, of D] by simp
      ultimately show ?thesis using old by simp
    qed
    moreover have "D i = c'" if "agree k' D"
      using that by (simp add: agree_def k'(1,3) last)
    moreover have "take p (h (D i)) = take p (h c')" using hz [OF True] hz [OF k'(6)] by simp
    ultimately show ?thesis using hz [OF True] unfolding image_holds_def by (intro exI [of _ "h (D i)"]) auto
  next
    case False
    then have "D i \<in> dk_maybe k i" using D k'(5) by (auto simp: choice_def)
    moreover have "D j \<in> dk_maybe k j" if "j \<noteq> i" for j using D k'(4) [OF that] by (auto simp: choice_def)
    ultimately have "choice k D" unfolding choice_def by metis
    from l(2) [OF this] have "image_holds H p T l (image_of N D) False" by (rule image_holds_mono) auto
    moreover have "\<not> agree k' D" using False k'(6) by (auto simp: agree_def k'(1,3) last)
    ultimately show ?thesis using hz [OF k'(6)] by (auto simp: image_holds_def)
  qed
  with l(1) show "\<exists>l\<le>b. \<forall>D. choice k' D \<longrightarrow> image_holds (h c') p T l (image_of N D) (agree k' D)" by blast
qed

lemma image_upd_name:
  assumes "dir_wf n N" and "(x, i) \<in> set N"
  shows "image_of N (D(i := c)) = bm_insert x c (image_of N D)"
  using assms by (intro image_upd) (simp_all add: dir_wf_def bm_get_mem)

text \<open>A file outside the segments and checkpoints comes to be.\<close>

lemma created_simps:
  "dk_dir (disk_step (Created x) k) = bm_insert x (dk_next k) (dk_dir k)"
  "dk_dirs (disk_step (Created x) k) = insert (bm_insert x (dk_next k) (dk_dir k)) (dk_dirs k)"
  "dk_data (disk_step (Created x) k) = (dk_data k)(dk_next k := [])"
  "dk_maybe (disk_step (Created x) k) = (dk_maybe k)(dk_next k := {[]})"
  "dk_next (disk_step (Created x) k) = Suc (dk_next k)"
  by (simp_all add: disk_step.simps dk_rename_def Let_def)

lemma fresh_id: "disk_wf k \<Longrightarrow> N \<in> dk_dirs k \<Longrightarrow> dk_next k \<notin> snd ` set N"
  by (force simp: disk_wf_def dir_wf_def)

text \<open>
  One more segment behind a log that ends cleanly on the medium: whatever of it there is, its directory entry and any part
  of its header, adds nothing to the history. \<open>born\<close> describes the states of the disk while it comes to be.
\<close>

definition born :: "disk \<Rightarrow> string \<Rightarrow> nat \<Rightarrow> disk \<Rightarrow> bool" where
  "born k x i k' \<longleftrightarrow> (\<forall>N \<in> dk_dirs k'. N \<in> dk_dirs k \<or> N = bm_insert x i (dk_dir k))
     \<and> (dk_dir k' = dk_dir k \<or> dk_dir k' = bm_insert x i (dk_dir k))
     \<and> (\<forall>j. j \<noteq> i \<longrightarrow> dk_maybe k' j = dk_maybe k j \<and> dk_data k' j = dk_data k j)
     \<and> (\<exists>m \<le> HEADER_LEN. dk_data k' i = take m segment_header)
     \<and> (\<forall>z \<in> dk_maybe k' i. \<exists>m \<le> HEADER_LEN. z = take m segment_header)"

lemma images_born:
  assumes wf: "disk_wf k" and hold: "images_hold k H p T b" and born: "born k (segment_path q) (dk_next k) k'"
    and clean: "\<And>D fl y c. choice k D \<Longrightarrow> image_of (segs_of (dk_dir k)) D = fl @ [(y, c)] \<Longrightarrow> \<exists>rs. list_all rec_ok rs \<and> c = seg_image rs"
    and new: "\<forall>e \<in> set (segs_of (dk_dir k)). fst e < segment_path q"
  shows "images_hold k' H p T b"
  unfolding images_hold_def
proof
  let ?i = "dk_next k" and ?x = "segment_path q"
  fix N assume "N \<in> dk_dirs k'"
  then consider (old) "N \<in> dk_dirs k" | (new) "N = bm_insert ?x ?i (dk_dir k)" using born by (auto simp: born_def)
  moreover have cur: "dk_dir k \<in> dk_dirs k" using wf by (simp add: disk_wf_def)
  ultimately obtain N0 where N0: "N0 \<in> dk_dirs k" "N = N0 \<or> N0 = dk_dir k \<and> N = bm_insert ?x ?i (dk_dir k)" by blast
  obtain l where l: "l \<le> b" "\<And>D. choice k D \<Longrightarrow> image_holds H p T l (image_of N0 D) (agree k D)"
    using hold N0(1) unfolding images_hold_def by blast
  have "image_holds H p T l (image_of N D) (agree k' D)" if D: "choice k' D" for D
  proof -
    let ?D = "D(?i := dk_data k ?i)"
    have mb: "dk_maybe k' j = dk_maybe k j" if "j \<noteq> ?i" for j using born that by (auto simp: born_def)
    have c: "choice k ?D" using D wf mb by (simp add: choice_def disk_wf_def) metis
    have same: "image_of N1 ?D = image_of N1 D" if "N1 \<in> dk_dirs k" for N1 using fresh_id [OF wf that] by (rule image_fresh)
    have ag: "agree k ?D" if a: "agree k' D"
      unfolding agree_def
    proof clarify
      fix y j assume m: "(y, j) \<in> set (segs_of (dk_dir k))"
      then have j: "j \<noteq> ?i" using fresh_id [OF wf cur] by (force simp: segs_of_mem)
      have "y \<noteq> ?x" using m new by force
      then have "(y, j) \<in> set (segs_of (dk_dir k'))"
        using m born wf by (auto simp: born_def segs_of_mem set_bm_insert disk_wf_def dir_wf_def)
      with a j born show "?D j = dk_data k j" by (auto simp: agree_def born_def)
    qed
    have "dir_inv (power_on (image_of N D)) H' l" if old: "dir_inv (power_on (image_of N0 ?D)) H' l" for H'
    proof (cases "N = N0")
      case True
      with old same [OF N0(1)] show ?thesis by simp
    next
      case False
      then have e: "N0 = dk_dir k" "N = bm_insert ?x ?i (dk_dir k)" using N0(2) by auto
      obtain m where m: "m \<le> HEADER_LEN" "D ?i = take m segment_header" using D born unfolding choice_def born_def by blast
      show ?thesis
      proof (rule dir_inv_add [OF old])
        show "\<exists>rs. list_all rec_ok rs \<and> c = seg_image rs" if "list_segments (power_on (image_of N0 ?D)) = fl @ [(y, c)]" for fl y c
          using clean [OF c] that by (simp add: list_segments_image e(1))
        show "\<forall>e\<in>set (list_segments (power_on (image_of N0 ?D))). fst e < ?x"
          using new unfolding list_segments_image e(1) by (auto simp: image_of_def)
        show "tail_holds (D ?i) []" using tail_holds_half [OF m(1)] m(2) by simp
        show "fs_files (power_on (image_of N D)) = bm_insert ?x (D ?i) (fs_files (power_on (image_of N0 ?D)))"
          using same [OF cur] by (simp add: e image_insert)
      qed
    qed
    with l(2) [OF c] ag show ?thesis by (auto simp: image_holds_def)
  qed
  with l(1) show "\<exists>l\<le>b. \<forall>D. choice k' D \<longrightarrow> image_holds H p T l (image_of N D) (agree k' D)" by blast
qed

text \<open>Files outside the segments and checkpoints: the lock, the temporary checkpoint.\<close>

lemma images_created:
  assumes wf: "disk_wf k" and hold: "images_hold k H p T b" and "\<not> relevant x"
  shows "images_hold (disk_step (Created x) k) H p T b"
proof (rule images_frame [OF hold])
  let ?i = "dk_next k" and ?k = "disk_step (Created x) k"
  fix N assume N: "N \<in> dk_dirs ?k"
  have wf': "bm_wf N" using disk_wf_step [OF wf] N by (simp add: disk_wf_def dir_wf_def)
  have cur: "dk_dir k \<in> dk_dirs k" using wf by (simp add: disk_wf_def)
  obtain N0 where N0: "N0 \<in> dk_dirs k" "\<And>y. relevant y \<Longrightarrow> bm_get N y = bm_get N0 y"
  proof (cases "N \<in> dk_dirs k")
    case False
    then have "N = bm_insert x ?i (dk_dir k)" using N by (simp add: created_simps)
    moreover have "y \<noteq> x" if "relevant y" for y using that assms(3) by blast
    ultimately show thesis using cur by (intro that [of "dk_dir k"]) (simp_all add: bm_get_insert_other)
  qed (use that in blast)
  have "choice k (D(?i := dk_data k ?i)) \<and> (agree ?k D \<longrightarrow> agree k (D(?i := dk_data k ?i)))
      \<and> (\<forall>y. relevant y \<longrightarrow> map_option D (bm_get N y) = map_option (D(?i := dk_data k ?i)) (bm_get N0 y))"
    if "choice ?k D" for D
  proof (intro conjI impI allI)
    show "choice k (D(?i := dk_data k ?i))" using that wf by (simp add: choice_def created_simps disk_wf_def) metis
    show "agree k (D(?i := dk_data k ?i))" if "agree ?k D"
      unfolding agree_def
    proof clarify
      fix y j assume m: "(y, j) \<in> set (segs_of (dk_dir k))"
      then have "j \<noteq> ?i" "y \<noteq> x" using fresh_id [OF wf cur] assms(3) by (force simp: segs_of_mem relevant_def)+
      moreover have "(y, j) \<in> set (segs_of (dk_dir ?k))"
        using m \<open>y \<noteq> x\<close> wf by (auto simp: segs_of_mem created_simps set_bm_insert disk_wf_def dir_wf_def)
      ultimately show "(D(?i := dk_data k ?i)) j = dk_data k j" using that by (auto simp: agree_def created_simps)
    qed
    fix y assume "relevant y"
    moreover have "bm_get N0 y \<noteq> Some ?i" using fresh_id [OF wf N0(1)] by (force dest: map_of_SomeD)
    ultimately show "map_option D (bm_get N y) = map_option (D(?i := dk_data k ?i)) (bm_get N0 y)"
      using N0(2) by (cases "bm_get N0 y") auto
  qed
  with wf' N0(1) show "bm_wf N \<and> (\<exists>N0\<in>dk_dirs k. \<forall>D. choice ?k D \<longrightarrow> (\<exists>D0. choice k D0 \<and>
      (\<forall>x. relevant x \<longrightarrow> map_option D (bm_get N x) = map_option D0 (bm_get N0 x)) \<and> (agree ?k D \<longrightarrow> agree k D0)))"
    by blast
qed

lemma modify_simps:
  assumes "bm_get (dk_dir k) x = Some i"
  shows "dk_dir (dk_modify x f g k) = dk_dir k" and "dk_dirs (dk_modify x f g k) = dk_dirs k"
    and "dk_next (dk_modify x f g k) = dk_next k" and "dk_data (dk_modify x f g k) = (dk_data k)(i := f (dk_data k i))"
    and "dk_maybe (dk_modify x f g k) = (dk_maybe k)(i := dk_maybe k i \<union> g (dk_data k i))"
  using assms by (simp_all add: dk_modify_def)

lemma images_modify_other:
  assumes wf: "disk_wf k" and sh: "shape k" and hold: "images_hold k H p T b" and x: "\<not> relevant x" "bm_get (dk_dir k) x = Some i"
  shows "images_hold (dk_modify x f g k) H p T b"
proof (rule images_frame [OF hold])
  let ?k = "dk_modify x f g k"
  note k' = modify_simps [OF x(2), of f g]
  have mem: "(x, i) \<in> set (dk_dir k)" using x(2) by (rule map_of_SomeD)
  fix N assume "N \<in> dk_dirs ?k"
  then have N: "N \<in> dk_dirs k" by (simp add: k')
  have "choice k (D(i := dk_data k i)) \<and> (agree ?k D \<longrightarrow> agree k (D(i := dk_data k i)))
      \<and> (\<forall>y. relevant y \<longrightarrow> map_option D (bm_get N y) = map_option (D(i := dk_data k i)) (bm_get N y))"
    if "choice ?k D" for D
  proof (intro conjI impI allI)
    show "choice k (D(i := dk_data k i))" using that wf by (simp add: choice_def k' disk_wf_def) metis
    show "agree k (D(i := dk_data k i))" if "agree ?k D" using that by (auto simp: agree_def k')
    fix y assume y: "relevant y"
    have "bm_get N y \<noteq> Some i"
    proof
      assume "bm_get N y = Some i"
      then have "(y, i) \<in> set N" by (rule map_of_SomeD)
      then have "x = SNAPSHOT_NAME \<or> x = SNAPSHOT_PREV \<or> y = x" using sh N mem unfolding shape_def by blast
      then show False using y x(1) by (auto simp: relevant_def)
    qed
    then show "map_option D (bm_get N y) = map_option (D(i := dk_data k i)) (bm_get N y)" by (cases "bm_get N y") auto
  qed
  with wf N show "bm_wf N \<and> (\<exists>N0\<in>dk_dirs k. \<forall>D. choice ?k D \<longrightarrow> (\<exists>D0. choice k D0 \<and>
      (\<forall>x. relevant x \<longrightarrow> map_option D (bm_get N x) = map_option D0 (bm_get N0 x)) \<and> (agree ?k D \<longrightarrow> agree k D0)))"
    by (intro conjI bexI [OF _ N]) (auto simp: disk_wf_def dir_wf_def)
qed

text \<open>A new state of the directory that holds what the current one does.\<close>

lemma images_renamed:
  assumes hold: "images_hold k H p T b" and wf: "disk_wf k" and k': "dk_dirs k' = insert N (dk_dirs k)" "dk_dir k' = N"
      "dk_data k' = dk_data k" "dk_maybe k' = dk_maybe k"
    and segs: "\<And>D. choice k D \<Longrightarrow> agree k' D \<Longrightarrow> agree k D"
    and step: "\<And>D H' l. choice k D \<Longrightarrow> l \<le> b \<Longrightarrow> dir_inv (power_on (image_of (dk_dir k) D)) H' l \<Longrightarrow> p \<le> length H'
      \<Longrightarrow> take p H' = take p H \<Longrightarrow> dir_inv (power_on (image_of N D)) H' (f l)"
    and f: "\<And>l. l \<le> b \<Longrightarrow> f l \<le> b' " "b \<le> b'"
  shows "images_hold k' H p T b'"
  unfolding images_hold_def
proof
  fix N1 assume "N1 \<in> dk_dirs k'"
  then consider "N1 = N" | "N1 \<in> dk_dirs k" using k'(1) by blast
  moreover have "dk_dir k \<in> dk_dirs k" using wf by (simp add: disk_wf_def)
  ultimately obtain N0 where N0: "N0 \<in> dk_dirs k" "N1 = N0 \<or> N1 = N \<and> N0 = dk_dir k" by blast
  obtain l where l: "l \<le> b" "\<And>D. choice k D \<Longrightarrow> image_holds H p T l (image_of N0 D) (agree k D)"
    using hold N0(1) unfolding images_hold_def by blast
  let ?l = "if N1 = N0 then l else f l"
  have "image_holds H p T ?l (image_of N1 D) (agree k' D)" if "choice k' D" for D
  proof -
    have c: "choice k D" using that by (simp add: choice_def k')
    obtain H' where H': "dir_inv (power_on (image_of N0 D)) H' l" "p \<le> length H'" "take p H' = take p H" "set H' \<subseteq> T"
        "agree k D \<longrightarrow> H' = H" using l(2) [OF c] by (auto simp: image_holds_def)
    have "dir_inv (power_on (image_of N1 D)) H' ?l" using H'(1) step [OF c l(1) _ H'(2,3)] N0(2) by auto
    with H' segs [OF c] show ?thesis unfolding image_holds_def by blast
  qed
  moreover have "?l \<le> b'" using l(1) f by auto
  ultimately show "\<exists>l\<le>b'. \<forall>D. choice k' D \<longrightarrow> image_holds H p T l (image_of N1 D) (agree k' D)" by blast
qed

subsection \<open>The shape is kept\<close>

lemma shapeI:
  assumes "\<And>x i y j. (x, i) \<in> set (segs_of (dk_dir k)) \<Longrightarrow> (y, j) \<in> set (segs_of (dk_dir k)) \<Longrightarrow> x < y \<Longrightarrow> settled k i"
    and "\<And>N x y i. N \<in> dk_dirs k \<Longrightarrow> (y, i) \<in> set N \<Longrightarrow> (x, i) \<in> set (dk_dir k) \<Longrightarrow> x \<noteq> SNAPSHOT_NAME \<Longrightarrow> x \<noteq> SNAPSHOT_PREV \<Longrightarrow> y = x"
    and "\<And>x i. (x, i) \<in> set (dk_dir k) \<Longrightarrow> x = SNAPSHOT_NAME \<or> x = SNAPSHOT_PREV \<Longrightarrow> settled k i"
    and "\<And>N i. N \<in> dk_dirs k \<Longrightarrow> bm_get N SNAPSHOT_NAME = Some i \<Longrightarrow> bm_get (dk_dir k) SNAPSHOT_NAME = Some i
      \<Longrightarrow> bm_get N SNAPSHOT_PREV = bm_get (dk_dir k) SNAPSHOT_PREV"
    and "\<And>N y i. N \<in> dk_dirs k \<Longrightarrow> (y, i) \<in> set N \<Longrightarrow> (SNAPSHOT_NAME, i) \<in> set (dk_dir k) \<Longrightarrow> y = SNAPSHOT_NAME \<or> \<not> relevant y"
  shows "shape k"
  unfolding shape_def
  by (intro conjI allI ballI impI, (rule assms(1); assumption), blast intro: assms(2), (rule assms(3); assumption),
      (rule assms(4); assumption), (rule assms(5); assumption))

lemma shapeD:
  assumes "shape k"
  shows "(x, i) \<in> set (segs_of (dk_dir k)) \<Longrightarrow> (y, j) \<in> set (segs_of (dk_dir k)) \<Longrightarrow> x < y \<Longrightarrow> settled k i"
    and "N \<in> dk_dirs k \<Longrightarrow> (y, i) \<in> set N \<Longrightarrow> (x, i) \<in> set (dk_dir k) \<Longrightarrow> x \<noteq> SNAPSHOT_NAME \<Longrightarrow> x \<noteq> SNAPSHOT_PREV \<Longrightarrow> y = x"
    and "(x, i) \<in> set (dk_dir k) \<Longrightarrow> x = SNAPSHOT_NAME \<or> x = SNAPSHOT_PREV \<Longrightarrow> settled k i"
    and "N \<in> dk_dirs k \<Longrightarrow> bm_get N SNAPSHOT_NAME = Some i \<Longrightarrow> bm_get (dk_dir k) SNAPSHOT_NAME = Some i
      \<Longrightarrow> bm_get N SNAPSHOT_PREV = bm_get (dk_dir k) SNAPSHOT_PREV"
    and "N \<in> dk_dirs k \<Longrightarrow> (y, i) \<in> set N \<Longrightarrow> (SNAPSHOT_NAME, i) \<in> set (dk_dir k) \<Longrightarrow> y = SNAPSHOT_NAME \<or> \<not> relevant y"
  using assms unfolding shape_def by blast+

lemma shape_same_dirs:
  assumes "shape k" and "dk_dir k' = dk_dir k" and "dk_dirs k' \<subseteq> dk_dirs k"
    and "\<And>x i. (x, i) \<in> set (dk_dir k) \<Longrightarrow> relevant x \<Longrightarrow> settled k i \<Longrightarrow> settled k' i
      \<or> (\<exists>pre. segs_of (dk_dir k) = pre @ [(x, i)] \<and> bm_wf (dk_dir k))"
  shows "shape k'"
proof (rule shapeI)
  have lt: "\<not> x < y" if "segs_of (dk_dir k) = pre @ [(x, i)]" "bm_wf (dk_dir k)" "(y, j) \<in> set (segs_of (dk_dir k))" for pre x i y j
    using bm_wf_segs [OF that(2)] that(3) unfolding that(1) by (auto simp: bm_wf_def sorted_wrt_append)
  have ns: "segment_seq x \<noteq> None" if "segs_of (dk_dir k) = pre @ [(x, i)]" for pre x i
    using segs_of_mem [of x i "dk_dir k"] that by simp
  show "settled k' i" if "(x, i) \<in> set (segs_of (dk_dir k'))" "(y, j) \<in> set (segs_of (dk_dir k'))" "x < y" for x i y j
  proof -
    have m: "(x, i) \<in> set (segs_of (dk_dir k))" "(y, j) \<in> set (segs_of (dk_dir k))" using that(1,2) assms(2) by simp_all
    have "relevant x" "(x, i) \<in> set (dk_dir k)" using m(1) by (auto simp: segs_of_mem relevant_def)
    with assms(4) shapeD(1) [OF assms(1) m that(3)] lt m(2) that(3) show ?thesis by blast
  qed
  show "settled k' i" if "(x, i) \<in> set (dk_dir k')" "x = SNAPSHOT_NAME \<or> x = SNAPSHOT_PREV" for x i
    using that assms(2) assms(4) [of x i] shapeD(3) [OF assms(1), of x i] ns [of _ x i] by (auto simp: relevant_def)
  show "y = x" if "N \<in> dk_dirs k'" "(y, i) \<in> set N" "(x, i) \<in> set (dk_dir k')" "x \<noteq> SNAPSHOT_NAME" "x \<noteq> SNAPSHOT_PREV" for N x y i
    using shapeD(2) [OF assms(1) subsetD [OF assms(3) that(1)] that(2)] that(3-5) assms(2) by simp
  show "bm_get N SNAPSHOT_PREV = bm_get (dk_dir k') SNAPSHOT_PREV"
    if "N \<in> dk_dirs k'" "bm_get N SNAPSHOT_NAME = Some i" "bm_get (dk_dir k') SNAPSHOT_NAME = Some i" for N i
    using shapeD(4) [OF assms(1) subsetD [OF assms(3) that(1)] that(2)] that(3) assms(2) by simp
  show "y = SNAPSHOT_NAME \<or> \<not> relevant y" if "N \<in> dk_dirs k'" "(y, i) \<in> set N" "(SNAPSHOT_NAME, i) \<in> set (dk_dir k')" for N y i
    using shapeD(5) [OF assms(1) subsetD [OF assms(3) that(1)] that(2)] that(3) assms(2) by simp
qed

lemma shape_synced: "disk_wf k \<Longrightarrow> shape k \<Longrightarrow> shape (disk_step (Synced x) k)"
  by (rule shape_same_dirs) (use synced_simps in auto)

lemma shape_synced_dir: "disk_wf k \<Longrightarrow> shape k \<Longrightarrow> shape (disk_step SyncedDir k)"
  by (rule shape_same_dirs) (auto simp: disk_step.simps disk_wf_def settled_def)

lemma shape_modify:
  assumes "disk_wf k" and "shape k" and "bm_get (dk_dir k) x = Some i"
    and "\<not> relevant x \<or> (\<exists>pre. segs_of (dk_dir k) = pre @ [(x, i)])"
  shows "shape (dk_modify x f g k)"
proof (rule shape_same_dirs [OF assms(2)])
  note k' = modify_simps [OF assms(3), of f g]
  have wf: "dir_wf (dk_next k) (dk_dir k)" using assms(1) by (rule disk_wf_cur)
  have mem: "(x, i) \<in> set (dk_dir k)" using assms(3) by (rule map_of_SomeD)
  fix y j assume y: "(y, j) \<in> set (dk_dir k)" "relevant y" "settled k j"
  show "settled (dk_modify x f g k) j \<or> (\<exists>pre. segs_of (dk_dir k) = pre @ [(y, j)] \<and> bm_wf (dk_dir k))"
  proof (cases "j = i")
    case True
    then have "y = x" using dir_wf_inj [OF wf] y(1) mem by blast
    with assms(4) y(2) True wf show ?thesis by (auto simp: dir_wf_def)
  qed (use y(3) in \<open>simp add: settled_def k'\<close>)
qed (simp_all add: modify_simps [OF assms(3)])

text \<open>Changes of the directory.\<close>

lemma shape_new_dir:
  assumes wf: "disk_wf k'" and sh: "shape k" and k': "dk_dirs k' = insert (dk_dir k') (dk_dirs k)"
    and new: "\<And>x i. (x, i) \<in> set (dk_dir k') \<Longrightarrow> (x, i) \<in> set (dk_dir k) \<or> x = SNAPSHOT_NAME \<or> x = SNAPSHOT_PREV
      \<or> (\<forall>N \<in> dk_dirs k. i \<notin> snd ` set N)"
    and segs: "\<And>x i y j. (x, i) \<in> set (segs_of (dk_dir k')) \<Longrightarrow> (y, j) \<in> set (segs_of (dk_dir k')) \<Longrightarrow> x < y \<Longrightarrow> settled k' i"
    and ck: "\<And>x i. (x, i) \<in> set (dk_dir k') \<Longrightarrow> x = SNAPSHOT_NAME \<or> x = SNAPSHOT_PREV \<Longrightarrow> settled k' i"
    and dat: "\<And>N i. N \<in> dk_dirs k \<Longrightarrow> bm_get N SNAPSHOT_NAME = Some i \<Longrightarrow> bm_get (dk_dir k') SNAPSHOT_NAME = Some i
      \<Longrightarrow> bm_get N SNAPSHOT_PREV = bm_get (dk_dir k') SNAPSHOT_PREV"
    and pub: "\<And>N y i. N \<in> dk_dirs k \<Longrightarrow> (y, i) \<in> set N \<Longrightarrow> (SNAPSHOT_NAME, i) \<in> set (dk_dir k') \<Longrightarrow> y = SNAPSHOT_NAME \<or> \<not> relevant y"
  shows "shape k'"
proof (rule shapeI [OF segs _ ck])
  have inj: "y = x" if "(y, i) \<in> set (dk_dir k')" "(x, i) \<in> set (dk_dir k')" for x y i
    using dir_wf_inj [OF disk_wf_cur [OF wf]] that by blast
  show "y = x" if N: "N \<in> dk_dirs k'" and m: "(y, i) \<in> set N" "(x, i) \<in> set (dk_dir k')"
    and x: "x \<noteq> SNAPSHOT_NAME" "x \<noteq> SNAPSHOT_PREV" for N x y i
  proof (cases "N = dk_dir k'")
    case False
    then have N': "N \<in> dk_dirs k" using N k' by blast
    then have "i \<in> snd ` set N" using m(1) by force
    then have "(x, i) \<in> set (dk_dir k)" using new [OF m(2)] x N' by blast
    then show ?thesis using shapeD(2) [OF sh N' m(1) _ x] by blast
  qed (use inj m in blast)
  show "bm_get N SNAPSHOT_PREV = bm_get (dk_dir k') SNAPSHOT_PREV"
    if "N \<in> dk_dirs k'" "bm_get N SNAPSHOT_NAME = Some i" "bm_get (dk_dir k') SNAPSHOT_NAME = Some i" for N i
    using that(1) unfolding k'
  proof
    assume "N = dk_dir k'"
    then show ?thesis by simp
  next
    assume "N \<in> dk_dirs k"
    then show ?thesis using that(2,3) by (rule dat)
  qed
  show "y = SNAPSHOT_NAME \<or> \<not> relevant y" if "N \<in> dk_dirs k'" "(y, i) \<in> set N" "(SNAPSHOT_NAME, i) \<in> set (dk_dir k')" for N y i
    using that inj [of y i SNAPSHOT_NAME] pub unfolding k' by blast
qed

lemma shape_created:
  assumes wf: "disk_wf k" and sh: "shape k" and x: "x \<noteq> SNAPSHOT_NAME" "x \<noteq> SNAPSHOT_PREV"
    and seg: "segment_seq x \<noteq> None \<Longrightarrow> \<forall>(y, j) \<in> set (segs_of (dk_dir k)). y < x \<and> settled k j"
  shows "shape (disk_step (Created x) k)"
proof (rule shape_new_dir [OF disk_wf_step [OF wf] sh])
  let ?k = "disk_step (Created x) k" and ?i = "dk_next k"
  have cur: "dk_dir k \<in> dk_dirs k" and bw: "bm_wf (dk_dir k)" using wf by (simp_all add: disk_wf_def dir_wf_def)
  note k' = created_simps [of x k]
  have dir: "(y, j) \<in> set (dk_dir ?k) \<longleftrightarrow> (y, j) = (x, ?i) \<or> (y, j) \<in> set (dk_dir k) \<and> y \<noteq> x" for y j
    using bw by (auto simp: k' set_bm_insert)
  have st: "settled ?k j" if "settled k j" "(y, j) \<in> set (dk_dir k)" for y j
    using that fresh_id [OF wf cur] by (force simp: settled_def k')
  show "dk_dirs ?k = insert (dk_dir ?k) (dk_dirs k)" by (simp add: k')
  show "(y, j) \<in> set (dk_dir k) \<or> y = SNAPSHOT_NAME \<or> y = SNAPSHOT_PREV \<or> (\<forall>N\<in>dk_dirs k. j \<notin> snd ` set N)"
    if "(y, j) \<in> set (dk_dir ?k)" for y j
  proof -
    have "\<forall>N\<in>dk_dirs k. ?i \<notin> snd ` set N" using fresh_id [OF wf] by (intro ballI)
    with that show ?thesis unfolding dir by (elim disjE) simp_all
  qed
  show "settled ?k i" if a: "(y, i) \<in> set (segs_of (dk_dir ?k))" "(z, j) \<in> set (segs_of (dk_dir ?k))" "y < z" for y i z j
  proof -
    have "y \<noteq> x"
    proof
      assume "y = x"
      with a(1,2,3) have "segment_seq x \<noteq> None" "(z, j) \<in> set (segs_of (dk_dir k))" by (auto simp: segs_of_mem dir)
      with seg a(3) \<open>y = x\<close> show False by fastforce
    qed
    then have m: "(y, i) \<in> set (segs_of (dk_dir k))" using a(1) by (auto simp: segs_of_mem dir)
    have "settled k i"
    proof (cases "z = x")
      case True
      with a(2) seg m show ?thesis by (fastforce simp: segs_of_mem)
    next
      case False
      then show ?thesis using a(2,3) m shapeD(1) [OF sh m _ a(3)] by (auto simp: segs_of_mem dir)
    qed
    with m st show ?thesis by (auto simp: segs_of_mem)
  qed
  show "settled ?k i" if "(y, i) \<in> set (dk_dir ?k)" "y = SNAPSHOT_NAME \<or> y = SNAPSHOT_PREV" for y i
    using that x st shapeD(3) [OF sh, of y i] by (auto simp: dir)
  show "bm_get N SNAPSHOT_PREV = bm_get (dk_dir ?k) SNAPSHOT_PREV"
    if "N \<in> dk_dirs k" "bm_get N SNAPSHOT_NAME = Some i" "bm_get (dk_dir ?k) SNAPSHOT_NAME = Some i" for N i
    using that x shapeD(4) [OF sh that(1,2)] by (simp add: k' bm_get_insert_other)
  show "y = SNAPSHOT_NAME \<or> \<not> relevant y" if "N \<in> dk_dirs k" "(y, i) \<in> set N" "(SNAPSHOT_NAME, i) \<in> set (dk_dir ?k)" for N y i
    using that x shapeD(5) [OF sh that(1,2)] by (auto simp: dir)
qed

lemma renamed_simps:
  "dk_dir (dk_rename N k) = N" "dk_dirs (dk_rename N k) = insert N (dk_dirs k)" "dk_next (dk_rename N k) = dk_next k"
  "dk_data (dk_rename N k) = dk_data k" "dk_maybe (dk_rename N k) = dk_maybe k" "settled (dk_rename N k) i \<longleftrightarrow> settled k i"
  by (simp_all add: dk_rename_def settled_def)

lemma shape_removed:
  assumes wf: "disk_wf k" and sh: "shape k" and x: "x \<noteq> SNAPSHOT_NAME" "x \<noteq> SNAPSHOT_PREV"
  shows "shape (disk_step (Removed x) k)"
proof (rule shape_new_dir [OF disk_wf_step [OF wf] sh])
  let ?k = "disk_step (Removed x) k"
  note k' = disk_step.simps renamed_simps
  show "settled ?k i" if a: "(y, i) \<in> set (segs_of (dk_dir ?k))" "(z, j) \<in> set (segs_of (dk_dir ?k))" "y < z" for y i z j
    using a shapeD(1) [OF sh, of y i z j] by (auto simp: segs_of_mem k' set_bm_remove)
  show "settled ?k i" if "(y, i) \<in> set (dk_dir ?k)" "y = SNAPSHOT_NAME \<or> y = SNAPSHOT_PREV" for y i
    using that shapeD(3) [OF sh, of y i] by (auto simp: k' set_bm_remove)
  show "bm_get N SNAPSHOT_PREV = bm_get (dk_dir ?k) SNAPSHOT_PREV"
    if "N \<in> dk_dirs k" "bm_get N SNAPSHOT_NAME = Some i" "bm_get (dk_dir ?k) SNAPSHOT_NAME = Some i" for N i
    using that x shapeD(4) [OF sh that(1,2)] by (simp add: k' bm_get_remove)
  show "y = SNAPSHOT_NAME \<or> \<not> relevant y" if "N \<in> dk_dirs k" "(y, i) \<in> set N" "(SNAPSHOT_NAME, i) \<in> set (dk_dir ?k)" for N y i
    using that x shapeD(5) [OF sh that(1,2)] by (auto simp: k' set_bm_remove)
qed (auto simp: disk_step.simps renamed_simps set_bm_remove)

lemma shape_renamed:
  assumes wf: "disk_wf k" and sh: "shape k" and get: "bm_get (dk_dir k) x = Some i" and st: "settled k i"
    and xy: "x = SNAPSHOT_NAME \<and> y = SNAPSHOT_PREV \<or> x = SNAPSHOT_TMP \<and> y = SNAPSHOT_NAME"
  shows "shape (disk_step (Renamed x y) k)"
proof (rule shape_new_dir [OF disk_wf_step [OF wf] sh])
  let ?k = "disk_step (Renamed x y) k"
  have bw: "bm_wf (dk_dir k)" using wf by (simp add: disk_wf_def dir_wf_def)
  have ns: "segment_seq y = None" and y: "y = SNAPSHOT_NAME \<or> y = SNAPSHOT_PREV" "x \<noteq> y" using xy by auto
  have k: "?k = dk_rename (bm_insert y i (bm_remove x (dk_dir k))) k" by (simp add: disk_step.simps get)
  note k' = k renamed_simps
  have dir: "(z, j) \<in> set (dk_dir ?k) \<longleftrightarrow> (z, j) = (y, i) \<or> (z, j) \<in> set (dk_dir k) \<and> z \<noteq> x \<and> z \<noteq> y" for z j
    using bw by (auto simp: k' set_bm_insert set_bm_remove bm_wf_remove)
  show "dk_dirs ?k = insert (dk_dir ?k) (dk_dirs k)" by (simp add: k')
  show "(z, j) \<in> set (dk_dir k) \<or> z = SNAPSHOT_NAME \<or> z = SNAPSHOT_PREV \<or> (\<forall>N\<in>dk_dirs k. j \<notin> snd ` set N)"
    if "(z, j) \<in> set (dk_dir ?k)" for z j
    using that y(1) by (auto simp: dir)
  show "settled ?k j" if a: "(z, j) \<in> set (segs_of (dk_dir ?k))" "(z', j') \<in> set (segs_of (dk_dir ?k))" "z < z'" for z j z' j'
  proof -
    have "(z, j) \<in> set (segs_of (dk_dir k))" "(z', j') \<in> set (segs_of (dk_dir k))" using a(1,2) ns by (auto simp: segs_of_mem dir)
    then show ?thesis using shapeD(1) [OF sh _ _ a(3)] by (simp add: k')
  qed
  show "settled ?k j" if "(z, j) \<in> set (dk_dir ?k)" "z = SNAPSHOT_NAME \<or> z = SNAPSHOT_PREV" for z j
  proof -
    have "settled k j" using that st shapeD(3) [OF sh, of z j] by (auto simp: dir)
    then show ?thesis by (simp add: k')
  qed
  show "bm_get N SNAPSHOT_PREV = bm_get (dk_dir ?k) SNAPSHOT_PREV"
    if N: "N \<in> dk_dirs k" "bm_get N SNAPSHOT_NAME = Some j" "bm_get (dk_dir ?k) SNAPSHOT_NAME = Some j" for N j
    using xy
  proof
    assume "x = SNAPSHOT_NAME \<and> y = SNAPSHOT_PREV"
    then have "bm_get (dk_dir ?k) SNAPSHOT_NAME = None" unfolding k' by (simp add: bm_get_insert_other bm_get_remove)
    with N(3) show ?thesis by simp
  next
    assume a: "x = SNAPSHOT_TMP \<and> y = SNAPSHOT_NAME"
    then have "j = i" using N(3) bw unfolding k' by (simp add: bm_get_insert bm_wf_remove)
    then have "(SNAPSHOT_NAME, i) \<in> set N" using N(2) by (simp add: map_of_SomeD)
    moreover have "(SNAPSHOT_TMP, i) \<in> set (dk_dir k)" using get a by (simp add: map_of_SomeD)
    ultimately show ?thesis using shapeD(2) [OF sh N(1)] by force
  qed
  show "z = SNAPSHOT_NAME \<or> \<not> relevant z"
    if N: "N \<in> dk_dirs k" "(z, j) \<in> set N" "(SNAPSHOT_NAME, j) \<in> set (dk_dir ?k)" for N z j
  proof -
    have "x = SNAPSHOT_TMP" "j = i" using N(3) xy by (auto simp: dir)
    moreover from this have "(SNAPSHOT_TMP, j) \<in> set (dk_dir k)" using get by (simp add: map_of_SomeD)
    ultimately show ?thesis using shapeD(2) [OF sh N(1,2), of SNAPSHOT_TMP] by (auto simp: relevant_def)
  qed
qed

lemma boot_simps:
  "dk_dirs (boot fl) = {dk_dir (boot fl)}" "settled (boot fl) i" "image_of (dk_dir (boot fl)) (dk_data (boot fl)) = fl"
  by (simp_all add: boot_def settled_def image_boot)

lemma shape_settled:
  assumes "disk_wf k" and "dk_dirs k = {dk_dir k}" and "\<And>i. settled k i"
  shows "shape k"
proof (rule shapeI)
  show "y = x" if "N \<in> dk_dirs k" "(y, i) \<in> set N" "(x, i) \<in> set (dk_dir k)" for N x y i
  proof -
    have "N = dk_dir k" using that(1) unfolding assms(2) by (rule singletonD)
    with that(2,3) show ?thesis using dir_wf_inj [OF disk_wf_cur [OF assms(1)], of y i x] by simp
  qed
  show "bm_get N SNAPSHOT_PREV = bm_get (dk_dir k) SNAPSHOT_PREV" if "N \<in> dk_dirs k" for N
    using that unfolding assms(2) singleton_iff by (rule arg_cong)
  show "y = SNAPSHOT_NAME \<or> \<not> relevant y" if "N \<in> dk_dirs k" "(y, i) \<in> set N" "(SNAPSHOT_NAME, i) \<in> set (dk_dir k)" for N y i
  proof -
    have "N = dk_dir k" using that(1) unfolding assms(2) by (rule singletonD)
    with that(2,3) show ?thesis using dir_wf_inj [OF disk_wf_cur [OF assms(1)], of y i SNAPSHOT_NAME] by simp
  qed
qed (rule assms(3))+

lemma shape_boot: "bm_wf fl \<Longrightarrow> shape (boot fl)"
  by (intro shape_settled disk_wf_boot) (simp_all add: boot_simps(2), rule boot_simps(1))

end
