(* ===== verification/Power_Log.thy ===== *)
theory Power_Log
  imports Power_Images
begin

text \<open>
  Power failures under the write-ahead log (\<^verbatim>\<open>src/wal.rs\<close>): what an append, a rotation and an open leave of
  \<open>images_hold\<close>, whatever call fails. An acknowledged append ends with a sync of the segment, so its records are in every
  image; a rotation syncs the old segment before the new one exists and the directory before the new one is used.
\<close>

definition power_inv :: "fs \<Rightarrow> history \<Rightarrow> nat \<Rightarrow> op list set \<Rightarrow> nat \<Rightarrow> bool" where
  "power_inv d H p T b \<longleftrightarrow> linked d \<and> shape (fs_disk d) \<and> images_hold (fs_disk d) H p T b"

text \<open>Every state of the directory that may be on the medium ends with the same segment.\<close>

definition steady :: "string \<Rightarrow> disk \<Rightarrow> bool" where
  "steady x k \<longleftrightarrow> (\<exists>i. \<forall>N \<in> dk_dirs k. \<exists>pre. segs_of N = pre @ [(x, i)])"

lemma power_inv_wf: "power_inv d H p T b \<Longrightarrow> disk_wf (fs_disk d)"
  by (simp add: power_inv_def linked_def)

lemma power_inv_cong: "fs_files d' = fs_files d \<Longrightarrow> fs_disk d' = fs_disk d \<Longrightarrow> power_inv d' H p T b \<longleftrightarrow> power_inv d H p T b"
  by (simp add: power_inv_def linked_cong [of d' d])

lemma power_inv_mono: "power_inv d H p T b \<Longrightarrow> p' \<le> p \<Longrightarrow> T \<subseteq> T' \<Longrightarrow> b \<le> b' \<Longrightarrow> power_inv d H p' T' b'"
  using images_mono unfolding power_inv_def by blast

lemma power_inv_bound: "power_inv d H p T b \<Longrightarrow> power_inv d H p T (length H)"
  by (auto simp: power_inv_def linked_def intro: images_bound)

lemma power_inv_dir:
  assumes "power_inv d H p T b"
  obtains l where "l \<le> b" and "dir_inv d H l"
  using assms images_current unfolding power_inv_def by blast

lemma power_inv_p: "power_inv d H p T b \<Longrightarrow> p \<le> length H \<and> set H \<subseteq> T"
proof -
  assume a: "power_inv d H p T b"
  let ?k = "fs_disk d"
  have wf: "disk_wf ?k" using a by (rule power_inv_wf)
  then have "dk_dir ?k \<in> dk_dirs ?k" by (simp add: disk_wf_def)
  then obtain l where "image_holds H p T l (image_of (dk_dir ?k) (dk_data ?k)) (agree ?k (dk_data ?k))"
    using a choice_data [OF wf] unfolding power_inv_def images_hold_def by blast
  then show ?thesis using agree_data [of ?k] by (auto simp: image_holds_def)
qed

subsection \<open>Calls that lose no possibility\<close>

lemma power_call: "power_inv d H p T b \<Longrightarrow> fs_call d = (r, d') \<Longrightarrow> power_inv d' H p T b"
  using call_files call_disk power_inv_cong by metis

lemma power_sync:
  assumes "power_inv d H p T b" and "fs_sync (Synced x) d = (r, d')"
  shows "power_inv d' H p T b"
proof -
  have "linked d'" using assms linked_calls(2) by (auto simp: power_inv_def)
  moreover have "shape (fs_disk d') \<and> images_hold (fs_disk d') H p T b"
    using assms sync_disk [OF assms(2)] power_inv_wf [OF assms(1)] images_synced shape_synced
    by (auto simp: power_inv_def split: sum.splits)
  ultimately show ?thesis by (simp add: power_inv_def)
qed

lemma power_sync_dir:
  assumes "power_inv d H p T b" and "fs_sync SyncedDir d = (r, d')"
  shows "power_inv d' H p T b"
proof -
  have "linked d'" using assms linked_calls(1) by (auto simp: power_inv_def)
  moreover have "shape (fs_disk d') \<and> images_hold (fs_disk d') H p T b"
    using assms sync_disk [OF assms(2)] power_inv_wf [OF assms(1)] images_synced_dir shape_synced_dir
    by (auto simp: power_inv_def split: sum.splits)
  ultimately show ?thesis by (simp add: power_inv_def)
qed

lemma power_sync_last:
  assumes "power_inv d H p T b" and "fs_sync (Synced x) d = (Inr (), d')" and "segs_of (dk_dir (fs_disk d)) = pre @ [(x, i)]"
  shows "power_inv d' H (length H) T b"
  using power_sync [OF assms(1,2)] sync_disk [OF assms(2)] images_synced_last [OF power_inv_wf [OF assms(1)] _ _ assms(3)] assms(1)
  by (auto simp: power_inv_def)

lemma steady_sync:
  assumes "steady x k" and "disk_wf k"
  shows "steady x (disk_step (Synced y) k)" and "steady x (disk_step SyncedDir k)"
  using assms synced_simps(2) [OF assms(2)] by (auto simp: steady_def disk_step.simps disk_wf_def)

lemma linked_segments: "linked d \<Longrightarrow> list_segments d = image_of (segs_of (dk_dir (fs_disk d))) (dk_data (fs_disk d))"
  using list_segments_image [of "dk_dir (fs_disk d)" "dk_data (fs_disk d)"] by (simp add: linked_def list_segments_def)

lemma steady_last:
  assumes "linked d" and "steady x (fs_disk d)"
  obtains pre i where "segs_of (dk_dir (fs_disk d)) = pre @ [(x, i)]" and "\<And>N. N \<in> dk_dirs (fs_disk d) \<Longrightarrow> \<exists>pre. segs_of N = pre @ [(x, i)]"
    and "list_segments d = image_of pre (dk_data (fs_disk d)) @ [(x, dk_data (fs_disk d) i)]"
    and "bm_get (dk_dir (fs_disk d)) x = Some i"
proof -
  obtain i where i: "\<And>N. N \<in> dk_dirs (fs_disk d) \<Longrightarrow> \<exists>pre. segs_of N = pre @ [(x, i)]" using assms(2) unfolding steady_def by blast
  have wf: "disk_wf (fs_disk d)" using assms(1) by (simp add: linked_def)
  then obtain pre where pre: "segs_of (dk_dir (fs_disk d)) = pre @ [(x, i)]" using i unfolding disk_wf_def by blast
  have "(x, i) \<in> set (dk_dir (fs_disk d))" using segs_of_mem [of x i "dk_dir (fs_disk d)"] pre by simp
  then have "bm_get (dk_dir (fs_disk d)) x = Some i" using wf by (simp add: bm_get_mem disk_wf_def dir_wf_def)
  with that pre i linked_segments [OF assms(1)] show thesis by (simp add: image_append image_single)
qed

lemma steady_at:
  assumes "steady x k" and "disk_wf k" and "segs_of (dk_dir k) = pre @ [(x, i)]" and "N \<in> dk_dirs k"
  obtains pre' where "segs_of N = pre' @ [(x, i)]" and "(x, i) \<in> set N"
proof -
  obtain i' where i': "\<And>N. N \<in> dk_dirs k \<Longrightarrow> \<exists>pre. segs_of N = pre @ [(x, i')]" using assms(1) unfolding steady_def by blast
  have "dk_dir k \<in> dk_dirs k" using assms(2) by (simp add: disk_wf_def)
  then have "i' = i" using i' [of "dk_dir k"] assms(3) by auto
  then obtain pre' where "segs_of N = pre' @ [(x, i)]" using i' [OF assms(4)] by blast
  moreover from this have "(x, i) \<in> set N" using segs_of_mem [of x i N] by simp
  ultimately show thesis by (rule that)
qed

subsection \<open>An append\<close>

text \<open>
  The disk while a group of frames \<open>F\<close> is appended to the last segment, or cut off again.
\<close>

definition written :: "disk \<Rightarrow> nat \<Rightarrow> bytes \<Rightarrow> nat \<Rightarrow> disk \<Rightarrow> bool" where
  "written k i F m k' \<longleftrightarrow> dk_dir k' = dk_dir k \<and> dk_dirs k' = dk_dirs k \<and> dk_data k' = (dk_data k)(i := dk_data k i @ take m F)
     \<and> (\<forall>j. j \<noteq> i \<longrightarrow> dk_maybe k' j = dk_maybe k j)
     \<and> dk_maybe k' i \<subseteq> dk_maybe k i \<union> (\<lambda>m. dk_data k i @ take m F) ` {0..length F}"

lemma written_wrote:
  assumes "bm_get (dk_dir k) x = Some i" and "n \<le> length F"
  shows "written k i F n (disk_step (Wrote x (take n F)) k)"
proof -
  have "(\<lambda>m. dk_data k i @ take m (take n F)) ` {0..length (take n F)} \<subseteq> (\<lambda>m. dk_data k i @ take m F) ` {0..length F}"
  proof
    fix z assume "z \<in> (\<lambda>m. dk_data k i @ take m (take n F)) ` {0..length (take n F)}"
    then obtain m where "m \<le> length (take n F)" "z = dk_data k i @ take m (take n F)" by auto
    with assms(2) show "z \<in> (\<lambda>m. dk_data k i @ take m F) ` {0..length F}"
      by (intro image_eqI [of _ _ m]) (simp_all add: min.absorb1 min.absorb2)
  qed
  then show ?thesis using assms(1) by (auto simp: written_def disk_step.simps modify_simps)
qed

lemma written_cut:
  assumes "bm_get (dk_dir k) x = Some i" and "written k i F m k'"
  shows "written k i F 0 (disk_step (Resized x (length (dk_data k i))) k')"
proof -
  have get: "bm_get (dk_dir k') x = Some i" using assms by (simp add: written_def)
  show ?thesis using assms(2) by (auto simp: written_def disk_step.simps modify_simps [OF get] intro: image_eqI [of _ _ 0])
qed

lemma written_synced: "disk_wf k' \<Longrightarrow> written k i F m k' \<Longrightarrow> bm_get (dk_dir k') x = Some i \<Longrightarrow> written k i F m (disk_step (Synced x) k')"
  by (auto simp: written_def disk_step.simps disk_wf_def)

lemma written_shape:
  assumes "disk_wf k" and "shape k" and "segs_of (dk_dir k) = pre @ [(x, i)]" and "written k i F m k'"
  shows "shape k'"
proof (rule shape_same_dirs [OF assms(2)])
  have wf: "dir_wf (dk_next k) (dk_dir k)" using assms(1) by (rule disk_wf_cur)
  have mem: "(x, i) \<in> set (dk_dir k)" using segs_of_mem [of x i "dk_dir k"] assms(3) by simp
  fix y j assume y: "(y, j) \<in> set (dk_dir k)" "settled k j"
  show "settled k' j \<or> (\<exists>pre. segs_of (dk_dir k) = pre @ [(y, j)] \<and> bm_wf (dk_dir k))"
  proof (cases "j = i")
    case True
    then have "y = x" using dir_wf_inj [OF wf] y(1) mem by blast
    with True assms(3) wf show ?thesis by (auto simp: dir_wf_def)
  qed (use y(2) assms(4) in \<open>simp add: settled_def written_def\<close>)
qed (use assms(4) in \<open>simp_all add: written_def\<close>)

lemma written_images:
  assumes inv: "power_inv d H p T b" and st: "steady x (fs_disk d)"
    and last: "segs_of (dk_dir (fs_disk d)) = pre @ [(x, i)]" "dk_data (fs_disk d) i = seg_image rs" "list_all rec_ok rs"
    and G: "list_all rec_ok (recs_of (length H) G)" "length H + length G < 2 ^ 64" "set G \<subseteq> T"
  obtains h where "h 0 = H" and "h (length (wal.frames (recs_of (length H) G))) = H @ G"
    and "\<And>m. p \<le> length (h m) \<and> take p (h m) = take p H"
    and "\<And>m k'. m \<le> length (wal.frames (recs_of (length H) G)) \<Longrightarrow> written (fs_disk d) i (wal.frames (recs_of (length H) G)) m k'
      \<Longrightarrow> images_hold k' (h m) p T b"
proof -
  let ?k = "fs_disk d" and ?new = "recs_of (length H) G" and ?c = "seg_image rs"
  let ?F = "wal.frames ?new"
  have p: "p \<le> length H" "set H \<subseteq> T" using power_inv_p [OF inv] by simp_all
  have "\<exists>j \<le> length ?new. tail_holds (?c @ take m ?F) (rs @ take j ?new)" if "m \<le> length ?F" for m
    using last(3) G(1) that by (rule tail_holds_append) blast
  then obtain j where j: "\<And>m. m \<le> length ?F \<Longrightarrow> j m \<le> length ?new \<and> tail_holds (?c @ take m ?F) (rs @ take (j m) ?new)" by metis
  define h where "h m = H @ take (if m \<le> length ?F then j m else 0) G" for m
  have take_new: "take n ?new = recs_of (length H) (take n G)" for n by (rule take_recs_of)
  have h0: "h 0 = H"
  proof -
    have "rs @ take (j 0) ?new = rs" using j [of 0] tail_holds_whole [OF last(3)] tail_holds_unique by fastforce
    then have "take (j 0) ?new = []" by (simp only: append_self_conv)
    then have "take (j 0) G = []" unfolding take_new by (metis length_0_conv length_recs_of)
    then show ?thesis by (simp add: h_def del: take_eq_Nil)
  qed
  have hF: "h (length ?F) = H @ G"
  proof -
    have "tail_holds (?c @ ?F) (rs @ ?new)"
      using tail_holds_whole [of "rs @ ?new"] last(3) G(1) by (simp add: seg_image_append)
    then have "rs @ take (j (length ?F)) ?new = rs @ ?new" using j [of "length ?F"] tail_holds_unique by fastforce
    then have "length (take (j (length ?F)) ?new) = length ?new" by simp
    then have "length G \<le> j (length ?F)" by simp
    then show ?thesis by (simp add: h_def)
  qed
  have hp: "p \<le> length (h m) \<and> take p (h m) = take p H" for m using p(1) by (simp add: h_def)
  have hT: "set (h m) \<subseteq> T" for m using p(2) G(3) by (auto simp: h_def dest: in_set_takeD)
  have hold: "images_hold k' (h m) p T b" if m: "m \<le> length ?F" and k': "written ?k i ?F m k'" for m k'
  proof -
    define hz where "hz z = h (length z - length ?c)" for z :: bytes
    have e: "hz (?c @ take n ?F) = h n" if "n \<le> length ?F" for n using that by (simp add: hz_def)
    have step: "dir_inv (power_on (image_of N (D(i := z)))) (hz z) l"
      if N: "N \<in> dk_dirs ?k" and D: "D i = dk_data ?k i" and z: "z \<in> (\<lambda>m. dk_data ?k i @ take m ?F) ` {0..length ?F}"
        and old: "dir_inv (power_on (image_of N D)) H l" for N D l z
    proof -
      obtain n where n: "n \<le> length ?F" "z = ?c @ take n ?F" using z last(2) by auto
      obtain preN where preN: "segs_of N = preN @ [(x, i)]" and mem: "(x, i) \<in> set N"
        by (rule steady_at [OF st power_inv_wf [OF inv] last(1) N])
      have "dir_inv (power_on (image_of N (D(i := z)))) (H @ take (j n) G) l"
      proof (rule dir_inv_last [OF old])
        show "list_segments (power_on (image_of N D)) = image_of preN D @ [(x, ?c)]"
          using D last(2) by (simp add: list_segments_image preN image_append image_single)
        show "tail_holds ?c rs" using last(3) by (rule tail_holds_whole)
        show "tail_holds z (rs @ recs_of (length H) (take (j n) G))" using j [OF n(1)] n(2) take_new by simp
        show "length H + length (take (j n) G) < 2 ^ 64" using G(2) by simp
        show "fs_files (power_on (image_of N (D(i := z)))) = bm_insert x z (fs_files (power_on (image_of N D)))"
          using image_upd_name [OF disk_wf_dir [OF power_inv_wf [OF inv] N] mem] by simp
      qed
      then show ?thesis using n by (simp add: hz_def h_def)
    qed
    have "images_hold k' (hz (dk_data ?k i @ take m ?F)) p T b"
    proof (rule images_modify [where h = hz and M = "(\<lambda>m. dk_data ?k i @ take m ?F) ` {0..length ?F}"])
      show "disk_wf ?k" "shape ?k" "images_hold ?k H p T b" using inv by (simp_all add: power_inv_def linked_def)
      show "p \<le> length (hz z) \<and> take p (hz z) = take p H \<and> set (hz z) \<subseteq> T" for z using hp hT by (simp add: hz_def)
      show "(\<forall>N\<in>dk_dirs ?k. i \<in> snd ` set N) \<or> (\<forall>z\<in>(\<lambda>m. dk_data ?k i @ take m ?F) ` {0..length ?F}. hz z = H)"
      proof (intro disjI1 ballI)
        fix N assume "N \<in> dk_dirs ?k"
        then have "(x, i) \<in> set N" by (rule steady_at [OF st power_inv_wf [OF inv] last(1)])
        then show "i \<in> snd ` set N" by force
      qed
    qed (use k' m step last(1) in \<open>auto simp: written_def\<close>)
    then show ?thesis using e [OF m] last(2) by simp
  qed
  show thesis using h0 hF hp hold by (rule that)
qed

text \<open>
  The log of a store that published the history \<open>H\<close>, of which \<open>p\<close> commits are durable. A poisoned log may have more on
  disk than was published.
\<close>

definition power_log :: "wal \<Rightarrow> fs \<Rightarrow> history \<Rightarrow> nat \<Rightarrow> op list set \<Rightarrow> nat \<Rightarrow> bool" where
  "power_log wl d H p T b \<longleftrightarrow> (\<exists>Hd. power_inv d Hd p T b \<and> take p Hd = take p H \<and> p \<le> length H
     \<and> (\<not> wl_poisoned wl \<longrightarrow> Hd = H \<and> steady (segment_path (wl_seg_seq wl)) (fs_disk d)))"

lemma power_log_healthy:
  "\<not> wl_poisoned wl \<Longrightarrow> power_log wl d H p T b \<longleftrightarrow> power_inv d H p T b \<and> steady (segment_path (wl_seg_seq wl)) (fs_disk d)"
  by (auto simp: power_log_def dest: power_inv_p)

lemma power_log_poisoned:
  "wl_poisoned wl \<Longrightarrow> power_log wl d H p T b \<longleftrightarrow> (\<exists>Hd. power_inv d Hd p T b \<and> take p Hd = take p H \<and> p \<le> length H)"
  by (auto simp: power_log_def)

lemma power_log_mono: "power_log wl d H p T b \<Longrightarrow> p' \<le> p \<Longrightarrow> T \<subseteq> T' \<Longrightarrow> b \<le> b' \<Longrightarrow> power_log wl d H p' T' b'"
proof -
  assume a: "power_log wl d H p T b" "p' \<le> p" "T \<subseteq> T'" "b \<le> b'"
  have tk: "take p' Hd = take p' H" if "take p Hd = take p H" for Hd :: history
    using arg_cong [OF that, of "take p'"] a(2) by (simp add: min.absorb1)
  obtain Hd where "power_inv d Hd p T b" "take p Hd = take p H" "p \<le> length H"
      "\<not> wl_poisoned wl \<longrightarrow> Hd = H \<and> steady (segment_path (wl_seg_seq wl)) (fs_disk d)"
    using a(1) unfolding power_log_def by blast
  moreover from this have "power_inv d Hd p' T' b'" "take p' Hd = take p' H" using power_inv_mono [OF _ a(2-4)] tk by blast+
  ultimately show ?thesis using order_trans [OF a(2)] unfolding power_log_def by blast
qed

lemma wal_inv_last:
  assumes "wal_inv wl d L" and "linked d" and "steady (segment_path (wl_seg_seq wl)) (fs_disk d)"
  obtains pre i rs where "segs_of (dk_dir (fs_disk d)) = pre @ [(segment_path (wl_seg_seq wl), i)]"
    and "dk_data (fs_disk d) i = seg_image rs" and "list_all rec_ok rs" and "wl_seg_bytes wl = length (seg_image rs)"
    and "bm_get (dk_dir (fs_disk d)) (segment_path (wl_seg_seq wl)) = Some i" and "fs_exists (segment_path (wl_seg_seq wl)) d"
proof -
  obtain pre i where l: "segs_of (dk_dir (fs_disk d)) = pre @ [(segment_path (wl_seg_seq wl), i)]"
      "list_segments d = image_of pre (dk_data (fs_disk d)) @ [(segment_path (wl_seg_seq wl), dk_data (fs_disk d) i)]"
      "bm_get (dk_dir (fs_disk d)) (segment_path (wl_seg_seq wl)) = Some i"
    by (rule steady_last [OF assms(2,3)])
  obtain Li rs where L: "L = Li @ [(wl_seg_seq wl, rs)]" "log_is d L" "wl_seg_bytes wl = length (seg_image rs)"
    using assms(1) by (auto simp: wal_inv_snoc)
  then have "dk_data (fs_disk d) i = seg_image rs" "list_all rec_ok rs" using l(2) by (auto simp: log_is_def)
  moreover have "fs_exists (segment_path (wl_seg_seq wl)) d" using l(3) linked_exists [OF assms(2)] by blast
  ultimately show thesis using that l(1,3) L(3) by blast
qed

lemma power_roll_back:
  assumes run: "roll_back wl d2 = (wl', d')" and usable: "\<not> wl_poisoned wl" and lk: "linked d2"
    and wf: "disk_wf k" and last: "segs_of (dk_dir k) = pre @ [(segment_path (wl_seg_seq wl), i)]"
      "bm_get (dk_dir k) (segment_path (wl_seg_seq wl)) = Some i" and c: "wl_seg_bytes wl = length (dk_data k i)"
    and w: "written k i F n (fs_disk d2)" "n \<le> length F" and st: "steady (segment_path (wl_seg_seq wl)) k" and sh: "shape k"
    and h: "h 0 = H" "\<And>m. p \<le> length (h m) \<and> take p (h m) = take p H"
      "\<And>m k'. m \<le> length F \<Longrightarrow> written k i F m k' \<Longrightarrow> images_hold k' (h m) p T b"
  shows "\<exists>p' \<ge> p. power_log wl' d' H p' T b" and "wl_seg_seq wl' = wl_seg_seq wl"
proof -
  let ?x = "segment_path (wl_seg_seq wl)"
  have p: "p \<le> length H" using h(1) h(2) [of 0] by simp
  have inv: "power_inv e (h m) p T b" if "linked e" "written k i F m (fs_disk e)" "m \<le> length F" for e m
    using that h(3) written_shape [OF wf sh last(1)] by (simp add: power_inv_def)
  have stw: "steady ?x k'" if "written k i F m k'" for k' m using st that by (simp add: steady_def written_def)
  have get: "bm_get (dk_dir (fs_disk e)) ?x = Some i" if "written k i F m (fs_disk e)" for e m
    using that last(2) by (simp add: written_def)
  obtain r3 d3 where s3: "fs_set_len ?x (wl_seg_bytes wl) d2 = (r3, d3)" by force
  obtain r4 d4 where s4: "io_then (r3, d3) fs_call = (r4, d4)" by force
  obtain r5 d5 where s5: "io_then (r4, d4) (fs_sync (Synced ?x)) = (r5, d5)" by force
  have out: "wl' = (case r5 of Inl _ \<Rightarrow> wl\<lparr>wl_poisoned := True\<rparr> | Inr _ \<Rightarrow> wl)" "d' = d5"
    using run s3 s4 s5 by (auto simp: roll_back_def split: sum.splits)
  have ex: "fs_exists ?x d2" using get [OF w(1)] linked_exists [OF lk] by blast
  have lk3: "linked d3" using linked_calls(5) [OF lk ex s3] .
  show "wl_seg_seq wl' = wl_seg_seq wl" using out(1) by (cases r5) simp_all
  show "\<exists>p' \<ge> p. power_log wl' d' H p' T b"
  proof (cases r3)
    case (Inl e)
    then have "d5 = d3" "r5 = Inl e" using s4 s5 by auto
    moreover have "fs_disk d3 = fs_disk d2" using set_len_disk [OF s3] Inl by simp
    ultimately have "power_inv d' (h n) p T b" "wl_poisoned wl'" using inv [of d3 n] lk3 w out by simp_all
    then show ?thesis using h(2) [of n] p by (auto simp: power_log_poisoned)
  next
    case (Inr u)
    then have w3: "written k i F 0 (fs_disk d3)" using set_len_disk [OF s3] written_cut [OF last(2) w(1)] c by simp
    then have p3: "power_inv d3 H p T b" using inv [OF lk3 w3] h(1) by simp
    have s4': "fs_call d3 = (r4, d4)" using s4 Inr by simp
    have p4: "power_inv d4 H p T b" using power_call [OF p3 s4'] .
    have k4: "fs_disk d4 = fs_disk d3" using call_disk [OF s4'] .
    show ?thesis
    proof (cases r5)
      case (Inl e)
      have "power_inv d5 H p T b"
      proof (cases r4)
        case (Inr v)
        then show ?thesis using s5 power_sync [OF p4] by simp
      qed (use s5 p4 in simp)
      then show ?thesis using out Inl p by (auto simp: power_log_poisoned)
    next
      case (Inr v)
      then have s5': "fs_sync (Synced ?x) d4 = (Inr (), d5)" using s5 by (cases r4) auto
      have "segs_of (dk_dir (fs_disk d4)) = pre @ [(?x, i)]" using w3 k4 last(1) by (simp add: written_def)
      then have "power_inv d5 H (length H) T b" by (rule power_sync_last [OF p4 s5'])
      moreover have "steady ?x (fs_disk d5)"
        using sync_disk [OF s5'] steady_sync(1) [OF _ power_inv_wf [OF p4]] stw [OF w3] k4 by simp
      ultimately show ?thesis using out Inr usable p by (intro exI [of _ "length H"]) (simp add: power_log_healthy)
    qed
  qed
qed

lemma power_append_buffer:
  assumes pl: "power_log wl d H p T b" and usable: "\<not> wl_poisoned wl" and winv: "wal_inv wl d L"
    and G: "list_all rec_ok (recs_of (length H) G)" "length H + length G < 2 ^ 64" "set G \<subseteq> T"
    and run: "append_buffer (wal.frames (recs_of (length H) G)) wl d = (r, wl', d')"
  shows "case r of Inr _ \<Rightarrow> power_log wl' d' (H @ G) (length (H @ G)) T b | Inl _ \<Rightarrow> \<exists>p' \<ge> p. power_log wl' d' H p' T b"
proof -
  let ?x = "segment_path (wl_seg_seq wl)" and ?F = "wal.frames (recs_of (length H) G)" and ?k = "fs_disk d"
  have inv: "power_inv d H p T b" and st: "steady ?x ?k" using pl usable by (simp_all add: power_log_healthy)
  have lk: "linked d" and sh: "shape ?k" using inv by (simp_all add: power_inv_def)
  note wf = power_inv_wf [OF inv]
  obtain pre i rs where last: "segs_of (dk_dir ?k) = pre @ [(?x, i)]" "dk_data ?k i = seg_image rs" "list_all rec_ok rs"
      "wl_seg_bytes wl = length (seg_image rs)" "bm_get (dk_dir ?k) ?x = Some i" "fs_exists ?x d"
    by (rule wal_inv_last [OF winv lk st])
  obtain h where h: "h 0 = H" "h (length ?F) = H @ G" "\<And>m. p \<le> length (h m) \<and> take p (h m) = take p H"
      "\<And>m k'. m \<le> length ?F \<Longrightarrow> written ?k i ?F m k' \<Longrightarrow> images_hold k' (h m) p T b"
    using inv st last(1-3) G by (rule written_images) blast
  obtain r1 d1 where s1: "fs_write_all ?x ?F d = (r1, d1)" by force
  obtain n where n: "n \<le> length ?F" "r1 = Inr () \<Longrightarrow> n = length ?F" "fs_disk d1 = disk_step (Wrote ?x (take n ?F)) ?k"
    using s1 by (rule write_disk) blast
  have w1: "written ?k i ?F n (fs_disk d1)" using written_wrote [OF last(5) n(1)] n(3) by simp
  have lk1: "linked d1" using linked_calls(4) [OF lk last(6) s1] .
  obtain r2 d2 where s2: "io_then (r1, d1) (fs_sync (Synced ?x)) = (r2, d2)" by force
  show ?thesis
  proof (cases r2)
    case (Inl e)
    have d2: "fs_disk d2 = fs_disk d1" "linked d2"
      using s2 Inl lk1 sync_disk [of "Synced ?x" d1] linked_calls(2) [OF lk1] by (cases r1; force)+
    obtain wl2 d3 where rb: "roll_back wl d2 = (wl2, d3)" by force
    then have "r = Inl e" "wl' = wl2" "d' = d3" using run s1 s2 Inl by (auto simp: append_buffer_def)
    moreover have "\<exists>p' \<ge> p. power_log wl2 d3 H p' T b"
    proof (rule power_roll_back [where h = h, OF rb usable d2(2) wf last(1,5)])
      show "wl_seg_bytes wl = length (dk_data ?k i)" "written ?k i ?F n (fs_disk d2)" using last(2,4) w1 d2(1) by simp_all
    qed (fact n st sh h)+
    ultimately show ?thesis by simp
  next
    case (Inr u)
    then obtain v where r1: "r1 = Inr v" and s2': "fs_sync (Synced ?x) d1 = (Inr (), d2)" using s2 by (cases r1) auto
    have out: "r = Inr ()" "wl' = wl\<lparr>wl_seg_bytes := wl_seg_bytes wl + length ?F\<rparr>" "d' = d2"
      using run s1 s2 Inr r1 by (auto simp: append_buffer_def)
    have p1: "power_inv d1 (H @ G) p T b"
      using n(2) r1 h(2) h(4) [OF n(1) w1] lk1 written_shape [OF wf sh last(1) w1] by (simp add: power_inv_def)
    have "segs_of (dk_dir (fs_disk d1)) = pre @ [(?x, i)]" using w1 last(1) by (simp add: written_def)
    then have "power_inv d2 (H @ G) (length (H @ G)) T b" by (rule power_sync_last [OF p1 s2'])
    moreover have "steady ?x (fs_disk d1)" using st w1 by (simp add: steady_def written_def)
    then have "steady ?x (fs_disk d2)" using sync_disk [OF s2'] steady_sync(1) [OF _ power_inv_wf [OF p1]] by simp
    ultimately show ?thesis using out usable by (simp add: power_log_healthy)
  qed
qed

end
