(* ===== verification/Power_Rotate.thy ===== *)
theory Power_Rotate
  imports Power_Log
begin

text \<open>
  Power failures while the log moves to a new segment (\<^verbatim>\<open>rotate_segment\<close> and \<^verbatim>\<open>append_many\<close> of \<^verbatim>\<open>src/wal.rs\<close>): the old
  segment is synced before the new file exists, so that whatever there is of the new one adds nothing to the history.
\<close>

subsection \<open>The steps of a new segment\<close>

lemma born_cases:
  assumes "born k x i k'" and "disk_wf k" and "N \<in> dk_dirs k'"
  obtains N0 where "N0 \<in> dk_dirs k" and "N = N0 \<or> N = bm_insert x i N0"
  using assms unfolding born_def disk_wf_def by blast

lemma born_created: "disk_wf k \<Longrightarrow> born k x (dk_next k) (disk_step (Created x) k)"
  by (auto simp: born_def created_simps intro: exI [of _ 0])

lemma born_wrote:
  assumes "born k x i k'" and "bm_get (dk_dir k') x = Some i" and "dk_data k' i = []" and "m \<le> HEADER_LEN"
  shows "born k x i (disk_step (Wrote x (take m segment_header)) k')"
proof -
  have "n \<le> m \<Longrightarrow> \<exists>m' \<le> HEADER_LEN. take n segment_header = take m' segment_header" for n
    using assms(4) by (intro exI [of _ n]) simp
  then show ?thesis
    using assms(1,4) unfolding born_def by (auto simp: disk_step.simps modify_simps [OF assms(2)] assms(3))
qed

lemma born_synced: "born k x i k' \<Longrightarrow> disk_wf k' \<Longrightarrow> bm_get (dk_dir k') x = Some i \<Longrightarrow> born k x i (disk_step (Synced x) k')"
  by (auto simp: born_def disk_step.simps)

lemma bm_remove_insert_fresh:
  assumes "bm_wf m" and "bm_get m x = None"
  shows "bm_remove x (bm_insert x v m) = m"
  using assms by (intro bm_ext) (auto simp: bm_wf_remove bm_wf_insert bm_get_remove bm_get_insert fun_eq_iff)

lemma born_removed:
  assumes "born k x i k'" and "disk_wf k" and "bm_get (dk_dir k) x = None"
  shows "born k x i (disk_step (Removed x) k')" and "dk_dir (disk_step (Removed x) k') = dk_dir k"
proof -
  have bw: "bm_wf (dk_dir k)" and cur: "dk_dir k \<in> dk_dirs k" using assms(2) by (simp_all add: disk_wf_def dir_wf_def)
  have "bm_remove x (dk_dir k) = dk_dir k" using assms(3) bw by (intro bm_ext) (auto simp: bm_wf_remove bm_get_remove fun_eq_iff)
  then show e: "dk_dir (disk_step (Removed x) k') = dk_dir k"
    using assms(1) bm_remove_insert_fresh [OF bw assms(3)] by (auto simp: born_def disk_step.simps renamed_simps)
  show "born k x i (disk_step (Removed x) k')"
    using assms(1) cur e unfolding born_def disk_step.simps renamed_simps by auto
qed

lemma born_synced_dir: "born k x i k' \<Longrightarrow> disk_wf k \<Longrightarrow> born k x i (disk_step SyncedDir k')"
  by (auto simp: born_def disk_step.simps disk_wf_def)

lemma shape_born:
  assumes born: "born k x (dk_next k) k'" and wf: "disk_wf k" and sh: "shape k" and x: "segment_seq x \<noteq> None"
    and segs: "\<forall>(y, j) \<in> set (segs_of (dk_dir k)). y < x \<and> settled k j"
  shows "shape k'"
proof (rule shapeI)
  let ?i = "dk_next k"
  have nx: "x \<noteq> SNAPSHOT_NAME" "x \<noteq> SNAPSHOT_PREV" using x by auto
  have cur: "dk_dir k \<in> dk_dirs k" and bw: "bm_wf N" if "N \<in> dk_dirs k" for N using wf that by (simp_all add: disk_wf_def dir_wf_def)
  have curk: "dk_dir k \<in> dk_dirs k" using wf by (simp add: disk_wf_def)
  have fresh: "j \<noteq> ?i" if "(y, j) \<in> set N" "N \<in> dk_dirs k" for y j N using fresh_id [OF wf that(2)] that(1) by force
  have st: "settled k' j" if "settled k j" "j \<noteq> ?i" for j using born that by (simp add: born_def settled_def)
  have dir: "(y, j) \<in> set (dk_dir k) \<or> (y, j) = (x, ?i)" if "(y, j) \<in> set (dk_dir k')" for y j
    using that born bw [OF curk] by (auto simp: born_def set_bm_insert)
  show "settled k' i" if a: "(y, i) \<in> set (segs_of (dk_dir k'))" "(z, j) \<in> set (segs_of (dk_dir k'))" "y < z" for y i z j
  proof -
    have "(z, j) \<in> set (segs_of (dk_dir k)) \<or> z = x" using dir [of z j] a(2) by (auto simp: segs_of_mem)
    then have "\<not> x < z" using segs by (metis case_prodD less_asym less_irrefl)
    then have m: "(y, i) \<in> set (segs_of (dk_dir k))" using dir [of y i] a(1,3) by (auto simp: segs_of_mem)
    then have "settled k i" using segs by blast
    moreover have "i \<noteq> ?i" using m fresh [OF _ curk] unfolding segs_of_mem by blast
    ultimately show ?thesis by (rule st)
  qed
  show "settled k' i" if "(y, i) \<in> set (dk_dir k')" "y = SNAPSHOT_NAME \<or> y = SNAPSHOT_PREV" for y i
    using dir [OF that(1)] that(2) nx st shapeD(3) [OF sh, of y i] fresh [OF _ curk] by auto
  show "y = z" if N: "N \<in> dk_dirs k'" and m: "(y, i) \<in> set N" "(z, i) \<in> set (dk_dir k')"
    and z: "z \<noteq> SNAPSHOT_NAME" "z \<noteq> SNAPSHOT_PREV" for N z y i
  proof -
    obtain N0 where N0: "N0 \<in> dk_dirs k" "N = N0 \<or> N = bm_insert x ?i N0" by (rule born_cases [OF born wf N])
    then have "(y, i) \<in> set N0 \<or> (y, i) = (x, ?i)" using m(1) bw [OF N0(1)] by (auto simp: set_bm_insert)
    with dir [OF m(2)] show ?thesis using shapeD(2) [OF sh N0(1) _ _ z] fresh [OF _ N0(1)] fresh [OF _ curk] by blast
  qed
  show "bm_get N SNAPSHOT_PREV = bm_get (dk_dir k') SNAPSHOT_PREV"
    if N: "N \<in> dk_dirs k'" "bm_get N SNAPSHOT_NAME = Some i" "bm_get (dk_dir k') SNAPSHOT_NAME = Some i" for N i
  proof -
    obtain N0 where N0: "N0 \<in> dk_dirs k" "N = N0 \<or> N = bm_insert x ?i N0" by (rule born_cases [OF born wf N(1)])
    have "bm_get N y = bm_get N0 y" "bm_get (dk_dir k') y = bm_get (dk_dir k) y" if "y \<noteq> x" for y
      using N0(2) born that by (auto simp: born_def bm_get_insert_other)
    then show ?thesis using shapeD(4) [OF sh N0(1)] N nx by simp
  qed
  show "y = SNAPSHOT_NAME \<or> \<not> relevant y"
    if N: "N \<in> dk_dirs k'" and m: "(y, i) \<in> set N" "(SNAPSHOT_NAME, i) \<in> set (dk_dir k')" for N y i
  proof -
    obtain N0 where N0: "N0 \<in> dk_dirs k" "N = N0 \<or> N = bm_insert x ?i N0" by (rule born_cases [OF born wf N])
    have cur: "(SNAPSHOT_NAME, i) \<in> set (dk_dir k)" using dir [OF m(2)] nx by blast
    have "(y, i) \<in> set N0" using m(1) N0(2) bw [OF N0(1)] fresh [OF cur curk] by (auto simp: set_bm_insert)
    then show ?thesis using shapeD(5) [OF sh N0(1) _ cur] by blast
  qed
qed

text \<open>A log that ends cleanly on the medium, with the number \<open>q\<close> free for the next segment.\<close>

definition ends_clean :: "fs \<Rightarrow> u32 \<Rightarrow> bool" where
  "ends_clean d q \<longleftrightarrow> (\<forall>(y, j) \<in> set (segs_of (dk_dir (fs_disk d))). y < segment_path q \<and> settled (fs_disk d) j)
     \<and> (\<forall>fl y c. list_segments d = fl @ [(y, c)] \<longrightarrow> (\<exists>rs. list_all rec_ok rs \<and> c = seg_image rs))"

lemma power_born:
  assumes inv: "power_inv d H p T b" and ec: "ends_clean d q" and lk: "linked d'"
    and born: "born (fs_disk d) (segment_path q) (dk_next (fs_disk d)) (fs_disk d')"
  shows "power_inv d' H p T b"
proof -
  let ?k = "fs_disk d"
  have hold: "images_hold ?k H p T b" "shape ?k" "linked d" using inv by (simp_all add: power_inv_def)
  have segs: "\<forall>(y, j) \<in> set (segs_of (dk_dir ?k)). y < segment_path q \<and> settled ?k j" using ec by (simp add: ends_clean_def)
  have "images_hold (fs_disk d') H p T b"
  proof (rule images_born [OF power_inv_wf [OF inv] hold(1) born])
    fix D fl y c assume D: "choice ?k D" "image_of (segs_of (dk_dir ?k)) D = fl @ [(y, c)]"
    have "image_of (segs_of (dk_dir ?k)) D = image_of (segs_of (dk_dir ?k)) (dk_data ?k)"
      by (rule image_cong) (use segs settled_choice [OF _ D(1)] in auto)
    then have "list_segments d = fl @ [(y, c)]" using linked_segments [OF hold(3)] D(2) by simp
    then show "\<exists>rs. list_all rec_ok rs \<and> c = seg_image rs" using ec unfolding ends_clean_def by blast
  qed (use segs in auto)
  moreover have "shape (fs_disk d')" by (rule shape_born [OF born power_inv_wf [OF inv] hold(2) _ segs]) simp
  ultimately show ?thesis using lk by (simp add: power_inv_def)
qed

lemma steady_synced_dir:
  assumes "linked d" and "wal_inv wl d L" and "dk_dirs (fs_disk d) = {dk_dir (fs_disk d)}"
  shows "steady (segment_path (wl_seg_seq wl)) (fs_disk d)"
proof -
  let ?N = "segs_of (dk_dir (fs_disk d))"
  obtain fl rs where "image_of ?N (dk_data (fs_disk d)) = fl @ [(segment_path (wl_seg_seq wl), seg_image rs)]"
    using assms(2) linked_segments [OF assms(1)] by (auto simp: wal_inv_snoc log_is_def)
  from arg_cong [OF this, of "map fst"] have "map fst ?N = map fst fl @ [segment_path (wl_seg_seq wl)]" by simp
  then have "?N \<noteq> [] \<and> fst (last ?N) = segment_path (wl_seg_seq wl)" by (cases ?N rule: rev_cases) auto
  then have "?N = butlast ?N @ [(segment_path (wl_seg_seq wl), snd (last ?N))]" by (metis append_butlast_last_id prod.collapse)
  then show ?thesis unfolding steady_def assms(3) by blast
qed

subsection \<open>Rotation\<close>

text \<open>The disk between the sync of the old segment and the end of the rotation.\<close>

definition moving :: "fs \<Rightarrow> u32 \<Rightarrow> fs \<Rightarrow> bool" where
  "moving d q d' \<longleftrightarrow> linked d' \<and> born (fs_disk d) (segment_path q) (dk_next (fs_disk d)) (fs_disk d')"

lemma moving_sync:
  assumes "moving d q d'" and "linked d" and "fs_sync SyncedDir d' = (r, d2)"
  shows "moving d q d2" and "r = Inr () \<Longrightarrow> dk_dirs (fs_disk d2) = {dk_dir (fs_disk d2)}"
proof -
  show "moving d q d2"
    using assms sync_disk [OF assms(3)] linked_calls(1) [OF _ assms(3)]
    by (cases r) (auto simp: moving_def linked_def born_synced_dir)
  show "dk_dirs (fs_disk d2) = {dk_dir (fs_disk d2)}" if "r = Inr ()"
    using sync_disk [OF assms(3)] that by (simp add: disk_step.simps)
qed

lemma moving_header:
  assumes lk: "linked d" and k1: "fs_disk d1 = disk_step (Created (segment_path q)) (fs_disk d)" and lk1: "linked d1"
    and run: "io_then (fs_write_all (segment_path q) segment_header d1) (fs_sync (Synced (segment_path q))) = (r, d2)"
  shows "moving d q d2"
proof -
  let ?x = "segment_path q" and ?i = "dk_next (fs_disk d)"
  have wf: "disk_wf (fs_disk d)" using lk by (simp add: linked_def)
  have bw: "bm_wf (dk_dir (fs_disk d))" using wf by (simp add: disk_wf_def dir_wf_def)
  have b1: "born (fs_disk d) ?x ?i (fs_disk d1)" using born_created [OF wf] k1 by simp
  have g1: "bm_get (dk_dir (fs_disk d1)) ?x = Some ?i" "dk_data (fs_disk d1) ?i = []"
    using bw by (simp_all add: k1 created_simps bm_get_insert)
  obtain r2 d3 where w: "fs_write_all ?x segment_header d1 = (r2, d3)" by force
  obtain n where n: "n \<le> length segment_header" "fs_disk d3 = disk_step (Wrote ?x (take n segment_header)) (fs_disk d1)"
    using w by (rule write_disk) blast
  have b3: "born (fs_disk d) ?x ?i (fs_disk d3)" using born_wrote [OF b1 g1] n by simp
  have g3: "bm_get (dk_dir (fs_disk d3)) ?x = Some ?i" using g1 n(2) by (simp add: disk_step.simps modify_simps)
  have lk3: "linked d3" using linked_calls(4) [OF lk1 _ w] g1(1) linked_exists [OF lk1] by blast
  show ?thesis
  proof (cases r2)
    case (Inl e)
    then show ?thesis using run w b3 lk3 by (simp add: moving_def)
  next
    case (Inr u)
    then have s: "fs_sync (Synced ?x) d3 = (r, d2)" using run w by simp
    then have "linked d2" using linked_calls(2) [OF lk3] by blast
    moreover have "born (fs_disk d) ?x ?i (fs_disk d2)"
      using sync_disk [OF s] b3 born_synced [OF b3 _ g3] lk3 by (cases r) (simp_all add: linked_def)
    ultimately show ?thesis by (simp add: moving_def)
  qed
qed

lemma moving_removed:
  assumes mv: "moving d q d2" and lk: "linked d" and fresh: "\<not> fs_exists (segment_path q) d"
    and run: "io_then (fs_remove (segment_path q) d2) (fs_sync SyncedDir) = (r, d3)"
  shows "moving d q d3" and "r = Inr () \<Longrightarrow> dk_dirs (fs_disk d3) = {dk_dir (fs_disk d3)}"
proof -
  obtain r2 d4 where rm: "fs_remove (segment_path q) d2 = (r2, d4)" by force
  have none: "bm_get (dk_dir (fs_disk d)) (segment_path q) = None"
    using fresh linked_exists [OF lk, of "segment_path q"] by (cases "bm_get (dk_dir (fs_disk d)) (segment_path q)") auto
  have "linked d4" using linked_calls(9) [OF _ rm] mv by (simp add: moving_def)
  moreover have "born (fs_disk d) (segment_path q) (dk_next (fs_disk d)) (fs_disk d4)"
    using remove_disk [OF rm] mv born_removed(1) [OF _ _ none] lk by (cases r2) (simp_all add: moving_def linked_def)
  ultimately have mv4: "moving d q d4" by (simp add: moving_def)
  show "moving d q d3"
    using moving_sync(1) [OF mv4 lk] mv4 run rm by (cases r2) auto
  show "dk_dirs (fs_disk d3) = {dk_dir (fs_disk d3)}" if "r = Inr ()"
    using moving_sync(2) [OF mv4 lk] run rm that by (cases r2) auto
qed

lemma ends_clean_synced:
  assumes inv: "power_inv d H p T b" and winv: "wal_inv wl d L" and small: "unat (wl_seg_seq wl) + 1 < 2 ^ 32"
    and last: "segs_of (dk_dir (fs_disk d)) = pre @ [(x, i)]" and st: "settled (fs_disk d) i"
  shows "ends_clean d (wl_seg_seq wl + 1)"
  unfolding ends_clean_def
proof (intro conjI allI impI)
  let ?k = "fs_disk d"
  have lk: "linked d" and sh: "shape ?k" using inv by (simp_all add: power_inv_def)
  have bw: "bm_wf (segs_of (dk_dir ?k))" using bm_wf_segs [OF dir_wf_bm [OF disk_wf_cur [OF power_inv_wf [OF inv]]]] .
  show "\<forall>(y, j)\<in>set (segs_of (dk_dir ?k)). y < segment_path (wl_seg_seq wl + 1) \<and> settled ?k j"
  proof clarify
    fix y j assume m: "(y, j) \<in> set (segs_of (dk_dir ?k))"
    then have "(y, dk_data ?k j) \<in> set (list_segments d)" using linked_segments [OF lk] by (auto simp: image_of_def)
    then have "y < segment_path (wl_seg_seq wl + 1)" using segs_below_next [OF winv small] by fastforce
    moreover have "(y, j) = (x, i) \<or> y < x" using m bw by (auto simp: last bm_wf_def sorted_wrt_append)
    then have "settled ?k j" using shapeD(1) [OF sh m, of x i] st last by auto
    ultimately show "y < segment_path (wl_seg_seq wl + 1) \<and> settled ?k j" ..
  qed
  show "\<exists>rs. list_all rec_ok rs \<and> c = seg_image rs" if "list_segments d = fl @ [(y, c)]" for fl y c
    using winv that by (auto simp: wal_inv_snoc log_is_def)
qed

text \<open>What a rotation leaves once the old segment is synced.\<close>

lemma power_rotate_synced:
  assumes inv0: "power_inv d0 H (length H) T b" and st0: "steady (segment_path (wl_seg_seq wl)) (fs_disk d0)"
    and ec: "ends_clean d0 (wl_seg_seq wl + 1)" and fresh: "\<not> fs_exists (segment_path (wl_seg_seq wl + 1)) d0"
    and usable: "\<not> wl_poisoned wl" and c1: "fs_create_new (segment_path (wl_seg_seq wl + 1)) d0 = (r1, d1)"
    and c2: "io_then (fs_write_all (segment_path (wl_seg_seq wl + 1)) segment_header d1)
      (fs_sync (Synced (segment_path (wl_seg_seq wl + 1)))) = (r2, d2)"
    and c3: "io_then (fs_remove (segment_path (wl_seg_seq wl + 1)) d2) (fs_sync SyncedDir) = (r3, d3)"
    and c4: "fs_sync SyncedDir d2 = (r4, d4)"
  shows "\<not> fs_exists (segment_path (wl_seg_seq wl + 1)) d1 \<Longrightarrow> power_log wl d1 H (length H) T b"
    and "power_inv d1 H (length H) T b"
    and "r1 = Inr () \<Longrightarrow> power_inv d3 H (length H) T b"
    and "r1 = Inr () \<Longrightarrow> r3 = Inr () \<Longrightarrow> dk_dirs (fs_disk d3) = {dk_dir (fs_disk d3)}"
    and "r1 = Inr () \<Longrightarrow> power_inv d4 H (length H) T b"
    and "r4 = Inr () \<Longrightarrow> dk_dirs (fs_disk d4) = {dk_dir (fs_disk d4)}"
proof -
  let ?q = "wl_seg_seq wl + 1"
  have lk: "linked d0" using inv0 by (simp add: power_inv_def)
  have lk1: "linked d1" using linked_calls(6) [OF lk c1] .
  note created = create_new_disk [OF c1]
  have mv: "power_inv d' H (length H) T b" if "moving d0 ?q d'" for d'
    using power_born [OF inv0 ec] that by (simp add: moving_def)
  have m1: "moving d0 ?q d1" if "fs_disk d1 = disk_step (Created (segment_path ?q)) (fs_disk d0)"
    using that lk1 born_created lk by (simp add: moving_def linked_def)
  show "power_inv d1 H (length H) T b" using created mv [OF m1] power_inv_cong [of d1 d0] inv0 by blast
  show "power_log wl d1 H (length H) T b" if "\<not> fs_exists (segment_path ?q) d1"
  proof -
    have "fs_files d1 = fs_files d0 \<and> fs_disk d1 = fs_disk d0"
      using created that linked_wf [OF lk] by (auto simp: fs_exists_def bm_get_insert)
    then show ?thesis using power_inv_cong [of d1 d0] inv0 st0 usable by (simp add: power_log_healthy)
  qed
  have m2: "moving d0 ?q d2" if "r1 = Inr ()" using moving_header [OF lk _ lk1 c2] created that by auto
  show "power_inv d3 H (length H) T b" if "r1 = Inr ()" using mv moving_removed(1) [OF m2 [OF that] lk fresh c3] .
  show "power_inv d4 H (length H) T b" if "r1 = Inr ()" using mv moving_sync(1) [OF m2 [OF that] lk c4] .
  show "dk_dirs (fs_disk d3) = {dk_dir (fs_disk d3)}" if "r1 = Inr ()" "r3 = Inr ()"
    using moving_removed(2) [OF m2 [OF that(1)] lk fresh c3 that(2)] .
  show "dk_dirs (fs_disk d4) = {dk_dir (fs_disk d4)}" if "r4 = Inr ()" using sync_disk [OF c4] that by (simp add: disk_step.simps)
qed

lemma power_rotate_next:
  assumes usable: "\<not> wl_poisoned wl" and small: "unat (wl_seg_seq wl) + 1 < 2 ^ 32" and winv: "wal_inv wl d L"
    and c0: "fs_sync (Synced (segment_path (wl_seg_seq wl))) d = (Inr (), d0)" and run: "rotate_segment wl d = (r, wl', d')"
    and inv0: "power_inv d0 H (length H) T b" and st0: "steady (segment_path (wl_seg_seq wl)) (fs_disk d0)"
    and ec: "ends_clean d0 (wl_seg_seq wl + 1)"
  shows "power_log wl' d' H (length H) T b"
proof -
  let ?path = "segment_path (wl_seg_seq wl + 1)"
  have nil: "list_all rec_ok []" by simp
  note spec = rotate_segment_spec [OF winv usable nil run]
  have winv0: "wal_inv wl d0 L" using winv wal_inv_files [OF sync_files [OF c0]] by simp
  then have wf0: "bm_wf (fs_files d0)" by (simp add: wal_inv_def log_is_def)
  have fresh: "\<not> fs_exists ?path d0" using fs_exists_segment [OF wf0] segs_below_next [OF winv0 small] by auto
  obtain r1 d1 where c1: "fs_create_new ?path d0 = (r1, d1)" by force
  obtain r2 d2 where c2: "io_then (fs_write_all ?path segment_header d1) (fs_sync (Synced ?path)) = (r2, d2)" by force
  obtain r3 d3 where c3: "io_then (fs_remove ?path d2) (fs_sync SyncedDir) = (r3, d3)" by force
  obtain r4 d4 where c4: "fs_sync SyncedDir d2 = (r4, d4)" by force
  note ps = power_rotate_synced [OF inv0 st0 ec fresh usable c1 c2 c3 c4]
  have "(r, wl', d') = (case r1 of Inl e \<Rightarrow> (Inl e, if fs_exists ?path d1 then wl\<lparr>wl_poisoned := True\<rparr> else wl, d1)
    | Inr _ \<Rightarrow> (case r2 of
        Inl e \<Rightarrow> (Inl e, if (\<exists>e. r3 = Inl e) then wl\<lparr>wl_poisoned := True\<rparr> else wl, d3)
      | Inr _ \<Rightarrow> (case r4 of Inl e \<Rightarrow> (Inl e, wl\<lparr>wl_poisoned := True\<rparr>, d4)
          | Inr _ \<Rightarrow> (Inr (wl_seg_seq wl + 1), wl\<lparr>wl_seg_seq := wl_seg_seq wl + 1, wl_seg_bytes := HEADER_LEN\<rparr>, d4))))"
    using run usable c0 c1 c2 c3 c4 small by (auto simp: rotate_segment_def check_usable_def Let_def split: sum.splits)
  then have "(\<exists>e. r = Inl e) \<and> wl_poisoned wl' \<and> (d' = d1 \<or> r1 = Inr () \<and> (d' = d3 \<or> d' = d4))
    \<or> (\<exists>e. r = Inl e) \<and> wl' = wl \<and> (d' = d1 \<and> \<not> fs_exists ?path d1 \<or> r1 = Inr () \<and> r3 = Inr () \<and> d' = d3)
    \<or> (\<exists>n. r = Inr n) \<and> r1 = Inr () \<and> r4 = Inr () \<and> d' = d4"
    by (cases r1; cases r2; cases r3; cases r4) (simp_all split: if_splits)
  then show ?thesis
  proof (elim disjE conjE exE)
    fix n assume n: "r = Inr n" "r1 = Inr ()" "r4 = Inr ()" "d' = d4"
    then have "wal_inv wl' d4 (L @ [(n, [])])" "\<not> wl_poisoned wl'" using spec(1) by auto
    then show ?thesis using ps(5,6) n steady_synced_dir by (simp add: power_log_healthy power_inv_def)
  next
    fix e assume n: "r = Inl e" "wl' = wl" "r1 = Inr ()" "r3 = Inr ()" "d' = d3"
    then have "wal_inv wl d3 L" using spec(2) usable by (metis wal.select_convs(4) wal.surjective wal.update_convs(4))
    then show ?thesis using ps(3,4) n steady_synced_dir usable by (simp add: power_log_healthy power_inv_def)
  qed (use ps in \<open>auto simp: power_log_poisoned\<close>)
qed

lemma power_rotate:
  assumes pl: "power_log wl d H p T b" and usable: "\<not> wl_poisoned wl" and winv: "wal_inv wl d L"
    and run: "rotate_segment wl d = (r, wl', d')"
  shows "\<exists>p' \<ge> p. power_log wl' d' H p' T b \<and> (\<forall>nxt. r = Inr nxt \<longrightarrow> p' = length H)"
proof -
  let ?x = "segment_path (wl_seg_seq wl)"
  have inv: "power_inv d H p T b" and st: "steady ?x (fs_disk d)" using pl usable by (simp_all add: power_log_healthy)
  have p: "p \<le> length H" using power_inv_p [OF inv] by simp
  obtain r0 d0 where c0: "fs_sync (Synced ?x) d = (r0, d0)" by force
  show ?thesis
  proof (cases r0)
    case (Inl e)
    then have "r = Inl e" "wl' = wl" "d' = d0" using run usable c0 by (auto simp: rotate_segment_def check_usable_def)
    moreover have "power_inv d0 H p T b" "steady ?x (fs_disk d0)" using power_sync [OF inv c0] st sync_disk [OF c0] Inl by simp_all
    ultimately show ?thesis using usable by (auto simp: power_log_healthy)
  next
    case (Inr u)
    then have c0': "fs_sync (Synced ?x) d = (Inr (), d0)" using c0 by simp
    obtain pre i where last: "segs_of (dk_dir (fs_disk d)) = pre @ [(?x, i)]" "bm_get (dk_dir (fs_disk d)) ?x = Some i"
      using inv st by (auto simp: power_inv_def elim: steady_last)
    have inv0: "power_inv d0 H (length H) T b" using inv c0' last(1) by (rule power_sync_last)
    have k0: "fs_disk d0 = disk_step (Synced ?x) (fs_disk d)" using sync_disk [OF c0'] by simp
    have st0: "steady ?x (fs_disk d0)" using steady_sync(1) [OF st power_inv_wf [OF inv]] k0 by simp
    have winv0: "wal_inv wl d0 L" using winv wal_inv_files [OF sync_files [OF c0']] by simp
    have "power_log wl' d' H (length H) T b"
    proof (cases "unat (wl_seg_seq wl) + 1 < 2 ^ 32")
      case False
      then have "wl' = wl" "d' = d0" using run usable c0' by (auto simp: rotate_segment_def check_usable_def)
      then show ?thesis using inv0 st0 usable by (simp add: power_log_healthy)
    next
      case True
      have "settled (fs_disk d0) i" using synced_simps(5) [OF power_inv_wf [OF inv] last(2)] k0 by simp
      moreover have "segs_of (dk_dir (fs_disk d0)) = pre @ [(?x, i)]"
        using synced_simps(1) [OF power_inv_wf [OF inv]] last(1) k0 by simp
      ultimately have "ends_clean d0 (wl_seg_seq wl + 1)" using ends_clean_synced [OF inv0 winv0 True] by blast
      then show ?thesis using power_rotate_next [OF usable True winv c0' run inv0 st0] by blast
    qed
    with p show ?thesis by blast
  qed
qed

subsection \<open>A group is appended\<close>

lemma power_append_many:
  assumes pl: "power_log wl d H p T b" and winv: "\<not> wl_poisoned wl \<Longrightarrow> wal_inv wl d L"
    and G: "list_all rec_ok (recs_of (length H) G)" "length H + length G < 2 ^ 64" "set G \<subseteq> T"
    and run: "append_many (recs_of (length H) G) wl d = (r, wl', d')"
  shows "\<exists>p' \<ge> p. case r of Inl _ \<Rightarrow> power_log wl' d' H p' T b
    | Inr _ \<Rightarrow> power_log wl' d' (H @ G) p' T b \<and> (G \<noteq> [] \<longrightarrow> p' = length (H @ G))"
proof (cases "wl_poisoned wl \<or> G = []")
  case True
  then have "wl' = wl \<and> d' = d \<and> (G = [] \<or> (\<exists>e. r = Inl e))"
    using run by (auto simp: append_many_def check_usable_def split: if_splits)
  then show ?thesis using pl by (intro exI [of _ p]) (auto split: sum.split)
next
  case False
  then have usable: "\<not> wl_poisoned wl" and ne: "recs_of (length H) G \<noteq> []" using length_recs_of [of "length H" G] by (auto simp del: length_recs_of)
  let ?F = "wal.frames (recs_of (length H) G)"
  have enc: "encode_group (recs_of (length H) G) = Inr ?F" using G(1) by (simp add: encode_group_Inr)
  have buf: "\<exists>p'' \<ge> p'. case r of Inl _ \<Rightarrow> power_log wl' d' H p'' T b
      | Inr _ \<Rightarrow> power_log wl' d' (H @ G) p'' T b \<and> (G \<noteq> [] \<longrightarrow> p'' = length (H @ G))"
    if "append_buffer ?F wl1 d1 = (r, wl', d')" "power_log wl1 d1 H p' T b" "\<not> wl_poisoned wl1" "wal_inv wl1 d1 L1" for wl1 d1 p' L1
  proof -
    have "p' \<le> length H" using that(2) by (auto simp: power_log_def)
    with power_append_buffer [OF that(2,3,4) G that(1)] show ?thesis
      by (cases r) (auto intro: exI [of _ "length (H @ G)"])
  qed
  show ?thesis
  proof (cases "wl_seg_bytes wl + length ?F > wl_max_seg_bytes wl \<and> wl_seg_bytes wl > HEADER_LEN")
    case big: True
    obtain r1 wl1 d1 where rot: "rotate_segment wl d = (r1, wl1, d1)" by (metis prod_cases3)
    obtain p' where p': "p \<le> p'" "power_log wl1 d1 H p' T b" using power_rotate [OF pl usable winv [OF usable] rot] by blast
    show ?thesis
    proof (cases r1)
      case (Inl e)
      then have "r = Inl e" "wl' = wl1" "d' = d1" using run usable ne enc big rot by (auto simp: append_many_def check_usable_def)
      with p' show ?thesis by auto
    next
      case (Inr n)
      have nil: "list_all rec_ok []" by simp
      have "wal_inv wl1 d1 (L @ [(n, [])])" "\<not> wl_poisoned wl1"
        using rotate_segment_spec(1) [OF winv [OF usable] usable nil rot Inr] by auto
      moreover have "append_buffer ?F wl1 d1 = (r, wl', d')"
        using run usable ne enc big rot Inr by (auto simp: append_many_def check_usable_def)
      ultimately show ?thesis using buf p' by (meson order_trans)
    qed
  next
    case False
    then have "append_buffer ?F wl d = (r, wl', d')" using run usable ne enc by (auto simp: append_many_def check_usable_def)
    then show ?thesis using buf [OF _ pl usable winv [OF usable]] by blast
  qed
qed

end
