(* ===== verification/Power_Open.thy ===== *)
theory Power_Open
  imports Power_Rotate
begin

text \<open>
  Power failures while a store is opened (\<^verbatim>\<open>Wal::open\<close> of \<^verbatim>\<open>src/wal.rs\<close>, \<^verbatim>\<open>open_with\<close> of \<^verbatim>\<open>src/engine.rs\<close>): the torn
  end of the last segment is cut, a first segment comes to be, the lock file is made. None of it changes what an image
  holds, and once the directory is synced every image ends with the segment the log is open on.
\<close>

subsection \<open>The torn end of the last segment\<close>

text \<open>
  In every image that has a torn segment it is the last one, so it can be exchanged for any content with the same
  records.
\<close>

lemma dir_inv_retail:
  assumes inv: "dir_inv (power_on (image_of N D)) H l" and wf: "dir_wf n N" and mem: "(x, i) \<in> set N" "segment_seq x \<noteq> None"
    and c: "tail_holds (D i) rs" "D i \<noteq> seg_image rs" and z: "tail_holds z rs"
  shows "dir_inv (power_on (image_of N (D(i := z)))) H l"
proof -
  let ?d = "power_on (image_of N D)"
  have m: "(x, D i) \<in> set (list_segments ?d)"
    using mem unfolding list_segments_image by (force simp: image_of_def segs_of_mem)
  then obtain Li q c' where Li: "log_ok Li" "list_segments ?d = files_of Li @ [(segment_path q, c')]"
    using inv unfolding dir_inv_tail dir_log_def last_segment_def by fastforce
  have "(x, D i) \<notin> set (files_of Li)"
  proof
    assume "(x, D i) \<in> set (files_of Li)"
    then obtain rs' where rs': "list_all rec_ok rs'" "D i = seg_image rs'" using Li(1) by (auto simp: files_of_def log_ok_def)
    then have "rs' = rs" using tail_holds_whole tail_holds_unique c(1) by metis
    with rs' c(2) show False by simp
  qed
  then have e: "x = segment_path q" "D i = c'" using m Li(2) by auto
  have "dir_inv (power_on (image_of N (D(i := z)))) (H @ []) l"
    by (rule dir_inv_last [OF inv Li(2), where rs = rs])
      (use c(1) z e inv image_upd_name [OF wf mem(1)] in \<open>simp_all add: dir_inv_def\<close>)
  then show ?thesis by simp
qed

lemma power_retail:
  assumes inv: "power_inv d H p T b" and last: "segs_of (dk_dir (fs_disk d)) = pre @ [(x, i)]"
    and c: "tail_holds (dk_data (fs_disk d) i) rs" "dk_data (fs_disk d) i \<noteq> seg_image rs"
    and lk: "linked d'" and k': "fs_disk d' = dk_modify x f g (fs_disk d)" "f (dk_data (fs_disk d) i) \<in> g (dk_data (fs_disk d) i)"
    and M: "\<And>z. z \<in> g (dk_data (fs_disk d) i) \<Longrightarrow> tail_holds z rs"
  shows "power_inv d' H p T b"
proof -
  let ?k = "fs_disk d"
  have wf: "disk_wf ?k" and sh: "shape ?k" and hold: "images_hold ?k H p T b" using inv by (simp_all add: power_inv_def linked_def)
  have mem: "(x, i) \<in> set (dk_dir ?k)" "segment_seq x \<noteq> None" using segs_of_mem [of x i "dk_dir ?k"] last by simp_all
  then have get: "bm_get (dk_dir ?k) x = Some i" using wf by (simp add: bm_get_mem disk_wf_def dir_wf_def)
  note ks = modify_simps [OF get, of f g]
  have "images_hold (fs_disk d') ((\<lambda>_. H) (f (dk_data ?k i))) p T b"
  proof (rule images_modify [OF wf sh hold last, where M = "g (dk_data ?k i)"])
    fix N D l z
    assume N: "N \<in> dk_dirs ?k" "i \<in> snd ` set N" and D: "D i = dk_data ?k i" and z: "z \<in> g (dk_data ?k i)"
      and old: "dir_inv (power_on (image_of N D)) H l"
    obtain y where y: "(y, i) \<in> set N" using N(2) by auto
    have "x \<noteq> SNAPSHOT_NAME" "x \<noteq> SNAPSHOT_PREV" using mem(2) by auto
    then have "(x, i) \<in> set N" using shapeD(2) [OF sh N(1) y mem(1)] y by blast
    then show "dir_inv (power_on (image_of N (D(i := z)))) H l"
      using dir_inv_retail [OF old disk_wf_dir [OF wf N(1)] _ mem(2)] c D M [OF z] by simp
  qed (use k' ks power_inv_p [OF inv] in auto)
  moreover have "shape (fs_disk d')" unfolding k'(1) by (rule shape_modify [OF wf sh get]) (use last in blast)
  ultimately show ?thesis using lk by (simp add: power_inv_def)
qed

lemma linked_last:
  assumes "linked d" and "list_segments d = fl @ [(x, c)]"
  obtains pre i where "segs_of (dk_dir (fs_disk d)) = pre @ [(x, i)]" and "dk_data (fs_disk d) i = c"
    and "bm_get (dk_dir (fs_disk d)) x = Some i"
proof -
  let ?k = "fs_disk d"
  have "image_of (segs_of (dk_dir ?k)) (dk_data ?k) = fl @ [(x, c)]" using linked_segments [OF assms(1)] assms(2) by simp
  then obtain pre i where last: "segs_of (dk_dir ?k) = pre @ [(x, i)]" "dk_data ?k i = c"
    by (cases "segs_of (dk_dir ?k)" rule: rev_cases) (auto simp: image_append image_of_def)
  have "(x, i) \<in> set (dk_dir ?k)" using segs_of_mem [of x i "dk_dir ?k"] last(1) by simp
  then have "bm_get (dk_dir ?k) x = Some i" using assms(1) by (simp add: bm_get_mem linked_def disk_wf_def dir_wf_def)
  with last that show thesis by blast
qed

lemma tail_holds_repair:
  assumes "tail_holds c rs"
  obtains "scan_segment (\<lambda>_ _. Inr ()) c () = Inr ((), None)" and "c = seg_image rs"
  | off where "scan_segment (\<lambda>_ _. Inr ()) c () = Inr ((), Some off)" and "off \<le> length c" and "c \<noteq> seg_image rs"
      and "tail_holds (take off c) rs" and "take off c = seg_image rs \<or> take off c = [] \<and> rs = []"
  using assms unfolding tail_holds_def
proof (elim disjE conjE exE)
  fix t assume t: "list_all rec_ok rs" "torn_tail t" "c = seg_image rs @ t"
  show thesis
  proof (cases "t = []")
    case True
    then show thesis using scan_torn_image [OF t(1,2)] t(3) that(1) by simp
  next
    case False
    then show thesis using scan_torn_image [OF t(1,2)] t(3) that(2) [of "length (seg_image rs)"] tail_holds_whole [OF t(1)] by simp
  qed
next
  fix m assume m: "rs = []" "m < HEADER_LEN" "c = take m segment_header"
  then have "length c < length (seg_image rs)" by (simp add: seg_image_def)
  then have "c \<noteq> seg_image rs" by auto
  with m show thesis using scan_half_header [of m "\<lambda>_ _. Inr ()" "()"] tail_holds_half [of 0] that(2) [of 0] by simp
qed

lemma power_repair:
  assumes inv: "power_inv d H p T b" and segs: "list_segments d = fl @ [(segment_path q, c)]" and c: "tail_holds c rs"
    and run: "repair_tail (segment_path q) d = (r, d')"
  shows "power_inv d' H p T b"
    and "r = Inr () \<Longrightarrow> list_segments d' = fl @ [(segment_path q, seg_image rs)]
      \<or> rs = [] \<and> list_segments d' = fl @ [(segment_path q, [])]"
proof -
  let ?x = "segment_path q" and ?k = "fs_disk d"
  have lk: "linked d" using inv by (simp add: power_inv_def)
  have wf: "bm_wf (fs_files d)" using linked_wf [OF lk] .
  have cont: "fs_content ?x d = c" and ex: "fs_exists ?x d" using segs_last_file [OF wf segs] by simp_all
  have sc: "scan_segment (\<lambda>_ _. Inr ()) c () = Inr ((), torn) \<Longrightarrow> (\<And>off. torn = Some off \<Longrightarrow> off \<le> length c)
      \<Longrightarrow> \<exists>c'. list_segments d' = fl @ [(?x, c')] \<and> (r = Inr () \<longrightarrow> c' = (case torn of None \<Rightarrow> c | Some off \<Rightarrow> take off c))" for torn
    by (rule repair_tail_cases [OF run wf segs]) blast+
  from c show "r = Inr () \<Longrightarrow> list_segments d' = fl @ [(?x, seg_image rs)] \<or> rs = [] \<and> list_segments d' = fl @ [(?x, [])]"
    by (cases rule: tail_holds_repair) (use sc in fastforce)+
  from c show "power_inv d' H p T b"
  proof (cases rule: tail_holds_repair)
    case 1
    then have "d' = d" using run cont by (simp add: repair_tail_def)
    with inv show ?thesis by simp
  next
    case (2 off)
    obtain pre i where last: "segs_of (dk_dir ?k) = pre @ [(?x, i)]" "dk_data ?k i = c" by (rule linked_last [OF lk segs])
    obtain r1 d1 where s1: "fs_set_len ?x off d = (r1, d1)" by force
    have lk1: "linked d1" using linked_calls(5) [OF lk ex s1] .
    have inv1: "power_inv d1 H p T b"
    proof (cases r1)
      case (Inl e)
      then have "fs_disk d1 = ?k" "fs_files d1 = fs_files d" using set_len_disk [OF s1] set_len_cases [OF s1] cont 2(2) by auto
      then show ?thesis using power_inv_cong [of d1 d] inv by simp
    next
      case (Inr u)
      then have k1: "fs_disk d1 = disk_step (Resized ?x off) ?k" using set_len_disk [OF s1] by simp
      show ?thesis
        by (rule power_retail [OF inv last(1) _ _ lk1 k1 [unfolded disk_step.simps]]) (use c 2 last(2) in simp_all)
    qed
    have "io_then (r1, d1) (fs_sync (Synced ?x)) = (r, d')" using run cont 2(1) s1 by (simp add: repair_tail_def)
    then show ?thesis using power_sync [OF inv1] inv1 by (cases r1) auto
  qed
qed

subsection \<open>The log is opened\<close>

lemma power_header:
  assumes inv: "power_inv d H p T b" and segs: "list_segments d = fl @ [(segment_path q, [])]"
    and run: "io_then (fs_write_all (segment_path q) segment_header d) (fs_sync (Synced (segment_path q))) = (r, d')"
  shows "power_inv d' H p T b"
proof -
  let ?x = "segment_path q" and ?k = "fs_disk d"
  have lk: "linked d" using inv by (simp add: power_inv_def)
  obtain pre i where last: "segs_of (dk_dir ?k) = pre @ [(?x, i)]" "dk_data ?k i = []" "bm_get (dk_dir ?k) ?x = Some i"
    by (rule linked_last [OF lk segs])
  obtain r1 d1 where s1: "fs_write_all ?x segment_header d = (r1, d1)" by force
  obtain n where n: "n \<le> length segment_header" "fs_disk d1 = disk_step (Wrote ?x (take n segment_header)) ?k"
    using s1 by (rule write_disk) blast
  have "fs_exists ?x d" using linked_exists [OF lk] last(3) by blast
  then have lk1: "linked d1" using linked_calls(4) [OF lk _ s1] by blast
  have half: "tail_holds (take m segment_header) []" if "m \<le> n" for m using that n(1) by (intro tail_holds_half) simp
  have inv1: "power_inv d1 H p T b"
  proof (rule power_retail [OF inv last(1) _ _ lk1 n(2) [unfolded disk_step.simps]])
    show "tail_holds (dk_data ?k i) []" "dk_data ?k i \<noteq> seg_image []"
      using tail_holds_half [of 0] seg_image_length_ge [of "[]"] last(2) by (auto simp: HEADER_LEN_def)
  qed (use n(1) half last(2) in auto)
  show ?thesis using run s1 power_sync [OF inv1] inv1 by (cases r1) auto
qed

lemma power_open_finish:
  assumes inv: "power_inv d H p T b"
    and segs: "list_segments d = fl @ [(segment_path q, c)]" "c = [] \<or> c = seg_image rs" and run: "open_finish q mx d = (r, d')"
  shows "power_inv d' H p T b" and "r = Inr wl \<Longrightarrow> dk_dirs (fs_disk d') = {dk_dir (fs_disk d')}"
proof -
  let ?w = "if c = [] then io_then (fs_write_all (segment_path q) segment_header d) (fs_sync (Synced (segment_path q))) else (Inr (), d)"
  have lk: "linked d" using inv by (simp add: power_inv_def)
  have cont: "fs_content (segment_path q) d = c" using segs_last_file(1) [OF linked_wf [OF lk] segs(1)] .
  obtain r1 d1 where s1: "?w = (r1, d1)" by force
  obtain r2 d2 where s2: "io_then (r1, d1) (fs_sync SyncedDir) = (r2, d2)" by force
  have out: "d' = d2" "r = Inr wl \<Longrightarrow> r2 = Inr ()"
    using run cont s1 s2 by (auto simp: open_finish_def Let_def split: sum.splits)
  have inv1: "power_inv d1 H p T b"
  proof (cases "c = []")
    case True
    then show ?thesis using power_header [OF inv] segs(1) s1 by auto
  qed (use s1 inv in simp)
  show "power_inv d' H p T b" using s2 out(1) power_sync_dir [OF inv1] inv1 by (cases r1) auto
  show "dk_dirs (fs_disk d') = {dk_dir (fs_disk d')}" if "r = Inr wl"
    using s2 out(1) out(2) [OF that] sync_disk [of SyncedDir d1] by (cases r1) (auto simp: disk_step.simps)
qed

lemma power_open_none:
  assumes inv: "power_inv d H p T b" and segs: "list_segments d = []" and run: "wal_open mx d = (r, d')"
  shows "power_inv d' H p T b" and "r = Inr wl \<Longrightarrow> dk_dirs (fs_disk d') = {dk_dir (fs_disk d')}"
proof -
  let ?x = "segment_path 1"
  have lk: "linked d" using inv by (simp add: power_inv_def)
  have wf: "bm_wf (fs_files d)" using linked_wf [OF lk] .
  have ex: "\<not> fs_exists ?x d" using fs_exists_segment [OF wf, of 1] segs by simp
  have "segs_of (dk_dir (fs_disk d)) = []" using linked_segments [OF lk] segs by (simp add: image_of_def)
  then have ec: "ends_clean d 1" by (simp add: ends_clean_def segs)
  obtain r2 d2 where c2: "fs_open_create ?x d = (r2, d2)" by force
  have fin: "io_then (r2, d2) (open_finish 1 mx) = (r, d')"
    using run c2 ex by (simp add: wal_open_phases [of 1 d] segs)
  have lk2: "linked d2" using linked_calls(7) [OF lk c2] .
  have inv2: "power_inv d2 H p T b"
    using open_create_disk [OF c2]
  proof (elim disjE conjE)
    assume "fs_disk d2 = disk_step (Created ?x) (fs_disk d)"
    then show ?thesis using power_born [OF inv ec lk2] born_created [OF power_inv_wf [OF inv]] by simp
  qed (use inv power_inv_cong [of d2 d] in simp)
  have segs2: "list_segments d2 = [] @ [(?x, [])]" if "r2 = Inr ()"
    using open_create_cases [OF c2] ex that list_segments_set [OF wf, of 1 "[]"] segs by (simp add: list_segments_def fs_set_def)
  note fi = power_open_finish [OF inv2, of "[]" 1 "[]" _ mx r d']
  show "power_inv d' H p T b" using fin inv2 fi(1) segs2 by (cases r2) auto
  show "dk_dirs (fs_disk d') = {dk_dir (fs_disk d')}" if "r = Inr wl"
    using fin fi(2) segs2 that by (cases r2) auto
qed

lemma power_open_last:
  assumes inv: "power_inv d H p T b" and segs: "list_segments d = fl @ [(segment_path q, c)]" and c: "tail_holds c rs"
    and run: "wal_open mx d = (r, d')"
  shows "power_inv d' H p T b" and "r = Inr wl \<Longrightarrow> dk_dirs (fs_disk d') = {dk_dir (fs_disk d')}"
proof -
  let ?x = "segment_path q"
  have lk: "linked d" using inv by (simp add: power_inv_def)
  have ex: "fs_exists ?x d" using segs_last_file(2) [OF linked_wf [OF lk] segs] .
  obtain r1 d1 where c1: "repair_tail ?x d = (r1, d1)" by force
  obtain r2 d2 where c2: "io_then (r1, d1) (fs_open_create ?x) = (r2, d2)" by force
  have fin: "io_then (r2, d2) (open_finish q mx) = (r, d')"
    using run c1 c2 ex by (simp add: wal_open_phases [of q d] segs)
  note inv1 = power_repair [OF inv segs c c1]
  have same: "power_inv d2 H p T b \<and> list_segments d2 = list_segments d1"
  proof (cases r1)
    case (Inr u)
    then have c2': "fs_open_create ?x d1 = (r2, d2)" and ok: "r1 = Inr ()" using c2 by simp_all
    then have "fs_exists ?x d1" using inv1 segs_last_file(2) [OF linked_wf, of d1] by (auto simp: power_inv_def)
    then have "fs_disk d2 = fs_disk d1" "fs_files d2 = fs_files d1" using open_create_disk [OF c2'] by auto
    then show ?thesis using inv1(1) power_inv_cong [of d2 d1] by (simp add: list_segments_def)
  qed (use c2 inv1 in auto)
  have ok1: "r1 = Inr ()" if "r2 = Inr ()" using c2 that by (cases r1) auto
  have segs2: "\<exists>c'. list_segments d2 = fl @ [(?x, c')] \<and> (c' = [] \<or> c' = seg_image rs)" if "r2 = Inr ()"
    using inv1(2) [OF ok1 [OF that]] same by auto
  have fi: "power_inv d' H p T b \<and> (\<forall>wl. r = Inr wl \<longrightarrow> dk_dirs (fs_disk d') = {dk_dir (fs_disk d')})" if ok: "r2 = Inr ()"
  proof -
    obtain c' where "list_segments d2 = fl @ [(?x, c')]" "c' = [] \<or> c' = seg_image rs" using segs2 [OF ok] by blast
    moreover have "open_finish q mx d2 = (r, d')" using fin ok by simp
    ultimately show ?thesis using power_open_finish [OF conjunct1 [OF same]] by blast
  qed
  show "power_inv d' H p T b" using fin same fi by (cases r2) auto
  show "dk_dirs (fs_disk d') = {dk_dir (fs_disk d')}" if "r = Inr wl" using fin fi that by (cases r2) auto
qed

lemma power_wal_open:
  assumes inv: "power_inv d H p T b" and run: "wal_open mx d = (r, d')"
  shows "power_inv d' H p T b" and "r = Inr wl \<Longrightarrow> power_log wl d' H p T b"
proof -
  obtain l where l: "dir_inv d H l" by (rule power_inv_dir [OF inv])
  obtain L where L: "torn_log d L" using l by (auto simp: dir_inv_def)
  have dl: "dir_log d (recs_of l (drop l H))" using l by (simp add: dir_inv_tail)
  have both: "power_inv d' H p T b \<and> (\<forall>wl. r = Inr wl \<longrightarrow> dk_dirs (fs_disk d') = {dk_dir (fs_disk d')})"
  proof (cases "list_segments d = []")
    case True
    then show ?thesis using power_open_none [OF inv _ run] by blast
  next
    case False
    then obtain fl q c rs where "list_segments d = fl @ [(segment_path q, c)]" "tail_holds c rs"
      using dl by (auto simp: dir_log_def last_segment_def)
    then show ?thesis using power_open_last [OF inv _ _ run] by blast
  qed
  then show i: "power_inv d' H p T b" by simp
  show "power_log wl d' H p T b" if ok: "r = Inr wl"
  proof -
    obtain L' where "wal_inv wl d' L'" "\<not> wl_poisoned wl" using wal_open_spec [OF L run] ok by blast
    with both i steady_synced_dir [of d' wl L'] ok show ?thesis by (simp add: power_log_healthy power_inv_def)
  qed
qed

subsection \<open>The store is opened\<close>

lemma power_lock_dir:
  assumes inv: "power_inv d H p T b" and run: "lock_dir lk d = (r, d')"
  shows "power_inv d' H p T b"
proof -
  obtain r1 d1 where c1: "fs_open_create LOCK_NAME d = (r1, d1)" by force
  have h: "disk_wf (fs_disk d)" "shape (fs_disk d)" "images_hold (fs_disk d) H p T b" "linked d"
    using inv by (simp_all add: power_inv_def linked_def)
  have n: "\<not> relevant LOCK_NAME" "LOCK_NAME \<noteq> SNAPSHOT_NAME" "LOCK_NAME \<noteq> SNAPSHOT_PREV" by (simp_all add: relevant_def)
  have "power_inv d1 H p T b"
    using open_create_disk [OF c1]
  proof (elim disjE conjE)
    assume "fs_disk d1 = disk_step (Created LOCK_NAME) (fs_disk d)"
    then show ?thesis
      using images_created [OF h(1,3) n(1)] shape_created [OF h(1,2) n(2,3)] linked_calls(7) [OF h(4) c1] n(1)
      by (simp add: power_inv_def relevant_def)
  qed (use inv power_inv_cong [of d1 d] in simp)
  moreover have "d' = d1" using run c1 by (cases r1; cases lk) (auto simp: lock_dir_def split: if_splits)
  ultimately show ?thesis by simp
qed

lemma power_open_locked:
  assumes inv: "power_inv d H p T b" and run: "open_locked opts d = (r, d')"
  shows "power_inv d' H p T b" and "r = Inr st \<Longrightarrow> power_log (st_wal st) d' H p T b"
proof -
  obtain r1 d1 where w: "wal_open (opt_wal_segment_size opts) d = (r1, d1)" by force
  have "d' = d \<and> (\<exists>e. r = Inl e) \<or> d' = d1 \<and> (\<forall>st. r = Inr st \<longrightarrow> r1 = Inr (st_wal st))"
    using run w by (auto simp: open_locked_def Let_def split: sum.splits prod.splits)
  then show "power_inv d' H p T b" "r = Inr st \<Longrightarrow> power_log (st_wal st) d' H p T b"
    using inv power_wal_open [OF inv w] by auto
qed

lemma power_open_with:
  assumes inv: "power_inv d H p T b" and run: "open_with opts lk d = (r, d')"
  shows "power_inv d' H p T b" and "r = Inr st \<Longrightarrow> power_log (st_wal st) d' H p T b"
proof -
  obtain r0 d0 where c0: "fs_call d = (r0, d0)" by force
  obtain r1 d1 where c1: "lock_dir lk d0 = (r1, d1)" by force
  obtain r2 d2 where c2: "open_locked opts d1 = (r2, d2)" by force
  have inv0: "power_inv d0 H p T b" by (rule power_call [OF inv c0])
  have inv1: "power_inv d1 H p T b" by (rule power_lock_dir [OF inv0 c1])
  show "power_inv d' H p T b" "r = Inr st \<Longrightarrow> power_log (st_wal st) d' H p T b"
    using run c0 c1 c2 inv0 inv1 power_open_locked [OF inv1 c2] by (cases r0; cases r1; auto simp: open_with_def)+
qed

end
