(* ===== verification/Power_Ckpt.thy ===== *)
theory Power_Ckpt
  imports Power_Log
begin

text \<open>
  Power failures while a checkpoint is written (\<^verbatim>\<open>write\<close> of \<^verbatim>\<open>src/checkpoint.rs\<close>): the temporary file is synced before
  it gets the name of the latest one, so every image has a checkpoint that is whole, the new one or the old.
\<close>

subsection \<open>Steps that leave the images as they are\<close>

definition quiet :: "fs \<Rightarrow> fs \<Rightarrow> bool" where
  "quiet d d' \<longleftrightarrow> (\<forall>H p T b. power_inv d H p T b \<longrightarrow> power_inv d' H p T b)
     \<and> (linked d \<longrightarrow> (\<forall>x. steady x (fs_disk d) \<longrightarrow> steady x (fs_disk d')))"

lemma quiet_inv: "quiet d d' \<Longrightarrow> power_inv d H p T b \<Longrightarrow> power_inv d' H p T b"
  by (simp add: quiet_def)

lemma quiet_steady: "quiet d d' \<Longrightarrow> linked d \<Longrightarrow> steady x (fs_disk d) \<Longrightarrow> steady x (fs_disk d')"
  by (simp add: quiet_def)

lemma segs_of_other:
  assumes "segment_seq y = None"
  shows "segs_of (bm_insert y i N) = segs_of N" and "segs_of (bm_remove y N) = segs_of N"
  using assms by (induction N) (auto simp: segs_of_def bm_remove_def)

lemma steady_new_dir:
  assumes "steady x k" and "disk_wf k" and "dk_dirs k' \<subseteq> insert N (dk_dirs k)" and "segs_of N = segs_of (dk_dir k)"
  shows "steady x k'"
proof -
  obtain i where i: "\<And>N. N \<in> dk_dirs k \<Longrightarrow> \<exists>pre. segs_of N = pre @ [(x, i)]" using assms(1) unfolding steady_def by blast
  have "dk_dir k \<in> dk_dirs k" using assms(2) by (simp add: disk_wf_def)
  with i assms(3,4) show ?thesis unfolding steady_def by (metis insert_iff subsetD)
qed

lemma tmp_name [simp]: "\<not> relevant SNAPSHOT_TMP"
  by (simp add: relevant_def)

lemma quiet_sync:
  assumes "fs_sync ev d = (r, d')" and "ev = SyncedDir \<or> (\<exists>x. ev = Synced x)"
  shows "quiet d d'"
proof -
  have "steady x (fs_disk d')" if "linked d" "steady x (fs_disk d)" for x
    using assms steady_sync [OF that(2)] that sync_disk [OF assms(1)] by (cases r) (auto simp: linked_def)
  then show ?thesis using assms power_sync power_sync_dir unfolding quiet_def by blast
qed

lemma quiet_same:
  assumes "linked d" and "linked d'" and "fs_disk d' = fs_disk d"
  shows "quiet d d'"
proof -
  have "fs_files d' = fs_files d" using assms by (simp add: linked_def)
  then show ?thesis using power_inv_cong [of d' d] assms(3) by (simp add: quiet_def)
qed

lemma quiet_modify:
  assumes "linked d" and "linked d'" and "fs_disk d' = dk_modify SNAPSHOT_TMP f g (fs_disk d)"
  shows "quiet d d'"
proof (cases "bm_get (dk_dir (fs_disk d)) SNAPSHOT_TMP")
  case None
  then have "fs_disk d' = fs_disk d" using assms(3) by (simp add: dk_modify_def)
  then show ?thesis by (rule quiet_same [OF assms(1,2)])
next
  case (Some i)
  have wf: "disk_wf (fs_disk d)" using assms(1) by (simp add: linked_def)
  have "power_inv d' H p T b" if "power_inv d H p T b" for H p T b
    using that assms images_modify_other [OF wf _ _ tmp_name Some] shape_modify [OF wf _ Some]
    by (simp add: power_inv_def)
  moreover have "steady x (fs_disk d')" if "steady x (fs_disk d)" for x
    using that by (simp add: steady_def assms(3) modify_simps [OF Some])
  ultimately show ?thesis by (simp add: quiet_def)
qed

lemma quiet_created:
  assumes "linked d" and "linked d'" and "fs_disk d' = disk_step (Created SNAPSHOT_TMP) (fs_disk d)"
  shows "quiet d d'"
proof -
  have wf: "disk_wf (fs_disk d)" using assms(1) by (simp add: linked_def)
  have "power_inv d' H p T b" if "power_inv d H p T b" for H p T b
    using that assms images_created [OF wf _ tmp_name] shape_created [OF wf, of SNAPSHOT_TMP]
    by (simp add: power_inv_def)
  moreover have "steady x (fs_disk d')" if "steady x (fs_disk d)" for x
    by (rule steady_new_dir [OF that wf, where N = "bm_insert SNAPSHOT_TMP (dk_next (fs_disk d)) (dk_dir (fs_disk d))"])
      (simp_all add: assms(3) created_simps segs_of_other)
  ultimately show ?thesis by (simp add: quiet_def)
qed

lemma quiet_truncate:
  assumes "linked d" and "fs_open_truncate SNAPSHOT_TMP d = (r, d')"
  shows "quiet d d'" and "linked d'" and "r = Inr () \<Longrightarrow> fs_exists SNAPSHOT_TMP d' \<and> fs_content SNAPSHOT_TMP d' = []"
proof -
  show lk: "linked d'" using linked_calls(8) [OF assms] .
  note k = open_truncate_disk [OF assms(2)]
  show "quiet d d'"
  proof (cases r)
    case (Inl e)
    then show ?thesis using k quiet_same [OF assms(1) lk] by simp
  next
    case (Inr u)
    then show ?thesis using k quiet_created [OF assms(1) lk] quiet_modify [OF assms(1) lk]
      by (cases "fs_exists SNAPSHOT_TMP d") (simp_all add: disk_step.simps(3))
  qed
  show "fs_exists SNAPSHOT_TMP d' \<and> fs_content SNAPSHOT_TMP d' = []" if "r = Inr ()"
    using assms that linked_wf [OF assms(1)]
    by (auto simp: fs_open_truncate_def fs_exists_def fs_content_def bm_get_insert split: prod.splits io_outcome.splits)
qed

lemma quiet_write:
  assumes "linked d" and "fs_exists SNAPSHOT_TMP d" and "fs_write_all SNAPSHOT_TMP buf d = (r, d')"
  shows "quiet d d'" and "linked d'" and "fs_exists SNAPSHOT_TMP d'"
    and "r = Inr () \<Longrightarrow> fs_content SNAPSHOT_TMP d' = fs_content SNAPSHOT_TMP d @ buf"
proof -
  show lk: "linked d'" using linked_calls(4) [OF assms] .
  obtain n where "fs_disk d' = disk_step (Wrote SNAPSHOT_TMP (take n buf)) (fs_disk d)" using assms(3) by (rule write_disk) blast
  then show "quiet d d'" using quiet_modify [OF assms(1) lk] by (simp add: disk_step.simps(2))
  show "fs_exists SNAPSHOT_TMP d'" "r = Inr () \<Longrightarrow> fs_content SNAPSHOT_TMP d' = fs_content SNAPSHOT_TMP d @ buf"
    using assms linked_wf [OF assms(1)]
    by (auto simp: fs_write_all_def fs_exists_def fs_content_def bm_get_insert split: prod.splits io_outcome.splits)
qed

subsection \<open>The renames\<close>

lemma image_load:
  assumes inv: "power_inv d H p T b" and x: "x = SNAPSHOT_NAME \<or> x = SNAPSHOT_PREV" and D: "choice (fs_disk d) D"
  shows "load_file x (power_on (image_of (dk_dir (fs_disk d)) D)) = load_file x d"
proof (rule load_file_cong)
  let ?k = "fs_disk d"
  have "map_option D (bm_get (dk_dir ?k) x) = map_option (dk_data ?k) (bm_get (dk_dir ?k) x)"
  proof (cases "bm_get (dk_dir ?k) x")
    case (Some i)
    then have "settled ?k i" using shapeD(3) [of ?k x i] inv x by (simp add: power_inv_def map_of_SomeD)
    with Some settled_choice [OF _ D] show ?thesis by simp
  qed simp
  then show "file_at (power_on (image_of (dk_dir ?k) D)) x = file_at d x"
    using inv by (simp add: file_at_def bm_get_image power_inv_def linked_def)
qed

text \<open>A rename among the checkpoint files whose source is settled.\<close>

lemma power_rename:
  assumes inv: "power_inv d H p T b" and run: "fs_rename x y d = (r, d')"
    and xy: "x = SNAPSHOT_NAME \<and> y = SNAPSHOT_PREV \<or> x = SNAPSHOT_TMP \<and> y = SNAPSHOT_NAME"
    and st: "\<And>i. bm_get (dk_dir (fs_disk d)) x = Some i \<Longrightarrow> settled (fs_disk d) i"
    and step: "\<And>i D H' l. bm_get (dk_dir (fs_disk d)) x = Some i \<Longrightarrow> choice (fs_disk d) D \<Longrightarrow> l \<le> b
      \<Longrightarrow> dir_inv (power_on (image_of (dk_dir (fs_disk d)) D)) H' l \<Longrightarrow> p \<le> length H' \<Longrightarrow> take p H' = take p H
      \<Longrightarrow> dir_inv (power_on (bm_insert y (D i) (bm_remove x (image_of (dk_dir (fs_disk d)) D)))) H' l"
  shows "power_inv d' H p T b" and "steady z (fs_disk d) \<Longrightarrow> steady z (fs_disk d')"
proof -
  let ?k = "fs_disk d"
  have lk: "linked d" and wf: "disk_wf ?k" and sh: "shape ?k" and hold: "images_hold ?k H p T b"
    using inv by (simp_all add: power_inv_def linked_def)
  have lk': "linked d'" using linked_calls(10) [OF lk run] .
  note k = rename_disk [OF run]
  have both: "power_inv d' H p T b \<and> (\<forall>z. steady z ?k \<longrightarrow> steady z (fs_disk d'))"
  proof (cases "\<exists>i. r = Inr () \<and> bm_get (dk_dir ?k) x = Some i")
    case False
    then have "fs_disk d' = ?k" using k by (cases r) (auto simp: disk_step.simps split: option.split)
    from quiet_same [OF lk lk' this] inv lk show ?thesis by (simp add: quiet_def)
  next
    case True
    then obtain i where i: "r = Inr ()" "bm_get (dk_dir ?k) x = Some i" by blast
    let ?N = "bm_insert y i (bm_remove x (dk_dir ?k))"
    have k': "fs_disk d' = dk_rename ?N ?k" using k i by (simp add: disk_step.simps)
    have segs: "segs_of ?N = segs_of (dk_dir ?k)" using xy by (auto simp: segs_of_other)
    have "images_hold (fs_disk d') H p T b"
      by (rule images_renamed [OF hold wf, where N = ?N and f = "\<lambda>l. l"])
        (use step [OF i(2)] in \<open>simp_all add: k' renamed_simps agree_def segs image_insert image_remove\<close>)
    moreover have "shape (fs_disk d')"
      using shape_renamed [OF wf sh i(2) st [OF i(2)] xy] k i(1) by simp
    moreover have "steady z (fs_disk d')" if "steady z ?k" for z
      by (rule steady_new_dir [OF that wf _ segs]) (simp add: k' renamed_simps)
    ultimately show ?thesis using lk' by (simp add: power_inv_def)
  qed
  then show "power_inv d' H p T b" and "steady z ?k \<Longrightarrow> steady z (fs_disk d')" by simp_all
qed

lemma power_demote:
  assumes inv: "power_inv d H p T b" and lat: "latest d \<noteq> Inl InvalidData" and run: "fs_rename SNAPSHOT_NAME SNAPSHOT_PREV d = (r, d')"
  shows "power_inv d' H p T b" and "steady z (fs_disk d) \<Longrightarrow> steady z (fs_disk d')"
proof -
  let ?k = "fs_disk d"
  have st: "settled ?k i" if "bm_get (dk_dir ?k) SNAPSHOT_NAME = Some i" for i
    using inv shapeD(3) [of ?k SNAPSHOT_NAME i] that by (simp add: power_inv_def map_of_SomeD)
  have step: "dir_inv (power_on (bm_insert SNAPSHOT_PREV (D i) (bm_remove SNAPSHOT_NAME (image_of (dk_dir ?k) D)))) H' l"
    if "bm_get (dk_dir ?k) SNAPSHOT_NAME = Some i" "choice ?k D" "dir_inv (power_on (image_of (dk_dir ?k) D)) H' l" for i D H' l
    by (rule dir_inv_demote [OF that(3)])
      (use that lat image_load [OF inv _ that(2)] in \<open>simp_all add: file_at_def bm_get_image\<close>)
  show "power_inv d' H p T b" and "steady z ?k \<Longrightarrow> steady z (fs_disk d')"
    using power_rename [OF inv run _ st] step by blast+
qed

lemma power_publish:
  assumes inv: "power_inv d H p T b" and c: "b \<le> c" "c \<le> p" and fits: "snapshot_fits (snap_of (take c H))"
    and tmp: "\<And>i. bm_get (dk_dir (fs_disk d)) SNAPSHOT_TMP = Some i
      \<Longrightarrow> settled (fs_disk d) i \<and> dk_data (fs_disk d) i = ckpt_image (snap_of (take c H))"
    and run: "fs_rename SNAPSHOT_TMP SNAPSHOT_NAME d = (r, d')"
  shows "power_inv d' H p T b" and "steady z (fs_disk d) \<Longrightarrow> steady z (fs_disk d')"
proof -
  let ?k = "fs_disk d"
  have step: "dir_inv (power_on (bm_insert SNAPSHOT_NAME (D i) (bm_remove SNAPSHOT_TMP (image_of (dk_dir ?k) D)))) H' l"
    if i: "bm_get (dk_dir ?k) SNAPSHOT_TMP = Some i" and D: "choice ?k D" and l: "l \<le> b"
      and old: "dir_inv (power_on (image_of (dk_dir ?k) D)) H' l" and H': "p \<le> length H'" "take p H' = take p H" for i D l H'
  proof (rule dir_inv_publish(1) [OF old])
    have "take c H' = take c H" using arg_cong [OF H'(2), of "take c"] c(2) by (simp add: min.absorb1)
    then show "snapshot_fits (snap_of (take c H'))"
      and "fs_files (power_on (bm_insert SNAPSHOT_NAME (D i) (bm_remove SNAPSHOT_TMP (image_of (dk_dir ?k) D)))) =
        bm_insert SNAPSHOT_NAME (ckpt_image (snap_of (take c H'))) (bm_remove SNAPSHOT_TMP (fs_files (power_on (image_of (dk_dir ?k) D))))"
      using fits tmp [OF i] settled_choice [OF _ D, of i] by simp_all
  qed (use l c H' in simp_all)
  show "power_inv d' H p T b" and "steady z ?k \<Longrightarrow> steady z (fs_disk d')"
    using power_rename [OF inv run] tmp step by blast+
qed

subsection \<open>The whole write\<close>

definition tmp_ready :: "fs \<Rightarrow> bytes \<Rightarrow> bool" where
  "tmp_ready d c \<longleftrightarrow> (\<forall>i. bm_get (dk_dir (fs_disk d)) SNAPSHOT_TMP = Some i \<longrightarrow> settled (fs_disk d) i \<and> dk_data (fs_disk d) i = c)"

lemma tmp_ready_demoted:
  assumes "tmp_ready d c" and "linked d" and "fs_rename SNAPSHOT_NAME SNAPSHOT_PREV d = (r, d')"
  shows "tmp_ready d' c"
proof (cases "\<exists>i. r = Inr () \<and> bm_get (dk_dir (fs_disk d)) SNAPSHOT_NAME = Some i")
  case False
  then have "fs_disk d' = fs_disk d" using rename_disk [OF assms(3)] by (cases r) (auto simp: disk_step.simps split: option.split)
  then show ?thesis using assms(1) by (simp add: tmp_ready_def)
next
  case True
  then obtain i where "fs_disk d' = dk_rename (bm_insert SNAPSHOT_PREV i (bm_remove SNAPSHOT_NAME (dk_dir (fs_disk d)))) (fs_disk d)"
    using rename_disk [OF assms(3)] by (auto simp: disk_step.simps)
  then show ?thesis using assms(1) by (simp add: tmp_ready_def renamed_simps bm_get_insert_other bm_get_remove)
qed

lemma power_ckpt_publish:
  assumes inv: "power_inv d H p T b" and c: "b \<le> c" "c \<le> p" and fits: "snapshot_fits (snap_of (take c H))"
    and lat: "rep = Retain \<Longrightarrow> latest d \<noteq> Inl InvalidData" and tmp: "tmp_ready d (ckpt_image (snap_of (take c H)))"
    and run: "io_then (if rep = Retain \<and> fs_exists SNAPSHOT_NAME d then fs_rename SNAPSHOT_NAME SNAPSHOT_PREV d else (Inr (), d))
      (\<lambda>d. io_then (fs_rename SNAPSHOT_TMP SNAPSHOT_NAME d) (fs_sync SyncedDir)) = (r, d')"
  shows "power_inv d' H p T b" and "steady z (fs_disk d) \<Longrightarrow> steady z (fs_disk d')"
    and "r = Inr () \<Longrightarrow> dk_dirs (fs_disk d') = {dk_dir (fs_disk d')}"
proof -
  obtain r1 d1 where c1: "(if rep = Retain \<and> fs_exists SNAPSHOT_NAME d then fs_rename SNAPSHOT_NAME SNAPSHOT_PREV d else (Inr (), d)) = (r1, d1)"
    by force
  obtain r2 d2 where c2: "fs_rename SNAPSHOT_TMP SNAPSHOT_NAME d1 = (r2, d2)" by force
  obtain r3 d3 where c3: "fs_sync SyncedDir d2 = (r3, d3)" by force
  have lk: "linked d" using inv by (simp add: power_inv_def)
  have s1: "power_inv d1 H p T b \<and> (\<forall>z. steady z (fs_disk d) \<longrightarrow> steady z (fs_disk d1)) \<and> tmp_ready d1 (ckpt_image (snap_of (take c H)))"
  proof (cases "rep = Retain \<and> fs_exists SNAPSHOT_NAME d")
    case True
    then have c1': "fs_rename SNAPSHOT_NAME SNAPSHOT_PREV d = (r1, d1)" using c1 by simp
    show ?thesis using power_demote [OF inv _ c1'] True lat tmp_ready_demoted [OF tmp lk c1'] by blast
  qed (use c1 inv tmp in auto)
  have s2: "power_inv d2 H p T b \<and> (\<forall>z. steady z (fs_disk d) \<longrightarrow> steady z (fs_disk d2))"
    using power_publish [OF _ c fits _ c2] s1 unfolding tmp_ready_def by blast
  have s3: "power_inv d3 H p T b \<and> (\<forall>z. steady z (fs_disk d) \<longrightarrow> steady z (fs_disk d3))"
    using quiet_sync [OF c3] s2 by (auto simp: quiet_def power_inv_def)
  have "d' = d1 \<or> d' = d2 \<or> d' = d3" "r = Inr () \<Longrightarrow> d' = d3 \<and> r3 = Inr ()"
    using run c1 c2 c3 by (cases r1; cases r2; auto)+
  then show "power_inv d' H p T b" and "steady z (fs_disk d) \<Longrightarrow> steady z (fs_disk d')"
    and "r = Inr () \<Longrightarrow> dk_dirs (fs_disk d') = {dk_dir (fs_disk d')}"
    using s1 s2 s3 sync_disk [OF c3] by (auto simp: disk_step.simps)
qed

lemma power_ckpt_body:
  assumes inv: "power_inv d H p T b" and c: "b \<le> c" "c \<le> p" and fits: "snapshot_fits (snap_of (take c H))"
    and lat: "rep = Retain \<Longrightarrow> latest d \<noteq> Inl InvalidData"
    and tmp: "fs_exists SNAPSHOT_TMP d" "fs_content SNAPSHOT_TMP d = []"
    and run: "io_then (fs_write_all SNAPSHOT_TMP (ckpt_image (snap_of (take c H))) d) (\<lambda>d. io_then (fs_sync (Synced SNAPSHOT_TMP) d) (\<lambda>d.
        io_then (if rep = Retain \<and> fs_exists SNAPSHOT_NAME d then fs_rename SNAPSHOT_NAME SNAPSHOT_PREV d else (Inr (), d))
      (\<lambda>d. io_then (fs_rename SNAPSHOT_TMP SNAPSHOT_NAME d) (fs_sync SyncedDir)))) = (r, d')"
  shows "power_inv d' H p T b" and "steady z (fs_disk d) \<Longrightarrow> steady z (fs_disk d')"
    and "r = Inr () \<Longrightarrow> dk_dirs (fs_disk d') = {dk_dir (fs_disk d')}"
proof -
  let ?c = "ckpt_image (snap_of (take c H))"
  obtain r1 d1 where c1: "fs_write_all SNAPSHOT_TMP ?c d = (r1, d1)" by force
  obtain r2 d2 where c2: "fs_sync (Synced SNAPSHOT_TMP) d1 = (r2, d2)" by force
  have lk: "linked d" using inv by (simp add: power_inv_def)
  note w = quiet_write [OF lk tmp(1) c1]
  have q2: "quiet d1 d2" using quiet_sync [OF c2] by blast
  have i1: "power_inv d1 H p T b" and i2: "power_inv d2 H p T b" using quiet_inv [OF w(1) inv] quiet_inv [OF q2] by simp_all
  have st: "steady z (fs_disk d1)" "steady z (fs_disk d2)" if "steady z (fs_disk d)" for z
    using quiet_steady [OF w(1) lk that] quiet_steady [OF q2 w(2)] by simp_all
  have "file_at d SNAPSHOT_TMP = Some []"
    using tmp by (cases "file_at d SNAPSHOT_TMP") (auto simp: fs_exists_def fs_content_def file_at_def)
  then have "file_at d1 SNAPSHOT_NAME = file_at d SNAPSHOT_NAME" using write_all_file [OF c1 linked_wf [OF lk]] by simp
  then have "latest d1 = latest d" by (rule load_file_cong)
  moreover have "latest d2 = latest d1" using sync_files [OF c2] by (simp add: load_file_def)
  ultimately have lat2: "rep = Retain \<Longrightarrow> latest d2 \<noteq> Inl InvalidData" using lat by simp
  have ready: "tmp_ready d2 ?c" if ok: "r1 = Inr ()" "r2 = Inr ()"
    unfolding tmp_ready_def
  proof (intro allI impI)
    fix i assume i: "bm_get (dk_dir (fs_disk d2)) SNAPSHOT_TMP = Some i"
    have wf: "disk_wf (fs_disk d1)" and k2: "fs_disk d2 = disk_step (Synced SNAPSHOT_TMP) (fs_disk d1)"
      using w(2) sync_disk [OF c2] ok by (simp_all add: linked_def)
    note s = synced_simps [OF wf, where x = SNAPSHOT_TMP]
    have i1: "bm_get (dk_dir (fs_disk d1)) SNAPSHOT_TMP = Some i" using i k2 s(1) by simp
    show "settled (fs_disk d2) i \<and> dk_data (fs_disk d2) i = ?c"
      using s(3,5) i1 k2 linked_content [OF w(2) i1] w(4) [OF ok(1)] tmp(2) by simp
  qed
  consider "d' = d1 \<or> d' = d2" "\<exists>e. r = Inl e" | "r1 = Inr ()" "r2 = Inr ()" "io_then (if rep = Retain \<and> fs_exists SNAPSHOT_NAME d2
      then fs_rename SNAPSHOT_NAME SNAPSHOT_PREV d2 else (Inr (), d2))
      (\<lambda>d. io_then (fs_rename SNAPSHOT_TMP SNAPSHOT_NAME d) (fs_sync SyncedDir)) = (r, d')"
    using run c1 c2 by (cases r1; cases r2) auto
  then have "power_inv d' H p T b \<and> (\<forall>z. steady z (fs_disk d) \<longrightarrow> steady z (fs_disk d'))
    \<and> (r = Inr () \<longrightarrow> dk_dirs (fs_disk d') = {dk_dir (fs_disk d')})"
  proof cases
    case 1
    then show ?thesis using i1 i2 st by auto
  next
    case 2
    from power_ckpt_publish [OF i2 c fits lat2 ready [OF 2(1,2)] 2(3)] st(2) show ?thesis by blast
  qed
  then show "power_inv d' H p T b" and "steady z (fs_disk d) \<Longrightarrow> steady z (fs_disk d')"
    and "r = Inr () \<Longrightarrow> dk_dirs (fs_disk d') = {dk_dir (fs_disk d')}" by simp_all
qed

lemma power_ckpt_write:
  assumes inv: "power_inv d H p T b" and c: "b \<le> c" "c \<le> p" and small: "length (sn_data (snap_of (take c H))) < 2 ^ 64"
    and lat: "rep = Retain \<Longrightarrow> latest d \<noteq> Inl InvalidData"
    and run: "ckpt_write (snap_of (take c H)) rep d = (r, d')"
  shows "power_inv d' H p T b" and "steady z (fs_disk d) \<Longrightarrow> steady z (fs_disk d')"
    and "r = Inr () \<Longrightarrow> dk_dirs (fs_disk d') = {dk_dir (fs_disk d')}"
proof -
  let ?snap = "snap_of (take c H)"
  have lk: "linked d" using inv by (simp add: power_inv_def)
  obtain r1 d1 where c1: "fs_open_truncate SNAPSHOT_TMP d = (r1, d1)" by force
  note o = quiet_truncate [OF lk c1]
  have i1: "power_inv d1 H p T b" by (rule quiet_inv [OF o(1) inv])
  have st1: "steady z (fs_disk d1)" if "steady z (fs_disk d)" for z by (rule quiet_steady [OF o(1) lk that])
  have lat1: "rep = Retain \<Longrightarrow> latest d1 \<noteq> Inl InvalidData"
    using lat open_truncate_file [OF c1 linked_wf [OF lk]] load_file_cong [of d1 SNAPSHOT_NAME d] by auto
  obtain rb sk where wb: "write_body ?snap ([], crc_new) = (rb, sk)" by (rule prod.exhaust)
  have "power_inv d' H p T b \<and> (\<forall>z. steady z (fs_disk d) \<longrightarrow> steady z (fs_disk d'))
    \<and> (r = Inr () \<longrightarrow> dk_dirs (fs_disk d') = {dk_dir (fs_disk d')})"
  proof (cases r1)
    case (Inl e)
    then have "d' = d1" "r = Inl e" using run c1 by (simp_all add: ckpt_write_def)
    then show ?thesis using i1 st1 by simp
  next
    case (Inr u)
    then have tmp: "fs_exists SNAPSHOT_TMP d1" "fs_content SNAPSHOT_TMP d1 = []" using o(3) by simp_all
    show ?thesis
    proof (cases rb)
      case (Inl e)
      obtain r2 d2 where c2: "fs_write_all SNAPSHOT_TMP (fst sk) d1 = (r2, d2)" by force
      have "d' = d2" "r = Inl e" using run c1 Inr wb Inl c2 by (simp_all add: ckpt_write_def)
      then show ?thesis using quiet_write(1) [OF o(2) tmp(1) c2] i1 st1 o(2) by (simp add: quiet_def)
    next
      case ok: (Inr v)
      then have fits: "list_all entry_fits (sn_data ?snap)"
        using wb write_entries_bad [of "sn_data ?snap"] by (metis Inl_Inr_False prod.inject write_body_def)
      have img: "fst sk @ u32_to_le (crc_finish (snd sk)) = ckpt_image ?snap"
        using wb write_body_ok [OF fits] by (auto simp: ckpt_image_def crc_finish_new)
      have sf: "snapshot_fits ?snap" using fits small snap_of_wf by (simp add: snapshot_fits_def)
      have "io_then (fs_write_all SNAPSHOT_TMP (ckpt_image ?snap) d1) (\<lambda>d. io_then (fs_sync (Synced SNAPSHOT_TMP) d) (\<lambda>d.
        io_then (if rep = Retain \<and> fs_exists SNAPSHOT_NAME d then fs_rename SNAPSHOT_NAME SNAPSHOT_PREV d else (Inr (), d))
        (\<lambda>d. io_then (fs_rename SNAPSHOT_TMP SNAPSHOT_NAME d) (fs_sync SyncedDir)))) = (r, d')"
        using run c1 Inr wb ok img by (simp add: ckpt_write_def)
      from power_ckpt_body [OF i1 c sf lat1 tmp this] st1 show ?thesis by blast
    qed
  qed
  then show "power_inv d' H p T b" and "steady z (fs_disk d) \<Longrightarrow> steady z (fs_disk d')"
    and "r = Inr () \<Longrightarrow> dk_dirs (fs_disk d') = {dk_dir (fs_disk d')}" by simp_all
qed

end
