(* ===== verification/Power_Reclaim.thy ===== *)
theory Power_Reclaim
  imports Power_Ckpt
begin

text \<open>
  Power failures while old segments are reclaimed (\<^verbatim>\<open>remove_segments_before\<close> of \<^verbatim>\<open>src/wal.rs\<close>, the end of \<^verbatim>\<open>checkpoint\<close>
  in \<^verbatim>\<open>src/engine.rs\<close>): segments go from the front, and both checkpoint generations that every image has by then cover
  what went.
\<close>

text \<open>Both generations are durable: the latest holds the first \<open>c\<close> commits, the previous one the first \<open>m\<close>.\<close>

definition both_cover :: "fs \<Rightarrow> history \<Rightarrow> nat \<Rightarrow> nat \<Rightarrow> bool" where
  "both_cover d H m c \<longleftrightarrow> m \<le> c \<and> latest d = Inr (Some (snap_of (take c H)))
     \<and> (previous d = Inr (Some (snap_of (take m H))) \<or> previous d = Inr None \<and> m = 0)"

lemma both_cover_ok:
  assumes "both_cover d H m c" and "c \<le> length H" and "lo \<le> m"
  shows "ck_ok d H lo"
proof -
  have "gen H lo (latest d)" using assms by (auto simp: both_cover_def gen_def intro!: exI [of _ c])
  moreover have "gen H lo (previous d)" using assms by (auto simp: both_cover_def gen_def intro!: exI [of _ m])
  ultimately show ?thesis using assms(1) by (simp add: both_cover_def ck_ok_def)
qed

lemma both_cover_image:
  assumes inv: "power_inv d H p T b" and bc: "both_cover d H m c" and c: "c \<le> p" and D: "choice (fs_disk d) D"
    and H': "take p H' = take p H"
  shows "both_cover (power_on (image_of (dk_dir (fs_disk d)) D)) H' m c"
proof -
  have "take n H' = take n H" if "n \<le> c" for n using arg_cong [OF H', of "take n"] that c by (simp add: min.absorb1)
  then show ?thesis using bc image_load [OF inv _ D] by (simp add: both_cover_def)
qed

lemma segs_of_remove: "segs_of (bm_remove x N) = bm_remove x (segs_of N)"
  by (simp add: segs_of_def bm_remove_def filter_filter conj_commute)

lemma image_Cons: "image_of ((x, i) # N) D = (x, D i) # image_of N D" "image_of N D = [] \<longleftrightarrow> N = []"
  by (simp_all add: image_of_def)

lemma linked_first:
  assumes "linked d" and "list_segments d = (x, c) # fl" and "fl \<noteq> []"
  obtains i rest where "segs_of (dk_dir (fs_disk d)) = (x, i) # rest" and "dk_data (fs_disk d) i = c" and "rest \<noteq> []"
    and "\<And>y j. (y, j) \<in> set rest \<Longrightarrow> x < y"
proof -
  let ?k = "fs_disk d"
  have "image_of (segs_of (dk_dir ?k)) (dk_data ?k) = (x, c) # fl" using linked_segments [OF assms(1)] assms(2) by simp
  then obtain i rest where s: "segs_of (dk_dir ?k) = (x, i) # rest" "dk_data ?k i = c" "image_of rest (dk_data ?k) = fl"
    by (cases "segs_of (dk_dir ?k)") (auto simp: image_of_def)
  have "bm_wf (segs_of (dk_dir ?k))" using assms(1) bm_wf_segs by (auto simp: linked_def disk_wf_def dir_wf_def)
  then have "x < y" if "(y, j) \<in> set rest" for y j using that s(1) by (auto simp: bm_wf_def)
  moreover have "rest \<noteq> []" using s(3) assms(3) by (auto simp: image_Cons)
  ultimately show thesis using s(1,2) that by blast
qed

text \<open>One segment goes.\<close>

lemma power_drop:
  assumes inv: "power_inv d H p T b" and segs: "list_segments d = (segment_path q, seg_image rs) # fl" "fl \<noteq> []" "list_all rec_ok rs"
    and bc: "both_cover d H m c" "c \<le> p" and idx: "\<forall>r \<in> set rs. unat (r_index r) \<le> m"
    and run: "fs_remove (segment_path q) d = (r, d')"
  shows "power_inv d' H p T (b + length rs)" and "steady z (fs_disk d) \<Longrightarrow> steady z (fs_disk d')"
proof -
  let ?k = "fs_disk d" and ?x = "segment_path q"
  have lk: "linked d" and wf: "disk_wf ?k" and sh: "shape ?k" and hold: "images_hold ?k H p T b"
    using inv by (simp_all add: power_inv_def linked_def)
  have lk': "linked d'" using linked_calls(9) [OF lk run] .
  obtain i rest where s: "segs_of (dk_dir ?k) = (?x, i) # rest" "dk_data ?k i = seg_image rs" "rest \<noteq> []"
      "\<And>y j. (y, j) \<in> set rest \<Longrightarrow> ?x < y" using lk segs(1,2) by (rule linked_first) blast
  obtain y j where y: "(y, j) \<in> set rest" using s(3) by (cases rest) auto
  have st: "settled ?k i" using shapeD(1) [OF sh, of ?x i y j] s(1,4) y by simp
  have "power_inv d' H p T (b + length rs) \<and> (\<forall>z. steady z ?k \<longrightarrow> steady z (fs_disk d'))"
  proof (cases r)
    case (Inl e)
    then have "quiet d d'" using quiet_same [OF lk lk'] remove_disk [OF run] by simp
    then show ?thesis using inv lk power_inv_mono [of d' H p T b p T "b + length rs"] by (simp add: quiet_def)
  next
    case (Inr u)
    let ?N = "bm_remove ?x (dk_dir ?k)"
    have k': "fs_disk d' = dk_rename ?N ?k" using remove_disk [OF run] Inr by (simp add: disk_step.simps)
    have "bm_wf ((?x, i) # rest)" using bm_wf_segs [OF dir_wf_bm [OF disk_wf_cur [OF wf]]] s(1) by simp
    then have sN: "segs_of ?N = rest" by (simp add: segs_of_remove s(1) bm_remove_first)
    have "images_hold (fs_disk d') H p T (b + length rs)"
    proof (rule images_renamed [OF hold wf, where N = ?N and f = "\<lambda>l. l + length rs"])
      show "agree ?k D" if "choice ?k D" "agree (fs_disk d') D" for D
        using that(2) settled_choice [OF st that(1)] by (simp add: agree_def k' renamed_simps sN s(1))
      fix D H' l
      assume D: "choice ?k D" and old: "dir_inv (power_on (image_of (dk_dir ?k) D)) H' l" and H': "p \<le> length H'" "take p H' = take p H"
      let ?d = "power_on (image_of (dk_dir ?k) D)"
      have ls: "list_segments ?d = (?x, seg_image rs) # image_of rest D" "image_of rest D \<noteq> []"
        using settled_choice [OF st D] s(1-3) by (simp_all add: list_segments_image image_Cons)
      have bcD: "both_cover ?d H' m c" by (rule both_cover_image [OF inv bc D H'(2)])
      have "ck_ok ?d H' (l + length rs)"
      proof (cases "rs = []")
        case False
        then show ?thesis using dir_inv_first_index [OF old ls segs(3) _ idx] both_cover_ok [OF bcD] bc(2) H'(1) by simp
      qed (use old in \<open>simp add: dir_inv_def\<close>)
      then show "dir_inv (power_on (image_of ?N D)) H' (l + length rs)"
        using dir_inv_drop [OF old ls segs(3)] by (simp add: image_remove)
    qed (simp_all add: k' renamed_simps)
    moreover have "shape (fs_disk d')"
      using shape_removed [OF wf sh, of ?x] k' not_segment [of SNAPSHOT_NAME q] not_segment [of SNAPSHOT_PREV q]
      by (simp add: disk_step.simps)
    moreover have "steady z (fs_disk d')" if sz: "steady z ?k" for z
    proof -
      obtain n where n: "\<And>N. N \<in> dk_dirs ?k \<Longrightarrow> \<exists>pre. segs_of N = pre @ [(z, n)]" using sz unfolding steady_def by blast
      have "\<exists>pre. (?x, i) # rest = pre @ [(z, n)]" using n [of "dk_dir ?k"] wf s(1) by (simp add: disk_wf_def)
      then have "\<exists>pre. rest = pre @ [(z, n)]" using s(3) by (auto simp: Cons_eq_append_conv)
      with n show ?thesis unfolding steady_def k' renamed_simps using sN by auto
    qed
    ultimately show ?thesis using lk' by (simp add: power_inv_def)
  qed
  then show "power_inv d' H p T (b + length rs)" and "steady z ?k \<Longrightarrow> steady z (fs_disk d')" by simp_all
qed

lemma power_remove_files:
  assumes "power_inv d H p T b" and "list_segments d = files_of dead @ fl" and "fl \<noteq> []" and "log_ok dead"
    and "both_cover d H m c" and "c \<le> p" and "\<forall>(q, rs) \<in> set dead. \<forall>r \<in> set rs. unat (r_index r) \<le> m"
    and "remove_files (map fst (files_of dead)) d = (r, d')"
  shows "power_inv d' H p T (length H) \<and> (\<forall>z. steady z (fs_disk d) \<longrightarrow> steady z (fs_disk d'))"
  using assms
proof (induction dead arbitrary: d b)
  case Nil
  then show ?case using power_inv_bound by auto
next
  case (Cons e dead)
  obtain q rs where e: "e = (q, rs)" by (cases e)
  obtain r1 d1 where c1: "fs_remove (segment_path q) d = (r1, d1)" by force
  have segs: "list_segments d = (segment_path q, seg_image rs) # files_of dead @ fl" using Cons.prems(2) e by simp
  have "power_inv d1 H p T (b + length rs)" and st1: "\<And>z. steady z (fs_disk d) \<Longrightarrow> steady z (fs_disk d1)"
    using power_drop [OF Cons.prems(1) segs _ _ Cons.prems(5,6) _ c1] Cons.prems(3,4,7) e by simp_all
  show ?case
  proof (cases r1)
    case (Inl e')
    then have "d' = d1" using Cons.prems(8) c1 e by simp
    then show ?thesis using power_inv_bound [OF \<open>power_inv d1 H p T (b + length rs)\<close>] st1 by blast
  next
    case (Inr u)
    then have fl1: "fs_files d1 = bm_remove (segment_path q) (fs_files d)" using remove_call_cases [OF c1] by auto
    have wf: "bm_wf (fs_files d)" using Cons.prems(1) linked_wf by (auto simp: power_inv_def)
    have "list_segments d1 = bm_remove (segment_path q) (list_segments d)"
      using list_segments_unset [of "segment_path q" d] fl1 by (simp add: list_segments_def)
    then have segs1: "list_segments d1 = files_of dead @ fl"
      using bm_remove_first bm_wf_list_segments [OF wf] unfolding segs by metis
    have "same_rest d d1" using fl1 by (auto simp: same_rest_def file_at_def bm_get_remove)
    then have "both_cover d1 H m c" using Cons.prems(5) same_rest_load by (simp add: both_cover_def)
    moreover have "remove_files (map fst (files_of dead)) d1 = (r, d')" using Cons.prems(8) c1 Inr e by simp
    moreover have "log_ok dead" "\<forall>(q, rs) \<in> set dead. \<forall>r \<in> set rs. unat (r_index r) \<le> m" using Cons.prems(4,7) e by simp_all
    ultimately show ?thesis
      using Cons.IH [OF \<open>power_inv d1 H p T (b + length rs)\<close> segs1 Cons.prems(3)] Cons.prems(6) st1 by blast
  qed
qed

subsection \<open>The whole reclaim\<close>

lemma log_part_split:
  assumes "log_part wl d H L T" and "bd \<le> wl_seg_seq wl"
  obtains Li fl where "list_segments d = files_of Li @ fl" and "fl \<noteq> []" and "log_ok Li" and "set Li \<subseteq> set L"
    and "\<forall>e \<in> set fl. \<exists>q. fst e = segment_path q \<and> bd \<le> q" and "bm_wf (fs_files d)"
proof (cases "wl_poisoned wl")
  case False
  then obtain Li rs where "L = Li @ [(wl_seg_seq wl, rs)]" "log_is d L" using assms(1) by (auto simp: log_part_def wal_inv_snoc)
  then show thesis using assms(2) that [of Li "[(segment_path (wl_seg_seq wl), seg_image rs)]"] by (auto simp: log_is_def)
next
  case True
  then obtain new where L: "L \<noteq> []" "fst (last L) = wl_seg_seq wl" "crash_log d L new" using assms(1) by (auto simp: log_part_def)
  then obtain Li rs where Li: "L = Li @ [(wl_seg_seq wl, rs)]" by (metis append_butlast_last_id prod.collapse)
  have base: "bm_wf (fs_files d)" "log_ok L" using L(3) by (simp_all add: crash_log_def)
  from L(3) consider (cut) c where "list_segments d = files_of Li @ [(segment_path (wl_seg_seq wl), c)]"
    | (half) q c where "list_segments d = files_of L @ [(segment_path q, c)]"
    by (auto simp: crash_log_def Li)
  then show thesis
  proof cases
    case cut
    then show thesis using base assms(2) that [OF cut] by (auto simp: Li)
  next
    case half
    have "segment_path (wl_seg_seq wl) < segment_path q"
      using bm_wf_list_segments [OF base(1)] half by (simp add: Li bm_wf_def sorted_wrt_append)
    then have "bd \<le> q" using assms(2) by (simp add: segment_path_less)
    then show thesis using base that [OF half] by auto
  qed
qed

lemma power_remove_segments:
  assumes inv: "power_inv d Hd p T b" and lp: "log_part wl d H L T" and bd: "bd \<le> wl_seg_seq wl" "boundary_ok L bd m"
    and bc: "both_cover d Hd m c" "c \<le> p" and run: "remove_segments_before bd wl d = (r, d')"
  shows "power_inv d' Hd p T (length Hd)" and "steady z (fs_disk d) \<Longrightarrow> steady z (fs_disk d')"
proof -
  obtain Li fl where Li: "list_segments d = files_of Li @ fl" "fl \<noteq> []" "log_ok Li" "set Li \<subseteq> set L"
      "\<forall>e \<in> set fl. \<exists>q. fst e = segment_path q \<and> bd \<le> q" "bm_wf (fs_files d)"
    by (rule log_part_split [OF lp bd(1)])
  obtain dead rest where dead: "Li = dead @ rest" "\<forall>(q, rs) \<in> set dead. q < bd"
    and doomed: "filter (\<lambda>p. case segment_seq p of
        Some s \<Rightarrow> s < bd \<and> s \<noteq> wl_seg_seq wl | None \<Rightarrow> False) (map fst (list_segments d)) = map fst (files_of dead)"
    by (rule doomed_prefix [OF Li(6,1,5) bd(1)])
  have idx: "\<forall>(q, rs) \<in> set dead. \<forall>r \<in> set rs. unat (r_index r) \<le> m"
  proof clarify
    fix q rs r assume "(q, rs) \<in> set dead" "r \<in> set rs"
    then have "(q, r) \<in> set (log_records L)" "q < bd" using dead Li(4) by (force simp: log_records_def)+
    then show "unat (r_index r) \<le> m" using bd(2) by (auto simp: boundary_ok_def)
  qed
  obtain r1 d1 where c1: "remove_files (map fst (files_of dead)) d = (r1, d1)" by force
  have s1: "power_inv d1 Hd p T (length Hd) \<and> (\<forall>z. steady z (fs_disk d) \<longrightarrow> steady z (fs_disk d1))"
    by (rule power_remove_files [OF inv _ _ _ bc idx c1, of "files_of rest @ fl"]) (use Li dead in simp_all)
  obtain r2 d2 where c2: "fs_sync SyncedDir d1 = (r2, d2)" by force
  have "quiet d1 d2" using quiet_sync [OF c2] by blast
  then have s2: "power_inv d2 Hd p T (length Hd) \<and> (\<forall>z. steady z (fs_disk d) \<longrightarrow> steady z (fs_disk d2))"
    using s1 quiet_inv quiet_steady [of d1 d2] by (auto simp: power_inv_def)
  have "d' = d1 \<or> d' = d2"
    using run unfolding remove_segments_before_def Let_def doomed by (cases r1; cases r2) (auto simp: c1 c2 split: if_splits)
  then show "power_inv d' Hd p T (length Hd)" and "steady z (fs_disk d) \<Longrightarrow> steady z (fs_disk d')" using s1 s2 by auto
qed

end
