(* ===== verification/Power_Store.thy ===== *)
theory Power_Store
  imports Power_Open Power_Reclaim
begin

text \<open>
  Power failures under the store (\<^verbatim>\<open>src/engine.rs\<close>): a flush, the two halves of a checkpoint, a start after a power
  failure, and a latest checkpoint that goes bad on the medium.
\<close>

subsection \<open>A start, and a power failure\<close>

lemma power_boot:
  assumes inv: "dir_inv d H l" and k: "fs_disk d = boot (fs_files d)" and T: "set H \<subseteq> T"
  shows "power_inv d H (length H) T (length H)"
proof -
  let ?fl = "fs_files d"
  have wf: "bm_wf ?fl" using inv by (simp add: dir_inv_tail dir_log_def)
  have "image_holds H (length H) T l (image_of (dk_dir (boot ?fl)) D) w" if "choice (boot ?fl) D" for D w
  proof -
    have "D = boot_data ?fl" using that by (auto simp: choice_def boot_def)
    then have "image_of (dk_dir (boot ?fl)) D = ?fl" by (simp add: boot_def image_boot)
    then show ?thesis using inv T dir_inv_files [of "power_on ?fl" d] by (auto simp: image_holds_def)
  qed
  moreover have "l \<le> length H" using inv by (simp add: dir_inv_def)
  ultimately have "images_hold (boot ?fl) H (length H) T (length H)" unfolding images_hold_def boot_simps(1) by blast
  moreover have "linked d" using disk_wf_boot [OF wf] by (simp add: linked_def k boot_simps(3))
  ultimately show ?thesis using shape_boot [OF wf] by (simp add: power_inv_def k)
qed

lemma power_cut:
  assumes inv: "power_inv d H p T b" and cut: "cut d d'"
  obtains H' where "power_inv d' H' (length H') T (length H')" and "p \<le> length H'" and "take p H' = take p H"
proof -
  obtain N D where N: "N \<in> dk_dirs (fs_disk d)" "choice (fs_disk d) D" "d' = power_on (image_of N D)"
    using cut by (auto simp: cut_def)
  then obtain l H' where H': "dir_inv d' H' l" "p \<le> length H'" "take p H' = take p H" "set H' \<subseteq> T"
    using inv unfolding power_inv_def images_hold_def image_holds_def by blast
  have "power_inv d' H' (length H') T (length H')" by (rule power_boot [OF H'(1) _ H'(4)]) (simp add: N(3))
  with H' that show thesis by blast
qed

subsection \<open>Damage\<close>

text \<open>A file's bytes go bad on the medium.\<close>

definition fs_damage :: "string \<Rightarrow> bytes \<Rightarrow> fs \<Rightarrow> fs" where
  "fs_damage x c d =
     (case bm_get (dk_dir (fs_disk d)) x of
        None \<Rightarrow> d
      | Some i \<Rightarrow> fs_set x c (d\<lparr>fs_disk := (fs_disk d)\<lparr>dk_data := (dk_data (fs_disk d))(i := c),
                                                     dk_maybe := (dk_maybe (fs_disk d))(i := {c})\<rparr>\<rparr>))"

lemma damage_image:
  assumes inv: "power_inv d H p T b" and get: "bm_get (dk_dir (fs_disk d)) SNAPSHOT_NAME = Some i"
    and prev: "has_prev d" and bad: "ckpt_decode c = Inl InvalidData"
    and N: "N \<in> dk_dirs (fs_disk d)" and D: "choice (fs_disk d) D" and old: "dir_inv (power_on (image_of N D)) H' l"
  shows "dir_inv (power_on (image_of N (D(i := c)))) H' l"
proof -
  let ?k = "fs_disk d"
  have wf: "disk_wf ?k" and sh: "shape ?k" using inv by (simp_all add: power_inv_def linked_def)
  have nwf: "dir_wf (dk_next ?k) N" using disk_wf_dir [OF wf N] .
  have mem: "(SNAPSHOT_NAME, i) \<in> set (dk_dir ?k)" using get by (rule map_of_SomeD)
  show ?thesis
  proof (cases "(SNAPSHOT_NAME, i) \<in> set N")
    case True
    then have getN: "bm_get N SNAPSHOT_NAME = Some i" using nwf by (simp add: bm_get_mem dir_wf_def)
    have "bm_get N SNAPSHOT_PREV = bm_get (dk_dir ?k) SNAPSHOT_PREV" by (rule shapeD(4) [OF sh N getN get])
    then have "previous (power_on (image_of N D)) = previous (power_on (image_of (dk_dir ?k) D))"
      by (intro load_file_cong) (simp add: file_at_def bm_get_image)
    then have "has_prev (power_on (image_of N D))" using prev image_load [OF inv _ D] by (simp add: has_prev_def)
    then have "dir_inv (fs_set SNAPSHOT_NAME c (power_on (image_of N D))) H' l" by (rule dir_inv_damage [OF old _ bad])
    moreover have "fs_files (power_on (image_of N (D(i := c)))) = fs_files (fs_set SNAPSHOT_NAME c (power_on (image_of N D)))"
      using image_upd_name [OF nwf True, of D c] by simp
    ultimately show ?thesis using dir_inv_files by blast
  next
    case False
    have same: "map_option (D(i := c)) (bm_get N x) = map_option D (bm_get N x)" if "relevant x" for x
    proof (cases "bm_get N x")
      case (Some j)
      then have "(x, j) \<in> set N" by (rule map_of_SomeD)
      then have "j \<noteq> i" using shapeD(5) [OF sh N _ mem, of x] False that by blast
      then show ?thesis using Some by simp
    qed simp
    show ?thesis
      by (rule dir_inv_cong [OF old]) (use nwf same in \<open>auto simp: file_at_def bm_get_image relevant_def dir_wf_def\<close>)
  qed
qed

lemma power_damage:
  assumes inv: "power_inv d H p T b" and prev: "has_prev d" and bad: "ckpt_decode c = Inl InvalidData"
  shows "power_inv (fs_damage SNAPSHOT_NAME c d) H p T b"
proof (cases "bm_get (dk_dir (fs_disk d)) SNAPSHOT_NAME")
  case None
  then show ?thesis using inv by (simp add: fs_damage_def)
next
  case (Some i)
  let ?k = "fs_disk d" and ?d = "fs_damage SNAPSHOT_NAME c d"
  have lk: "linked d" and wf: "disk_wf ?k" and sh: "shape ?k" and hold: "images_hold ?k H p T b"
    using inv by (simp_all add: power_inv_def linked_def)
  have k': "dk_dir (fs_disk ?d) = dk_dir ?k" "dk_dirs (fs_disk ?d) = dk_dirs ?k" "dk_next (fs_disk ?d) = dk_next ?k"
      "dk_data (fs_disk ?d) = (dk_data ?k)(i := c)" "dk_maybe (fs_disk ?d) = (dk_maybe ?k)(i := {c})"
      "fs_files ?d = bm_insert SNAPSHOT_NAME c (fs_files d)"
    by (simp_all add: fs_damage_def Some)
  have wf': "disk_wf (fs_disk ?d)" using wf by (simp add: disk_wf_def k')
  have lk': "linked ?d" by (rule linked_modify [OF lk Some wf' _ _ _ refl]) (simp_all add: k')
  have notseg: "j \<noteq> i" if "(x, j) \<in> set (segs_of (dk_dir ?k))" for x j
    using that map_of_SomeD [OF Some] dir_wf_inj [OF disk_wf_cur [OF wf], of x j SNAPSHOT_NAME] by (auto simp: segs_of_mem)
  have "images_hold (fs_disk ?d) H p T b"
    unfolding images_hold_def k'(2)
  proof
    fix N assume N: "N \<in> dk_dirs ?k"
    obtain l where l: "l \<le> b" "\<And>D. choice ?k D \<Longrightarrow> image_holds H p T l (image_of N D) (agree ?k D)"
      using hold N unfolding images_hold_def by blast
    have "image_holds H p T l (image_of N D) (agree (fs_disk ?d) D)" if D: "choice (fs_disk ?d) D" for D
    proof -
      let ?D = "D(i := dk_data ?k i)"
      have c: "choice ?k ?D" using D wf by (simp add: choice_def k' disk_wf_def) metis
      have "D i \<in> dk_maybe (fs_disk ?d) i" using D by (simp add: choice_def)
      then have e: "D = ?D(i := c)" by (auto simp: k')
      have "agree ?k ?D \<longleftrightarrow> agree (fs_disk ?d) D" using notseg by (auto simp: agree_def k' split: if_splits)
      then show ?thesis
        using l(2) [OF c] damage_image [OF inv Some prev bad N c] e unfolding image_holds_def by metis
    qed
    with l(1) show "\<exists>l\<le>b. \<forall>D. choice (fs_disk ?d) D \<longrightarrow> image_holds H p T l (image_of N D) (agree (fs_disk ?d) D)" by blast
  qed
  moreover have "shape (fs_disk ?d)" by (rule shape_same_dirs [OF sh]) (auto simp: k' settled_def)
  ultimately show ?thesis using lk' by (simp add: power_inv_def)
qed

subsection \<open>A store that runs\<close>

text \<open>
  The first \<open>p\<close> commits of the published history are in every image, and the snapshot that a checkpoint has pinned is one
  of them that every image's log reaches back to.
\<close>

definition power_store :: "store \<Rightarrow> (snapshot \<times> u32) option \<Rightarrow> fs \<Rightarrow> history \<Rightarrow> nat \<Rightarrow> op list set \<Rightarrow> bool" where
  "power_store st pin d H p T \<longleftrightarrow> (\<exists>b. power_log (st_wal st) d H p T b \<and> (case pin of None \<Rightarrow> True
     | Some (cur, bd) \<Rightarrow> b \<le> unat (sn_index cur) \<and> unat (sn_index cur) \<le> p))"

lemma power_store_mono: "power_store st pin d H p T \<Longrightarrow> T \<subseteq> T' \<Longrightarrow> power_store st pin d H p T'"
  using power_log_mono unfolding power_store_def by blast

lemma power_store_dead:
  assumes "power_store st pin d H p T"
  obtains Hd b where "power_inv d Hd p T b" and "take p Hd = take p H"
  using assms unfolding power_store_def power_log_def by blast

lemma power_flush:
  assumes inv: "store_inv st pin d H lo T" and pw: "power_store st pin d H p T"
    and ok: "list_all (\<lambda>ops. check_ops ops = Inr ()) G" and room: "length H + length G < 2 ^ 64" and sub: "set G \<subseteq> T"
    and run: "flush_group G st d = (res, st', d')"
  shows "\<exists>p' \<ge> p. case res of Inl _ \<Rightarrow> power_store st' pin d' H p' T
    | Inr _ \<Rightarrow> power_store st' pin d' (H @ G) p' T \<and> (G \<noteq> [] \<longrightarrow> p' = length (H @ G))"
proof -
  obtain L where log: "store_log st pin d H lo T L" using inv by (auto simp: store_inv_def)
  have snap: "rcu_load (st_snap st) = snap_of H" using inv by (simp add: store_inv_def)
  obtain b where b: "power_log (st_wal st) d H p T b"
      "case pin of None \<Rightarrow> True | Some (cur, bd) \<Rightarrow> b \<le> unat (sn_index cur) \<and> unat (sn_index cur) \<le> p"
    using pw by (auto simp: power_store_def)
  obtain r wl1 d1 where app: "append_many (recs_of (length H) G) (st_wal st) d = (r, wl1, d1)" by (metis prod_cases3)
  have winv: "wal_inv (st_wal st) d L" if "\<not> wl_poisoned (st_wal st)" using log that by (simp add: store_log_def log_part_def)
  have rec: "list_all rec_ok (recs_of (length H) G)" using ok by (simp add: rec_ok_recs_of)
  obtain p' where p': "p \<le> p'" "case r of Inl _ \<Rightarrow> power_log wl1 d1 H p' T b
      | Inr _ \<Rightarrow> power_log wl1 d1 (H @ G) p' T b \<and> (G \<noteq> [] \<longrightarrow> p' = length (H @ G))"
    using power_append_many [OF b(1) winv rec room sub app] by blast
  have pin': "case pin of None \<Rightarrow> True | Some (cur, bd) \<Rightarrow> b \<le> unat (sn_index cur) \<and> unat (sn_index cur) \<le> p'"
    using b(2) p'(1) by (auto split: option.splits)
  have "d' = d1 \<and> st_wal st' = wl1 \<and> (case r of Inl e \<Rightarrow> \<exists>e. res = Inl e | Inr _ \<Rightarrow> \<exists>i. res = Inr i)"
    using run flush_group_history [OF snap, of G d, unfolded app] by (cases r) auto
  then show ?thesis using p' pin' by (intro exI [of _ p']) (cases r; auto simp: power_store_def)
qed

lemma power_pin:
  assumes inv: "store_inv st None d H lo T" and pw: "power_store st None d H p T"
    and run: "checkpoint_pin st d = (res, st', d')"
  shows "\<exists>p' \<ge> p. power_store st' (case res of Inl _ \<Rightarrow> None | Inr pin \<Rightarrow> Some pin) d' H p' T"
proof -
  obtain L where log: "store_log st None d H lo T L" using inv by (auto simp: store_inv_def)
  have snap: "rcu_load (st_snap st) = snap_of H" "length H < 2 ^ 64" using inv by (simp_all add: store_inv_def)
  obtain b where b: "power_log (st_wal st) d H p T b" using pw by (auto simp: power_store_def)
  obtain r wl1 d1 where rot: "rotate_segment (st_wal st) d = (r, wl1, d1)" by (metis prod_cases3)
  have st': "st_wal st' = wl1" "d' = d1" "res = (case r of Inl e \<Rightarrow> Inl e | Inr b \<Rightarrow> Inr (snap_of H, b))"
    using run rot snap by (auto simp: checkpoint_pin_def Let_def split: sum.splits)
  show ?thesis
  proof (cases "wl_poisoned (st_wal st)")
    case True
    then have "r = Inl Other" "wl1 = st_wal st" "d1 = d" using rot rotate_segment_poisoned by auto
    then show ?thesis using st' b by (auto simp: power_store_def)
  next
    case False
    then have winv: "wal_inv (st_wal st) d L" using log by (simp add: store_log_def log_part_def)
    obtain p' where p': "p \<le> p'" "power_log wl1 d1 H p' T b" "\<forall>n. r = Inr n \<longrightarrow> p' = length H"
      using power_rotate [OF b False winv rot] by blast
    show ?thesis
    proof (cases r)
      case (Inl e)
      then show ?thesis using st' p' by (auto simp: power_store_def)
    next
      case (Inr n)
      have nil: "list_all rec_ok []" by simp
      have "\<not> wl_poisoned wl1" using rotate_segment_spec(1) [OF winv False nil rot Inr] by simp
      then have "power_log wl1 d1 H (length H) T (length H)"
        using p' Inr power_inv_bound by (auto simp: power_log_healthy)
      moreover have "unat (sn_index (snap_of H)) = length H" using snap(2) by (simp add: sn_index_snap_of)
      ultimately have "power_store st' (case res of Inl _ \<Rightarrow> None | Inr pin \<Rightarrow> Some pin) d' H (length H) T"
        unfolding power_store_def using st' Inr by (intro exI [of _ "length H"]) simp
      then show ?thesis using p' Inr by blast
    qed
  qed
qed

text \<open>The log after steps that keep the images and the last segment.\<close>

lemma power_log_step:
  assumes "power_log wl d H p T b"
    and "\<And>Hd. power_inv d Hd p T b \<Longrightarrow> take p Hd = take p H \<Longrightarrow> \<exists>b'. power_inv d' Hd p T b' \<and> (\<forall>z. steady z (fs_disk d) \<longrightarrow> steady z (fs_disk d'))"
  shows "\<exists>b'. power_log wl d' H p T b'"
proof -
  obtain Hd where Hd: "power_inv d Hd p T b" "take p Hd = take p H" "p \<le> length H"
      "\<not> wl_poisoned wl \<longrightarrow> Hd = H \<and> steady (segment_path (wl_seg_seq wl)) (fs_disk d)"
    using assms(1) unfolding power_log_def by blast
  obtain b' where "power_inv d' Hd p T b'" "\<forall>z. steady z (fs_disk d) \<longrightarrow> steady z (fs_disk d')" using assms(2) [OF Hd(1,2)] by blast
  with Hd show ?thesis unfolding power_log_def by (intro exI [of _ b'] exI [of _ Hd]) simp
qed

lemma power_finish:
  assumes inv: "store_inv st (Some pin) d H lo T" and pw: "power_store st (Some pin) d H p T"
    and small: "length (sn_data (fst pin)) < 2 ^ 64" and run: "checkpoint_finish pin st d = (res, st', d')"
  shows "power_store st' None d' H p T"
proof -
  obtain L where log: "store_log st (Some pin) d H lo T L" using inv by (auto simp: store_inv_def)
  obtain m c bd where pin: "pin = (snap_of (take c H), bd)"
    and m: "retained d (st_latest_damaged st) H m" "boundary_ok L (st_prev_boundary st) m" and c: "m \<le> c" "c \<le> length H"
    using log by (cases pin) (auto simp: store_log_def pin_ok_def)
  have base: "ck_ok d H lo" "length H < 2 ^ 64" "st_latest_damaged st \<longrightarrow> has_prev d" "latest d = Inl InvalidData \<longrightarrow> st_latest_damaged st"
    using inv by (simp_all add: store_inv_def)
  have lp: "log_part (st_wal st) d H L T" and sb: "st_prev_boundary st \<le> wl_seg_seq (st_wal st)"
    using log by (auto simp: store_log_def)
  have small': "length (sn_data (snap_of (take c H))) < 2 ^ 64" using small pin by simp
  have "unat (sn_index (snap_of (take c H))) = c" using c(2) base(2) by (simp add: sn_index_snap_of)
  then obtain b where b: "power_log (st_wal st) d H p T b" "b \<le> c" "c \<le> p" using pw pin by (auto simp: power_store_def)
  let ?rep = "if st_latest_damaged st then Discard else Retain"
  obtain r1 d1 where w: "ckpt_write (snap_of (take c H)) ?rep d = (r1, d1)" by force
  obtain r2 d2 where rem: "remove_segments_before (st_prev_boundary st) (st_wal st) d1 = (r2, d2)" by force
  have lp1: "log_part (st_wal st) d1 H L T" by (rule log_part_segs [OF lp segs_ckpt_write [OF log_part_wf [OF lp] w]])
  have wrote: "power_inv d1 Hd p T b \<and> (\<forall>z. steady z (fs_disk d) \<longrightarrow> steady z (fs_disk d1))"
    if Hd: "power_inv d Hd p T b" "take p Hd = take p H" for Hd
  proof -
    have e: "take c Hd = take c H" using arg_cong [OF Hd(2), of "take c"] b(3) by (simp add: min.absorb1)
    have lat: "?rep = Retain \<Longrightarrow> latest d \<noteq> Inl InvalidData" using base(4) by auto
    note pc = power_ckpt_write [OF Hd(1) b(2,3) _ lat, unfolded e, OF small' _ w]
    show ?thesis using pc(1,2) by simp
  qed
  have "\<exists>b'. power_log (st_wal st) d' H p T b'"
  proof (rule power_log_step [OF b(1)])
    fix Hd assume Hd: "power_inv d Hd p T b" "take p Hd = take p H"
    note w1 = wrote [OF Hd]
    show "\<exists>b'. power_inv d' Hd p T b' \<and> (\<forall>z. steady z (fs_disk d) \<longrightarrow> steady z (fs_disk d'))"
    proof (cases r1)
      case (Inl e)
      then have "d' = d1" using run w by (simp add: checkpoint_finish_def pin)
      then show ?thesis using w1 by blast
    next
      case (Inr u)
      then have d': "d' = d2" using run w rem by (auto simp: checkpoint_finish_def pin Let_def split: sum.splits)
      have ok: "r1 = Inr ()" using Inr by simp
      have e: "take n Hd = take n H" if "n \<le> c" for n using arg_cong [OF Hd(2), of "take n"] that b(3) by (simp add: min.absorb1)
      have "both_cover d1 Hd m c"
        using finish_write(4) [OF base m(1) c small' log_part_wf [OF lp] w ok] c(1) e by (auto simp: both_cover_def)
      then show ?thesis
        using power_remove_segments [OF conjunct1 [OF w1] lp1 sb m(2) _ b(3) rem] w1 d' by blast
    qed
  qed
  moreover have "st_wal st' = st_wal st"
    using run w rem by (cases r1; cases r2) (auto simp: checkpoint_finish_def pin Let_def)
  ultimately show ?thesis by (simp add: power_store_def)
qed

end
