(* ===== verification/Durability.thy ===== *)
theory Durability
  imports Power_Store
begin

text \<open>
  Durability of the store (\<^verbatim>\<open>src/engine.rs\<close> over \<^verbatim>\<open>src/wal.rs\<close> and \<^verbatim>\<open>src/checkpoint.rs\<close>): over any
  number of lives, with any I/O failures, checkpoints overlapping writers, crashes and power failures
  anywhere and damage to the latest checkpoint, reopening recovers a history that holds every
  acknowledged commit at its index.
\<close>

subsection \<open>Every run of the store\<close>

text \<open>
  The states a store and its directory can reach: opened (or not) with any I/O failures ahead,
  flushing groups of commits, checkpointing in two halves with flushes between them, crashing at any
  point with the page cache kept (\<open>sr_crash\<close>) or with any part of what was not synced lost (\<open>sr_power\<close>), and
  finding its latest checkpoint damaged. \<open>A\<close> holds the acknowledged commits with the index each was given,
  \<open>T\<close> the commits that were attempted.
\<close>

inductive store_reach ::
  "store option \<Rightarrow> (snapshot \<times> u32) option \<Rightarrow> fs \<Rightarrow> (u64 \<times> op list) list \<Rightarrow> op list set \<Rightarrow> bool" where
  sr_init: "bm_wf (fs_files d) \<Longrightarrow> list_segments d = [] \<Longrightarrow> latest d = Inr None \<Longrightarrow> previous d = Inr None
    \<Longrightarrow> fs_disk d = boot (fs_files d) \<Longrightarrow> store_reach None None d [] {}"
| sr_open: "store_reach None None d A T \<Longrightarrow> open_with opts lk (d\<lparr>fs_outcomes := outs\<rparr>) = (Inr st, d')
    \<Longrightarrow> store_reach (Some st) None d' A T"
| sr_open_fails: "store_reach None None d A T \<Longrightarrow> open_with opts lk (d\<lparr>fs_outcomes := outs\<rparr>) = (Inl e, d')
    \<Longrightarrow> store_reach None None d' A T"
| sr_flush: "store_reach (Some st) pin d A T \<Longrightarrow> list_all (\<lambda>ops. check_ops ops = Inr ()) G
    \<Longrightarrow> unat (store_index st) + length G < 2 ^ 64 \<Longrightarrow> flush_group G st d = (Inr idx, st', d')
    \<Longrightarrow> store_reach (Some st') pin d' (A @ zip idx G) (T \<union> set G)"
| sr_flush_fails: "store_reach (Some st) pin d A T \<Longrightarrow> list_all (\<lambda>ops. check_ops ops = Inr ()) G
    \<Longrightarrow> unat (store_index st) + length G < 2 ^ 64 \<Longrightarrow> flush_group G st d = (Inl e, st', d')
    \<Longrightarrow> store_reach (Some st') pin d' A (T \<union> set G)"
| sr_pin: "store_reach (Some st) None d A T \<Longrightarrow> checkpoint_pin st d = (Inr p, st', d')
    \<Longrightarrow> store_reach (Some st') (Some p) d' A T"
| sr_pin_fails: "store_reach (Some st) None d A T \<Longrightarrow> checkpoint_pin st d = (Inl e, st', d')
    \<Longrightarrow> store_reach (Some st') None d' A T"
| sr_finish: "store_reach (Some st) (Some p) d A T \<Longrightarrow> length (sn_data (fst p)) < 2 ^ 64
    \<Longrightarrow> checkpoint_finish p st d = (res, st', d') \<Longrightarrow> store_reach (Some st') None d' A T"
| sr_crash: "store_reach (Some st) pin d A T \<Longrightarrow> store_reach None None d A T"
| sr_power: "store_reach so pin d A T \<Longrightarrow> cut d d' \<Longrightarrow> store_reach None None d' A T"
| sr_damage: "store_reach None None d A T \<Longrightarrow> previous d = Inr (Some s) \<Longrightarrow> ckpt_decode b = Inl InvalidData
    \<Longrightarrow> store_reach None None (fs_damage SNAPSHOT_NAME b d) A T"

definition acks_in :: "(u64 \<times> op list) list \<Rightarrow> history \<Rightarrow> bool" where
  "acks_in A H \<longleftrightarrow> sorted_wrt (\<lambda>a b. fst a < fst b) A
     \<and> (\<forall>(i, ops) \<in> set A. 0 < unat i \<and> unat i \<le> length H \<and> H ! (unat i - 1) = ops)"

lemma acks_in_append: "acks_in A H \<Longrightarrow> acks_in A (H @ G)"
  unfolding acks_in_def by (force simp: nth_append)

lemma acks_in_flush:
  assumes "acks_in A H" and "length H + length G < 2 ^ 64"
  shows "acks_in (A @ zip (group_indices (length H) G) G) (H @ G)"
proof -
  let ?Z = "zip (group_indices (length H) G) G"
  have len: "length ?Z = length G" by (simp add: group_indices_def)
  have nth: "?Z ! j = (word_of_nat (Suc (length H + j)), G ! j)" if "j < length G" for j
    using that by (simp add: group_indices_def)
  have u: "unat (word_of_nat (Suc (length H + j)) :: u64) = Suc (length H + j)" if "j < length G" for j
    using that assms(2) by (intro unat_u64_of_nat) simp
  have new: "0 < unat i \<and> length H < unat i \<and> unat i \<le> length (H @ G) \<and> (H @ G) ! (unat i - 1) = ops"
    if mem: "(i, ops) \<in> set ?Z" for i ops
  proof -
    obtain j where j: "j < length G" "?Z ! j = (i, ops)"
      using mem unfolding in_set_conv_nth len by blast
    then have "i = word_of_nat (Suc (length H + j))" "ops = G ! j" using nth by auto
    with u [OF j(1)] j(1) show ?thesis by (simp add: nth_append del: of_nat_Suc)
  qed
  have "sorted_wrt (\<lambda>a b. fst a < fst b) ?Z"
    using nth u by (simp add: sorted_wrt_iff_nth_less len word_less_nat_alt del: of_nat_Suc nth_zip)
  moreover have "fst a < fst b" if "a \<in> set A" "b \<in> set ?Z" for a b
    using that assms(1) new [of "fst b" "snd b"] by (fastforce simp: acks_in_def word_less_nat_alt)
  ultimately show ?thesis
    using assms(1) new acks_in_append [OF assms(1), of G]
    by (auto simp: acks_in_def sorted_wrt_append)
qed

lemma acks_in_take: "acks_in A (take p H) \<Longrightarrow> p \<le> p' \<Longrightarrow> acks_in A (take p' H)"
  using acks_in_append [of A "take p H" "drop p (take p' H)"] by (metis append_take_drop_id min.absorb1 take_take)

lemma acks_in_all: "acks_in A (take p H) \<Longrightarrow> acks_in A H"
  using acks_in_append [of A "take p H" "drop p H"] by simp

text \<open>
  The invariant of every run: the acknowledged commits are among the first \<open>p\<close>, which every image of the directory holds.
\<close>

definition reach_inv ::
  "store option \<Rightarrow> (snapshot \<times> u32) option \<Rightarrow> fs \<Rightarrow> (u64 \<times> op list) list \<Rightarrow> op list set \<Rightarrow> history \<Rightarrow> nat \<Rightarrow> bool" where
  "reach_inv so pin d A T H p \<longleftrightarrow> acks_in A (take p H) \<and>
     (case so of None \<Rightarrow> \<exists>b. power_inv d H p T b
      | Some st \<Rightarrow> (\<exists>lo. store_inv st pin d H lo T) \<and> power_store st pin d H p T)"

lemma reach_inv_dead:
  assumes "reach_inv so pin d A T H p"
  obtains H' b where "power_inv d H' p T b" and "acks_in A (take p H')"
proof (cases so)
  case None
  then show thesis using assms that by (auto simp: reach_inv_def)
next
  case (Some st)
  then have "power_store st pin d H p T" "acks_in A (take p H)" using assms by (auto simp: reach_inv_def)
  then show thesis using that by (metis power_store_dead)
qed

lemma reach_inv_open:
  assumes "reach_inv None None d A T H p" and run: "open_with opts lk (d\<lparr>fs_outcomes := outs\<rparr>) = (res, d')"
  shows "reach_inv (case res of Inl _ \<Rightarrow> None | Inr st \<Rightarrow> Some st) None d' A T H p"
proof -
  let ?d = "d\<lparr>fs_outcomes := outs\<rparr>"
  obtain b where acks: "acks_in A (take p H)" and inv: "power_inv ?d H p T b"
    using assms(1) power_inv_cong [of ?d d] by (auto simp: reach_inv_def)
  obtain l where l: "dir_inv ?d H l" by (rule power_inv_dir [OF inv])
  note pw = power_open_with [OF inv run] and T = power_inv_p [OF inv]
  show ?thesis
  proof (cases res)
    case (Inl e)
    then show ?thesis using pw(1) acks by (auto simp: reach_inv_def)
  next
    case (Inr st)
    have "store_inv st None d' H l T" by (rule store_inv_mono [OF open_with_spec(2) [OF l run Inr]]) (use T in simp)
    moreover have "power_store st None d' H p T" using pw(2) [OF Inr] by (auto simp: power_store_def)
    ultimately show ?thesis using Inr acks by (auto simp: reach_inv_def)
  qed
qed

lemma reach_inv_flush:
  assumes "reach_inv (Some st) pin d A T H p" and ok: "list_all (\<lambda>ops. check_ops ops = Inr ()) G"
    and small: "unat (store_index st) + length G < 2 ^ 64" and run: "flush_group G st d = (res, st', d')"
  shows "\<exists>H p. reach_inv (Some st') pin d' (A @ (case res of Inl _ \<Rightarrow> [] | Inr idx \<Rightarrow> zip idx G)) (T \<union> set G) H p"
proof -
  let ?T = "T \<union> set G"
  obtain lo where h: "acks_in A (take p H)" "store_inv st pin d H lo ?T" "power_store st pin d H p ?T"
    using assms(1) store_inv_mono [of st pin d H _ T ?T] power_store_mono [of st pin d H p T ?T] by (auto simp: reach_inv_def)
  have room: "length H + length G < 2 ^ 64" using small h(2) by (simp add: store_inv_def store_index_def unat_u64_of_nat)
  note fl = flush_group_inv [OF h(2) ok room _ run]
  obtain p' where p': "p \<le> p'" "case res of Inl _ \<Rightarrow> power_store st' pin d' H p' ?T
      | Inr _ \<Rightarrow> power_store st' pin d' (H @ G) p' ?T \<and> (G \<noteq> [] \<longrightarrow> p' = length (H @ G))"
    using power_flush [OF h(2,3) ok room _ run] by blast
  show ?thesis
  proof (cases res)
    case (Inl e)
    then show ?thesis using fl p' acks_in_take [OF h(1) p'(1)] by (auto simp: reach_inv_def)
  next
    case (Inr idx)
    have "acks_in (A @ zip idx G) (take p' (H @ G))"
    proof (cases "G = []")
      case True
      then show ?thesis using acks_in_take [OF h(1) p'(1)] by simp
    next
      case False
      then show ?thesis using acks_in_flush [OF acks_in_all [OF h(1)] room] fl p'(2) Inr by simp
    qed
    moreover have "store_inv st' pin d' (H @ G) lo ?T" "power_store st' pin d' (H @ G) p' ?T" using fl p'(2) Inr by simp_all
    ultimately have "reach_inv (Some st') pin d' (A @ zip idx G) ?T (H @ G) p'" unfolding reach_inv_def by auto
    then show ?thesis using Inr by auto
  qed
qed

lemma reach_inv_init:
  assumes "bm_wf (fs_files d)" and "list_segments d = []" and "latest d = Inr None" and "previous d = Inr None"
    and "fs_disk d = boot (fs_files d)"
  shows "reach_inv None None d [] {} [] 0"
proof -
  have "torn_log d []" using assms by (simp add: torn_log_def)
  then have "dir_inv d [] 0" using assms by (auto simp: dir_inv_def ck_ok_def gen_def intro!: exI [of _ "[]"])
  from power_boot [OF this assms(5), of "{}"] show ?thesis by (auto simp: reach_inv_def acks_in_def)
qed

lemma store_reach_power: "store_reach so pin d A T \<Longrightarrow> \<exists>H p. reach_inv so pin d A T H p"
proof (induction rule: store_reach.induct)
  case (sr_init d)
  then show ?case using reach_inv_init by blast
next
  case (sr_open d A T opts lk outs st d')
  then show ?case using reach_inv_open by fastforce
next
  case (sr_open_fails d A T opts lk outs e d')
  then show ?case using reach_inv_open by fastforce
next
  case (sr_flush st pin d A T G idx st' d')
  then show ?case using reach_inv_flush by fastforce
next
  case (sr_flush_fails st pin d A T G e st' d')
  then show ?case using reach_inv_flush by fastforce
next
  case (sr_pin st d A T p st' d')
  then obtain H q lo where h: "acks_in A (take q H)" "store_inv st None d H lo T" "power_store st None d H q T"
    by (auto simp: reach_inv_def)
  obtain q' where "q \<le> q'" "power_store st' (Some p) d' H q' T" using power_pin [OF h(2,3) sr_pin(2)] by auto
  then show ?case using checkpoint_pin_inv [OF h(2) sr_pin(2)] acks_in_take [OF h(1)] by (auto simp: reach_inv_def)
next
  case (sr_pin_fails st d A T e st' d')
  then obtain H q lo where h: "acks_in A (take q H)" "store_inv st None d H lo T" "power_store st None d H q T"
    by (auto simp: reach_inv_def)
  obtain q' where "q \<le> q'" "power_store st' None d' H q' T" using power_pin [OF h(2,3) sr_pin_fails(2)] by auto
  then show ?case using checkpoint_pin_inv [OF h(2) sr_pin_fails(2)] acks_in_take [OF h(1)] by (auto simp: reach_inv_def)
next
  case (sr_finish st p d A T res st' d')
  then obtain H q lo where h: "acks_in A (take q H)" "store_inv st (Some p) d H lo T" "power_store st (Some p) d H q T"
    by (auto simp: reach_inv_def)
  from checkpoint_finish_inv(1) [OF h(2) sr_finish(2,3)] power_finish [OF h(2,3) sr_finish(2,3)] h(1) show ?case
    by (auto simp: reach_inv_def)
next
  case (sr_crash st pin d A T)
  then obtain H p where "reach_inv (Some st) pin d A T H p" by blast
  then obtain H' b where "power_inv d H' p T b" "acks_in A (take p H')" by (rule reach_inv_dead)
  then show ?case by (auto simp: reach_inv_def)
next
  case (sr_power so pin d A T d')
  then obtain H p where "reach_inv so pin d A T H p" by blast
  then obtain H1 b where H1: "power_inv d H1 p T b" "acks_in A (take p H1)" by (rule reach_inv_dead)
  obtain H' where H': "power_inv d' H' (length H') T (length H')" "p \<le> length H'" "take p H' = take p H1"
    using H1(1) sr_power(2) by (rule power_cut)
  then have "acks_in A (take (length H') H')" using acks_in_take [of A p H' "length H'"] H1(2) by simp
  then have "reach_inv None None d' A T H' (length H')" unfolding reach_inv_def using H'(1) by auto
  then show ?case by blast
next
  case (sr_damage d A T s b)
  then obtain H p c where h: "acks_in A (take p H)" "power_inv d H p T c" by (auto simp: reach_inv_def)
  have "has_prev d" using sr_damage(2) by (simp add: has_prev_def)
  from power_damage [OF h(2) this sr_damage(3)] h(1) show ?case by (auto simp: reach_inv_def)
qed

lemma store_reach_inv:
  assumes "store_reach so pin d A T"
  shows "\<exists>H lo. acks_in A H \<and> (case so of None \<Rightarrow> dir_inv d H lo \<and> set H \<subseteq> T | Some st \<Rightarrow> store_inv st pin d H lo T)"
proof -
  obtain H p where r: "reach_inv so pin d A T H p" using store_reach_power [OF assms] by blast
  have a: "acks_in A H" by (rule acks_in_all [of A p]) (use r in \<open>simp add: reach_inv_def\<close>)
  show ?thesis
  proof (cases so)
    case None
    then obtain b where "power_inv d H p T b" using r by (auto simp: reach_inv_def)
    moreover from this obtain l where "dir_inv d H l" by (rule power_inv_dir)
    ultimately show ?thesis using None a power_inv_p by fastforce
  next
    case (Some st)
    then show ?thesis using r a by (auto simp: reach_inv_def)
  qed
qed

text \<open>The power can fail at any moment, and may happen to lose nothing.\<close>

lemma store_reach_cut:
  assumes "store_reach so pin d A T"
  shows "\<exists>e. cut d e"
proof -
  obtain H0 p where "reach_inv so pin d A T H0 p" using store_reach_power [OF assms] by blast
  then obtain H b where "power_inv d H p T b" by (rule reach_inv_dead)
  then show ?thesis using cut_nothing_lost by (auto simp: power_inv_def)
qed

subsection \<open>The promises of the store\<close>

lemma open_with_succeeds:
  assumes "dir_inv d H lo" and "fs_outcomes d = []"
  obtains st d' where "open_with opts Locked d = (Inr st, d')"
proof -
  define d1 where "d1 = (if fs_exists LOCK_NAME d then d else fs_create LOCK_NAME d)"
  have lock: "lock_dir Locked d = (Inr (), d1)"
    using assms(2) by (simp add: lock_dir_def fs_open_create_def d1_def)
  have out: "fs_outcomes d1 = []" using assms(2) by (simp add: d1_def)
  have wf: "bm_wf (fs_files d)" using assms(1) by (auto simp: dir_inv_def torn_log_def)
  have inv1: "dir_inv d1 H lo" by (rule dir_inv_frame [OF assms(1) lock_dir_frame [OF wf lock]])
  obtain L n flag where L: "torn_log d1 L"
    and run: "open_locked opts d1 = (case wal_open (opt_wal_segment_size opts) d1 of
        (Inl e, d) \<Rightarrow> (Inl e, d)
      | (Inr wl, d) \<Rightarrow> (Inr (opened H (uncovered L lo n H) flag wl), d))"
    by (rule open_locked_recovers [OF inv1, of opts]) (rule that; blast)
  obtain wl d2 where "wal_open (opt_wal_segment_size opts) d1 = (Inr wl, d2)"
    using wal_open_recovers [OF L out] by metis
  with run lock assms(2) that show thesis by (simp add: open_with_def fs_call_def)
qed

text \<open>
  C1: durability. Whatever the directory's calls do, whenever the store crashes and whenever the power
  fails, losing any part of what was not synced, over any number of lives with checkpoints and even
  damage to the latest checkpoint (while a previous one exists), the next open on a healthy directory
  succeeds, and the store it returns is in the state of one history of attempted commits in which every
  acknowledged commit stands at the index it was given; no index was given twice.
\<close>

theorem store_recovers_acknowledged:
  assumes "store_reach so pin d A T"
  shows "\<exists>st d' H. open_with opts Locked (d\<lparr>fs_outcomes := []\<rparr>) = (Inr st, d')
    \<and> store_snapshot st = snap_of H \<and> store_index st = word_of_nat (length H) \<and> length H < 2 ^ 64
    \<and> set H \<subseteq> T \<and> acks_in A H"
proof -
  obtain H0 lo where h0: "acks_in A H0"
      "case so of None \<Rightarrow> dir_inv d H0 lo \<and> set H0 \<subseteq> T | Some st \<Rightarrow> store_inv st pin d H0 lo T"
    using store_reach_inv [OF assms] by blast
  obtain H where h: "acks_in A H" "dir_inv d H lo" "set H \<subseteq> T"
  proof (cases so)
    case (Some st)
    then have inv: "store_inv st pin d H0 lo T" using h0(2) by simp
    obtain G where "set G \<subseteq> T" "dir_inv d (H0 @ G) lo" using inv by (rule store_inv_crash)
    moreover have "set H0 \<subseteq> T" using inv by (simp add: store_inv_def)
    ultimately show thesis using that [of "H0 @ G"] acks_in_append [OF h0(1)] by auto
  qed (use h0 that in auto)
  let ?d = "d\<lparr>fs_outcomes := []\<rparr>"
  have inv: "dir_inv ?d H lo" using h(2) by (simp add: dir_inv_outcomes)
  obtain st d' where o: "open_with opts Locked ?d = (Inr st, d')"
    by (rule open_with_succeeds [OF inv, of opts]) simp_all
  have "store_inv st None d' H lo (set H)" by (rule open_with_spec(2) [OF inv o refl])
  with o h show ?thesis
    by (intro exI [of _ st] exI [of _ d'] exI [of _ H])
      (simp add: store_inv_def store_snapshot_def store_index_def)
qed

text \<open>
  What readers see. At every moment the published snapshot is the state of one history that holds
  every acknowledged commit at its index, whole: never part of a commit and never a commit that was
  not attempted, and \<^verbatim>\<open>index()\<close> is the length of that history.
\<close>

theorem reads_see_history:
  assumes "store_reach (Some st) pin d A T"
  shows "\<exists>H. store_snapshot st = snap_of H \<and> store_index st = word_of_nat (length H)
    \<and> set H \<subseteq> T \<and> acks_in A H"
proof -
  obtain H lo where "acks_in A H" "store_inv st pin d H lo T"
    using store_reach_inv [OF assms] by auto
  then show ?thesis
    by (intro exI [of _ H]) (simp add: store_inv_def store_snapshot_def store_index_def)
qed

end
