(* ===== verification/Store_Props.thy ===== *)
theory Store_Props
  imports Durability
begin

text \<open>
  The behaviour of the store's operations on every reachable state (\<^verbatim>\<open>src/engine.rs\<close>): what a commit
  returns and what reads see after it, what a failed commit leaves, and the checkpoint.
\<close>

lemma reach_inv:
  assumes "store_reach (Some st) pin d A T"
  obtains H lo where "acks_in A H" and "store_inv st pin d H lo T"
  using store_reach_inv [OF assms] by auto

lemma store_inv_usable:
  assumes "store_inv st pin d H lo T" and "\<not> wl_poisoned (st_wal st)"
  obtains L where "wal_inv (st_wal st) d L"
  using assms by (auto simp: store_inv_def store_log_def log_part_def)

text \<open>Reads of the snapshot of a history: the last operation on the key decides.\<close>

lemma values_hist_from:
  "bm_wf m \<Longrightarrow> values_of (hist_from i H m) = fold write_value (concat H) (values_of m)"
proof (induction H arbitrary: i m)
  case (Cons ops H)
  from Cons.IH [OF apply_ops_wf [OF Cons.prems]] show ?case
    by (simp add: apply_ops_values [OF Cons.prems] del: of_nat_Suc)
qed simp

lemma get_snap_of:
  "snapshot_get (snap_of H) = fold write_value (concat H) (\<lambda>_. None)"
proof -
  have "snapshot_get (snap_of H) = values_of (hist_from 0 H [])"
    by (rule ext) (simp add: snapshot_get_def values_of_def snap_of_def)
  also have "\<dots> = fold write_value (concat H) (values_of [])"
    by (rule values_hist_from) simp
  also have "values_of [] = (\<lambda>_. None)" by (rule ext) (simp add: values_of_def)
  finally show ?thesis .
qed

text \<open>A flush of admissible commits on a healthy directory is acknowledged.\<close>

lemma flush_group_succeeds:
  assumes inv: "store_inv st pin d H lo T" and healthy: "\<not> wl_poisoned (st_wal st)" "fs_outcomes d = []"
    and seq: "unat (wl_seg_seq (st_wal st)) + 1 < 2 ^ 32"
    and ok: "list_all (\<lambda>ops. check_ops ops = Inr ()) G"
  obtains st' d' where "flush_group G st d = (Inr (group_indices (length H) G), st', d')"
    and "rcu_load (st_snap st') = snap_of (H @ G)" and "fs_outcomes d' = []"
    and "st_index st' = word_of_nat (length (H @ G))"
proof -
  obtain L where "wal_inv (st_wal st) d L" using inv healthy(1) by (rule store_inv_usable)
  moreover have "list_all rec_ok (recs_of (length H) G)" using ok by (simp add: rec_ok_recs_of)
  ultimately obtain wl' d' where "append_many (recs_of (length H) G) (st_wal st) d = (Inr (), wl', d')"
      "fs_outcomes d' = []"
    using append_many_ok [OF _ healthy seq] by metis
  moreover have "rcu_load (st_snap st) = snap_of H" using inv by (simp add: store_inv_def)
  note flush = flush_group_history [OF this, of G d]
  ultimately show thesis using that by (simp add: flush)
qed

text \<open>
  C7: a commit on a healthy store. \<^verbatim>\<open>put\<close>, \<^verbatim>\<open>delete\<close> and \<^verbatim>\<open>apply_batch\<close> (a commit of one or several ops) are
  acknowledged with the next index, and every later read sees exactly the effect of the ops, in
  order: the keys they name take the values they give, every other key keeps its own.
\<close>

theorem commit_ops_functional:
  assumes "store_reach (Some st) pin d A T" and "check_ops ops = Inr ()"
    and "\<not> wl_poisoned (st_wal st)" and "fs_outcomes d = []"
    and "unat (wl_seg_seq (st_wal st)) + 1 < 2 ^ 32" and "unat (store_index st) + 1 < 2 ^ 64"
  shows "\<exists>st' d'. commit_ops ops st d = (Inr (store_index st + 1), st', d')
    \<and> store_reach (Some st') pin d' (A @ [(store_index st + 1, ops)]) (T \<union> {ops})
    \<and> store_index st' = store_index st + 1
    \<and> store_get st' = fold write_value ops (store_get st)"
proof -
  obtain H lo where inv: "store_inv st pin d H lo T" using assms(1) by (rule reach_inv)
  then have h: "rcu_load (st_snap st) = snap_of H" "st_index st = word_of_nat (length H)"
    by (simp_all add: store_inv_def)
  have idx: "group_indices (length H) [ops] = [store_index st + 1]"
    by (simp add: group_indices_def store_index_def h(2))
  have ok: "list_all (\<lambda>ops. check_ops ops = Inr ()) [ops]" using assms(2) by simp
  obtain st' d' where f: "flush_group [ops] st d = (Inr [store_index st + 1], st', d')"
      "rcu_load (st_snap st') = snap_of (H @ [ops])" "st_index st' = word_of_nat (length (H @ [ops]))"
    using flush_group_succeeds [OF inv assms(3-5) ok] idx by metis
  have "store_reach (Some st') pin d' (A @ zip [store_index st + 1] [ops]) (T \<union> set [ops])"
    using sr_flush [OF assms(1) ok _ f(1)] assms(6) by simp
  moreover have "store_get st' = fold write_value ops (store_get st)"
    by (rule ext) (simp add: store_get_def [abs_def] f(2) h(1) get_snap_of)
  ultimately show ?thesis
    using f assms(2) h(2) by (simp add: commit_ops_def store_index_def add.commute)
qed

lemma store_inv_dir:
  assumes "store_inv st pin d H lo T" and "\<not> wl_poisoned (st_wal st)"
  shows "dir_inv d H lo"
  using assms by (auto simp: store_inv_def store_log_def log_part_def dir_inv_def wal_inv_def intro: log_is_torn_log)

lemma flush_group_poisoned: "wl_poisoned (st_wal st) \<Longrightarrow> flush_group G st d = (Inl Other, st, d)"
  by (simp add: flush_group_def Let_def append_many_poisoned split: prod.split)

lemma checkpoint_pin_poisoned: "wl_poisoned (st_wal st) \<Longrightarrow> checkpoint_pin st d = (Inl Other, st, d)"
  by (simp add: checkpoint_pin_def Let_def rotate_segment_poisoned)

lemma reopen_state:
  assumes "dir_inv d H lo"
  obtains st d' where "open_with opts Locked (d\<lparr>fs_outcomes := []\<rparr>) = (Inr st, d')"
    and "store_snapshot st = snap_of H"
proof -
  let ?d = "d\<lparr>fs_outcomes := []\<rparr>"
  have inv: "dir_inv ?d H lo" using assms by (simp add: dir_inv_outcomes)
  obtain st d' where o: "open_with opts Locked ?d = (Inr st, d')"
    by (rule open_with_succeeds [OF inv, of opts]) simp_all
  have "store_inv st None d' H lo (set H)" by (rule open_with_spec(2) [OF inv o refl])
  with o that show thesis by (simp add: store_inv_def store_snapshot_def)
qed

text \<open>
  C6: a failed commit is not applied. Readers of the running store see nothing of it; unless the
  failure poisoned the log, reopening finds exactly the state before it; and a poisoned store refuses
  every further commit and checkpoint and changes nothing.
\<close>

theorem failed_commit_not_applied:
  assumes "store_reach (Some st) pin d A T" and "list_all (\<lambda>ops. check_ops ops = Inr ()) G"
    and "unat (store_index st) + length G < 2 ^ 64" and "flush_group G st d = (Inl e, st', d')"
  shows "store_snapshot st' = store_snapshot st \<and> store_index st' = store_index st
    \<and> (if wl_poisoned (st_wal st')
       then \<forall>G2 d2. flush_group G2 st' d2 = (Inl Other, st', d2) \<and> store_checkpoint st' d2 = (Inl Other, st', d2)
       else \<exists>st2 d2. open_with opts Locked (d'\<lparr>fs_outcomes := []\<rparr>) = (Inr st2, d2)
         \<and> store_snapshot st2 = store_snapshot st)"
proof -
  obtain H lo where h: "acks_in A H" "store_inv st pin d H lo T" using assms(1) by (rule reach_inv)
  then have room: "length H + length G < 2 ^ 64" and snap: "store_snapshot st = snap_of H" "store_index st = word_of_nat (length H)"
    using assms(3) by (simp_all add: store_inv_def store_index_def store_snapshot_def unat_u64_of_nat)
  have "store_inv st pin d H lo (T \<union> set G)" using h(2) by (rule store_inv_mono) blast
  then have inv': "store_inv st' pin d' H lo (T \<union> set G)"
    using flush_group_inv [OF _ assms(2) room _ assms(4)] by auto
  then have same: "store_snapshot st' = store_snapshot st" "store_index st' = store_index st"
    using snap by (simp_all add: store_inv_def store_snapshot_def store_index_def)
  show ?thesis
  proof (cases "wl_poisoned (st_wal st')")
    case True
    with same show ?thesis
      by (simp add: flush_group_poisoned store_checkpoint_def checkpoint_pin_poisoned)
  next
    case False
    obtain st2 d2 where "open_with opts Locked (d'\<lparr>fs_outcomes := []\<rparr>) = (Inr st2, d2)" "store_snapshot st2 = snap_of H"
      using store_inv_dir [OF inv' False] by (rule reopen_state)
    with same snap False show ?thesis by auto
  qed
qed

text \<open>
  C9: a successful checkpoint. It returns the index of the pinned snapshot, a load finds exactly that
  snapshot, readers see no change, and reopening still finds the same state with the reclaimed
  segments gone.
\<close>

theorem checkpoint_functional:
  assumes "store_reach (Some st) None d A T" and "snapshot_len (store_snapshot st) < 2 ^ 64"
    and "store_checkpoint st d = (Inr i, st', d')"
  shows "i = store_index st \<and> store_snapshot st' = store_snapshot st
    \<and> ckpt_load d' = Inr \<lparr>ld_snapshot = Some (store_snapshot st), ld_latest_damaged = False\<rparr>
    \<and> (\<exists>st2 d2. open_with opts Locked (d'\<lparr>fs_outcomes := []\<rparr>) = (Inr st2, d2)
         \<and> store_snapshot st2 = store_snapshot st)"
proof -
  obtain H lo where inv: "store_inv st None d H lo T" using assms(1) by (rule reach_inv)
  then have snap: "store_snapshot st = snap_of H" "store_index st = word_of_nat (length H)"
    by (simp_all add: store_inv_def store_snapshot_def store_index_def)
  obtain p st1 d1 where pin: "checkpoint_pin st d = (Inr p, st1, d1)" and fin: "checkpoint_finish p st1 d1 = (Inr i, st', d')"
    using assms(3) by (auto simp: store_checkpoint_def split: prod.splits sum.splits)
  have p: "fst p = snap_of H" and inv1: "store_inv st1 (Some p) d1 H lo T"
    using checkpoint_pin_inv [OF inv pin] by auto
  have small: "length (sn_data (fst p)) < 2 ^ 64" using assms(2) p snap by (simp add: snapshot_len_def)
  obtain lo' where inv2: "store_inv st' None d' H lo' T" using checkpoint_finish_inv(1) [OF inv1 small fin] by blast
  have latest: "i = sn_index (snap_of H)" "latest d' = Inr (Some (snap_of H))"
    using checkpoint_finish_inv(2) [OF inv1 small fin refl] p by simp_all
  have snap': "store_snapshot st' = store_snapshot st"
    using inv2 snap by (simp add: store_inv_def store_snapshot_def)
  have loaded: "ckpt_load d' = Inr \<lparr>ld_snapshot = Some (snap_of H), ld_latest_damaged = False\<rparr>"
    by (simp add: ckpt_load_def latest(2))
  have usable: "\<not> wl_poisoned (st_wal st')"
  proof -
    have np: "\<not> wl_poisoned (st_wal st)" using pin checkpoint_pin_poisoned by auto
    obtain L where L: "wal_inv (st_wal st) d L" using inv np by (rule store_inv_usable)
    obtain b wl1 where rot: "rotate_segment (st_wal st) d = (Inr b, wl1, d1)" "st_wal st1 = wl1"
      using pin by (auto simp: checkpoint_pin_def Let_def split: prod.splits sum.splits)
    have "list_all rec_ok []" by simp
    then have "\<not> wl_poisoned (st_wal st1)"
      using rotate_segment_spec(1) [OF L np _ rot(1) refl] rot(2) by blast
    moreover have "st_wal st' = st_wal st1"
      using fin by (auto simp: checkpoint_finish_def Let_def split: prod.splits sum.splits)
    ultimately show ?thesis by simp
  qed
  obtain st2 d2 where "open_with opts Locked (d'\<lparr>fs_outcomes := []\<rparr>) = (Inr st2, d2)"
      "store_snapshot st2 = snap_of H"
    using store_inv_dir [OF inv2 usable] by (rule reopen_state)
  with snap' loaded latest(1) snap show ?thesis by (auto simp: snap_of_def)
qed

subsection \<open>Versions\<close>

text \<open>An entry after a commit is one from before it, or one that the commit put, at the commit's index.\<close>

lemma apply_ops_entry:
  "bm_wf m \<Longrightarrow> bm_get (apply_ops ops i m) k = Some e \<Longrightarrow>
    bm_get m k = Some e \<or> e_version e = i \<and> Put k (e_value e) \<in> set ops"
proof (induction ops arbitrary: m)
  case (Cons op ops)
  have one: "bm_get m k = Some e \<or> e_version e = i \<and> op = Put k (e_value e)" if "bm_get (fst (op_apply op m i)) k = Some e"
    using that Cons.prems(1)
    by (cases op) (auto simp: bm_get_insert bm_get_remove split: option.splits if_splits)
  from Cons.IH [OF op_apply_wf [OF Cons.prems(1)]] Cons.prems(2) one show ?case by auto
qed (simp add: apply_ops_def)

definition entry_at :: "history \<Rightarrow> bytes \<Rightarrow> bytes \<Rightarrow> nat \<Rightarrow> bool" where
  "entry_at H k v n \<longleftrightarrow> 0 < n \<and> n \<le> length H \<and> Put k v \<in> set (H ! (n - 1))
     \<and> (\<forall>j. n \<le> j \<longrightarrow> j \<le> length H \<longrightarrow> snapshot_get (snap_of (take j H)) k = Some v)"

lemma snap_of_entry:
  assumes "length H < 2 ^ 64" and "bm_get (sn_data (snap_of H)) k = Some e"
  shows "entry_at H k (e_value e) (unat (e_version e))"
  using assms
proof (induction H arbitrary: e rule: rev_induct)
  case (snoc ops H)
  let ?G = "H @ [ops]" and ?i = "word_of_nat (Suc (length H)) :: u64"
  have now: "snapshot_get (snap_of ?G) k = Some (e_value e)"
    using snoc.prems(2) by (simp add: snapshot_get_def)
  have i: "unat ?i = Suc (length H)" using snoc.prems(1) by (intro unat_u64_of_nat) simp
  have data: "sn_data (snap_of ?G) = apply_ops ops ?i (sn_data (snap_of H))"
    by (simp add: snap_of_def hist_from_append)
  have "bm_wf (sn_data (snap_of H))" using snap_of_wf [of H] by (simp add: snapshot_wf_def)
  from apply_ops_entry [OF this] snoc.prems(2) consider
    (old) "bm_get (sn_data (snap_of H)) k = Some e" | (new) "e_version e = ?i" "Put k (e_value e) \<in> set ops"
    unfolding data by blast
  then show ?case
  proof cases
    case old
    then have "entry_at H k (e_value e) (unat (e_version e))" using snoc by simp
    moreover have "snapshot_get (snap_of (take j ?G)) k = Some (e_value e)" if "unat (e_version e) \<le> j" "j \<le> length ?G" for j
    proof (cases "j = length ?G")
      case False
      with that calculation show ?thesis by (simp add: entry_at_def)
    qed (use now in simp)
    ultimately show ?thesis by (auto simp: entry_at_def nth_append)
  next
    case new
    have "j = length ?G" if "unat (e_version e) \<le> j" "j \<le> length ?G" for j using that new(1) i by simp
    with new i now show ?thesis by (auto simp: entry_at_def simp del: of_nat_Suc)
  qed
qed (simp add: snap_of_def)

text \<open>
  C8: versions are commit indices. In every reachable store, a key read with its version \<open>n\<close> was put with that
  value by the \<open>n\<close>-th commit of the store's history, and has kept the value in every state since; so a version
  is never zero and never above the store's index.
\<close>

theorem versions_are_indices:
  assumes "store_reach (Some st) pin d A T" and "store_get_with_version st key = Some (v, n)"
  shows "\<exists>H. store_snapshot st = snap_of H \<and> acks_in A H \<and> store_index st = word_of_nat (length H)
    \<and> entry_at H key v (unat n) \<and> 0 < n \<and> n \<le> store_index st"
proof -
  obtain H lo where h: "acks_in A H" "store_inv st pin d H lo T" using assms(1) by (rule reach_inv)
  then have s: "rcu_load (st_snap st) = snap_of H" "st_index st = word_of_nat (length H)" "length H < 2 ^ 64"
    by (simp_all add: store_inv_def)
  obtain e where "bm_get (sn_data (snap_of H)) key = Some e" "v = e_value e" "n = e_version e"
    using assms(2) by (auto simp: store_get_with_version_def snapshot_get_with_version_def s(1) split: option.splits)
  then have at: "entry_at H key v (unat n)" using snap_of_entry [OF s(3)] by blast
  then have "0 < n \<and> n \<le> store_index st"
    using s(2,3) by (simp add: entry_at_def store_index_def word_le_nat_alt word_less_nat_alt unat_u64_of_nat)
  with at h(1) s show ?thesis by (auto simp: store_snapshot_def store_index_def)
qed

subsection \<open>The properties at work\<close>

text \<open>A fresh store on an empty directory whose calls succeed.\<close>

definition empty_dir :: fs where
  "empty_dir = \<lparr>fs_files = [], fs_outcomes = [], fs_disk = boot []\<rparr>"

lemma empty_dir_reach: "store_reach None None empty_dir [] {}"
  by (rule sr_init) (simp_all add: empty_dir_def list_segments_def load_file_def)

lemma fresh_open:
  obtains st d where "open_with options_default Locked empty_dir = (Inr st, d)" and "\<not> wl_poisoned (st_wal st)"
    and "fs_outcomes d = []" and "wl_seg_seq (st_wal st) = 1" and "store_index st = 0"
    and "store_snapshot st = snapshot_empty"
proof -
  let ?d = "fs_create LOCK_NAME empty_dir"
  have lock: "lock_dir Locked empty_dir = (Inr (), ?d)"
    by (simp add: lock_dir_def fs_open_create_def empty_dir_def fs_exists_def)
  have segs: "list_segments ?d = []" by (simp add: empty_dir_def list_segments_def)
  have load: "ckpt_load ?d = Inr \<lparr>ld_snapshot = None, ld_latest_damaged = False\<rparr>"
    by (simp add: ckpt_load_def load_file_def empty_dir_def)
  obtain wl d where o: "wal_open DEFAULT_WAL_SEGMENT_SIZE ?d = (Inr wl, d)" "fs_outcomes d = []"
      "wl = \<lparr>wl_seg_seq = 1, wl_seg_bytes = HEADER_LEN,
         wl_max_seg_bytes = max DEFAULT_WAL_SEGMENT_SIZE (HEADER_LEN + MIN_RECORD), wl_poisoned = False\<rparr>"
    by (rule wal_open_fresh [of ?d DEFAULT_WAL_SEGMENT_SIZE, OF _ _ segs])
      (simp_all add: empty_dir_def)
  have "replay (recover_record 0) ?d ([], 0, None) = Inr (([], 0, None), None)"
    by (simp add: replay_def segs)
  then have loc: "open_locked options_default ?d = (Inr \<lparr>st_snap = rcu_new snapshot_empty, st_wal = wl,
      st_prev_boundary = 1, st_latest_damaged = False, st_index = 0,
      st_stats = \<lparr>commits = 0, wal_syncs = 0, checkpoints = 0\<rparr>\<rparr>, d)" (is "_ = (Inr ?st, _)")
    using o by (simp add: open_locked_def load snapshot_empty_def options_default_def current_segment_def)
  have "open_with options_default Locked empty_dir = (Inr ?st, d)"
    using lock loc by (simp add: open_with_def fs_call_def empty_dir_def)
  with o show thesis by (intro that [of ?st d]) (simp_all add: store_index_def store_snapshot_def)
qed

lemma fresh_store:
  obtains st d where "store_reach (Some st) None d [] {}" and "\<not> wl_poisoned (st_wal st)"
    and "fs_outcomes d = []" and "wl_seg_seq (st_wal st) = 1" and "store_index st = 0"
    and "store_snapshot st = snapshot_empty"
proof -
  have e: "empty_dir\<lparr>fs_outcomes := []\<rparr> = empty_dir" by (simp add: empty_dir_def)
  show thesis
    by (rule fresh_open, rule that [OF sr_open [OF empty_dir_reach, where outs = "[]", unfolded e]]) assumption+
qed

lemma check_ops_example: "check_ops [Put [1] [2], Delete [3]] = Inr ()"
  by (simp add: check_ops_def payload_len_def MAX_PAYLOAD_def)

theorem commit_ops_functional_witness:
  "\<exists>st d st' d'. commit_ops [Put [1] [2], Delete [3]] st d = (Inr 1, st', d')
     \<and> store_get st' = (\<lambda>_. None)([1] \<mapsto> [2])"
proof -
  obtain st d where f: "store_reach (Some st) None d [] {}" "\<not> wl_poisoned (st_wal st)" "fs_outcomes d = []"
      "wl_seg_seq (st_wal st) = 1" "store_index st = 0" "store_snapshot st = snapshot_empty"
    by (rule fresh_store)
  have "store_get st = (\<lambda>_. None)"
    using f(6) by (auto simp: store_get_def store_snapshot_def snapshot_get_def snapshot_empty_def)
  then have "fold write_value [Put [1] [2], Delete [3]] (store_get st) = (\<lambda>_. None)([1] \<mapsto> [2])"
    by (auto simp: write_value_def op_value_def fun_eq_iff)
  with commit_ops_functional [OF f(1) check_ops_example f(2,3)] f(4,5) show ?thesis by auto
qed

text \<open>An append that succeeds leaves the log usable, at most one segment further.\<close>

lemma append_buffer_seq:
  "append_buffer b wl d = (Inr (), wl', d') \<Longrightarrow> wl_poisoned wl' = wl_poisoned wl \<and> wl_seg_seq wl' = wl_seg_seq wl"
  by (auto simp: append_buffer_def split: prod.splits sum.splits)

lemma rotate_segment_seq:
  assumes "rotate_segment wl d = (Inr q, wl', d')"
  shows "wl_poisoned wl' = wl_poisoned wl \<and> wl_seg_seq wl' = wl_seg_seq wl + 1"
  using assms by (auto simp: rotate_segment_def Let_def split: prod.splits sum.splits if_splits)

lemma append_many_seq:
  assumes "append_many recs wl d = (Inr (), wl', d')"
  shows "\<not> wl_poisoned wl'" and "unat (wl_seg_seq wl') \<le> unat (wl_seg_seq wl) + 1"
proof -
  have "\<not> wl_poisoned wl" using assms append_many_poisoned by (metis Inl_Inr_False fst_conv)
  then have "\<not> wl_poisoned wl' \<and> (wl_seg_seq wl' = wl_seg_seq wl \<or> wl_seg_seq wl' = wl_seg_seq wl + 1)"
    using assms
    by (auto simp: append_many_def split: sum.splits prod.splits if_splits
        dest!: append_buffer_seq rotate_segment_seq)
  moreover have "unat (q + 1) \<le> unat q + 1" for q :: u32 by (simp add: unat_word_ariths)
  ultimately show "\<not> wl_poisoned wl'" and "unat (wl_seg_seq wl') \<le> unat (wl_seg_seq wl) + 1" by auto
qed

lemma flush_group_seq:
  assumes "flush_group G st d = (Inr idx, st', d')"
  shows "\<not> wl_poisoned (st_wal st')" and "unat (wl_seg_seq (st_wal st')) \<le> unat (wl_seg_seq (st_wal st)) + 1"
proof -
  obtain recs d'' where "append_many recs (st_wal st) d = (Inr (), st_wal st', d'')"
    using assms by (auto simp: flush_group_def Let_def split: prod.splits sum.splits)
  from append_many_seq [OF this] show "\<not> wl_poisoned (st_wal st')"
    and "unat (wl_seg_seq (st_wal st')) \<le> unat (wl_seg_seq (st_wal st)) + 1" by simp_all
qed

lemma committed_store:
  obtains st d where "store_reach (Some st) None d [(1, [Put [1] [2], Delete [3]])] {[Put [1] [2], Delete [3]]}"
    and "store_get_with_version st [1] = Some ([2], 1)"
    and "store_snapshot st = snap_of [[Put [1] [2], Delete [3]]]" and "\<not> wl_poisoned (st_wal st)" and "fs_outcomes d = []"
    and "unat (wl_seg_seq (st_wal st)) + 1 < 2 ^ 32"
proof -
  obtain st d where f: "store_reach (Some st) None d [] {}" "\<not> wl_poisoned (st_wal st)" "fs_outcomes d = []"
      "wl_seg_seq (st_wal st) = 1" "store_index st = 0" by (rule fresh_store)
  obtain H lo where inv: "store_inv st None d H lo {}" using f(1) by (rule reach_inv)
  then have H: "H = []" by (simp add: store_inv_def)
  have ok: "list_all (\<lambda>ops. check_ops ops = Inr ()) [[Put [1] [2], Delete [3]]]" using check_ops_example by simp
  obtain st' d' where fl: "flush_group [[Put [1] [2], Delete [3]]] st d
      = (Inr (group_indices (length H) [[Put [1] [2], Delete [3]]]), st', d')"
      "rcu_load (st_snap st') = snap_of (H @ [[Put [1] [2], Delete [3]]])" "fs_outcomes d' = []"
    by (rule flush_group_succeeds [OF inv f(2,3) _ ok]) (use f(4) in simp_all)
  have "store_snapshot st' = snap_of [[Put [1] [2], Delete [3]]]" using fl(2) by (simp add: store_snapshot_def H)
  moreover note flush_group_seq [OF fl(1)]
  moreover have "store_get_with_version st' [1] = Some ([2], 1)"
    by (simp add: store_get_with_version_def snapshot_get_with_version_def fl(2) H snap_of_def apply_ops_def bm_remove_def)
  ultimately show thesis using sr_flush [OF f(1) ok _ fl(1)] f(4,5) fl(3) that by (simp add: H group_indices_def)
qed

theorem store_recovers_acknowledged_witness:
  "\<exists>d e st d' H. cut d e \<and> open_with options_default Locked (e\<lparr>fs_outcomes := []\<rparr>) = (Inr st, d')
    \<and> store_snapshot st = snap_of H \<and> set H \<subseteq> {[Put [1] [2], Delete [3]]}
    \<and> acks_in [(1, [Put [1] [2], Delete [3]])] H"
proof -
  obtain st d where r: "store_reach (Some st) None d [(1, [Put [1] [2], Delete [3]])] {[Put [1] [2], Delete [3]]}"
    by (rule committed_store)
  obtain e where e: "cut d e" using store_reach_cut [OF r] by blast
  from store_recovers_acknowledged [OF sr_power [OF r e], of options_default] e show ?thesis by blast
qed

theorem reads_see_history_witness:
  "\<exists>st H. store_snapshot st = snap_of H \<and> acks_in [(1, [Put [1] [2], Delete [3]])] H"
proof -
  obtain st d where r: "store_reach (Some st) None d [(1, [Put [1] [2], Delete [3]])] {[Put [1] [2], Delete [3]]}"
    by (rule committed_store)
  from reads_see_history [OF this] show ?thesis by blast
qed

theorem versions_are_indices_witness:
  "\<exists>st H. store_snapshot st = snap_of H \<and> acks_in [(1, [Put [1] [2], Delete [3]])] H \<and> entry_at H [1] [2] 1"
proof -
  obtain st d where r: "store_reach (Some st) None d [(1, [Put [1] [2], Delete [3]])] {[Put [1] [2], Delete [3]]}"
      and v: "store_get_with_version st [1] = Some ([2], 1)"
    by (rule committed_store)
  from versions_are_indices [OF r v] show ?thesis by auto
qed

text \<open>On a healthy directory a checkpoint goes through.\<close>

lemma rename_ok:
  assumes "bm_wf (fs_files d)" and "fs_outcomes d = []" and "file_at d a = Some c" and "a \<noteq> b"
  obtains d' where "fs_rename a b d = (Inr (), d')" and "fs_outcomes d' = []" and "bm_wf (fs_files d')"
    and "file_at d' = (file_at d)(b \<mapsto> c, a := None)"
proof -
  have "fs_rename a b d = (Inr (), fs_set b c (fs_unset a (fs_note (Renamed a b) d)))"
    using assms(2,3) by (simp add: fs_rename_def file_at_def)
  with rename_file [OF this assms(1,4,3)] assms(2) that show thesis by simp
qed

lemma ckpt_write_ok:
  assumes wf: "bm_wf (fs_files d)" and out: "fs_outcomes d = []" and fits: "list_all entry_fits (sn_data snap)"
  obtains d' where "ckpt_write snap rep d = (Inr (), d')" and "fs_outcomes d' = []"
proof -
  let ?b = "fst (snd (write_body snap ([], crc_new))) @ u32_to_le (crc_finish (snd (snd (write_body snap ([], crc_new)))))"
  define d1 where "d1 = fs_set SNAPSHOT_TMP [] (fs_note (if fs_exists SNAPSHOT_TMP d then Resized SNAPSHOT_TMP 0 else Created SNAPSHOT_TMP) d)"
  define d2 where "d2 = fs_note (Synced SNAPSHOT_TMP) (fs_set SNAPSHOT_TMP (fs_content SNAPSHOT_TMP d1 @ ?b) (fs_note (Wrote SNAPSHOT_TMP ?b) d1))"
  have d2: "fs_outcomes d2 = []" "bm_wf (fs_files d2)" "\<exists>c. file_at d2 SNAPSHOT_TMP = Some c"
    using wf out by (simp_all add: d1_def d2_def bm_wf_insert file_at_def bm_get_insert)
  have "\<exists>d3. (if rep = Retain \<and> fs_exists SNAPSHOT_NAME d2 then fs_rename SNAPSHOT_NAME SNAPSHOT_PREV d2
      else (Inr (), d2)) = (Inr (), d3) \<and> fs_outcomes d3 = [] \<and> bm_wf (fs_files d3) \<and> (\<exists>c. file_at d3 SNAPSHOT_TMP = Some c)"
  proof (cases "rep = Retain \<and> fs_exists SNAPSHOT_NAME d2")
    case True
    then obtain c where "file_at d2 SNAPSHOT_NAME = Some c" by (auto simp: fs_exists_def file_at_def)
    then obtain d3 where "fs_rename SNAPSHOT_NAME SNAPSHOT_PREV d2 = (Inr (), d3)" "fs_outcomes d3 = []"
        "bm_wf (fs_files d3)" "file_at d3 = (file_at d2)(SNAPSHOT_PREV \<mapsto> c, SNAPSHOT_NAME := None)"
      by (rule rename_ok [OF d2(2,1), of SNAPSHOT_NAME _ SNAPSHOT_PREV]) simp
    with True d2(3) show ?thesis by auto
  qed (use d2 in auto)
  then obtain d3 c where d3: "(if rep = Retain \<and> fs_exists SNAPSHOT_NAME d2 then fs_rename SNAPSHOT_NAME SNAPSHOT_PREV d2
      else (Inr (), d2)) = (Inr (), d3)" "fs_outcomes d3 = []" "bm_wf (fs_files d3)" "file_at d3 SNAPSHOT_TMP = Some c"
    by blast
  obtain d4 where d4: "fs_rename SNAPSHOT_TMP SNAPSHOT_NAME d3 = (Inr (), d4)" "fs_outcomes d4 = []"
    by (rule rename_ok [OF d3(3,2,4), of SNAPSHOT_NAME]) simp_all
  have "ckpt_write snap rep d = (Inr (), fs_note SyncedDir d4)"
    using out d2(1) d3(1) d4 write_body_ok [OF fits]
    by (simp add: ckpt_write_def fs_open_truncate_def fs_write_all_def fs_sync_def d1_def d2_def cong: if_cong)
  with d4(2) that show thesis by simp
qed

lemma remove_files_ok:
  assumes "fs_outcomes d = []" and "distinct ns" and "\<forall>n \<in> set ns. fs_exists n d"
  shows "\<exists>d'. remove_files ns d = (Inr (), d') \<and> fs_outcomes d' = []"
  using assms
proof (induction ns arbitrary: d)
  case (Cons n ns)
  have "fs_remove n d = (Inr (), fs_unset n (fs_note (Removed n) d))" using Cons.prems by (simp add: fs_remove_def)
  moreover have "\<forall>x \<in> set ns. fs_exists x (fs_unset n (fs_note (Removed n) d))"
    using Cons.prems by (auto simp: fs_exists_def bm_get_remove)
  ultimately show ?case using Cons.IH [of "fs_unset n (fs_note (Removed n) d)"] Cons.prems by simp
qed simp

lemma remove_segments_before_ok:
  assumes "bm_wf (fs_files d)" and "fs_outcomes d = []"
  obtains n d' where "remove_segments_before seq wl d = (Inr n, d')"
proof -
  let ?doomed = "filter (\<lambda>p. case segment_seq p of
      Some s \<Rightarrow> s < seq \<and> s \<noteq> wl_seg_seq wl | None \<Rightarrow> False) (map fst (list_segments d))"
  have "distinct ?doomed" using bm_wf_list_segments [OF assms(1)] by (simp add: bm_wf_distinct)
  moreover have "\<forall>n \<in> set ?doomed. fs_exists n d"
    by (auto simp: fs_exists_def list_segments_def dest: weak_map_of_SomeI)
  ultimately obtain d1 where "remove_files ?doomed d = (Inr (), d1)" "fs_outcomes d1 = []"
    using remove_files_ok [OF assms(2)] by blast
  then have "\<exists>n d'. remove_segments_before seq wl d = (Inr n, d')"
    by (cases "?doomed = []") (simp_all add: remove_segments_before_def Let_def fs_sync_def)
  then show thesis using that by blast
qed

lemma store_checkpoint_ok:
  assumes inv: "store_inv st None d H lo T" and healthy: "\<not> wl_poisoned (st_wal st)" "fs_outcomes d = []"
    and seq: "unat (wl_seg_seq (st_wal st)) + 1 < 2 ^ 32" and fits: "list_all entry_fits (sn_data (store_snapshot st))"
  obtains i st' d' where "store_checkpoint st d = (Inr i, st', d')"
proof -
  obtain L where L: "wal_inv (st_wal st) d L" using inv healthy(1) by (rule store_inv_usable)
  obtain wl1 d1 where rot: "rotate_segment (st_wal st) d = (Inr (wl_seg_seq (st_wal st) + 1), wl1, d1)"
      "fs_outcomes d1 = []"
    using L healthy seq by (rule rotate_segment_ok)
  let ?p = "(store_snapshot st, wl_seg_seq (st_wal st) + 1)"
  have pin: "checkpoint_pin st d = (Inr ?p, st\<lparr>st_wal := wl1\<rparr>, d1)"
    using rot(1) by (simp add: checkpoint_pin_def store_snapshot_def)
  have "store_inv (st\<lparr>st_wal := wl1\<rparr>) (Some ?p) d1 H lo T"
    using checkpoint_pin_inv [OF inv pin] unfolding sum.case by blast
  then have wf1: "bm_wf (fs_files d1)" by (auto simp: store_inv_def store_log_def dest: log_part_wf)
  obtain d2 where w: "ckpt_write (store_snapshot st) (if st_latest_damaged st then Discard else Retain) d1 = (Inr (), d2)"
      "fs_outcomes d2 = []"
    using wf1 rot(2) fits by (rule ckpt_write_ok)
  have wf2: "bm_wf (fs_files d2)" using segs_ckpt_write(1) [OF wf1 w(1)] .
  obtain n d3 where "remove_segments_before (st_prev_boundary st) wl1 d2 = (Inr n, d3)"
    using wf2 w(2) by (rule remove_segments_before_ok)
  then show thesis using that pin w(1) by (simp add: store_checkpoint_def checkpoint_finish_def Let_def)
qed

theorem checkpoint_functional_witness:
  "\<exists>st d st' d' st2 d2. store_checkpoint st d = (Inr 1, st', d')
    \<and> ckpt_load d' = Inr \<lparr>ld_snapshot = Some \<lparr>sn_index = 1, sn_data = [([1], \<lparr>e_value = [2], e_version = 1\<rparr>)]\<rparr>, ld_latest_damaged = False\<rparr>
    \<and> open_with options_default Locked (d'\<lparr>fs_outcomes := []\<rparr>) = (Inr st2, d2) \<and> store_get st2 [1] = Some [2]"
proof -
  let ?snap = "\<lparr>sn_index = 1, sn_data = [([1], \<lparr>e_value = [2], e_version = 1\<rparr>)]\<rparr> :: snapshot"
  obtain st d where r: "store_reach (Some st) None d [(1, [Put [1] [2], Delete [3]])] {[Put [1] [2], Delete [3]]}"
      "\<not> wl_poisoned (st_wal st)" "fs_outcomes d = []" "unat (wl_seg_seq (st_wal st)) + 1 < 2 ^ 32"
      and s: "store_snapshot st = snap_of [[Put [1] [2], Delete [3]]]"
    by (rule committed_store)
  have snap: "store_snapshot st = ?snap" unfolding s by (simp add: snap_of_def apply_ops_def bm_remove_def)
  obtain H lo where inv: "store_inv st None d H lo {[Put [1] [2], Delete [3]]}" using r(1) by (rule reach_inv)
  then have "store_index st = sn_index (store_snapshot st)"
    by (simp add: store_inv_def store_index_def store_snapshot_def snap_of_def)
  then have idx: "store_index st = 1" by (simp add: snap)
  obtain i st' d' where run: "store_checkpoint st d = (Inr i, st', d')"
    by (rule store_checkpoint_ok [OF inv r(2-4)]) (simp add: snap entry_fits_def)
  have "snapshot_len (store_snapshot st) < 2 ^ 64" by (simp add: snap snapshot_len_def)
  from checkpoint_functional [OF r(1) this run, of options_default] obtain st2 d2 where
      "i = 1" "ckpt_load d' = Inr \<lparr>ld_snapshot = Some ?snap, ld_latest_damaged = False\<rparr>"
      "open_with options_default Locked (d'\<lparr>fs_outcomes := []\<rparr>) = (Inr st2, d2)" "store_snapshot st2 = ?snap"
    using idx snap by auto
  moreover from this have "store_get st2 [1] = Some [2]" by (simp add: store_get_def store_snapshot_def snapshot_get_def)
  ultimately show ?thesis using run by blast
qed

text \<open>A store whose seventh call after the start of \<^verbatim>\<open>open\<close>, the write of its first flush, fails.\<close>

lemma failing_store:
  obtains st d where "store_reach (Some st) None d [] {}" and "fs_outcomes d = [IoErr StorageFull 3]"
    and "\<not> wl_poisoned (st_wal st)" and "store_index st = 0" and "wl_seg_bytes (st_wal st) = HEADER_LEN"
    and "rcu_load (st_snap st) = snap_of []"
proof -
  let ?outs = "[IoOk, IoOk, IoOk, IoOk, IoOk, IoOk, IoErr StorageFull 3]"
  let ?d2 = "\<lparr>fs_files = [(LOCK_NAME, [])], fs_outcomes = [IoOk, IoOk, IoOk, IoOk, IoErr StorageFull 3],
      fs_disk = disk_step (Created LOCK_NAME) (boot [])\<rparr> :: fs"
  let ?wl = "\<lparr>wl_seg_seq = 1, wl_seg_bytes = HEADER_LEN,
     wl_max_seg_bytes = max DEFAULT_WAL_SEGMENT_SIZE (HEADER_LEN + MIN_RECORD), wl_poisoned = False\<rparr> :: wal"
  have lock: "io_then (fs_call (empty_dir\<lparr>fs_outcomes := ?outs\<rparr>)) (lock_dir Locked) = (Inr (), ?d2)"
    by (simp add: fs_call_def next_io_def lock_dir_def fs_open_create_def empty_dir_def fs_exists_def fs_create_def fs_set_def fs_note_def)
  have segs: "list_segments ?d2 = []" by (simp add: list_segments_def)
  have fresh: "segment_path 1 \<noteq> LOCK_NAME" using lock_name_free(1) by (metis option.distinct(1) segment_seq_path)
  have load: "ckpt_load ?d2 = Inr \<lparr>ld_snapshot = None, ld_latest_damaged = False\<rparr>"
    by (simp add: ckpt_load_def load_file_def)
  have "\<exists>d3. wal_open DEFAULT_WAL_SEGMENT_SIZE ?d2 = (Inr ?wl, d3) \<and> fs_outcomes d3 = [IoErr StorageFull 3]"
    using fresh
    by (simp add: wal_open_def segs Let_def fs_exists_def fs_open_create_def next_io_def fs_set_def fs_content_def
        fs_create_def fs_note_def bm_get_insert fs_write_all_def fs_sync_def)
  then obtain d3 where o: "wal_open DEFAULT_WAL_SEGMENT_SIZE ?d2 = (Inr ?wl, d3)" "fs_outcomes d3 = [IoErr StorageFull 3]"
    by blast
  have "replay (recover_record 0) ?d2 ([], 0, None) = Inr (([], 0, None), None)" by (simp add: replay_def segs)
  then have "open_locked options_default ?d2 = (Inr \<lparr>st_snap = rcu_new snapshot_empty, st_wal = ?wl,
      st_prev_boundary = 1, st_latest_damaged = False, st_index = 0,
      st_stats = \<lparr>commits = 0, wal_syncs = 0, checkpoints = 0\<rparr>\<rparr>, d3)" (is "_ = (Inr ?st, _)")
    using o by (simp add: open_locked_def load snapshot_empty_def options_default_def current_segment_def)
  then have "open_with options_default Locked (empty_dir\<lparr>fs_outcomes := ?outs\<rparr>) = (Inr ?st, d3)"
    using lock by (cases "fs_call (empty_dir\<lparr>fs_outcomes := ?outs\<rparr>)"; cases "fst (fs_call (empty_dir\<lparr>fs_outcomes := ?outs\<rparr>))")
      (auto simp: open_with_def)
  from sr_open [OF empty_dir_reach this] o(2) show thesis
    by (intro that [of ?st d3]) (simp_all add: store_index_def snap_of_Nil)
qed

theorem failed_commit_not_applied_witness:
  "\<exists>st d st' d' st2 d2. flush_group [[Delete [5]]] st d = (Inl StorageFull, st', d')
     \<and> open_with options_default Locked (d'\<lparr>fs_outcomes := []\<rparr>) = (Inr st2, d2)
     \<and> store_snapshot st2 = store_snapshot st"
proof -
  obtain st d where f: "store_reach (Some st) None d [] {}" "fs_outcomes d = [IoErr StorageFull 3]"
      "\<not> wl_poisoned (st_wal st)" "store_index st = 0" "wl_seg_bytes (st_wal st) = HEADER_LEN"
      "rcu_load (st_snap st) = snap_of []"
    by (rule failing_store)
  let ?r = "\<lparr>r_term = SINGLE_NODE_TERM, r_index = 1, r_ops = [Delete [5]]\<rparr> :: wal_record"
  have ok: "list_all (\<lambda>ops. check_ops ops = Inr ()) [[Delete [5]]]"
    by (simp add: check_ops_def payload_len_def MAX_PAYLOAD_def)
  then have enc: "encode_group [?r] = Inr (wal.frames [?r])" by (simp add: encode_group_Inr rec_ok_def)
  have "\<exists>d'. append_buffer (wal.frames [?r]) (st_wal st) d = (Inl StorageFull, st_wal st, d')"
    using f(2) by (simp add: append_buffer_def fs_write_all_def next_io_def roll_back_def fs_set_len_def fs_sync_def
        fs_call_def Let_def fs_set_def)
  then obtain d' where "append_many [?r] (st_wal st) d = (Inl StorageFull, st_wal st, d')"
    using f(3,5) enc by (auto simp: append_many_def check_usable_def)
  then have run: "flush_group [[Delete [5]]] st d = (Inl StorageFull, st, d')"
    using flush_group_history [OF f(6), of "[[Delete [5]]]" d] by simp
  have "unat (store_index st) + length [[Delete [5]]] < 2 ^ 64" using f(4) by simp
  with failed_commit_not_applied [OF f(1) ok _ run, of options_default] f(3) obtain st2 d2 where
    "open_with options_default Locked (d'\<lparr>fs_outcomes := []\<rparr>) = (Inr st2, d2)"
    "store_snapshot st2 = store_snapshot st" by auto
  with run show ?thesis by (intro exI conjI)
qed

end
