(* ===== verification/Group_Commit.thy ===== *)
theory Group_Commit
  imports Store_Props
begin

text \<open>
  Group commit (\<^verbatim>\<open>src/engine.rs\<close>: the queue, the tickets, \<^verbatim>\<open>commit_ops\<close>, \<^verbatim>\<open>exclusive_instant\<close>,
  \<^verbatim>\<open>checkpoint\<close>). Concurrent calls are interleaved at the points where the code takes or releases a
  lock: each step below is what one thread does under a lock, the part of a flush or checkpoint
  that runs while it holds the flushing flag, or the last part of a checkpoint, where the write of the snapshot and the removal of
  segments are one step. A thread that waits on the condition variable is asleep until it is
  notified, or woken for no reason. A commit call is named by a number, which names its
  ticket too. What is shown: no call is acknowledged before its commit is durable, every ticket of a
  group is settled once with its own result, indices are never shared, nobody panics, and no wake-up
  is lost: the calls that are under way all return.
\<close>

subsection \<open>The program\<close>

text \<open>Where a \<^verbatim>\<open>commit_ops\<close> call is, and where the checkpoint (there is one at a time) is.\<close>

datatype commit_pc =
    Idle
  | Waiting
  | Flushing "(nat \<times> op list) list"
  | Settling "(nat \<times> u64 io_result) list"
  | Returned "u64 io_result"
  | Panicked

datatype ckpt_pc = CkIdle | CkWaiting | CkExclusive | CkWriting "snapshot \<times> u32"

text \<open>Who can sleep on the condition variable \<^verbatim>\<open>flushed\<close>.\<close>

datatype waiter = CommitCall nat | CkptCall

record gc =
  gc_pending :: "(nat \<times> op list) list"
  gc_flushing :: bool
  gc_ticket :: "nat \<Rightarrow> u64 io_result option"
  gc_call :: "nat \<Rightarrow> commit_pc"
  gc_ops :: "nat \<Rightarrow> op list"
  gc_ck :: ckpt_pc
  gc_asleep :: "waiter set"
  gc_store :: store
  gc_dir :: fs

definition ticket_set :: "nat \<Rightarrow> u64 io_result \<Rightarrow> gc \<Rightarrow> gc" where
  "ticket_set c r s = s\<lparr>gc_ticket := (gc_ticket s)(c := Some r)\<rparr>"

definition ticket_take :: "nat \<Rightarrow> gc \<Rightarrow> u64 io_result option \<times> gc" where
  "ticket_take c s = (gc_ticket s c, s\<lparr>gc_ticket := (gc_ticket s)(c := None)\<rparr>)"

definition goto :: "nat \<Rightarrow> commit_pc \<Rightarrow> gc \<Rightarrow> gc" where
  "goto c pc s = s\<lparr>gc_call := (gc_call s)(c := pc)\<rparr>"

text \<open>The condition variable: \<^verbatim>\<open>wait\<close> releases the queue and puts the thread to sleep in one step, \<^verbatim>\<open>notify_all\<close> wakes every sleeper.\<close>

definition cv_wait :: "waiter \<Rightarrow> gc \<Rightarrow> gc" where
  "cv_wait t s = s\<lparr>gc_asleep := insert t (gc_asleep s)\<rparr>"

definition cv_notify_all :: "gc \<Rightarrow> gc" where
  "cv_notify_all s = s\<lparr>gc_asleep := {}\<rparr>"

text \<open>\<^verbatim>\<open>FlushGuard::drop\<close>: with the queue locked, the flag is cleared and all waiters are woken.\<close>

definition guard_drop :: "gc \<Rightarrow> gc" where
  "guard_drop s = cv_notify_all (s\<lparr>gc_flushing := False\<rparr>)"

text \<open>The entry of \<^verbatim>\<open>commit_ops\<close>: refuse what the log cannot frame, else queue the ticket.\<close>

definition commit_enqueue :: "nat \<Rightarrow> op list \<Rightarrow> gc \<Rightarrow> gc" where
  "commit_enqueue c ops s =
     (case check_ops ops of
        Inl e \<Rightarrow> goto c (Returned (Inl e)) s
      | Inr _ \<Rightarrow> goto c Waiting (s\<lparr>gc_pending := gc_pending s @ [(c, ops)],
                                   gc_ops := (gc_ops s)(c := ops)\<rparr>))"

text \<open>One turn of the loop, with the queue locked: return, become the flusher, or sleep on the condition variable.\<close>

definition commit_turn :: "nat \<Rightarrow> gc \<Rightarrow> gc" where
  "commit_turn c s =
     (case ticket_take c s of
        (Some done, s') \<Rightarrow> goto c (Returned done) s'
      | (None, _) \<Rightarrow>
          if \<not> gc_flushing s
          then goto c (Flushing (gc_pending s)) (s\<lparr>gc_flushing := True, gc_pending := []\<rparr>)
          else cv_wait (CommitCall c) s)"

text \<open>The flush, and the result each ticket of the group is to get.\<close>

definition group_results :: "(nat \<times> op list) list \<Rightarrow> u64 list io_result \<Rightarrow> (nat \<times> u64 io_result) list" where
  "group_results grp res =
     (case res of
        Inr indices \<Rightarrow> zip (map fst grp) (map Inr indices)
      | Inl e \<Rightarrow> map (\<lambda>p. (fst p, Inl e)) grp)"

definition commit_flush :: "nat \<Rightarrow> (nat \<times> op list) list \<Rightarrow> gc \<Rightarrow> gc" where
  "commit_flush c grp s =
     (case flush_group (map snd grp) (gc_store s) (gc_dir s) of
        (res, st, d) \<Rightarrow> goto c (Settling (group_results grp res)) (s\<lparr>gc_store := st, gc_dir := d\<rparr>))"

text \<open>The settling loop, a ticket at a time, then the flusher's own ticket and the guard.\<close>

definition commit_settle :: "nat \<Rightarrow> (nat \<times> u64 io_result) list \<Rightarrow> gc \<Rightarrow> gc" where
  "commit_settle c rs s =
     (case rs of
        (t, r) # rs \<Rightarrow> goto c (Settling rs) (ticket_set t r s)
      | [] \<Rightarrow>
          (case ticket_take c s of
             (Some done, s') \<Rightarrow> guard_drop (goto c (Returned done) s')
           | (None, s') \<Rightarrow> guard_drop (goto c Panicked s')))"

text \<open>\<^verbatim>\<open>checkpoint\<close>: claim exclusivity, pin and rotate, then write and reclaim with writers running.\<close>

definition exclusive_instant :: "gc \<Rightarrow> gc" where
  "exclusive_instant s = (if gc_flushing s then cv_wait CkptCall s else s\<lparr>gc_flushing := True, gc_ck := CkExclusive\<rparr>)"

definition ckpt_rotate :: "gc \<Rightarrow> gc" where
  "ckpt_rotate s =
     (case checkpoint_pin (gc_store s) (gc_dir s) of
        (Inl e, st, d) \<Rightarrow> guard_drop (s\<lparr>gc_store := st, gc_dir := d, gc_ck := CkIdle\<rparr>)
      | (Inr pin, st, d) \<Rightarrow> guard_drop (s\<lparr>gc_store := st, gc_dir := d, gc_ck := CkWriting pin\<rparr>))"

definition ckpt_complete :: "snapshot \<times> u32 \<Rightarrow> gc \<Rightarrow> gc" where
  "ckpt_complete pin s =
     (case checkpoint_finish pin (gc_store s) (gc_dir s) of
        (_, st, d) \<Rightarrow> s\<lparr>gc_store := st, gc_dir := d, gc_ck := CkIdle\<rparr>)"

text \<open>
  The steps of the calls under way. The two bounds are those of the machine: fewer than \<open>2 ^ 64\<close> commits in the life
  of a directory, and a snapshot that fits memory.
\<close>

inductive gc_work :: "gc \<Rightarrow> gc \<Rightarrow> bool" where
  turn: "gc_call s c = Waiting \<Longrightarrow> CommitCall c \<notin> gc_asleep s \<Longrightarrow> gc_work s (commit_turn c s)"
| flush: "gc_call s c = Flushing grp \<Longrightarrow> unat (store_index (gc_store s)) + length grp < 2 ^ 64
    \<Longrightarrow> gc_work s (commit_flush c grp s)"
| settle: "gc_call s c = Settling rs \<Longrightarrow> gc_work s (commit_settle c rs s)"
| claim: "gc_ck s = CkWaiting \<Longrightarrow> CkptCall \<notin> gc_asleep s \<Longrightarrow> gc_work s (exclusive_instant s)"
| rotate: "gc_ck s = CkExclusive \<Longrightarrow> gc_work s (ckpt_rotate s)"
| complete: "gc_ck s = CkWriting pin \<Longrightarrow> length (sn_data (fst pin)) < 2 ^ 64
    \<Longrightarrow> gc_work s (ckpt_complete pin s)"

text \<open>The interleavings: these steps, new calls, and wake-ups for no reason.\<close>

inductive gc_step :: "gc \<Rightarrow> gc \<Rightarrow> bool" where
  work: "gc_work s s' \<Longrightarrow> gc_step s s'"
| enqueue: "gc_call s c = Idle \<Longrightarrow> gc_step s (commit_enqueue c ops s)"
| checkpoint: "gc_ck s = CkIdle \<Longrightarrow> gc_step s (s\<lparr>gc_ck := CkWaiting\<rparr>)"
| spurious: "gc_step s (s\<lparr>gc_asleep := gc_asleep s - {t}\<rparr>)"

definition gc_init :: "store \<Rightarrow> fs \<Rightarrow> gc" where
  "gc_init st d = \<lparr>gc_pending = [], gc_flushing = False, gc_ticket = (\<lambda>_. None), gc_call = (\<lambda>_. Idle),
     gc_ops = (\<lambda>_. []), gc_ck = CkIdle, gc_asleep = {}, gc_store = st, gc_dir = d\<rparr>"

text \<open>A life of an open store; \<open>A0\<close> holds what earlier lives acknowledged.\<close>

inductive gc_reach :: "(u64 \<times> op list) list \<Rightarrow> gc \<Rightarrow> bool" for A0 where
  start: "store_reach (Some st) None d A0 T \<Longrightarrow> gc_reach A0 (gc_init st d)"
| step: "gc_reach A0 s \<Longrightarrow> gc_step s s' \<Longrightarrow> gc_reach A0 s'"

lemmas gc_defs = ticket_set_def ticket_take_def goto_def guard_drop_def cv_wait_def cv_notify_all_def

subsection \<open>The invariant\<close>

fun busy_pc :: "commit_pc \<Rightarrow> bool" where
  "busy_pc (Flushing _) = True"
| "busy_pc (Settling _) = True"
| "busy_pc _ = False"

text \<open>Who holds the flushing flag, and the calls whose commit it has in hand.\<close>

datatype holder =
    Free
  | ByCkpt
  | ByFlush nat "(nat \<times> op list) list"
  | BySettle nat "(nat \<times> u64 io_result) list"

fun holds :: "holder \<Rightarrow> gc \<Rightarrow> bool" where
  "holds Free s \<longleftrightarrow> \<not> gc_flushing s \<and> gc_ck s \<noteq> CkExclusive \<and> (\<forall>c. \<not> busy_pc (gc_call s c))"
| "holds ByCkpt s \<longleftrightarrow> gc_flushing s \<and> gc_ck s = CkExclusive \<and> (\<forall>c. \<not> busy_pc (gc_call s c))"
| "holds (ByFlush f G) s \<longleftrightarrow> gc_flushing s \<and> gc_ck s \<noteq> CkExclusive \<and> gc_call s f = Flushing G
     \<and> (\<forall>c. c \<noteq> f \<longrightarrow> \<not> busy_pc (gc_call s c))"
| "holds (BySettle f R) s \<longleftrightarrow> gc_flushing s \<and> gc_ck s \<noteq> CkExclusive \<and> gc_call s f = Settling R
     \<and> (\<forall>c. c \<noteq> f \<longrightarrow> \<not> busy_pc (gc_call s c))"

fun members :: "holder \<Rightarrow> nat set" where
  "members (ByFlush f G) = fst ` set G"
| "members (BySettle f R) = fst ` set R"
| "members _ = {}"

definition queued :: "gc \<Rightarrow> nat set" where
  "queued s = fst ` set (gc_pending s)"

text \<open>\<open>B\<close> lists the calls whose commit is durable, with the index each got.\<close>

definition res_ok :: "(nat \<times> u64) list \<Rightarrow> nat \<Rightarrow> u64 io_result \<Rightarrow> bool" where
  "res_ok B c r \<longleftrightarrow> (\<forall>i. r = Inr i \<longrightarrow> (c, i) \<in> set B)"

definition call_ok :: "gc \<Rightarrow> (nat \<times> u64) list \<Rightarrow> holder \<Rightarrow> nat \<Rightarrow> bool" where
  "call_ok s B h c \<longleftrightarrow>
     (case gc_call s c of
        Idle \<Rightarrow> gc_ticket s c = None \<and> c \<notin> queued s \<and> c \<notin> members h \<and> c \<notin> fst ` set B
      | Waiting \<Rightarrow> (case gc_ticket s c of
          None \<Rightarrow> (c \<in> queued s) \<noteq> (c \<in> members h) \<and> (c \<in> queued s \<longrightarrow> c \<notin> fst ` set B)
        | Some r \<Rightarrow> c \<notin> queued s \<and> c \<notin> members h \<and> res_ok B c r)
      | Flushing _ \<Rightarrow> gc_ticket s c = None \<and> c \<notin> queued s \<and> c \<in> members h
      | Settling _ \<Rightarrow> c \<notin> queued s \<and> (case gc_ticket s c of
          None \<Rightarrow> c \<in> members h | Some r \<Rightarrow> c \<notin> members h \<and> res_ok B c r)
      | Returned r \<Rightarrow> gc_ticket s c = None \<and> c \<notin> queued s \<and> c \<notin> members h \<and> res_ok B c r
      | Panicked \<Rightarrow> False)"

definition entries_ok :: "gc \<Rightarrow> (nat \<times> u64) list \<Rightarrow> (nat \<times> op list) list \<Rightarrow> bool" where
  "entries_ok s B G \<longleftrightarrow> distinct (map fst G)
     \<and> (\<forall>(c, ops) \<in> set G. gc_ops s c = ops \<and> check_ops ops = Inr () \<and> c \<notin> fst ` set B)"

fun holder_ok :: "gc \<Rightarrow> (nat \<times> u64) list \<Rightarrow> holder \<Rightarrow> bool" where
  "holder_ok s B (ByFlush f G) \<longleftrightarrow> entries_ok s B G"
| "holder_ok s B (BySettle f R) \<longleftrightarrow> distinct (map fst R) \<and> (\<forall>(c, r) \<in> set R. res_ok B c r)"
| "holder_ok s B _ \<longleftrightarrow> True"

definition acked_commits :: "gc \<Rightarrow> (nat \<times> u64) list \<Rightarrow> (u64 \<times> op list) list" where
  "acked_commits s B = map (\<lambda>(c, i). (i, gc_ops s c)) B"

definition gc_pin :: "gc \<Rightarrow> (snapshot \<times> u32) option" where
  "gc_pin s = (case gc_ck s of CkWriting p \<Rightarrow> Some p | _ \<Rightarrow> None)"

definition gc_inv :: "(u64 \<times> op list) list \<Rightarrow> gc \<Rightarrow> (nat \<times> u64) list \<Rightarrow> holder \<Rightarrow> bool" where
  "gc_inv A0 s B h \<longleftrightarrow> holds h s \<and> (\<forall>c. call_ok s B h c) \<and> entries_ok s B (gc_pending s) \<and> holder_ok s B h
     \<and> distinct (map fst B)
     \<and> (\<exists>T. store_reach (Some (gc_store s)) (gc_pin s) (gc_dir s) (A0 @ acked_commits s B) T)"

lemma gc_inv_init: "store_reach (Some st) None d A0 T \<Longrightarrow> gc_inv A0 (gc_init st d) [] Free"
  by (auto simp: gc_inv_def gc_init_def gc_pin_def acked_commits_def call_ok_def entries_ok_def queued_def)

subsection \<open>Each step keeps it\<close>

lemma call_ok_other:
  assumes "call_ok s B h x" and "gc_call s' x = gc_call s x" and "gc_ticket s' x = gc_ticket s x"
    and "x \<in> queued s' \<longleftrightarrow> x \<in> queued s" and "x \<in> members h' \<longleftrightarrow> x \<in> members h"
    and "set B \<subseteq> set B'" and "x \<notin> members h \<Longrightarrow> x \<in> fst ` set B' \<Longrightarrow> x \<in> fst ` set B"
  shows "call_ok s' B' h' x"
  using assms by (auto simp: call_ok_def res_ok_def split: commit_pc.splits option.splits)

lemma holds_idle_goto:
  assumes "holds h s" and "\<not> busy_pc (gc_call s c)" and "\<not> busy_pc pc"
  shows "holds h (goto c pc s)"
  using assms by (cases h) (auto simp: goto_def)

lemma holds_busy:
  assumes "holds h s"
  shows "gc_call s c = Flushing G \<Longrightarrow> h = ByFlush c G" and "gc_call s c = Settling R \<Longrightarrow> h = BySettle c R"
proof -
  have "busy_pc (gc_call s c) \<Longrightarrow> (\<exists>G. h = ByFlush c G \<and> gc_call s c = Flushing G) \<or> (\<exists>R. h = BySettle c R \<and> gc_call s c = Settling R)"
    using assms by (cases h) (simp, simp, metis holds.simps(3), metis holds.simps(4))
  then show "gc_call s c = Flushing G \<Longrightarrow> h = ByFlush c G" "gc_call s c = Settling R \<Longrightarrow> h = BySettle c R"
    by auto
qed

lemma acked_commits_cong: "gc_ops s' = gc_ops s \<Longrightarrow> acked_commits s' B = acked_commits s B"
  by (simp add: acked_commits_def)

lemma entries_ok_ops:
  assumes "entries_ok s B G" and "c \<notin> fst ` set G" and "gc_ops s' = (gc_ops s)(c := ops)"
  shows "entries_ok s' B G"
proof -
  have "x \<noteq> c" if "(x, y) \<in> set G" for x y using assms(2) that by force
  with assms(1,3) show ?thesis by (auto simp: entries_ok_def)
qed

lemma entries_ok_snoc:
  "entries_ok s B G \<Longrightarrow> c \<notin> fst ` set G \<Longrightarrow> gc_ops s c = ops \<Longrightarrow> check_ops ops = Inr () \<Longrightarrow> c \<notin> fst ` set B
    \<Longrightarrow> entries_ok s B (G @ [(c, ops)])"
  by (auto simp: entries_ok_def)

lemma enqueue_inv:
  assumes inv: "gc_inv A0 s B h" and idle: "gc_call s c = Idle"
  shows "gc_inv A0 (commit_enqueue c ops s) B h"
proof -
  have ok: "\<And>x. call_ok s B h x" and hold: "holds h s" using inv by (simp_all add: gc_inv_def)
  have c: "gc_ticket s c = None" "c \<notin> queued s" "c \<notin> members h" "c \<notin> fst ` set B"
    using ok [of c] idle by (simp_all add: call_ok_def)
  have hold': "holds h (goto c pc s)" if "\<not> busy_pc pc" for pc
    using hold idle that by (intro holds_idle_goto) simp_all
  show ?thesis
  proof (cases "check_ops ops")
    case (Inl e)
    let ?s = "goto c (Returned (Inl e)) s"
    have "call_ok ?s B h x" for x
    proof (cases "x = c")
      case True
      then show ?thesis using c by (simp add: call_ok_def goto_def queued_def res_ok_def)
    qed (auto intro!: call_ok_other [OF ok] simp: goto_def queued_def)
    with inv hold' Inl show ?thesis
      by (cases h) (auto simp: commit_enqueue_def gc_inv_def goto_def gc_pin_def acked_commits_def entries_ok_def)
  next
    case (Inr u)
    let ?s = "goto c Waiting (s\<lparr>gc_pending := gc_pending s @ [(c, ops)], gc_ops := (gc_ops s)(c := ops)\<rparr>)"
    have "call_ok ?s B h x" for x
    proof (cases "x = c")
      case True
      then show ?thesis using c by (simp add: call_ok_def goto_def queued_def)
    qed (auto intro!: call_ok_other [OF ok] simp: goto_def queued_def)
    moreover have "holds h ?s" using hold' [of Waiting] by (cases h) (simp_all add: goto_def)
    moreover have "entries_ok ?s B (gc_pending s @ [(c, ops)])"
    proof (rule entries_ok_snoc)
      show "entries_ok ?s B (gc_pending s)"
        by (rule entries_ok_ops [of s B _ c]) (use inv c(2) in \<open>simp_all add: gc_inv_def queued_def goto_def\<close>)
    qed (use c Inr in \<open>simp_all add: queued_def goto_def\<close>)
    moreover have "holder_ok ?s B h"
    proof (cases h)
      case (ByFlush f G)
      then have "entries_ok ?s B G"
        using inv c(3) by - (rule entries_ok_ops [of s B G c], simp_all add: gc_inv_def goto_def)
      with ByFlush show ?thesis by simp
    qed (use inv in \<open>auto simp: gc_inv_def\<close>)
    moreover have "acked_commits ?s B = acked_commits s B"
      using c(4) by (auto simp: acked_commits_def goto_def image_iff)
    ultimately show ?thesis
      using inv Inr by (auto simp: commit_enqueue_def gc_inv_def goto_def gc_pin_def)
  qed
qed

lemma ckpt_other:
  assumes "gc_inv A0 s B h" and "members h' = members h" and "\<And>B. holder_ok s B h \<Longrightarrow> holder_ok s' B h'" and "holds h' s'"
    and "gc_call s' = gc_call s" and "gc_ticket s' = gc_ticket s" and "gc_pending s' = gc_pending s" and "gc_ops s' = gc_ops s"
    and "\<And>A T. store_reach (Some (gc_store s)) (gc_pin s) (gc_dir s) A T \<Longrightarrow> store_reach (Some (gc_store s')) (gc_pin s') (gc_dir s') A T"
  shows "gc_inv A0 s' B h'"
proof -
  have "call_ok s' B h' x \<longleftrightarrow> call_ok s B h x" for x
    unfolding call_ok_def queued_def assms(2,5,6,7) ..
  moreover have "entries_ok s' B G \<longleftrightarrow> entries_ok s B G" for G using assms(8) by (simp add: entries_ok_def)
  ultimately show ?thesis
    using assms acked_commits_cong [OF assms(8)] unfolding gc_inv_def by metis
qed

lemma sleep_inv:
  assumes inv: "gc_inv A0 s B h"
  shows "gc_inv A0 (s\<lparr>gc_asleep := W\<rparr>) B h"
proof (rule ckpt_other [OF inv])
  show "holds h (s\<lparr>gc_asleep := W\<rparr>)" using inv by (cases h) (auto simp: gc_inv_def)
  show "holder_ok (s\<lparr>gc_asleep := W\<rparr>) B h" if "holder_ok s B h" for B using that by (cases h) (auto simp: entries_ok_def)
qed (auto simp: gc_pin_def)

lemma claim_flush_inv:
  assumes inv: "gc_inv A0 s B h" and wait: "gc_call s c = Waiting" and None: "gc_ticket s c = None" and nf: "\<not> gc_flushing s"
  shows "gc_inv A0 (goto c (Flushing (gc_pending s)) (s\<lparr>gc_flushing := True, gc_pending := []\<rparr>)) B (ByFlush c (gc_pending s))"
proof -
  have ok: "\<And>x. call_ok s B h x" and hold: "holds h s" using inv by (simp_all add: gc_inv_def)
  define s' where "s' = goto c (Flushing (gc_pending s)) (s\<lparr>gc_flushing := True, gc_pending := []\<rparr>)"
  note s' = s'_def
  have h: "h = Free" using hold nf by (cases h) auto
  let ?h = "ByFlush c (gc_pending s)"
  have c: "c \<in> queued s" using ok [of c] wait None h by (simp add: call_ok_def)
  have "call_ok s' B ?h x" for x
    using ok [of x] c None h by (auto simp: s' call_ok_def goto_def queued_def split: commit_pc.splits option.splits)
  moreover have "holds ?h s'" using hold h by (auto simp: s' goto_def)
  ultimately have "gc_inv A0 s' B ?h"
    using inv by (auto simp: gc_inv_def s' goto_def gc_pin_def acked_commits_def entries_ok_def)
  then show ?thesis by (simp add: s')
qed

lemma turn_inv:
  assumes inv: "gc_inv A0 s B h" and wait: "gc_call s c = Waiting"
  shows "\<exists>h'. gc_inv A0 (commit_turn c s) B h'"
proof (cases "gc_ticket s c")
  case (Some r)
  have ok: "\<And>x. call_ok s B h x" and hold: "holds h s" using inv by (simp_all add: gc_inv_def)
  have c: "c \<notin> queued s" "c \<notin> members h" "res_ok B c r"
    using ok [of c] wait Some by (simp_all add: call_ok_def)
  define s' where "s' = goto c (Returned r) (s\<lparr>gc_ticket := (gc_ticket s)(c := None)\<rparr>)"
  have run: "commit_turn c s = s'" using Some by (simp add: s'_def commit_turn_def ticket_take_def)
  note s' = s'_def
  have "call_ok s' B h x" for x
  proof (cases "x = c")
    case True
    then show ?thesis using c by (simp add: s' call_ok_def goto_def queued_def)
  qed (auto intro!: call_ok_other [OF ok] simp: s' goto_def queued_def)
  moreover have "holds h s'"
    using holds_idle_goto [OF hold, of c "Returned r"] wait by (cases h) (simp_all add: s' goto_def)
  moreover have "holder_ok s' B h" using inv by (cases h) (auto simp: gc_inv_def s' goto_def entries_ok_def)
  ultimately show ?thesis
    using inv unfolding run by (intro exI [of _ h]) (auto simp: gc_inv_def s' goto_def gc_pin_def acked_commits_def entries_ok_def)
next
  case None
  show ?thesis
  proof (cases "gc_flushing s")
    case True
    then have "commit_turn c s = s\<lparr>gc_asleep := insert (CommitCall c) (gc_asleep s)\<rparr>"
      using None by (simp add: commit_turn_def ticket_take_def cv_wait_def)
    with sleep_inv [OF inv] show ?thesis by auto
  next
    case False
    then have "commit_turn c s = goto c (Flushing (gc_pending s)) (s\<lparr>gc_flushing := True, gc_pending := []\<rparr>)"
      using None by (simp add: commit_turn_def ticket_take_def)
    with claim_flush_inv [OF inv wait None False] show ?thesis by auto
  qed
qed

lemma acked_commits_group:
  assumes "entries_ok s B G" and "length idx = length G"
  shows "acked_commits s (zip (map fst G) idx) = zip idx (map snd G)"
proof -
  have "gc_ops s (fst (G ! n)) = snd (G ! n)" if "n < length G" for n
    using assms(1) nth_mem [OF that] by (auto simp: entries_ok_def split: prod.splits)
  with assms(2) show ?thesis by (intro nth_equalityI) (simp_all add: acked_commits_def)
qed

lemma flush_group_length:
  assumes "store_reach (Some st) pin d A T" and "flush_group G st d = (Inr idx, st', d')"
  shows "length idx = length G"
proof -
  obtain H lo where "store_inv st pin d H lo T" using assms(1) by (rule reach_inv)
  then have "rcu_load (st_snap st) = snap_of H" by (simp add: store_inv_def)
  from assms(2) [unfolded flush_group_history [OF this]] show ?thesis
    by (auto simp: group_indices_def split: prod.splits sum.splits)
qed

text \<open>What a flush makes of the list of durable calls.\<close>

definition flushed_calls :: "(nat \<times> u64) list \<Rightarrow> (nat \<times> op list) list \<Rightarrow> u64 list io_result \<Rightarrow> (nat \<times> u64) list" where
  "flushed_calls B G res = (case res of Inl _ \<Rightarrow> B | Inr idx \<Rightarrow> B @ zip (map fst G) idx)"

lemma group_results_calls:
  "(\<And>idx. res = Inr idx \<Longrightarrow> length idx = length G) \<Longrightarrow> map fst (group_results G res) = map fst G"
  by (cases res) (simp_all add: group_results_def comp_def)

lemma group_results_ok:
  "(c, r) \<in> set (group_results G res) \<Longrightarrow> res_ok (flushed_calls B G res) c r"
  by (cases res) (auto simp: group_results_def flushed_calls_def res_ok_def zip_map2)

lemma flush_store:
  assumes "gc_inv A0 s B (ByFlush c G)" and "unat (store_index (gc_store s)) + length G < 2 ^ 64"
    and "flush_group (map snd G) (gc_store s) (gc_dir s) = (res, st, d)"
  shows "\<exists>T. store_reach (Some st) (gc_pin s) d (A0 @ acked_commits s (flushed_calls B G res)) T"
    and "distinct (map fst (flushed_calls B G res))"
    and "\<And>idx. res = Inr idx \<Longrightarrow> length idx = length G"
proof -
  obtain T where T: "store_reach (Some (gc_store s)) (gc_pin s) (gc_dir s) (A0 @ acked_commits s B) T"
    and ent: "entries_ok s B G" and dis: "distinct (map fst B)"
    using assms(1) by (auto simp: gc_inv_def)
  have ok: "list_all (\<lambda>ops. check_ops ops = Inr ()) (map snd G)"
    using ent by (auto simp: entries_ok_def list_all_iff)
  show len: "\<And>idx. res = Inr idx \<Longrightarrow> length idx = length G"
    using flush_group_length [OF T] assms(3) by auto
  show "\<exists>T. store_reach (Some st) (gc_pin s) d (A0 @ acked_commits s (flushed_calls B G res)) T"
  proof (cases res)
    case (Inl e)
    with sr_flush_fails [OF T ok] assms show ?thesis by (auto simp: flushed_calls_def)
  next
    case (Inr idx)
    have "acked_commits s (B @ zip (map fst G) idx) = acked_commits s B @ zip idx (map snd G)"
      using acked_commits_group [OF ent] len [OF Inr] by (simp add: acked_commits_def)
    with sr_flush [OF T ok _ assms(3) [unfolded Inr]] assms(2) show ?thesis
      by (auto simp: flushed_calls_def Inr)
  qed
  show "distinct (map fst (flushed_calls B G res))"
    using dis ent len by (cases res) (auto simp: flushed_calls_def entries_ok_def image_iff, fastforce)
qed

lemma flush_inv:
  assumes inv: "gc_inv A0 s B h" and at: "gc_call s c = Flushing G"
    and room: "unat (store_index (gc_store s)) + length G < 2 ^ 64"
  shows "\<exists>B' h'. gc_inv A0 (commit_flush c G s) B' h'"
proof -
  have ok: "\<And>x. call_ok s B h x" and hold: "holds h s" using inv by (simp_all add: gc_inv_def)
  have h: "h = ByFlush c G" using holds_busy [OF hold, of c] at by simp
  obtain res st d where run: "flush_group (map snd G) (gc_store s) (gc_dir s) = (res, st, d)"
    by (metis prod_cases3)
  let ?R = "group_results G res" and ?B = "flushed_calls B G res"
  let ?s = "goto c (Settling ?R) (s\<lparr>gc_store := st, gc_dir := d\<rparr>)"
  note st = flush_store [OF inv [unfolded h] room run]
  have calls: "map fst ?R = map fst G" by (rule group_results_calls) (rule st(3))
  then have mem: "fst ` set ?R = members h" using h by (simp flip: set_map)
  have new: "fst ` set ?B \<subseteq> fst ` set B \<union> members h"
    by (cases res) (auto simp: flushed_calls_def h dest!: set_zip_leftD)
  have sub: "set B \<subseteq> set ?B" by (cases res) (auto simp: flushed_calls_def)
  have "call_ok ?s ?B (BySettle c ?R) x" for x
  proof (cases "x = c")
    case True
    then show ?thesis using ok [of c] at by (auto simp: call_ok_def goto_def queued_def mem split: option.splits)
  next
    case False
    with new sub show ?thesis by (intro call_ok_other [OF ok]) (auto simp: goto_def queued_def mem)
  qed
  moreover have "holds (BySettle c ?R) ?s" using hold by (auto simp: h goto_def)
  moreover have "entries_ok ?s ?B (gc_pending s)"
  proof -
    have pend: "entries_ok s B (gc_pending s)" using inv by (simp add: gc_inv_def)
    have "x \<notin> members h" if "x \<in> queued s" for x
      using ok [of x] that by (auto simp: call_ok_def split: commit_pc.splits option.splits)
    then have "x \<notin> fst ` set ?B" if "(x, y) \<in> set (gc_pending s)" for x y
    proof -
      have "x \<in> queued s" using that by (force simp: queued_def)
      moreover have "x \<notin> fst ` set B" using pend that by (auto simp: entries_ok_def simp del: image_iff split: prod.splits)
      ultimately show ?thesis using new \<open>\<And>x. x \<in> queued s \<Longrightarrow> x \<notin> members h\<close> by blast
    qed
    with pend show ?thesis unfolding entries_ok_def by (auto simp: goto_def)
  qed
  moreover have "holder_ok ?s ?B (BySettle c ?R)"
    using inv h calls group_results_ok [of _ _ G res B] by (auto simp: gc_inv_def entries_ok_def)
  moreover have "\<exists>T. store_reach (Some (gc_store ?s)) (gc_pin ?s) (gc_dir ?s) (A0 @ acked_commits ?s ?B) T"
    using st(1) by (simp add: goto_def gc_pin_def acked_commits_def)
  ultimately show ?thesis
    using st(2) run unfolding gc_inv_def commit_flush_def by (intro exI [of _ ?B] exI [of _ "BySettle c ?R"]) (auto simp: goto_def)
qed

lemma settle_inv:
  assumes inv: "gc_inv A0 s B h" and at: "gc_call s c = Settling R"
  shows "\<exists>h'. gc_inv A0 (commit_settle c R s) B h'"
proof -
  have ok: "\<And>x. call_ok s B h x" and hold: "holds h s" using inv by (simp_all add: gc_inv_def)
  have h: "h = BySettle c R" using holds_busy [OF hold, of c] at by simp
  show ?thesis
  proof (cases R)
    case Nil
    obtain r where r: "gc_ticket s c = Some r" "res_ok B c r" "c \<notin> queued s"
      using ok [of c] at h Nil by (auto simp: call_ok_def split: option.splits)
    let ?s = "guard_drop (goto c (Returned r) (s\<lparr>gc_ticket := (gc_ticket s)(c := None)\<rparr>))"
    have "call_ok ?s B Free x" for x
    proof (cases "x = c")
      case True
      then show ?thesis using r by (simp add: call_ok_def gc_defs queued_def)
    qed (auto intro!: call_ok_other [OF ok] simp: gc_defs queued_def h Nil)
    moreover have "holds Free ?s" using hold h by (auto simp: gc_defs)
    ultimately show ?thesis
      using inv r Nil
      by (intro exI [of _ Free]) (auto simp: commit_settle_def gc_inv_def gc_defs gc_pin_def acked_commits_def entries_ok_def)
  next
    case (Cons p R')
    obtain t r where p: "p = (t, r)" by (cases p)
    have dis: "t \<notin> fst ` set R'" "res_ok B t r" using inv h Cons p by (auto simp: gc_inv_def)
    let ?s = "goto c (Settling R') (ticket_set t r s)"
    have "call_ok ?s B (BySettle c R') x" for x
    proof (cases "x = t")
      case True
      have "\<not> (\<exists>G. gc_call s t = Flushing G)" using holds_busy [OF hold, of t] h by auto
      with ok [of t] dis show ?thesis
        by (cases "gc_call s t") (auto simp: True call_ok_def gc_defs queued_def h Cons p split: option.splits)
    next
      case False
      show ?thesis
        using ok [of x] False at by (cases "x = c") (auto simp: call_ok_def gc_defs queued_def h Cons p split: commit_pc.splits option.splits)
    qed
    moreover have "holds (BySettle c R') ?s" using hold h by (auto simp: gc_defs)
    moreover have "holder_ok ?s B (BySettle c R')" using inv h Cons by (auto simp: gc_inv_def)
    ultimately show ?thesis
      using inv Cons p
      by (intro exI [of _ "BySettle c R'"]) (auto simp: commit_settle_def gc_inv_def gc_defs gc_pin_def acked_commits_def entries_ok_def)
  qed
qed

lemma claim_inv:
  assumes inv: "gc_inv A0 s B h" and at: "gc_ck s = CkWaiting"
  shows "\<exists>h'. gc_inv A0 (exclusive_instant s) B h'"
proof (cases "gc_flushing s")
  case True
  then show ?thesis using sleep_inv [OF inv] by (auto simp: exclusive_instant_def cv_wait_def)
next
  case False
  let ?s = "s\<lparr>gc_flushing := True, gc_ck := CkExclusive\<rparr>"
  have "holds h s" using inv by (simp add: gc_inv_def)
  then have "h = Free" "holds ByCkpt ?s" using False by (cases h; simp)+
  with inv at False show ?thesis
    by (intro exI [of _ ByCkpt] ckpt_other [OF inv]) (simp_all add: exclusive_instant_def gc_pin_def)
qed

lemma begin_inv:
  assumes inv: "gc_inv A0 s B h" and at: "gc_ck s = CkIdle"
  shows "gc_inv A0 (s\<lparr>gc_ck := CkWaiting\<rparr>) B h"
proof (rule ckpt_other [OF inv])
  show "holds h (s\<lparr>gc_ck := CkWaiting\<rparr>)" using inv at by (cases h) (auto simp: gc_inv_def)
  show "holder_ok (s\<lparr>gc_ck := CkWaiting\<rparr>) B h" if "holder_ok s B h" for B using that by (cases h) (auto simp: entries_ok_def)
qed (use at in \<open>auto simp: gc_pin_def\<close>)

lemma rotate_inv:
  assumes inv: "gc_inv A0 s B h" and at: "gc_ck s = CkExclusive"
  shows "\<exists>h'. gc_inv A0 (ckpt_rotate s) B h'"
proof -
  have hold: "holds h s" using inv by (simp add: gc_inv_def)
  with at have h: "h = ByCkpt" by (cases h) simp_all
  obtain res st d where run: "checkpoint_pin (gc_store s) (gc_dir s) = (res, st, d)" by (metis prod_cases3)
  have pin: "gc_pin s = None" using at by (simp add: gc_pin_def)
  show ?thesis
    using hold h run pin
    by (intro exI [of _ Free] ckpt_other [OF inv])
      (auto simp: ckpt_rotate_def gc_defs gc_pin_def split: sum.splits intro: sr_pin sr_pin_fails)
qed

lemma complete_inv:
  assumes inv: "gc_inv A0 s B h" and at: "gc_ck s = CkWriting pin" and room: "length (sn_data (fst pin)) < 2 ^ 64"
  shows "gc_inv A0 (ckpt_complete pin s) B h"
proof -
  obtain res st d where run: "checkpoint_finish pin (gc_store s) (gc_dir s) = (res, st, d)" by (metis prod_cases3)
  have pin: "gc_pin s = Some pin" using at by (simp add: gc_pin_def)
  have s': "ckpt_complete pin s = s\<lparr>gc_store := st, gc_dir := d, gc_ck := CkIdle\<rparr>"
    using run by (simp add: ckpt_complete_def)
  have "holds h (ckpt_complete pin s)"
    using inv at by (cases h) (simp_all add: s' gc_inv_def)
  moreover have "holder_ok (ckpt_complete pin s) B' h \<longleftrightarrow> holder_ok s B' h" for B'
    by (cases h) (simp_all add: s' entries_ok_def)
  ultimately show ?thesis
    using sr_finish [OF _ room run] pin
    by (intro ckpt_other [OF inv]) (simp_all add: s' gc_pin_def)
qed

lemma gc_work_inv:
  assumes "gc_inv A0 s B h" and "gc_work s s'"
  shows "\<exists>B' h'. gc_inv A0 s' B' h'"
  using assms(2)
proof cases
  case (turn c)
  then show ?thesis using turn_inv [OF assms(1)] by blast
next
  case (flush c grp)
  then show ?thesis using flush_inv [OF assms(1)] by blast
next
  case (settle c rs)
  then show ?thesis using settle_inv [OF assms(1)] by blast
next
  case claim
  then show ?thesis using claim_inv [OF assms(1)] by blast
next
  case rotate
  then show ?thesis using rotate_inv [OF assms(1)] by blast
next
  case (complete pin)
  then show ?thesis using complete_inv [OF assms(1)] by blast
qed

lemma gc_step_inv:
  assumes "gc_inv A0 s B h" and "gc_step s s'"
  shows "\<exists>B' h'. gc_inv A0 s' B' h'"
  using assms(2)
proof cases
  case work
  then show ?thesis using gc_work_inv [OF assms(1)] by blast
next
  case (enqueue c ops)
  then show ?thesis using enqueue_inv [OF assms(1)] by blast
next
  case checkpoint
  then show ?thesis using begin_inv [OF assms(1)] by blast
next
  case (spurious t)
  then show ?thesis using sleep_inv [OF assms(1)] by blast
qed

lemma gc_reach_inv:
  assumes "gc_reach A0 s"
  obtains B h where "gc_inv A0 s B h"
proof -
  have "\<exists>B h. gc_inv A0 s B h"
    using assms by induction (blast intro: gc_inv_init gc_step_inv)+
  with that show thesis by blast
qed

subsection \<open>What callers are promised\<close>

lemma returned_durable:
  "gc_inv A0 s B h \<Longrightarrow> gc_call s c = Returned (Inr i) \<Longrightarrow> (c, i) \<in> set B"
  by (auto simp: gc_inv_def call_ok_def res_ok_def dest!: spec [of _ c])

lemma gc_inv_store:
  assumes "gc_inv A0 s B h"
  obtains T where "store_reach (Some (gc_store s)) (gc_pin s) (gc_dir s) (A0 @ acked_commits s B) T"
  using assms by (auto simp: gc_inv_def)

lemma reach_reopens:
  assumes "store_reach so pin d A T" and "e = d \<or> cut d e"
  shows "\<exists>st' d' H. open_with opts Locked (e\<lparr>fs_outcomes := []\<rparr>) = (Inr st', d') \<and> store_snapshot st' = snap_of H \<and> acks_in A H"
proof -
  obtain so' pin' where e: "store_reach so' pin' e A T" using assms sr_power by blast
  obtain H0 p where "reach_inv so' pin' e A T H0 p" using store_reach_power [OF e] by blast
  then obtain H b where h: "power_inv e H p T b" "acks_in A (take p H)" by (rule reach_inv_dead)
  obtain lo where "dir_inv e H lo" using h(1) by (rule power_inv_dir)
  then obtain st' d' where "open_with opts Locked (e\<lparr>fs_outcomes := []\<rparr>) = (Inr st', d')" "store_snapshot st' = snap_of H"
    by (rule reopen_state)
  with acks_in_all [OF h(2)] show ?thesis by blast
qed

lemma returned_in_history:
  assumes inv: "gc_inv A0 s B h" and acks: "acks_in (A0 @ acked_commits s B) H" and ret: "gc_call s c = Returned (Inr i)"
  shows "0 < unat i \<and> unat i \<le> length H \<and> H ! (unat i - 1) = gc_ops s c"
proof -
  have "(i, gc_ops s c) \<in> set (acked_commits s B)"
    using returned_durable [OF inv ret] by (force simp: acked_commits_def)
  then show ?thesis using acks unfolding acks_in_def by (auto dest!: bspec [of _ _ "(i, gc_ops s c)"])
qed

text \<open>
  C3: group commit is durable. However calls, flushes, settlings and checkpoints interleave, if the
  machine stops now, even with the loss of power and of any part of what was not synced, then reopening recovers a history in which every call that returned an index
  stands at that index with exactly its ops, after everything earlier lives acknowledged.
\<close>

theorem group_commit_durable:
  assumes "gc_reach A0 s" and "e = gc_dir s \<or> cut (gc_dir s) e"
  shows "\<exists>st d' H. open_with opts Locked (e\<lparr>fs_outcomes := []\<rparr>) = (Inr st, d')
    \<and> store_snapshot st = snap_of H \<and> acks_in A0 H
    \<and> (\<forall>c i. gc_call s c = Returned (Inr i) \<longrightarrow> 0 < unat i \<and> unat i \<le> length H \<and> H ! (unat i - 1) = gc_ops s c)"
proof -
  obtain B h where inv: "gc_inv A0 s B h" using assms(1) by (rule gc_reach_inv)
  obtain T where T: "store_reach (Some (gc_store s)) (gc_pin s) (gc_dir s) (A0 @ acked_commits s B) T"
    using inv by (rule gc_inv_store)
  obtain st d' H where o: "open_with opts Locked (e\<lparr>fs_outcomes := []\<rparr>) = (Inr st, d')"
      "store_snapshot st = snap_of H" "acks_in (A0 @ acked_commits s B) H"
    using reach_reopens [OF T assms(2)] by metis
  have "acks_in A0 H" using o(3) by (auto simp: acks_in_def sorted_wrt_append)
  moreover note returned_in_history [OF inv o(3)]
  ultimately show ?thesis using o(1,2) by blast
qed

subsection \<open>Readers beside the writers\<close>

text \<open>A step publishes nothing, or a snapshot of the same history with the group it flushed.\<close>

lemma flush_group_publishes:
  assumes "rcu_load (st_snap st) = snap_of H" and "flush_group G st d = (res, st', d')"
  shows "\<exists>G'. rcu_load (st_snap st') = snap_of (H @ G')"
proof (cases "append_many (recs_of (length H) G) (st_wal st) d")
  case (fields r wl d1)
  with flush_group_history [OF assms(1), of G d] assms have "rcu_load (st_snap st') = snap_of (H @ (if r = Inr () then G else []))"
    by (cases r) auto
  then show ?thesis by blast
qed

lemma checkpoint_publishes_nothing:
  "checkpoint_pin st d = (res, st', d') \<Longrightarrow> st_snap st' = st_snap st"
  "checkpoint_finish p st d = (res', st', d') \<Longrightarrow> st_snap st' = st_snap st"
  by (auto simp: checkpoint_pin_def checkpoint_finish_def Let_def split: prod.splits sum.splits)

lemma gc_work_publishes:
  assumes "gc_work s s'" and "rcu_load (st_snap (gc_store s)) = snap_of H"
  shows "\<exists>G. rcu_load (st_snap (gc_store s')) = snap_of (H @ G)"
  using assms(1)
proof cases
  case (flush c grp)
  then show ?thesis
    using flush_group_publishes [OF assms(2)]
    by (cases "flush_group (map snd grp) (gc_store s) (gc_dir s)") (auto simp: commit_flush_def goto_def)
next
  case rotate
  have "st_snap (gc_store s') = st_snap (gc_store s)"
    unfolding rotate(1)
    by (auto simp: ckpt_rotate_def gc_defs dest: checkpoint_publishes_nothing(1) split: prod.splits sum.splits)
  with assms(2) show ?thesis by (intro exI [of _ "[]"]) simp
next
  case (complete pin)
  have "st_snap (gc_store s') = st_snap (gc_store s)"
    unfolding complete(1) by (auto simp: ckpt_complete_def dest: checkpoint_publishes_nothing(2) split: prod.splits)
  with assms(2) show ?thesis by (intro exI [of _ "[]"]) simp
qed (use assms(2) in \<open>auto simp: commit_turn_def commit_settle_def exclusive_instant_def gc_defs
      intro!: exI [of _ "[]"] split: sum.splits option.splits list.splits if_splits\<close>)

lemma gc_step_publishes:
  assumes "gc_step s s'" and "rcu_load (st_snap (gc_store s)) = snap_of H"
  shows "\<exists>G. rcu_load (st_snap (gc_store s')) = snap_of (H @ G)"
  using assms(1)
proof cases
  case work
  then show ?thesis using gc_work_publishes assms(2) by blast
qed (use assms(2) in \<open>auto simp: commit_enqueue_def goto_def intro!: exI [of _ "[]"] split: sum.splits\<close>)

lemma gc_steps_publish:
  "gc_step\<^sup>*\<^sup>* s s' \<Longrightarrow> rcu_load (st_snap (gc_store s)) = snap_of H \<Longrightarrow> \<exists>G. rcu_load (st_snap (gc_store s')) = snap_of (H @ G)"
proof (induction rule: rtranclp_induct)
  case base
  then show ?case by (intro exI [of _ "[]"]) simp
next
  case (step s1 s2)
  then obtain G where "rcu_load (st_snap (gc_store s1)) = snap_of (H @ G)" by blast
  from gc_step_publishes [OF step.hyps(2) this] show ?case by (auto intro: exI [of _ "G @ _"])
qed

text \<open>
  C2: snapshot reads beside concurrent writers. A snapshot loaded at any moment is the fold of one history in which every call
  that had returned an index stands at it (so a caller reads its own commit), and whatever is loaded later, after
  any interleaving of commits, flushes and checkpoints, is a snapshot of that same history, extended.
\<close>

theorem concurrent_reads_consistent:
  assumes "gc_reach A0 s" and "gc_step\<^sup>*\<^sup>* s s'"
  shows "\<exists>H G. store_snapshot (gc_store s) = snap_of H \<and> store_snapshot (gc_store s') = snap_of (H @ G) \<and> acks_in A0 H
    \<and> (\<forall>c i. gc_call s c = Returned (Inr i) \<longrightarrow> 0 < unat i \<and> unat i \<le> length H \<and> H ! (unat i - 1) = gc_ops s c)"
proof -
  obtain B h where inv: "gc_inv A0 s B h" using assms(1) by (rule gc_reach_inv)
  obtain T where T: "store_reach (Some (gc_store s)) (gc_pin s) (gc_dir s) (A0 @ acked_commits s B) T"
    using inv by (rule gc_inv_store)
  obtain H lo where h: "acks_in (A0 @ acked_commits s B) H" and si: "store_inv (gc_store s) (gc_pin s) (gc_dir s) H lo T"
    using T by (rule reach_inv)
  have snap: "rcu_load (st_snap (gc_store s)) = snap_of H" using si by (simp add: store_inv_def)
  obtain G where "rcu_load (st_snap (gc_store s')) = snap_of (H @ G)" using gc_steps_publish [OF assms(2) snap] by blast
  moreover have "acks_in A0 H" using h by (auto simp: acks_in_def sorted_wrt_append)
  moreover note returned_in_history [OF inv h]
  ultimately show ?thesis using snap unfolding store_snapshot_def by blast
qed

text \<open>
  C20: tickets are settled right. No call ever finds its ticket missing (the code's \<^verbatim>\<open>expect\<close> never
  fires), and two calls never return the same index.
\<close>

theorem group_commit_tickets:
  assumes "gc_reach A0 s"
  shows "gc_call s c \<noteq> Panicked
    \<and> (gc_call s c = Returned (Inr i) \<and> gc_call s c' = Returned (Inr i) \<longrightarrow> c = c')"
proof -
  obtain B h where inv: "gc_inv A0 s B h" using assms by (rule gc_reach_inv)
  obtain T where T: "store_reach (Some (gc_store s)) (gc_pin s) (gc_dir s) (A0 @ acked_commits s B) T"
    using inv by (rule gc_inv_store)
  obtain H lo where "acks_in (A0 @ acked_commits s B) H" using T by (rule reach_inv)
  then have "sorted_wrt (<) (map snd B)"
    by (simp add: acks_in_def acked_commits_def sorted_wrt_append sorted_wrt_map case_prod_beta)
  then have "distinct (map snd B)" by (simp add: strict_sorted_iff)
  then have "c = c'" if "(c, i) \<in> set B" "(c', i) \<in> set B"
    using that by (metis distinct_map inj_onD prod.inject snd_conv)
  moreover have "gc_call s c \<noteq> Panicked" using inv by (auto simp: gc_inv_def call_ok_def dest!: spec [of _ c])
  ultimately show ?thesis using returned_durable [OF inv] by blast
qed

subsection \<open>Nobody waits for ever\<close>

text \<open>No wake-up is lost: whoever sleeps does so while the flag is set, and its holder will wake all sleepers. Only finitely many calls have been made.\<close>

definition cv_ok :: "gc \<Rightarrow> bool" where
  "cv_ok s \<longleftrightarrow> (gc_asleep s \<noteq> {} \<longrightarrow> gc_flushing s) \<and> finite {c. gc_call s c \<noteq> Idle}"

lemma finite_calls:
  assumes "finite {c. gc_call s c \<noteq> Idle}" and "\<And>c. c \<noteq> x \<Longrightarrow> gc_call s' c = gc_call s c"
  shows "finite {c. gc_call s' c \<noteq> Idle}"
proof (rule finite_subset)
  show "{c. gc_call s' c \<noteq> Idle} \<subseteq> insert x {c. gc_call s c \<noteq> Idle}" using assms(2) by auto
qed (use assms(1) in simp)

lemma work_one_call:
  assumes "gc_work s s'"
  shows "\<exists>x. \<forall>c. c \<noteq> x \<longrightarrow> gc_call s' c = gc_call s c"
  using assms
proof cases
  case (turn c)
  then show ?thesis by (intro exI [of _ c]) (auto simp: commit_turn_def gc_defs split: option.split)
next
  case (flush c G)
  then show ?thesis by (intro exI [of _ c]) (auto simp: commit_flush_def goto_def split: prod.split)
next
  case (settle c R)
  then show ?thesis by (intro exI [of _ c]) (auto simp: commit_settle_def gc_defs split: list.split option.split)
qed (auto simp: exclusive_instant_def ckpt_rotate_def ckpt_complete_def gc_defs split: prod.split sum.split)

lemma work_keeps_calls:
  assumes "gc_work s s'" and "gc_call s x \<noteq> Idle"
  shows "gc_call s' x \<noteq> Idle"
  using assms(1)
proof cases
  case (turn c)
  then show ?thesis using assms(2) by (auto simp: commit_turn_def gc_defs split: option.split)
next
  case (flush c G)
  then show ?thesis using assms(2) by (auto simp: commit_flush_def goto_def split: prod.split)
next
  case (settle c R)
  then show ?thesis using assms(2) by (auto simp: commit_settle_def gc_defs split: list.split option.split)
qed (use assms(2) in \<open>auto simp: exclusive_instant_def ckpt_rotate_def ckpt_complete_def gc_defs split: prod.split sum.split\<close>)

lemma cv_ok_work:
  assumes "cv_ok s" and "gc_work s s'"
  shows "cv_ok s'"
proof -
  obtain x where x: "\<And>c. c \<noteq> x \<Longrightarrow> gc_call s' c = gc_call s c" using work_one_call [OF assms(2)] by blast
  have fin: "finite {c. gc_call s c \<noteq> Idle}" using assms(1) by (simp add: cv_ok_def)
  have sleep: "gc_asleep s \<noteq> {} \<longrightarrow> gc_flushing s" using assms(1) by (simp add: cv_ok_def)
  have "finite {c. gc_call s' c \<noteq> Idle}" using fin x by (rule finite_calls)
  moreover have "gc_asleep s' \<noteq> {} \<longrightarrow> gc_flushing s'"
    using assms(2)
  proof cases
    case (turn c)
    then show ?thesis using sleep by (cases "gc_ticket s c") (simp_all add: commit_turn_def gc_defs)
  next
    case (flush c G)
    then show ?thesis using sleep by (simp add: commit_flush_def goto_def split: prod.split)
  next
    case (settle c R)
    then show ?thesis using sleep by (cases R; cases "gc_ticket s c") (auto simp: commit_settle_def gc_defs)
  next
    case claim
    then show ?thesis using sleep by (simp add: exclusive_instant_def gc_defs)
  next
    case rotate
    then show ?thesis by (auto simp: ckpt_rotate_def gc_defs split: prod.split sum.split)
  next
    case (complete pin)
    then show ?thesis using sleep by (simp add: ckpt_complete_def split: prod.split)
  qed
  ultimately show ?thesis by (simp add: cv_ok_def)
qed

lemma cv_ok_step:
  assumes "cv_ok s" and "gc_step s s'"
  shows "cv_ok s'"
  using assms(2)
proof cases
  case work
  with assms(1) show ?thesis by (rule cv_ok_work)
next
  case (enqueue c ops)
  have "finite {x. gc_call s' x \<noteq> Idle}"
    by (rule finite_calls [of s c]) (use assms(1) enqueue in \<open>auto simp: cv_ok_def commit_enqueue_def goto_def split: sum.splits\<close>)
  then show ?thesis using assms(1) enqueue(1) by (auto simp: cv_ok_def commit_enqueue_def goto_def split: sum.splits)
qed (use assms(1) in \<open>auto simp: cv_ok_def\<close>)

lemma gc_reach_cv: "gc_reach A0 s \<Longrightarrow> cv_ok s"
proof (induction rule: gc_reach.induct)
  case (start st d T)
  show ?case by (simp add: cv_ok_def gc_init_def)
qed (rule cv_ok_step)

text \<open>
  Where nothing can move, everything is done: the holder of the flag always has a step, and when there is no holder nobody
  sleeps, so every waiter has one.
\<close>

definition within_bounds :: "gc \<Rightarrow> bool" where
  "within_bounds s \<longleftrightarrow> (\<forall>c G. gc_call s c = Flushing G \<longrightarrow> unat (store_index (gc_store s)) + length G < 2 ^ 64)
     \<and> (\<forall>pin. gc_ck s = CkWriting pin \<longrightarrow> length (sn_data (fst pin)) < 2 ^ 64)"

lemma stuck_finished:
  assumes inv: "gc_inv A0 s B h" and cv: "cv_ok s" and stuck: "\<nexists>s'. gc_work s s'" and room: "within_bounds s"
  shows "gc_ck s = CkIdle \<and> (\<forall>c. gc_call s c = Idle \<or> (\<exists>r. gc_call s c = Returned r))"
proof (cases h)
  case Free
  have hold: "holds h s" using inv by (simp add: gc_inv_def)
  then have nf: "\<not> gc_flushing s" "gc_ck s \<noteq> CkExclusive" "\<And>c. \<not> busy_pc (gc_call s c)" using Free by simp_all
  have awake: "gc_asleep s = {}" using cv nf(1) by (auto simp: cv_ok_def)
  have "gc_call s c \<noteq> Waiting" for c using stuck awake turn [of s c] by auto
  moreover have "gc_call s c \<noteq> Panicked" for c using inv by (auto simp: gc_inv_def call_ok_def dest!: spec [of _ c])
  ultimately have "gc_call s c = Idle \<or> (\<exists>r. gc_call s c = Returned r)" for c
    using nf(3) [of c] by (cases "gc_call s c") auto
  moreover have "gc_ck s \<noteq> CkWaiting" using stuck awake claim [of s] by auto
  moreover have "gc_ck s \<noteq> CkWriting pin" for pin using stuck room complete [of s pin] unfolding within_bounds_def by blast
  ultimately show ?thesis using nf(2) by (cases "gc_ck s") auto
next
  case ByCkpt
  then have "gc_ck s = CkExclusive" using inv by (simp add: gc_inv_def)
  with stuck rotate show ?thesis by blast
next
  case (ByFlush f G)
  then have "gc_call s f = Flushing G" using inv by (simp add: gc_inv_def)
  with stuck room flush [of s f G] show ?thesis by (auto simp: within_bounds_def)
next
  case (BySettle f R)
  then have "gc_call s f = Settling R" using inv by (simp add: gc_inv_def)
  with stuck settle show ?thesis by blast
qed

text \<open>
  The steps of the calls under way come to an end: calls leave the queue, the flusher flushes and settles ticket after
  ticket, the checkpoint moves on, and in between waiters go to sleep.
\<close>

fun to_settle :: "commit_pc \<Rightarrow> nat" where
  "to_settle (Settling R) = Suc (length R)"
| "to_settle _ = 0"

fun ck_rank :: "ckpt_pc \<Rightarrow> nat" where
  "ck_rank CkIdle = 0"
| "ck_rank (CkWriting _) = 1"
| "ck_rank CkExclusive = 2"
| "ck_rank CkWaiting = 3"

definition calls_at :: "(commit_pc \<Rightarrow> bool) \<Rightarrow> gc \<Rightarrow> nat set" where
  "calls_at P s = {c. gc_call s c \<noteq> Idle \<and> P (gc_call s c)}"

abbreviation is_flushing :: "commit_pc \<Rightarrow> bool" where
  "is_flushing pc \<equiv> (\<exists>G. pc = Flushing G)"

definition awake :: "gc \<Rightarrow> waiter set" where
  "awake s = (CommitCall ` calls_at (\<lambda>pc. pc = Waiting) s \<union> (if gc_ck s = CkWaiting then {CkptCall} else {})) - gc_asleep s"

definition work_left :: "gc \<Rightarrow> nat \<times> nat \<times> nat \<times> nat \<times> nat" where
  "work_left s = (card (calls_at (\<lambda>pc. pc = Waiting) s), card (calls_at is_flushing s),
     (\<Sum>c \<in> calls_at (\<lambda>_. True) s. to_settle (gc_call s c)), ck_rank (gc_ck s), card (awake s))"

definition lex5 :: "((nat \<times> nat \<times> nat \<times> nat \<times> nat) \<times> (nat \<times> nat \<times> nat \<times> nat \<times> nat)) set" where
  "lex5 = less_than <*lex*> less_than <*lex*> less_than <*lex*> less_than <*lex*> less_than"

lemma wf_lex5: "wf lex5"
  by (simp add: lex5_def wf_lex_prod)

lemma finite_calls_at: "cv_ok s \<Longrightarrow> finite (calls_at P s)"
  by (rule finite_subset [of _ "{c. gc_call s c \<noteq> Idle}"]) (auto simp: calls_at_def cv_ok_def)

lemma finite_awake: "cv_ok s \<Longrightarrow> finite (awake s)"
  by (simp add: awake_def finite_calls_at)

text \<open>What moving one call does to the sets.\<close>

lemma calls_at_goto:
  assumes "gc_call s' = (gc_call s)(c := pc)" and "pc \<noteq> Idle"
  shows "calls_at P s' = (if P pc then insert c (calls_at P s) else calls_at P s - {c})"
  using assms by (auto simp: calls_at_def)

lemma work_left_waiting:
  assumes "cv_ok s" and "gc_call s c = Waiting" and "gc_call s' = (gc_call s)(c := pc)" and "pc \<noteq> Idle" and "pc \<noteq> Waiting"
  shows "(work_left s', work_left s) \<in> lex5"
proof -
  have "calls_at (\<lambda>pc. pc = Waiting) s' = calls_at (\<lambda>pc. pc = Waiting) s - {c}"
    using calls_at_goto [OF assms(3,4)] assms(5) by simp
  moreover have "c \<in> calls_at (\<lambda>pc. pc = Waiting) s" using assms(2) by (simp add: calls_at_def)
  ultimately have "card (calls_at (\<lambda>pc. pc = Waiting) s') < card (calls_at (\<lambda>pc. pc = Waiting) s)"
    using finite_calls_at [OF assms(1)] by (metis card_Diff1_less)
  then show ?thesis by (simp add: work_left_def lex5_def)
qed

lemma work_left_flush:
  assumes "cv_ok s" and "gc_call s c = Flushing G" and "gc_call s' = (gc_call s)(c := Settling R)"
  shows "(work_left s', work_left s) \<in> lex5"
proof -
  have same: "calls_at (\<lambda>pc. pc = Waiting) s' = calls_at (\<lambda>pc. pc = Waiting) s"
    using calls_at_goto [OF assms(3), of "\<lambda>pc. pc = Waiting"] assms(2) by (auto simp: calls_at_def)
  have "calls_at is_flushing s' = calls_at is_flushing s - {c}" using calls_at_goto [OF assms(3), of is_flushing] by simp
  moreover have "c \<in> calls_at is_flushing s" using assms(2) by (simp add: calls_at_def)
  ultimately have "card (calls_at is_flushing s') < card (calls_at is_flushing s)"
    using finite_calls_at [OF assms(1)] by (metis card_Diff1_less)
  then show ?thesis by (simp add: work_left_def lex5_def same)
qed

lemma work_left_settle:
  assumes "cv_ok s" and "gc_call s c = Settling R" and "gc_call s' = (gc_call s)(c := pc)"
    and pc: "pc \<noteq> Idle" "pc \<noteq> Waiting" "\<not> is_flushing pc" "to_settle pc < Suc (length R)"
  shows "(work_left s', work_left s) \<in> lex5"
proof -
  have same: "calls_at (\<lambda>pc. pc = Waiting) s' = calls_at (\<lambda>pc. pc = Waiting) s" "calls_at is_flushing s' = calls_at is_flushing s"
      "calls_at (\<lambda>_. True) s' = calls_at (\<lambda>_. True) s"
    using assms(2,3) pc by (auto simp: calls_at_def)
  have "(\<Sum>x \<in> calls_at (\<lambda>_. True) s. to_settle (gc_call s' x)) < (\<Sum>x \<in> calls_at (\<lambda>_. True) s. to_settle (gc_call s x))"
  proof (rule sum_strict_mono_ex1)
    show "\<exists>a \<in> calls_at (\<lambda>_. True) s. to_settle (gc_call s' a) < to_settle (gc_call s a)"
      using assms(2,3) pc(4) by (intro bexI [of _ c]) (simp_all add: calls_at_def)
  qed (use finite_calls_at [OF assms(1)] assms(2,3) pc(4) in \<open>simp_all\<close>)
  then show ?thesis by (simp add: work_left_def lex5_def same)
qed

lemma work_left_ck:
  assumes "gc_call s' = gc_call s" and "ck_rank (gc_ck s') < ck_rank (gc_ck s)"
  shows "(work_left s', work_left s) \<in> lex5"
  using assms by (simp add: work_left_def lex5_def calls_at_def)

lemma work_left_sleep:
  assumes "cv_ok s" and "t \<in> awake s"
  shows "(work_left (cv_wait t s), work_left s) \<in> lex5"
proof -
  have "awake (cv_wait t s) = awake s - {t}" by (auto simp: awake_def cv_wait_def calls_at_def)
  then have "card (awake (cv_wait t s)) < card (awake s)"
    using finite_awake [OF assms(1)] assms(2) by (metis card_Diff1_less)
  then show ?thesis by (simp add: work_left_def lex5_def calls_at_def cv_wait_def)
qed

lemma work_decreases:
  assumes cv: "cv_ok s" and "gc_work s s'"
  shows "(work_left s', work_left s) \<in> lex5"
  using assms(2)
proof cases
  case (turn c)
  have aw: "CommitCall c \<in> awake s" using turn(2,3) by (simp add: awake_def calls_at_def)
  consider r where "gc_ticket s c = Some r" | "gc_ticket s c = None" "\<not> gc_flushing s" | "gc_ticket s c = None" "gc_flushing s" by blast
  then show ?thesis
  proof cases
    case 3
    then show ?thesis using work_left_sleep [OF cv aw] by (simp add: turn(1) commit_turn_def ticket_take_def)
  qed (use work_left_waiting [OF cv turn(2)] in \<open>simp_all add: turn(1) commit_turn_def ticket_take_def goto_def\<close>)
next
  case (flush c G)
  show ?thesis
    using work_left_flush [OF cv flush(2)] by (auto simp: flush(1) commit_flush_def goto_def split: prod.split)
next
  case (settle c R)
  then show ?thesis
    using work_left_settle [OF cv settle(2)]
    by (cases R; cases "gc_ticket s c") (auto simp: commit_settle_def gc_defs)
next
  case claim
  show ?thesis
  proof (cases "gc_flushing s")
    case True
    have "CkptCall \<in> awake s" using claim(2,3) by (simp add: awake_def)
    from work_left_sleep [OF cv this] True show ?thesis by (simp add: claim(1) exclusive_instant_def)
  next
    case False
    then show ?thesis by (intro work_left_ck) (simp_all add: claim exclusive_instant_def)
  qed
next
  case rotate
  then show ?thesis by (intro work_left_ck) (auto simp: ckpt_rotate_def gc_defs split: prod.split sum.split)
next
  case (complete pin)
  then show ?thesis by (intro work_left_ck) (auto simp: ckpt_complete_def split: prod.split)
qed

lemma work_ends:
  assumes "cv_ok (run 0)" and "\<And>n. gc_work (run n) (run (Suc n))"
  shows False
proof -
  have ok: "cv_ok (run n)" for n by (induction n) (use assms cv_ok_work in auto)
  obtain k where "(work_left (run (Suc k)), work_left (run k)) \<notin> lex5"
    by (rule wf_no_infinite_down_chainE [OF wf_lex5, of "\<lambda>n. work_left (run n)"])
  with work_decreases [OF ok assms(2)] show False by blast
qed

text \<open>
  C21: every call returns. From any reachable state, the calls that are under way (sleepers included) take only finitely many steps, and where no
  thread that is awake has a step left, every commit that was made has returned and no checkpoint is running: no waiter is left asleep. So
  they all return, whatever the scheduler does, without the help of a spurious wake-up. The bounds are the room in the commit index and in memory.
\<close>

theorem group_commit_completes:
  assumes "gc_reach A0 s"
  shows "\<not> (\<exists>run. run 0 = s \<and> (\<forall>n. gc_work (run n) (run (Suc n))))
    \<and> (\<forall>s'. gc_work\<^sup>*\<^sup>* s s' \<and> (\<nexists>s''. gc_work s' s'') \<and> within_bounds s'
        \<longrightarrow> gc_ck s' = CkIdle \<and> (\<forall>c. gc_call s c \<noteq> Idle \<longrightarrow> (\<exists>r. gc_call s' c = Returned r)))"
proof -
  have cv: "cv_ok s" using assms by (rule gc_reach_cv)
  have later: "gc_reach A0 s' \<and> (\<forall>c. gc_call s c \<noteq> Idle \<longrightarrow> gc_call s' c \<noteq> Idle)" if "gc_work\<^sup>*\<^sup>* s s'" for s'
    using that
  proof (induction rule: rtranclp_induct)
    case (step y z)
    then show ?case using work_keeps_calls gc_reach.step work by blast
  qed (use assms in simp)
  have "gc_ck s' = CkIdle \<and> (\<forall>c. gc_call s c \<noteq> Idle \<longrightarrow> (\<exists>r. gc_call s' c = Returned r))"
    if "gc_work\<^sup>*\<^sup>* s s'" "\<nexists>s''. gc_work s' s''" "within_bounds s'" for s'
  proof -
    have r: "gc_reach A0 s'" using later that(1) by blast
    obtain B h where inv: "gc_inv A0 s' B h" using r by (rule gc_reach_inv)
    from stuck_finished [OF inv gc_reach_cv [OF r] that(2,3)] later [OF that(1)] show ?thesis by blast
  qed
  with work_ends cv show ?thesis by blast
qed

subsection \<open>Two writers sharing a flush\<close>

text \<open>Calls 0 and 1 queue; call 0 becomes the flusher of both.\<close>

abbreviation ops0 :: "op list" where "ops0 \<equiv> [Put [1] [2], Delete [3]]"
abbreviation ops1 :: "op list" where "ops1 \<equiv> [Delete [3]]"

lemma check_ops1: "check_ops ops1 = Inr ()"
  by (simp add: check_ops_def payload_len_def MAX_PAYLOAD_def)

lemma two_queued:
  obtains st d s where "store_reach (Some st) None d [] {}" and "\<not> wl_poisoned (st_wal st)" and "fs_outcomes d = []"
    and "wl_seg_seq (st_wal st) = 1" and "store_index st = 0"
    and "s = goto 1 Waiting (goto 0 Waiting ((gc_init st d)\<lparr>gc_pending := [(0, ops0), (1, ops1)], gc_ops := ((\<lambda>_. [])(0 := ops0))(1 := ops1)\<rparr>))"
    and "gc_reach [] s"
proof -
  obtain st d where f: "store_reach (Some st) None d [] {}" "\<not> wl_poisoned (st_wal st)" "fs_outcomes d = []"
      "wl_seg_seq (st_wal st) = 1" "store_index st = 0" by (rule fresh_store)
  let ?s = "commit_enqueue 1 ops1 (commit_enqueue 0 ops0 (gc_init st d))"
  have "gc_reach [] (gc_init st d)" using f(1) by (rule start)
  then have "gc_reach [] (commit_enqueue 0 ops0 (gc_init st d))"
    by (rule step) (rule enqueue, simp add: gc_init_def)
  then have "gc_reach [] ?s"
    by (rule step) (rule enqueue, simp add: commit_enqueue_def check_ops_example gc_init_def goto_def)
  moreover have "?s = goto 1 Waiting (goto 0 Waiting ((gc_init st d)\<lparr>gc_pending := [(0, ops0), (1, ops1)], gc_ops := ((\<lambda>_. [])(0 := ops0))(1 := ops1)\<rparr>))"
    by (simp add: commit_enqueue_def check_ops_example check_ops1 goto_def gc_init_def)
  ultimately show thesis using f that by metis
qed

text \<open>
  Call 0 becomes the flusher of both, call 1 finds the flag set and sleeps, and is woken when the flusher drops its guard.
\<close>

lemma two_run:
  obtains s s' where "gc_reach [] s" and "gc_call s 0 = Waiting" and "gc_call s 1 = Waiting" and "gc_work\<^sup>*\<^sup>* s s'"
    and "gc_call s' = ((\<lambda>_. Idle)(0 := Returned (Inr 1)))(1 := Returned (Inr 2))" and "gc_ck s' = CkIdle"
    and "gc_ops s' 0 = ops0" and "gc_ops s' 1 = ops1"
proof -
  obtain st d s where f: "store_reach (Some st) None d [] {}" "\<not> wl_poisoned (st_wal st)" "fs_outcomes d = []"
      "wl_seg_seq (st_wal st) = 1" "store_index st = 0"
    and s: "s = goto 1 Waiting (goto 0 Waiting ((gc_init st d)\<lparr>gc_pending := [(0, ops0), (1, ops1)], gc_ops := ((\<lambda>_. [])(0 := ops0))(1 := ops1)\<rparr>))"
    and r: "gc_reach [] s" by (rule two_queued)
  obtain H lo where inv: "store_inv st None d H lo {}" using f(1) by (rule reach_inv)
  then have H: "H = []" by (simp add: store_inv_def)
  have ok: "list_all (\<lambda>ops. check_ops ops = Inr ()) [ops0, ops1]" using check_ops_example check_ops1 by simp
  obtain st' d' where fl: "flush_group [ops0, ops1] st d = (Inr (group_indices (length H) [ops0, ops1]), st', d')"
    by (rule flush_group_succeeds [OF inv f(2,3) _ ok]) (use f(4) in simp_all)
  have gi: "group_indices (length H) [ops0, ops1] = [1, 2]" by (simp add: H group_indices_def)
  define s1 where "s1 = commit_turn 1 (commit_turn 0 s)"
  define s2 where "s2 = commit_flush 0 [(0, ops0), (1, ops1)] s1"
  define s3 where "s3 = commit_settle 0 [] (commit_settle 0 [(1, Inr 2)] (commit_settle 0 [(0, Inr 1), (1, Inr 2)] s2))"
  define s4 where "s4 = commit_turn 1 s3"
  have e0: "commit_turn 0 s = goto 0 (Flushing [(0, ops0), (1, ops1)]) (s\<lparr>gc_flushing := True, gc_pending := []\<rparr>)"
    by (simp add: commit_turn_def ticket_take_def s gc_init_def goto_def)
  have e1: "s1 = (goto 0 (Flushing [(0, ops0), (1, ops1)]) (s\<lparr>gc_flushing := True, gc_pending := []\<rparr>))\<lparr>gc_asleep := {CommitCall 1}\<rparr>"
    unfolding s1_def e0 by (simp add: commit_turn_def ticket_take_def cv_wait_def s gc_init_def goto_def)
  have e2: "s2 = goto 0 (Settling [(0, Inr 1), (1, Inr 2)]) (s1\<lparr>gc_store := st', gc_dir := d'\<rparr>)"
    using fl gi by (simp add: s2_def commit_flush_def e1 s goto_def gc_init_def group_results_def)
  have s3: "gc_ticket s3 1 = Some (Inr 2)" "gc_call s3 = ((\<lambda>_. Idle)(0 := Returned (Inr 1)))(1 := Waiting)"
      "gc_ops s3 = ((\<lambda>_. [])(0 := ops0))(1 := ops1)" "gc_asleep s3 = {}" "gc_ck s3 = CkIdle"
    by (auto simp: s3_def commit_settle_def e2 e1 s gc_defs gc_init_def)
  have "gc_work s (commit_turn 0 s)" by (rule turn) (simp_all add: s goto_def gc_init_def)
  moreover have "gc_work (commit_turn 0 s) s1" unfolding s1_def by (rule turn; unfold e0) (simp_all add: s goto_def gc_init_def)
  moreover have "gc_work s1 s2" unfolding s2_def by (rule flush) (simp_all add: e1 s goto_def gc_init_def f(5))
  moreover have "gc_work s2 (commit_settle 0 [(0, Inr 1), (1, Inr 2)] s2)" by (rule settle) (simp add: e2 goto_def)
  moreover have "gc_work (commit_settle 0 [(0, Inr 1), (1, Inr 2)] s2)
      (commit_settle 0 [(1, Inr 2)] (commit_settle 0 [(0, Inr 1), (1, Inr 2)] s2))"
    by (rule settle) (simp add: commit_settle_def goto_def)
  moreover have "gc_work (commit_settle 0 [(1, Inr 2)] (commit_settle 0 [(0, Inr 1), (1, Inr 2)] s2)) s3"
    unfolding s3_def by (rule settle) (simp add: commit_settle_def goto_def)
  moreover have "gc_work s3 s4" unfolding s4_def by (rule turn) (simp_all add: s3)
  ultimately have "gc_work\<^sup>*\<^sup>* s s4" by (meson converse_rtranclp_into_rtranclp rtranclp.rtrancl_refl)
  moreover have "gc_call s4 = ((\<lambda>_. Idle)(0 := Returned (Inr 1)))(1 := Returned (Inr 2))" "gc_ck s4 = CkIdle" "gc_ops s4 = gc_ops s3"
    using s3 by (simp_all add: s4_def commit_turn_def ticket_take_def goto_def)
  moreover have "gc_call s 0 = Waiting" "gc_call s 1 = Waiting" by (simp_all add: s goto_def)
  ultimately show thesis using r s3(3) by (intro that [of s s4]) simp_all
qed

lemma gc_work_reach: "gc_work\<^sup>*\<^sup>* s s' \<Longrightarrow> gc_reach A0 s \<Longrightarrow> gc_reach A0 s'"
  by (induction rule: rtranclp_induct) (blast intro: step work)+

lemma two_committed:
  obtains s where "gc_reach [] s" and "gc_call s 0 = Returned (Inr 1)" and "gc_call s 1 = Returned (Inr 2)"
    and "gc_ops s 0 = ops0" and "gc_ops s 1 = ops1"
proof -
  obtain s s' where "gc_reach [] s" "gc_work\<^sup>*\<^sup>* s s'"
      "gc_call s' = ((\<lambda>_. Idle)(0 := Returned (Inr 1)))(1 := Returned (Inr 2))" "gc_ops s' 0 = ops0" "gc_ops s' 1 = ops1"
    by (rule two_run)
  then show thesis using gc_work_reach by (intro that [of s']) auto
qed

lemma gc_reach_cut: "gc_reach A0 s \<Longrightarrow> \<exists>e. cut (gc_dir s) e"
  by (metis gc_reach_inv gc_inv_store store_reach_cut)

theorem group_commit_durable_witness:
  "\<exists>(s :: gc) e st d' H. gc_call s 0 = Returned (Inr 1) \<and> gc_call s 1 = Returned (Inr 2) \<and> cut (gc_dir s) e
    \<and> open_with options_default Locked (e\<lparr>fs_outcomes := []\<rparr>) = (Inr st, d')
    \<and> store_snapshot st = snap_of H \<and> H ! 0 = [Put [1] [2], Delete [3]] \<and> H ! 1 = [Delete [3]]"
proof -
  obtain s where s: "gc_reach [] s" "gc_call s 0 = Returned (Inr 1)" "gc_call s 1 = Returned (Inr 2)"
    "gc_ops s 0 = ops0" "gc_ops s 1 = ops1" by (rule two_committed)
  obtain e where e: "cut (gc_dir s) e" using gc_reach_cut [OF s(1)] by blast
  then have "e = gc_dir s \<or> cut (gc_dir s) e" by blast
  from group_commit_durable [OF s(1) this, of options_default]
  obtain st d' H where o: "open_with options_default Locked (e\<lparr>fs_outcomes := []\<rparr>) = (Inr st, d')"
    "store_snapshot st = snap_of H"
    "\<And>c i. gc_call s c = Returned (Inr i) \<Longrightarrow> H ! (unat i - 1) = gc_ops s c"
    by blast
  have "H ! 0 = ops0" "H ! 1 = ops1" using o(3) [OF s(2)] o(3) [OF s(3)] s(4,5) by simp_all
  with s(2,3) o(1,2) e show ?thesis by blast
qed

theorem concurrent_reads_consistent_witness:
  "\<exists>(s :: gc) H. gc_call s 0 = Returned (Inr 1) \<and> gc_call s 1 = Returned (Inr 2)
    \<and> store_snapshot (gc_store s) = snap_of H \<and> H ! 0 = [Put [1] [2], Delete [3]] \<and> H ! 1 = [Delete [3]]"
proof -
  obtain s where s: "gc_reach [] s" "gc_call s 0 = Returned (Inr 1)" "gc_call s 1 = Returned (Inr 2)"
    "gc_ops s 0 = ops0" "gc_ops s 1 = ops1" by (rule two_committed)
  have "gc_step\<^sup>*\<^sup>* s s" by simp
  from concurrent_reads_consistent [OF s(1) this] obtain H where o: "store_snapshot (gc_store s) = snap_of H"
    "\<And>c i. gc_call s c = Returned (Inr i) \<Longrightarrow> H ! (unat i - 1) = gc_ops s c" by blast
  have "H ! 0 = ops0" "H ! 1 = ops1" using o(2) [OF s(2)] o(2) [OF s(3)] s(4,5) by simp_all
  with s(2,3) o(1) show ?thesis by blast
qed

theorem group_commit_tickets_witness:
  "\<exists>s :: gc. gc_call s 0 = Returned (Inr 1) \<and> gc_call s 1 \<noteq> Panicked \<and> gc_call s 1 \<noteq> Returned (Inr 1)"
proof -
  obtain s where s: "gc_reach [] s" "gc_call s 0 = Returned (Inr 1)" "gc_call s 1 = Returned (Inr 2)"
    by (rule two_committed)
  have "gc_call s 1 \<noteq> Panicked" "gc_call s 1 \<noteq> Returned (Inr 1)"
    using group_commit_tickets [OF s(1), of 1 1 0] s(2) by auto
  with s(2) show ?thesis by blast
qed

theorem group_commit_completes_witness:
  "\<exists>(s :: gc) s'. gc_call s 0 = Waiting \<and> gc_call s 1 = Waiting \<and> gc_work\<^sup>*\<^sup>* s s' \<and> (\<nexists>s''. gc_work s' s'')
     \<and> (\<exists>r. gc_call s' 0 = Returned r) \<and> (\<exists>r. gc_call s' 1 = Returned r)"
proof -
  obtain s s' where s: "gc_reach [] s" "gc_call s 0 = Waiting" "gc_call s 1 = Waiting" "gc_work\<^sup>*\<^sup>* s s'"
      "gc_call s' = ((\<lambda>_. Idle)(0 := Returned (Inr 1)))(1 := Returned (Inr 2))" "gc_ck s' = CkIdle"
    by (rule two_run)
  have stuck: "\<nexists>s''. gc_work s' s''" using s(5,6) by (auto elim!: gc_work.cases split: if_splits)
  have "within_bounds s'" using s(5,6) by (simp add: within_bounds_def)
  with group_commit_completes [OF s(1)] s(4) stuck have "\<forall>c. gc_call s c \<noteq> Idle \<longrightarrow> (\<exists>r. gc_call s' c = Returned r)" by blast
  with s(2,3) have "\<exists>r. gc_call s' 0 = Returned r" "\<exists>r. gc_call s' 1 = Returned r" by simp_all
  with s(2-4) stuck show ?thesis by blast
qed

end
