(* ===== verification/Checker.thy ===== *)
theory Checker
  imports Group_Commit "HOL-Library.Multiset"
begin

text \<open>
  The consistency checker (\<^verbatim>\<open>src/checker.rs\<close>). Workers record writes and reads in any order; the check
  sorts each key's log by commit index and compares every read with the latest write its snapshot
  covers. Shown: the verdict is exact for any recording order, checking again gives the same verdict,
  and a workload whose reads come from the store's snapshots is never reported.
\<close>

datatype stored = Present bytes | Deleted

record read_rec =
  rr_index :: u64
  rr_key :: bytes
  rr_value :: "bytes option"

type_synonym indexed_write = "u64 \<times> stored"

record checker =
  cm_writes :: "(bytes, indexed_write list) bmap"
  cm_reads :: "read_rec list"

definition checker_new :: checker where
  "checker_new = \<lparr>cm_writes = [], cm_reads = []\<rparr>"

definition stored_of :: "bytes option \<Rightarrow> stored" where
  "stored_of value = (case value of Some v \<Rightarrow> Present v | None \<Rightarrow> Deleted)"

definition record_write :: "u64 \<Rightarrow> bytes \<Rightarrow> bytes option \<Rightarrow> checker \<Rightarrow> checker" where
  "record_write index k value m =
     (let stored = stored_of value;
          log = (case bm_get (cm_writes m) k of Some log \<Rightarrow> log | None \<Rightarrow> [])
      in m\<lparr>cm_writes := bm_insert k (log @ [(index, stored)]) (cm_writes m)\<rparr>)"

definition record_read :: "u64 \<Rightarrow> bytes \<Rightarrow> bytes option \<Rightarrow> checker \<Rightarrow> checker" where
  "record_read index k value m =
     m\<lparr>cm_reads := cm_reads m @ [\<lparr>rr_index = index, rr_key = k, rr_value = value\<rparr>]\<rparr>"

record check_result =
  violations :: "(read_rec \<times> bytes option) list"
  checked :: nat

text \<open>The expectation for one read, from the sorted logs.\<close>

definition expected :: "(bytes, indexed_write list) bmap \<Rightarrow> read_rec \<Rightarrow> bytes option" where
  "expected writes r =
     (case bm_get writes (rr_key r) of
        None \<Rightarrow> None
      | Some log \<Rightarrow>
          let n = partition_point (\<lambda>w. fst w \<le> rr_index r) log in
          (case rev (take n log) of (_, Present v) # _ \<Rightarrow> Some v | _ \<Rightarrow> None))"

text \<open>\<^verbatim>\<open>check\<close> sorts the logs in place (a stable sort), so it returns the model too.\<close>

definition check :: "checker \<Rightarrow> check_result \<times> checker" where
  "check m =
     (let writes = map (\<lambda>(k, log). (k, sort_key fst log)) (cm_writes m)
      in (\<lparr>violations = [(r, expected writes r). r \<leftarrow> cm_reads m, rr_value r \<noteq> expected writes r],
           checked = length (cm_reads m)\<rparr>,
          m\<lparr>cm_writes := writes\<rparr>))"

subsection \<open>What a read should see\<close>

text \<open>
  The latest write a snapshot at \<open>r\<close> covers: the greatest index up to \<open>r\<close>, the last recorded one
  among equals (the ops of one batch share an index).
\<close>

definition is_latest :: "u64 \<Rightarrow> indexed_write list \<Rightarrow> indexed_write \<Rightarrow> bool" where
  "is_latest r log w \<longleftrightarrow> (\<exists>pre post. log = pre @ w # post \<and> fst w \<le> r
     \<and> (\<forall>u \<in> set pre. fst u \<le> r \<longrightarrow> fst u \<le> fst w) \<and> (\<forall>u \<in> set post. fst u \<le> r \<longrightarrow> fst u < fst w))"

primrec stored_value :: "stored \<Rightarrow> bytes option" where
  "stored_value (Present v) = Some v"
| "stored_value Deleted = None"

definition read_ok :: "indexed_write list \<Rightarrow> read_rec \<Rightarrow> bool" where
  "read_ok log r \<longleftrightarrow> (\<exists>w. is_latest (rr_index r) log w \<and> rr_value r = stored_value (snd w))
     \<or> (\<forall>w \<in> set log. rr_index r < fst w) \<and> rr_value r = None"

text \<open>A recording session: the calls workers make, in the order the mutexes serialise them.\<close>

datatype event = Wrote u64 bytes "bytes option" | ReadAt u64 bytes "bytes option"

primrec record_event :: "event \<Rightarrow> checker \<Rightarrow> checker" where
  "record_event (Wrote i k v) = record_write i k v"
| "record_event (ReadAt i k v) = record_read i k v"

definition recorded :: "event list \<Rightarrow> checker" where
  "recorded evs = fold record_event evs checker_new"

fun writes_to :: "bytes \<Rightarrow> event list \<Rightarrow> indexed_write list" where
  "writes_to k [] = []"
| "writes_to k (Wrote i k' v # evs) =
     (if k' = k then [(i, stored_of v)] else []) @ writes_to k evs"
| "writes_to k (ReadAt _ _ _ # evs) = writes_to k evs"

fun reads_of :: "event list \<Rightarrow> read_rec list" where
  "reads_of [] = []"
| "reads_of (ReadAt i k v # evs) = \<lparr>rr_index = i, rr_key = k, rr_value = v\<rparr> # reads_of evs"
| "reads_of (Wrote _ _ _ # evs) = reads_of evs"

subsection \<open>The latest write, found by the sort and the partition point\<close>

fun latest_write :: "u64 \<Rightarrow> indexed_write list \<Rightarrow> indexed_write option" where
  "latest_write r [] = None"
| "latest_write r (w # ws) =
     (case latest_write r ws of
        None \<Rightarrow> if fst w \<le> r then Some w else None
      | Some b \<Rightarrow> if fst w \<le> r \<and> fst b < fst w then Some w else Some b)"

lemma last_insort_key:
  "sorted (map f ys) \<Longrightarrow> last (insort_key f x ys) = (if ys = [] \<or> f (last ys) < f x then x else last ys)"
proof (induction ys)
  case (Cons y ys)
  have "f y \<le> f (last (y # ys))" using Cons.prems by (cases ys) auto
  with Cons show ?case by auto
qed simp

definition last_opt :: "'a list \<Rightarrow> 'a option" where
  "last_opt xs = (if xs = [] then None else Some (last xs))"

lemma filter_sort_insort:
  "filter p (insort_key f x (sort_key f xs)) =
     (if p x then insort_key f x (filter p (sort_key f xs)) else filter p (sort_key f xs))"
  by (simp add: filter_insort filter_insort_triv)

lemma latest_filter: "last_opt (filter (\<lambda>w. fst w \<le> r) (sort_key fst log)) = latest_write r log"
proof (induction log)
  case (Cons w log)
  have srt: "sorted (map fst (filter (\<lambda>w. fst w \<le> r) (sort_key fst log)))"
    using sorted_sort_key [of fst log] by (rule sorted_filter)
  have "last_opt (insort_key fst w ys) = Some (if ys = [] \<or> fst (last ys) < fst w then w else last ys)"
    if "sorted (map fst ys)" for ys :: "indexed_write list"
    using last_insort_key [OF that, of w] by (simp add: last_opt_def insort_not_Nil)
  from this [OF srt] Cons.IH show ?case
    by (auto simp: filter_sort_insort last_opt_def split: if_splits option.splits)
qed (simp add: last_opt_def)

lemma latest_sorted: "last_opt (takeWhile (\<lambda>w. fst w \<le> r) (sort_key fst log)) = latest_write r log"
proof -
  have "takeWhile (\<lambda>w. fst w \<le> r) (sort_key fst log) = filter (\<lambda>w. fst w \<le> r) (sort_key fst log)"
    by (rule takeWhile_eq_filter_sorted [where r = "\<lambda>a b. fst a \<le> fst b"])
      (use sorted_sort_key [of fst log] in \<open>auto simp: sorted_wrt_map\<close>)
  then show ?thesis by (simp add: latest_filter)
qed

lemma latest_write_None: "latest_write r log = None \<longleftrightarrow> (\<forall>w \<in> set log. r < fst w)"
  by (induction log) (auto split: option.split)

lemma latest_write_Some: "latest_write r log = Some w \<Longrightarrow> is_latest r log w"
proof (induction log arbitrary: w)
  case (Cons u log)
  show ?case
  proof (cases "latest_write r log")
    case None
    then have "\<forall>w \<in> set log. r < fst w" by (simp add: latest_write_None)
    with Cons.prems None show ?thesis
      unfolding is_latest_def by (intro exI [of _ "[]"] exI [of _ log]) (auto split: if_splits)
  next
    case (Some b)
    then obtain pre post where b: "log = pre @ b # post" "fst b \<le> r" "\<forall>u \<in> set pre. fst u \<le> r \<longrightarrow> fst u \<le> fst b"
        "\<forall>u \<in> set post. fst u \<le> r \<longrightarrow> fst u < fst b" using Cons.IH unfolding is_latest_def by blast
    show ?thesis
    proof (cases "fst u \<le> r \<and> fst b < fst u")
      case True
      with Some Cons.prems b show ?thesis
        unfolding is_latest_def by (intro exI [of _ "[]"] exI [of _ log]) fastforce
    next
      case False
      with Some Cons.prems b show ?thesis
        unfolding is_latest_def by (intro exI [of _ "u # pre"] exI [of _ post]) auto
    qed
  qed
qed simp

lemma is_latest_unique:
  assumes "is_latest r log w" and "is_latest r log w'"
  shows "w = w'"
proof -
  obtain p q where w: "log = p @ w # q" "fst w \<le> r" "\<forall>u \<in> set p. fst u \<le> r \<longrightarrow> fst u \<le> fst w"
      "\<forall>u \<in> set q. fst u \<le> r \<longrightarrow> fst u < fst w" using assms(1) by (auto simp: is_latest_def)
  obtain p' q' where w': "log = p' @ w' # q'" "fst w' \<le> r" "\<forall>u \<in> set p'. fst u \<le> r \<longrightarrow> fst u \<le> fst w'"
      "\<forall>u \<in> set q'. fst u \<le> r \<longrightarrow> fst u < fst w'" using assms(2) by (auto simp: is_latest_def)
  from w(1) w'(1) consider "w = w'" | "w' \<in> set q" "w \<in> set p'" | "w' \<in> set p" "w \<in> set q'"
    by (auto simp: append_eq_append_conv2 append_eq_Cons_conv Cons_eq_append_conv)
  then show ?thesis
  proof cases
    case 2
    with w w' have "fst w' < fst w" "fst w \<le> fst w'" by blast+
    then show ?thesis by simp
  next
    case 3
    with w w' have "fst w < fst w'" "fst w' \<le> fst w" by blast+
    then show ?thesis by simp
  qed
qed

lemma read_ok_latest:
  "read_ok log r \<longleftrightarrow> rr_value r = Option.bind (latest_write (rr_index r) log) (\<lambda>w. stored_value (snd w))"
proof (cases "latest_write (rr_index r) log")
  case None
  then have "\<forall>w \<in> set log. rr_index r < fst w" by (simp add: latest_write_None)
  then have "\<not> is_latest (rr_index r) log w" for w by (auto simp: is_latest_def)
  with None \<open>\<forall>w \<in> set log. rr_index r < fst w\<close> show ?thesis by (simp add: read_ok_def)
next
  case (Some w)
  then have w: "is_latest (rr_index r) log w" by (rule latest_write_Some)
  then have "\<not> (\<forall>w \<in> set log. rr_index r < fst w)" by (auto simp: is_latest_def)
  moreover have "is_latest (rr_index r) log v \<longleftrightarrow> v = w" for v using w by (blast dest: is_latest_unique)
  ultimately show ?thesis using Some unfolding read_ok_def by (metis bind.bind_lunit)
qed

subsection \<open>The recorded session\<close>

definition writes_are :: "checker \<Rightarrow> event list \<Rightarrow> bool" where
  "writes_are m evs \<longleftrightarrow> bm_wf (cm_writes m)
     \<and> (\<forall>k. (case bm_get (cm_writes m) k of None \<Rightarrow> [] | Some log \<Rightarrow> log) = writes_to k evs)"

lemma writes_to_append [simp]: "writes_to k (es @ fs) = writes_to k es @ writes_to k fs"
  by (induction k es rule: writes_to.induct) simp_all

lemma reads_of_append [simp]: "reads_of (es @ fs) = reads_of es @ reads_of fs"
  by (induction es rule: reads_of.induct) simp_all

lemma recorded_snoc: "recorded (evs @ [e]) = record_event e (recorded evs)"
  by (simp add: recorded_def)

lemma recorded_writes: "writes_are (recorded evs) evs" and recorded_reads: "cm_reads (recorded evs) = reads_of evs"
proof (induction evs rule: rev_induct)
  case Nil
  {
    case 1
    show ?case by (simp add: recorded_def writes_are_def checker_new_def)
  next
    case 2
    show ?case by (simp add: recorded_def checker_new_def)
  }
next
  case (snoc e evs)
  {
    case 1
    show ?case using snoc(1)
      by (cases e) (auto simp: recorded_snoc writes_are_def record_write_def record_read_def Let_def bm_wf_insert bm_get_insert)
  next
    case 2
    show ?case using snoc(2) by (cases e) (simp_all add: recorded_snoc record_write_def record_read_def Let_def)
  }
qed

lemma map_of_map_log: "map_of (map (\<lambda>(k, log). (k, f log)) m) k = map_option f (map_of m k)"
  by (induction m) auto

lemma expected_sorted:
  assumes "(case bm_get m (rr_key r) of None \<Rightarrow> [] | Some log \<Rightarrow> log) = log"
  shows "expected (map (\<lambda>(k, log). (k, sort_key fst log)) m) r =
    Option.bind (latest_write (rr_index r) log) (\<lambda>w. stored_value (snd w))"
proof -
  have pick: "(case rev xs of (_, Present v) # _ \<Rightarrow> Some v | _ \<Rightarrow> None)
      = Option.bind (last_opt xs) (\<lambda>w. stored_value (snd w))" for xs :: "indexed_write list"
    by (cases xs rule: rev_cases) (auto simp: last_opt_def split: stored.split)
  show ?thesis
    using assms
    by (auto simp: expected_def map_of_map_log Let_def take_partition_point pick latest_sorted split: option.splits)
qed

lemma check_verdict:
  "map fst (violations (fst (check (recorded evs)))) = filter (\<lambda>r. \<not> read_ok (writes_to (rr_key r) evs) r) (reads_of evs)"
proof -
  let ?m = "recorded evs"
  let ?w = "map (\<lambda>(k, log). (k, sort_key fst log)) (cm_writes ?m)"
  have "expected ?w r = Option.bind (latest_write (rr_index r) (writes_to (rr_key r) evs)) (\<lambda>w. stored_value (snd w))" for r
    using recorded_writes [of evs] by (intro expected_sorted) (simp add: writes_are_def)
  then have ok: "rr_value r \<noteq> expected ?w r \<longleftrightarrow> \<not> read_ok (writes_to (rr_key r) evs) r" for r
    by (simp add: read_ok_latest)
  have "map fst [(r, expected ?w r). r \<leftarrow> rs, rr_value r \<noteq> expected ?w r] = filter (\<lambda>r. rr_value r \<noteq> expected ?w r) rs" for rs
    by (induction rs) simp_all
  then show ?thesis by (simp add: check_def Let_def recorded_reads ok)
qed

text \<open>
  C38: the checker's verdict is exact. Whatever was recorded, in whatever order, the reads reported
  are exactly those that do not show the latest write their snapshot covers, in the order they were
  recorded, and every read is counted.
\<close>

theorem checker_exact:
  "map fst (violations (fst (check (recorded evs)))) = filter (\<lambda>r. \<not> read_ok (writes_to (rr_key r) evs) r) (reads_of evs)
   \<and> checked (fst (check (recorded evs))) = length (reads_of evs)"
  by (simp add: check_verdict) (simp add: check_def Let_def recorded_reads)

subsection \<open>Checking again\<close>

lemma sort_key_sorted_append:
  fixes log ws :: "indexed_write list"
  shows "sort_key fst (sort_key fst log @ ws) = sort_key fst (log @ ws)"
proof (rule properties_for_sort_key)
  have stable: "filter (\<lambda>x. fst k = fst x) (sort_key fst xs) = filter (\<lambda>x. fst k = fst x) xs" for k and xs :: "indexed_write list"
    using sort_key_stable [of fst "fst k" xs] by (simp add: eq_commute)
  fix k :: indexed_write
  show "filter (\<lambda>x. fst k = fst x) (sort_key fst (log @ ws)) = filter (\<lambda>x. fst k = fst x) (sort_key fst log @ ws)"
    by (simp only: stable filter_append)
qed simp_all

definition sort_logs :: "('k \<times> indexed_write list) list \<Rightarrow> ('k \<times> indexed_write list) list" where
  "sort_logs ws = map (\<lambda>(k, log). (k, sort_key fst log)) ws"

text \<open>Two models the check cannot tell apart, whatever is recorded next.\<close>

definition same_verdicts :: "checker \<Rightarrow> checker \<Rightarrow> bool" where
  "same_verdicts m m' \<longleftrightarrow> cm_reads m = cm_reads m' \<and> sort_logs (cm_writes m) = sort_logs (cm_writes m')"

lemma sort_logs_insert: "sort_logs (bm_insert k log ws) = bm_insert k (sort_key fst log) (sort_logs ws)"
  by (induction ws) (auto simp: sort_logs_def)

lemma sort_logs_get: "map_of (sort_logs ws) k = map_option (sort_key fst) (map_of ws k)"
  by (simp add: sort_logs_def map_of_map_log)

lemma same_verdicts_record:
  assumes "same_verdicts m m'"
  shows "same_verdicts (record_event e m) (record_event e m')"
proof (cases e)
  case (Wrote i k v)
  have "map_option (sort_key fst) (map_of (cm_writes m) k) = map_option (sort_key fst) (map_of (cm_writes m') k)"
    using assms by (metis same_verdicts_def sort_logs_get)
  then have "sort_key fst ((case map_of (cm_writes m) k of Some log \<Rightarrow> log | None \<Rightarrow> []) @ [w])
      = sort_key fst ((case map_of (cm_writes m') k of Some log \<Rightarrow> log | None \<Rightarrow> []) @ [w])" for w
    by (auto split: option.splits) (metis sort_key_sorted_append)
  with assms Wrote show ?thesis by (simp add: same_verdicts_def record_write_def Let_def sort_logs_insert)
qed (use assms in \<open>simp add: same_verdicts_def record_read_def\<close>)

lemma check_sort_logs: "check m =
   (\<lparr>violations = [(r, expected (sort_logs (cm_writes m)) r). r \<leftarrow> cm_reads m, rr_value r \<noteq> expected (sort_logs (cm_writes m)) r],
     checked = length (cm_reads m)\<rparr>, m\<lparr>cm_writes := sort_logs (cm_writes m)\<rparr>)"
  unfolding check_def sort_logs_def Let_def ..

lemma sort_logs_idem: "sort_logs (sort_logs ws) = sort_logs ws"
  using sort_key_sorted_append [of _ "[]"] by (auto simp: sort_logs_def)

text \<open>
  A check is repeatable. Sorting the logs in place changes no later verdict: recording more
  writes and reads and checking again gives what one check at the end would have given.
\<close>

theorem check_repeatable:
  "fst (check (fold record_event evs (snd (check m)))) = fst (check (fold record_event evs m))"
proof -
  have "same_verdicts (snd (check m)) m" by (simp add: same_verdicts_def check_sort_logs sort_logs_idem)
  then have "same_verdicts (fold record_event evs (snd (check m))) (fold record_event evs m)"
    by (induction evs arbitrary: m rule: rev_induct) (simp_all add: same_verdicts_record)
  then show ?thesis unfolding same_verdicts_def by (simp only: check_sort_logs fst_conv)
qed

subsection \<open>The store passes the check\<close>

text \<open>The writes to a key in a history, with the index each was committed at.\<close>

primrec hist_writes :: "bytes \<Rightarrow> nat \<Rightarrow> history \<Rightarrow> indexed_write list" where
  "hist_writes k i [] = []"
| "hist_writes k i (ops # H) =
     map (\<lambda>op. (word_of_nat (Suc i), stored_of (op_value op))) (filter (\<lambda>op. op_key op = k) ops) @ hist_writes k (Suc i) H"

lemma stored_value_of [simp]: "stored_value (stored_of v) = v"
  by (cases v) (simp_all add: stored_of_def)

lemma hist_writes_append: "hist_writes k i (H @ G) = hist_writes k i H @ hist_writes k (i + length H) G"
  by (induction H arbitrary: i) simp_all

lemma hist_writes_index: "(j, s) \<in> set (hist_writes k i H) \<Longrightarrow> \<exists>n. i < n \<and> n \<le> i + length H \<and> j = word_of_nat n"
proof (induction H arbitrary: i)
  case (Cons ops H)
  then consider "j = word_of_nat (Suc i)" | "(j, s) \<in> set (hist_writes k (Suc i) H)" by auto
  then show ?case
  proof cases
    case 2
    from Cons.IH [OF this] show ?thesis by (auto simp del: of_nat_Suc intro: Suc_lessD)
  qed auto
qed simp

lemma fold_write_value:
  "fold write_value ops f k = (if filter (\<lambda>op. op_key op = k) ops = [] then f k
     else op_value (last (filter (\<lambda>op. op_key op = k) ops)))"
  by (induction ops arbitrary: f) (auto simp: write_value_def)

lemma hist_writes_value:
  "fold write_value (concat H) f k = (if hist_writes k i H = [] then f k else stored_value (snd (last (hist_writes k i H))))"
proof (induction H arbitrary: f i)
  case (Cons ops H)
  have "fold write_value (concat (ops # H)) f k = fold write_value (concat H) (fold write_value ops f) k" by simp
  also have "\<dots> = (if hist_writes k (Suc i) H = [] then fold write_value ops f k
      else stored_value (snd (last (hist_writes k (Suc i) H))))" by (rule Cons.IH)
  also note fold_write_value
  finally show ?case by (auto simp: last_map simp del: of_nat_Suc)
qed simp

lemma accepts_history:
  assumes "length H < 2 ^ 64" and "\<forall>k. sort_key fst (writes_to k evs) = hist_writes k 0 H"
    and "\<forall>r \<in> set (reads_of evs). \<exists>n \<le> length H. rr_index r = word_of_nat n
      \<and> rr_value r = snapshot_get (snap_of (take n H)) (rr_key r)"
  shows "violations (fst (check (recorded evs))) = []"
proof -
  have "read_ok (writes_to (rr_key r) evs) r" if r: "r \<in> set (reads_of evs)" for r
  proof -
    obtain n where n: "n \<le> length H" "rr_index r = word_of_nat n" "rr_value r = snapshot_get (snap_of (take n H)) (rr_key r)"
      using bspec [OF assms(3) r] by blast
    let ?p = "\<lambda>w :: indexed_write. fst w \<le> rr_index r" and ?k = "rr_key r"
    have "H = take n H @ drop n H" by simp
    then have split: "hist_writes ?k 0 H = hist_writes ?k 0 (take n H) @ hist_writes ?k n (drop n H)"
      using hist_writes_append [of ?k 0 "take n H" "drop n H"] n(1) by simp
    have le: "(word_of_nat a :: u64) \<le> word_of_nat b \<longleftrightarrow> a \<le> b" if "a \<le> length H" "b \<le> length H" for a b
      using that assms(1) by (simp add: word_le_nat_alt unat_u64_of_nat)
    have "\<forall>w \<in> set (hist_writes ?k 0 (take n H)). ?p w"
    proof
      fix w assume "w \<in> set (hist_writes ?k 0 (take n H))"
      then obtain m where "m \<le> n" "fst w = word_of_nat m"
        using hist_writes_index [of "fst w" "snd w" ?k 0 "take n H"] n(1) by auto
      then show "?p w" using le n by simp
    qed
    moreover have "\<forall>w \<in> set (hist_writes ?k n (drop n H)). \<not> ?p w"
    proof
      fix w assume "w \<in> set (hist_writes ?k n (drop n H))"
      then obtain m where "n < m" "m \<le> length H" "fst w = word_of_nat m"
        using hist_writes_index [of "fst w" "snd w" ?k n "drop n H"] n(1) by auto
      then show "\<not> ?p w" using le n by simp
    qed
    ultimately have "takeWhile ?p (hist_writes ?k 0 H) = hist_writes ?k 0 (take n H)"
      unfolding split by (cases "hist_writes ?k n (drop n H)") simp_all
    then have "latest_write (rr_index r) (writes_to ?k evs) = last_opt (hist_writes ?k 0 (take n H))"
      using latest_sorted [of "rr_index r" "writes_to ?k evs"] assms(2) by simp
    then show ?thesis
      using n(3) by (simp add: read_ok_latest get_snap_of last_opt_def hist_writes_value [of "take n H" _ ?k 0])
  qed
  then have "map fst (violations (fst (check (recorded evs)))) = []" by (simp add: check_verdict filter_empty_conv)
  then show ?thesis by simp
qed

text \<open>
  The store is sequentially consistent for the checker. If the writes recorded for each key are
  those of the committed history (in any recording order), and every read was served from the
  snapshot of a prefix of it, no violation is reported.
\<close>

theorem checker_accepts_store:
  assumes "length H < 2 ^ 64" and "\<forall>k. sort_key fst (writes_to k evs) = hist_writes k 0 H"
    and "\<forall>r \<in> set (reads_of evs). \<exists>n \<le> length H. rr_index r = word_of_nat n
      \<and> rr_value r = snapshot_get (snap_of (take n H)) (rr_key r)"
  shows "violations (fst (check (recorded evs))) = []"
  using assms by (rule accepts_history)

text \<open>Two commits on one key, the second recorded first, read at both snapshots.\<close>

theorem checker_accepts_store_witness:
  "violations (fst (check (recorded [Wrote 2 [1] None, ReadAt 1 [1] (Some [7]), Wrote 1 [1] (Some [7]), ReadAt 2 [1] None]))) = []"
proof (rule checker_accepts_store [where H = "[[Put [1] [7]], [Delete [1]]]"])
  have "sort_key fst [(2 :: u64, Deleted), (1, Present [7])] = [(1, Present [7]), (2, Deleted)]"
    by (simp add: word_le_nat_alt)
  then show "\<forall>k. sort_key fst (writes_to k [Wrote 2 [1] None, ReadAt 1 [1] (Some [7]), Wrote 1 [1] (Some [7]), ReadAt 2 [1] None])
      = hist_writes k 0 [[Put [1] [7]], [Delete [1]]]"
    by (auto simp: stored_of_def op_value_def)
  have "snapshot_get (snap_of [[Put [1] [7]]]) [1] = Some [7]" "snapshot_get (snap_of [[Put [1] [7]], [Delete [1]]]) [1] = None"
    by (simp_all add: get_snap_of write_value_def op_value_def)
  then show "\<forall>r \<in> set (reads_of [Wrote 2 [1] None, ReadAt 1 [1] (Some [7]), Wrote 1 [1] (Some [7]), ReadAt 2 [1] None]).
      \<exists>n \<le> length [[Put [1] [7]], [Delete [1]]]. rr_index r = word_of_nat n
        \<and> rr_value r = snapshot_get (snap_of (take n [[Put [1] [7]], [Delete [1]]])) (rr_key r)"
    by (auto intro: exI [of _ 1] exI [of _ 2])
qed simp

end
