(* ===== verification/Raft_Node.thy ===== *)
theory Raft_Node
  imports Checker
begin

text \<open>
  The Raft node (\<^verbatim>\<open>src/raft/node.rs\<close>): the replicated log, elections, the append with its log-matching
  check, commit and apply. Terms, log indices and node ids are natural numbers: in a cluster a term grows by one
  per election and an index by one per entry, so 64 bits are not exhausted; the state machine stamps
  the index as a \<open>u64\<close> as the source does. A node alone can be sent any term, so where its votes are concerned messages
  carry \<open>u64\<close> terms and the election counts modulo \<open>2 ^ 64\<close>. Shown here of one node: one vote per term
  (and so one winner per term) until a term wraps around, that an append agrees with the leader and keeps logs matching, that a
  redelivered append changes nothing, and that the state is always the fold of the applied log.
\<close>

subsection \<open>The log\<close>

record log_entry =
  self_term :: nat
  le_cmd :: op

datatype role = Follower | Candidate | Leader

type_synonym raft_log = "log_entry list"

definition log_last_index :: "raft_log \<Rightarrow> nat" where
  "log_last_index l = length l"

definition log_last_term :: "raft_log \<Rightarrow> nat" where
  "log_last_term l = (if l = [] then 0 else self_term (last l))"

definition log_get :: "raft_log \<Rightarrow> nat \<Rightarrow> log_entry option" where
  "log_get l i = (if i = 0 then None else if i - 1 < length l then Some (l ! (i - 1)) else None)"

definition term_of :: "raft_log \<Rightarrow> nat \<Rightarrow> nat option" where
  "term_of l i = map_option self_term (log_get l i)"

definition log_append :: "log_entry list \<Rightarrow> raft_log \<Rightarrow> nat list \<times> raft_log" where
  "log_append es l = (map (\<lambda>i. length l + 1 + i) [0..<length es], l @ es)"

definition truncate_from :: "nat \<Rightarrow> raft_log \<Rightarrow> raft_log" where
  "truncate_from from l = take (from - 1) l"

subsection \<open>The node\<close>

record node =
  n_id :: nat
  peers :: "nat list"
  n_term :: nat
  voted_for :: "nat option"
  leader_id :: "nat option"
  n_role :: role
  n_log :: raft_log
  commit_idx :: nat
  applied :: nat
  n_state :: kvmap
  next_idx :: "(nat, nat) bmap"
  match_idx :: "(nat, nat) bmap"

definition node_new :: "nat \<Rightarrow> nat list \<Rightarrow> node" where
  "node_new i ps = \<lparr>n_id = i, peers = ps, n_term = 0, voted_for = None, leader_id = None, n_role = Follower,
     n_log = [], commit_idx = 0, applied = 0, n_state = [], next_idx = [], match_idx = []\<rparr>"

definition node_quorum :: "node \<Rightarrow> nat" where
  "node_quorum n = length (peers n) div 2 + 1"

definition start_election :: "node \<Rightarrow> node" where
  "start_election n = n\<lparr>n_term := n_term n + 1, voted_for := Some (n_id n), n_role := Candidate,
     next_idx := [], match_idx := []\<rparr>"

definition become_leader :: "node \<Rightarrow> node" where
  "become_leader n = n\<lparr>n_role := Leader,
     next_idx := fold (\<lambda>p. bm_insert p (log_last_index (n_log n) + 1)) (peers n) [],
     match_idx := fold (\<lambda>p. bm_insert p 0) (peers n) []\<rparr>"

definition request_vote :: "nat \<Rightarrow> nat \<Rightarrow> nat \<Rightarrow> nat \<Rightarrow> node \<Rightarrow> bool \<times> node" where
  "request_vote from sender_term sender_last_index sender_last_term n =
     (let n = (if sender_term > n_term n
               then n\<lparr>n_term := sender_term, voted_for := None, n_role := Follower\<rparr> else n) in
      if sender_term < n_term n then (False, n)
      else if (case voted_for n of Some v \<Rightarrow> v \<noteq> from | None \<Rightarrow> False) then (False, n)
      else if \<not> (sender_last_term > log_last_term (n_log n)
                \<or> sender_last_term = log_last_term (n_log n) \<and> sender_last_index \<ge> log_last_index (n_log n))
      then (False, n)
      else (True, n\<lparr>voted_for := Some from\<rparr>))"

text \<open>The append loop: skip what is held with the same term, else replace from there on.\<close>

primrec append_loop :: "nat \<Rightarrow> log_entry list \<Rightarrow> raft_log \<Rightarrow> raft_log" where
  "append_loop nxt [] l = l"
| "append_loop nxt (e # es) l =
     append_loop (nxt + 1) es
       (case term_of l nxt of
          Some t \<Rightarrow> if t = self_term e then l else snd (log_append [e] (truncate_from nxt l))
        | None \<Rightarrow> snd (log_append [e] l))"

definition append_entries ::
  "nat \<Rightarrow> nat \<Rightarrow> nat \<Rightarrow> nat \<Rightarrow> log_entry list \<Rightarrow> nat \<Rightarrow> node \<Rightarrow> nat option \<times> node" where
  "append_entries from leader_term prev_index prev_term es leader_commit n =
     (if leader_term < n_term n then (Some (log_last_index (n_log n) + 1), n)
      else
        let n = (if leader_term > n_term n then n\<lparr>n_term := leader_term, voted_for := None\<rparr> else n);
            n = n\<lparr>n_role := Follower, leader_id := Some from\<rparr>;
            prev_ok = (if prev_index = 0 then True else term_of (n_log n) prev_index = Some prev_term)
        in if \<not> prev_ok then
             let n = (if term_of (n_log n) prev_index \<noteq> None
                      then n\<lparr>n_log := truncate_from prev_index (n_log n)\<rparr> else n)
             in (Some (log_last_index (n_log n) + 1), n)
           else
             let n = n\<lparr>n_log := append_loop (prev_index + 1) es (n_log n)\<rparr>;
                 last_new = prev_index + length es;
                 safe = min leader_commit last_new
             in (None, if safe > commit_idx n then n\<lparr>commit_idx := safe\<rparr> else n))"

definition match_count :: "nat \<Rightarrow> node \<Rightarrow> nat" where
  "match_count i n = length (filter (\<lambda>m. snd m \<ge> i) (match_idx n))"

definition advance_commit :: "node \<Rightarrow> node" where
  "advance_commit n =
     (if n_role n \<noteq> Leader then n
      else let q = node_quorum n in
        fold (\<lambda>i n. if term_of (n_log n) i \<noteq> Some (n_term n) then n
                    else if match_count i n \<ge> q then n\<lparr>commit_idx := i\<rparr> else n)
          [commit_idx n + 1 ..< log_last_index (n_log n) + 1] n)"

text \<open>\<^verbatim>\<open>apply_committed\<close>: the loop returns the number of entries applied.\<close>

function apply_committed :: "node \<Rightarrow> nat \<times> node" where
  "apply_committed n =
     (if applied n < commit_idx n then
        (case log_get (n_log n) (applied n + 1) of
           Some e \<Rightarrow>
             (case apply_committed (n\<lparr>n_state := fst (op_apply (le_cmd e) (n_state n) (word_of_nat (applied n + 1))),
                                      applied := applied n + 1\<rparr>) of
                (k, n') \<Rightarrow> (k + 1, n'))
         | None \<Rightarrow> (0, n))
      else (0, n))"
  by pat_completeness auto

termination apply_committed
  by (relation "measure (\<lambda>n. commit_idx n - applied n)") auto

text \<open>\<open>None\<close> is the panic of a node that is not the leader.\<close>

definition propose :: "op \<Rightarrow> node \<Rightarrow> (nat \<times> node) option" where
  "propose cmd n =
     (if n_role n = Leader then
        let e = \<lparr>self_term = n_term n, le_cmd = cmd\<rparr> in
        (case log_append [e] (n_log n) of
           (is, l) \<Rightarrow> Some (is ! 0, n\<lparr>n_log := l, match_idx := bm_insert (n_id n) (is ! 0) (match_idx n)\<rparr>))
      else None)"

definition node_get :: "node \<Rightarrow> bytes \<Rightarrow> bytes option" where
  "node_get n key = map_option e_value (bm_get (n_state n) key)"

definition kv_len :: "node \<Rightarrow> nat" where
  "kv_len n = length (n_state n)"

lemmas log_defs = log_last_index_def log_last_term_def log_get_def term_of_def log_append_def truncate_from_def

declare apply_committed.simps [simp del]

subsection \<open>Log matching\<close>

text \<open>
  Two logs match: where they hold an entry of the same term at the same index, they are identical up
  to there.
\<close>

definition log_matching :: "raft_log \<Rightarrow> raft_log \<Rightarrow> bool" where
  "log_matching l p \<longleftrightarrow> (\<forall>i. i < length l \<longrightarrow> i < length p \<longrightarrow> self_term (l ! i) = self_term (p ! i)
     \<longrightarrow> take (Suc i) l = take (Suc i) p)"

lemma log_matchingD: "log_matching l p \<Longrightarrow> i < length l \<Longrightarrow> i < length p \<Longrightarrow> self_term (l ! i) = self_term (p ! i)
  \<Longrightarrow> take (Suc i) l = take (Suc i) p"
  by (simp add: log_matching_def)

lemma log_matching_sym: "log_matching l p \<Longrightarrow> log_matching p l"
  by (simp add: log_matching_def)

lemma log_matching_take: "log_matching l p \<Longrightarrow> log_matching l (take k p)"
  unfolding log_matching_def by (auto simp: min_def)

lemma log_matching_refl [simp]: "log_matching l l"
  by (simp add: log_matching_def)

lemma term_of_Suc [simp]: "term_of l (Suc i) = (if i < length l then Some (self_term (l ! i)) else None)"
  by (simp add: log_defs)

lemma term_of_0 [simp]: "term_of l 0 = None"
  by (simp add: log_defs)

lemma append_loop_agrees:
  assumes "log_matching l p" and "take k l = take k p" and "k \<le> length p" and "k + length es \<le> length l"
    and "es = take (length es) (drop k l)"
  shows "take (k + length es) (append_loop (k + 1) es p) = take (k + length es) l
    \<and> k + length es \<le> length (append_loop (k + 1) es p)
    \<and> (append_loop (k + 1) es p = p \<or> append_loop (k + 1) es p = take (k + length es) l)"
  using assms
proof (induction es arbitrary: k p)
  case (Cons e es)
  have k: "k < length l" using Cons.prems(4) by simp
  have e: "e = l ! k" and es: "es = take (length es) (drop (k + 1) l)"
    using Cons.prems(5) k by (simp_all add: Cons_nth_drop_Suc [symmetric])
  define p' where "p' = (case term_of p (k + 1) of
      Some t \<Rightarrow> if t = self_term e then p else snd (log_append [e] (truncate_from (k + 1) p))
    | None \<Rightarrow> snd (log_append [e] p))"
  have Suc: "take (Suc k) l = take k l @ [l ! k]" using k by (simp add: take_Suc_conv_app_nth)
  have p': "p' = (if k < length p \<and> self_term (p ! k) = self_term e then p else take (Suc k) l)"
    using Cons.prems(2,3) e by (auto simp: p'_def log_append_def truncate_from_def Suc)
  have agree: "take (k + 1) l = take (k + 1) p'" "k + 1 \<le> length p'" "log_matching l p'"
    using p' k Cons.prems(1) log_matchingD [OF Cons.prems(1) k] e log_matching_take [of l l]
    by (auto simp: min_def)
  from Cons.IH [OF agree(3,1,2) _ es] Cons.prems(4) have
    "take (k + 1 + length es) (append_loop (k + 1 + 1) es p') = take (k + 1 + length es) l"
    "k + 1 + length es \<le> length (append_loop (k + 1 + 1) es p')"
    "append_loop (k + 1 + 1) es p' = p' \<or> append_loop (k + 1 + 1) es p' = take (k + 1 + length es) l"
    by simp_all
  moreover have "append_loop (k + 1) (e # es) p = append_loop (k + 1 + 1) es p'" by (simp add: p'_def)
  moreover have "p' = take (k + 1 + length es) l" if "p' = take (Suc k) l" "k + 1 + length es \<le> length p'"
    using that k by simp
  ultimately show ?case using p' by (auto simp: add.assoc add.commute [of 1])
qed simp

text \<open>Where the follower already holds the entries, the loop leaves its log alone.\<close>

lemma append_loop_same:
  assumes "take (k + length es) p = take (k + length es) l" and "k + length es \<le> length l"
    and "k + length es \<le> length p" and "es = take (length es) (drop k l)"
  shows "append_loop (k + 1) es p = p"
  using assms
proof (induction es arbitrary: k)
  case (Cons e es)
  have k: "k < length l" "k < length p" using Cons.prems(2,3) by simp_all
  have e: "e = l ! k" and es: "es = take (length es) (drop (k + 1) l)"
    using Cons.prems(4) k by (simp_all add: Cons_nth_drop_Suc [symmetric])
  have "p ! k = l ! k" using arg_cong [OF Cons.prems(1), of "\<lambda>xs. xs ! k"] by simp
  with k e have "append_loop (k + 1) (e # es) p = append_loop (k + 1 + 1) es p" by simp
  also have "\<dots> = p" using Cons.prems(1-3) by (intro Cons.IH es) simp_all
  finally show ?case .
qed simp

text \<open>The term a leader puts in the message for the entry before the ones it sends.\<close>

definition term_at :: "raft_log \<Rightarrow> nat \<Rightarrow> nat" where
  "term_at l i = (case term_of l i of Some t \<Rightarrow> t | None \<Rightarrow> 0)"

lemma append_entries_reject:
  assumes "append_entries from lt prev (term_at l prev) es lc n = (Some r, n')" and "n_term n \<le> lt"
    and "log_matching l (n_log n)" and "prev \<le> length l"
  shows "0 < prev" and "n_log n' = take (prev - 1) (n_log n)" and "r = length (n_log n') + 1"
    and "prev \<le> length (n_log n) \<Longrightarrow> self_term (n_log n ! (prev - 1)) \<noteq> self_term (l ! (prev - 1))"
    and "commit_idx n' = commit_idx n"
proof -
  show pos: "0 < prev" using assms(1,2) by (cases prev) (auto simp: append_entries_def Let_def split: if_splits)
  then obtain q where q: "prev = Suc q" by (cases prev) auto
  show "n_log n' = take (prev - 1) (n_log n)" "r = length (n_log n') + 1" "commit_idx n' = commit_idx n"
    using assms(1,2) by (auto simp: append_entries_def Let_def log_defs q split: if_splits)
  show "self_term (n_log n ! (prev - 1)) \<noteq> self_term (l ! (prev - 1))" if "prev \<le> length (n_log n)"
    using assms(1,2,4) that by (auto simp: append_entries_def Let_def q term_at_def split: if_splits)
qed

lemma append_entries_accept:
  assumes "append_entries from lt prev (term_at l prev) es lc n = (None, n')"
    and "log_matching l (n_log n)" and "prev + length es \<le> length l" and "es = take (length es) (drop prev l)"
  shows "n_log n' = append_loop (prev + 1) es (n_log n)" and "take prev (n_log n) = take prev l" and "prev \<le> length (n_log n)"
    and "commit_idx n' = max (commit_idx n) (min lc (prev + length es))" and "n_term n' = lt" and "n_term n \<le> lt"
    and "n_role n' = Follower" and "leader_id n' = Some from"
    and "voted_for n' = (if n_term n < lt then None else voted_for n)"
    and "applied n' = applied n" and "n_state n' = n_state n" and "n_id n' = n_id n" and "peers n' = peers n"
proof -
  note run = assms(1)
  show acc: "n_log n' = append_loop (prev + 1) es (n_log n)" "n_term n \<le> lt" "n_term n' = lt"
      "commit_idx n' = max (commit_idx n) (min lc (prev + length es))" "n_role n' = Follower" "leader_id n' = Some from"
      "voted_for n' = (if n_term n < lt then None else voted_for n)" "applied n' = applied n" "n_state n' = n_state n"
      "n_id n' = n_id n" "peers n' = peers n"
    using run by (auto simp: append_entries_def Let_def split: if_splits)
  have "take prev (n_log n) = take prev l \<and> prev \<le> length (n_log n)"
  proof (cases prev)
    case (Suc q)
    then have "q < length (n_log n)" "self_term (n_log n ! q) = self_term (l ! q)"
      using run assms(3) by (auto simp: append_entries_def Let_def term_at_def split: if_splits)
    with log_matchingD [OF assms(2), of q] assms(3) Suc show ?thesis by auto
  qed simp
  then show "take prev (n_log n) = take prev l" "prev \<le> length (n_log n)" by simp_all
qed

text \<open>
  C24: an append agrees with the leader. For a message cut from a leader's log whose log matches the
  follower's: if it is accepted the follower holds the leader's entries through the last one sent and
  its commit index grows to the leader's, but not past them; if it is rejected the follower has dropped
  only entries from the disputed index on. Either way the logs still match, and a prefix both already
  shared is untouched.
\<close>

theorem append_entries_agrees:
  assumes "append_entries from lt prev (term_at l prev) es lc n = (res, n')" and "n_term n \<le> lt"
    and "log_matching l (n_log n)" and "prev + length es \<le> length l" and "es = take (length es) (drop prev l)"
    and "take c l = take c (n_log n)" and "c \<le> length l" and "c \<le> length (n_log n)"
  shows "log_matching l (n_log n') \<and> take c (n_log n') = take c (n_log n)
    \<and> (case res of
         None \<Rightarrow> take (prev + length es) (n_log n') = take (prev + length es) l
           \<and> commit_idx n' = max (commit_idx n) (min lc (prev + length es))
       | Some r \<Rightarrow> 0 < prev \<and> n_log n' = take (prev - 1) (n_log n) \<and> r = length (n_log n') + 1
           \<and> commit_idx n' = commit_idx n)"
proof (cases res)
  case None
  note acc = append_entries_accept [OF assms(1) [unfolded None] assms(3-5)]
  have loop: "take (prev + length es) (n_log n') = take (prev + length es) l" "prev + length es \<le> length (n_log n')"
      "n_log n' = n_log n \<or> n_log n' = take (prev + length es) l"
    using append_loop_agrees [OF assms(3) acc(2) [symmetric] acc(3) assms(4,5)] acc(1) by simp_all
  have "take c (n_log n') = take c (n_log n)"
  proof (cases "prev + length es \<le> c")
    case True
    then have "take (prev + length es) (n_log n) = take (prev + length es) l"
      using arg_cong [OF assms(6), of "take (prev + length es)"] by (simp add: min_def)
    then show ?thesis using append_loop_same [OF _ assms(4) _ assms(5)] True assms(8) acc(1) by simp
  next
    case False
    then show ?thesis using loop(3) assms(6) by (auto simp: min_def)
  qed
  moreover have "log_matching l (n_log n')" using loop(3) assms(3) log_matching_take [of l l] by auto
  ultimately show ?thesis using None loop acc(4) by simp
next
  case (Some r)
  note rej = append_entries_reject [OF assms(1) [unfolded Some] assms(2,3)]
  have "c \<le> prev - 1"
  proof (rule ccontr)
    assume "\<not> ?thesis"
    then have "prev \<le> length (n_log n)" "n_log n ! (prev - 1) = l ! (prev - 1)"
      using assms(4,8) arg_cong [OF assms(6), of "\<lambda>xs. xs ! (prev - 1)"] by auto
    with rej(4) assms(4) show False by simp
  qed
  with rej assms(3,4) show ?thesis by (simp add: Some log_matching_take min_def)
qed

text \<open>
  A redelivered append is idempotent. A message that was accepted is accepted again and leaves
  the node exactly as it is.
\<close>

theorem append_entries_idempotent:
  assumes "append_entries from lt prev (term_at l prev) es lc n = (None, n')"
    and "log_matching l (n_log n)" and "prev + length es \<le> length l" and "es = take (length es) (drop prev l)"
  shows "append_entries from lt prev (term_at l prev) es lc n' = (None, n')"
proof -
  note acc = append_entries_accept [OF assms]
  have loop: "take (prev + length es) (n_log n') = take (prev + length es) l" "prev + length es \<le> length (n_log n')"
    using append_loop_agrees [OF assms(2) acc(2) [symmetric] acc(3) assms(3,4)] acc(1) by simp_all
  have same: "append_loop (Suc prev) es (n_log n') = n_log n'"
    using append_loop_same [OF loop(1) assms(3) loop(2) assms(4)] by simp
  have "prev = 0 \<or> term_of (n_log n') prev = Some (term_at l prev)"
  proof (cases prev)
    case (Suc q)
    have "n_log n' ! q = l ! q" using arg_cong [OF loop(1), of "\<lambda>xs. xs ! q"] Suc by simp
    with Suc loop(2) assms(3) show ?thesis by (simp add: term_at_def)
  qed simp
  with same acc show ?thesis by (auto simp: append_entries_def Let_def max_def)
qed

subsection \<open>Votes\<close>

text \<open>
  \<^verbatim>\<open>start_election\<close> at the width of the code: the term is a \<open>u64\<close> and \<^verbatim>\<open>term += 1\<close> wraps in a release build. Below the
  maximum it is \<open>start_election\<close>.
\<close>

definition start_election_u64 :: "node \<Rightarrow> node" where
  "start_election_u64 n = n\<lparr>n_term := (n_term n + 1) mod 2 ^ 64, voted_for := Some (n_id n), n_role := Candidate,
     next_idx := [], match_idx := []\<rparr>"

lemma start_election_fits: "n_term n < 2 ^ 64 - 1 \<Longrightarrow> start_election_u64 n = start_election n"
  by (simp add: start_election_u64_def start_election_def)

text \<open>What can reach a node, with any term a message can carry, and the votes it casts on the way, each for a term.\<close>

datatype node_input =
    StartElection
  | RequestVote nat u64 nat u64
  | AppendEntries nat u64 nat u64 "log_entry list" nat

fun node_step :: "node_input \<Rightarrow> node \<Rightarrow> (nat \<times> nat) list \<times> node" where
  "node_step StartElection n = ([(n_term (start_election_u64 n), n_id n)], start_election_u64 n)"
| "node_step (RequestVote from t li lt) n =
     (case request_vote from (unat t) li (unat lt) n of (granted, n') \<Rightarrow> (if granted then [(unat t, from)] else [], n'))"
| "node_step (AppendEntries from t prev pt es lc) n = ([], snd (append_entries from (unat t) prev (unat pt) es lc n))"

primrec votes_cast :: "node_input list \<Rightarrow> node \<Rightarrow> (nat \<times> nat) list" where
  "votes_cast [] n = []"
| "votes_cast (i # is) n = (case node_step i n of (vs, n') \<Rightarrow> vs @ votes_cast is n')"

text \<open>No election is started at the largest term.\<close>

primrec terms_fit :: "node_input list \<Rightarrow> node \<Rightarrow> bool" where
  "terms_fit [] n = True"
| "terms_fit (i # is) n = ((i = StartElection \<longrightarrow> n_term n < 2 ^ 64 - 1) \<and> terms_fit is (snd (node_step i n)))"

lemma node_step_votes:
  assumes "node_step i n = (vs, n')" and "i = StartElection \<longrightarrow> n_term n < 2 ^ 64 - 1"
  shows "n_term n \<le> n_term n' \<and> (n_term n' = n_term n \<longrightarrow> voted_for n \<noteq> None \<longrightarrow> voted_for n' = voted_for n)
    \<and> (\<forall>t c. (t, c) \<in> set vs \<longrightarrow> t = n_term n' \<and> voted_for n' = Some c)"
  using assms
  by (cases i) (auto simp: start_election_fits start_election_def request_vote_def append_entries_def Let_def split: if_splits option.splits)

lemma votes_later:
  "(t, c) \<in> set (votes_cast is n) \<Longrightarrow> terms_fit is n
    \<Longrightarrow> n_term n \<le> t \<and> (t = n_term n \<longrightarrow> voted_for n \<noteq> None \<longrightarrow> voted_for n = Some c)"
proof (induction "is" arbitrary: n)
  case (Cons i "is")
  obtain vs n' where st: "node_step i n = (vs, n')" by (cases "node_step i n")
  have v: "n_term n \<le> n_term n' \<and> (n_term n' = n_term n \<longrightarrow> voted_for n \<noteq> None \<longrightarrow> voted_for n' = voted_for n)
      \<and> (\<forall>t c. (t, c) \<in> set vs \<longrightarrow> t = n_term n' \<and> voted_for n' = Some c)"
    by (rule node_step_votes [OF st]) (use Cons.prems(2) in simp)
  from Cons.prems(1) st consider "(t, c) \<in> set vs" | "(t, c) \<in> set (votes_cast is n')" by auto
  then show ?case
  proof cases
    case 1
    with v have "t = n_term n'" "voted_for n' = Some c" by auto
    with v show ?thesis by auto
  next
    case 2
    have "terms_fit is n'" using Cons.prems(2) st by simp
    from Cons.IH [OF 2 this] v show ?thesis by (metis le_antisym le_trans)
  qed
qed simp

lemma votes_unique: "(t, a) \<in> set (votes_cast is n) \<Longrightarrow> (t, b) \<in> set (votes_cast is n) \<Longrightarrow> terms_fit is n \<Longrightarrow> a = b"
proof (induction "is" arbitrary: n)
  case (Cons i "is")
  obtain vs n' where st: "node_step i n = (vs, n')" by (cases "node_step i n")
  have fit: "terms_fit is n'" using Cons.prems(3) st by simp
  have v: "\<And>t c. (t, c) \<in> set vs \<Longrightarrow> t = n_term n' \<and> voted_for n' = Some c"
    using node_step_votes [OF st] Cons.prems(3) by simp
  have late: "x = c" if "(t, x) \<in> set vs" "(t, c) \<in> set (votes_cast is n')" for x c
    using votes_later [OF that(2) fit] v [OF that(1)] by auto
  have now: "x = y" if "(t, x) \<in> set vs" "(t, y) \<in> set vs" for x y
    using v that by (metis option.inject)
  from Cons.prems(1,2) st consider "(t, a) \<in> set vs" "(t, b) \<in> set vs" | "(t, a) \<in> set vs" "(t, b) \<in> set (votes_cast is n')"
    | "(t, b) \<in> set vs" "(t, a) \<in> set (votes_cast is n')" | "(t, a) \<in> set (votes_cast is n')" "(t, b) \<in> set (votes_cast is n')"
    by auto
  then show ?case
  proof cases
    case 1
    then show ?thesis by (rule now)
  next
    case 2
    then show ?thesis by (rule late)
  next
    case 3
    then show ?thesis by (rule late [symmetric])
  next
    case 4
    then show ?thesis using fit by (rule Cons.IH)
  qed
qed simp

text \<open>The interface elections and commits rest on: any two quorums share a member.\<close>

locale quorum_system =
  fixes quorum :: "'n set \<Rightarrow> bool"
  assumes quorums_meet: "quorum Q \<Longrightarrow> quorum R \<Longrightarrow> Q \<inter> R \<noteq> {}"
begin

lemma one_winner:
  assumes "\<And>i x y. votes i x \<Longrightarrow> votes i y \<Longrightarrow> x = y" and "quorum {i \<in> N. votes i a}" and "quorum {i \<in> N. votes i b}"
  shows "a = b"
  using quorums_meet [OF assms(2,3)] assms(1) by blast

lemma holder_alive:
  assumes "quorum {i \<in> N. keeps i}" and "quorum L"
  obtains i where "i \<in> L" and "i \<in> N" and "keeps i"
  using quorums_meet [OF assms] by blast

end

definition majority :: "nat \<Rightarrow> nat set \<Rightarrow> bool" where
  "majority m Q \<longleftrightarrow> Q \<subseteq> {..<m} \<and> m div 2 + 1 \<le> card Q"

lemma majorities_meet:
  assumes "majority m Q" and "majority m R"
  shows "Q \<inter> R \<noteq> {}"
proof
  assume "Q \<inter> R = {}"
  moreover have "finite Q" "finite R" using assms by (auto simp: majority_def intro: finite_subset)
  ultimately have "card (Q \<union> R) = card Q + card R" by (intro card_Un_disjoint)
  moreover have "card (Q \<union> R) \<le> m" using assms card_mono [of "{..<m}" "Q \<union> R"] by (auto simp: majority_def)
  ultimately show False using assms by (auto simp: majority_def)
qed

interpretation maj: quorum_system "majority m" for m
  by unfold_locales (rule majorities_meet)

text \<open>
  C25: one winner per term. Each node of a cluster takes any sequence of elections, vote requests and
  appends, with any arguments, and counts terms in 64 bits; as long as no election is started at the largest term, where
  the count would wrap, two candidates that each collect a quorum of votes in the same term are the same candidate.
\<close>

theorem one_winner_per_term:
  assumes "\<forall>i<m. terms_fit (ins i) (node_new i [0..<m])"
    and "card {i. i < m \<and> (t, a) \<in> set (votes_cast (ins i) (node_new i [0..<m]))} \<ge> node_quorum (node_new 0 [0..<m])"
    and "card {i. i < m \<and> (t, b) \<in> set (votes_cast (ins i) (node_new i [0..<m]))} \<ge> node_quorum (node_new 0 [0..<m])"
  shows "a = b"
proof -
  let ?votes = "\<lambda>i c. i < m \<and> (t, c) \<in> set (votes_cast (ins i) (node_new i [0..<m]))"
  have q: "node_quorum (node_new 0 [0..<m]) = m div 2 + 1" by (simp add: node_quorum_def node_new_def)
  have "majority m {i \<in> {..<m}. ?votes i a}" "majority m {i \<in> {..<m}. ?votes i b}"
    using assms(2,3) by (auto simp: majority_def q)
  moreover have "x = y" if "?votes i x" "?votes i y" for i x y
    using that assms(1) votes_unique by blast
  ultimately show ?thesis using maj.one_winner [of ?votes m "{..<m}" a b] by blast
qed

text \<open>
  Past the largest term there can be two. Node 1 votes for node 0 in term 1, is sent an append of the largest term, and
  starts two elections: the term wraps to 0 and comes back to 1, where node 1 now votes for itself, and node 2 for it.
\<close>

definition wrapping_inputs :: "nat \<Rightarrow> node_input list" where
  "wrapping_inputs i =
     (if i = 0 then [StartElection]
      else if i = 1 then [RequestVote 0 1 0 0, AppendEntries 0 18446744073709551615 0 0 [] 0, StartElection, StartElection]
      else [RequestVote 1 1 0 0])"

lemma wrapping_votes:
  "votes_cast (wrapping_inputs 0) (node_new 0 [0..<3]) = [(1, 0)]"
  "votes_cast (wrapping_inputs 1) (node_new 1 [0..<3]) = [(1, 0), (0, 1), (1, 1)]"
  "votes_cast (wrapping_inputs 2) (node_new 2 [0..<3]) = [(1, 1)]"
  by (simp_all add: wrapping_inputs_def start_election_u64_def request_vote_def append_entries_def node_new_def log_last_term_def
      log_last_index_def Let_def)

theorem wrapped_term_two_winners:
  "card {i. i < 3 \<and> (1, 0) \<in> set (votes_cast (wrapping_inputs i) (node_new i [0..<3]))} \<ge> node_quorum (node_new 0 [0..<3])"
  "card {i. i < 3 \<and> (1, 1) \<in> set (votes_cast (wrapping_inputs i) (node_new i [0..<3]))} \<ge> node_quorum (node_new 0 [0..<3])"
proof -
  have n: "i < 3 \<longleftrightarrow> i = 0 \<or> i = 1 \<or> i = 2" for i :: nat by auto
  have "{i. i < 3 \<and> (1, 0) \<in> set (votes_cast (wrapping_inputs i) (node_new i [0..<3]))} = {0, 1}"
    "{i. i < 3 \<and> (1, 1) \<in> set (votes_cast (wrapping_inputs i) (node_new i [0..<3]))} = {1, 2}"
    unfolding n using wrapping_votes by (auto simp: node_new_def)
  moreover have "node_quorum (node_new 0 [0..<3]) = 2" by (simp add: node_quorum_def node_new_def)
  ultimately show
    "card {i. i < 3 \<and> (1, 0) \<in> set (votes_cast (wrapping_inputs i) (node_new i [0..<3]))} \<ge> node_quorum (node_new 0 [0..<3])"
    "card {i. i < 3 \<and> (1, 1) \<in> set (votes_cast (wrapping_inputs i) (node_new i [0..<3]))} \<ge> node_quorum (node_new 0 [0..<3])"
    by simp_all
qed

subsection \<open>Commit and apply\<close>

definition log_state :: "raft_log \<Rightarrow> kvmap" where
  "log_state l = hist_from 0 (map (\<lambda>e. [le_cmd e]) l) []"

lemma log_state_snoc: "log_state (l @ [e]) = fst (op_apply (le_cmd e) (log_state l) (word_of_nat (length l + 1)))"
  by (simp add: log_state_def hist_from_append apply_ops_def)

definition applied_ok :: "node \<Rightarrow> bool" where
  "applied_ok n \<longleftrightarrow> applied n \<le> length (n_log n) \<and> n_state n = log_state (take (applied n) (n_log n))"

lemma apply_committed_eq:
  assumes "applied_ok n" and "a = max (applied n) (min (commit_idx n) (length (n_log n)))"
  shows "apply_committed n = (a - applied n, n\<lparr>n_state := log_state (take a (n_log n)), applied := a\<rparr>)"
  using assms
proof (induction n rule: apply_committed.induct)
  case (1 n)
  show ?case
  proof (cases "applied n < commit_idx n \<and> applied n < length (n_log n)")
    case True
    let ?e = "n_log n ! applied n"
    let ?n = "n\<lparr>n_state := fst (op_apply (le_cmd ?e) (n_state n) (word_of_nat (applied n + 1))), applied := applied n + 1\<rparr>"
    have get: "log_get (n_log n) (applied n + 1) = Some ?e" using True by (simp add: log_get_def)
    have ok: "applied_ok ?n"
      using "1.prems" True by (auto simp: applied_ok_def take_Suc_conv_app_nth log_state_snoc)
    have a: "a = max (applied ?n) (min (commit_idx ?n) (length (n_log ?n)))" "applied n < a"
      using True "1.prems"(2) by auto
    from "1.IH" [OF _ get ok a(1)] True have
      "apply_committed ?n = (a - (applied n + 1), ?n\<lparr>n_state := log_state (take a (n_log n)), applied := a\<rparr>)" by simp
    with True get a(2) show ?thesis by (subst apply_committed.simps) simp
  next
    case False
    then have "a = applied n" using "1.prems" by (auto simp: applied_ok_def)
    moreover have "n\<lparr>n_state := log_state (take (applied n) (n_log n)), applied := applied n\<rparr> = n"
      using "1.prems" by (simp add: applied_ok_def)
    ultimately show ?thesis using False "1.prems"
      by (subst apply_committed.simps) (auto simp: log_get_def)
  qed
qed

text \<open>
  The state machine is a function of the log. Applying takes exactly the committed entries the
  log holds that were not applied yet, in order, and leaves the state that folding the applied log
  from empty gives.
\<close>

theorem apply_committed_folds:
  assumes "n_state n = log_state (take (applied n) (n_log n))" and "applied n \<le> length (n_log n)"
    and "apply_committed n = (k, n')"
  shows "applied n' = max (applied n) (min (commit_idx n) (length (n_log n)))
    \<and> n_state n' = log_state (take (applied n') (n_log n)) \<and> k = applied n' - applied n
    \<and> n_log n' = n_log n \<and> commit_idx n' = commit_idx n
    \<and> node_get n' = fold write_value (map le_cmd (take (applied n') (n_log n))) (\<lambda>_. None)"
proof -
  have ok: "applied_ok n" using assms by (simp add: applied_ok_def)
  have fold: "map_option e_value (bm_get (log_state l) key) = fold write_value (map le_cmd l) (\<lambda>_. None) key" for l key
  proof -
    have "map_option e_value (bm_get (log_state l) key) = snapshot_get (snap_of (map (\<lambda>e. [le_cmd e]) l)) key"
      by (simp add: log_state_def snap_of_def snapshot_get_def)
    also have "\<dots> = fold write_value (concat (map (\<lambda>e. [le_cmd e]) l)) (\<lambda>_. None) key" by (simp add: get_snap_of)
    also have "concat (map (\<lambda>e. [le_cmd e]) l) = map le_cmd l" by (induction l) simp_all
    finally show ?thesis .
  qed
  have "node_get n' = fold write_value (map le_cmd (take (applied n') (n_log n))) (\<lambda>_. None)"
    using apply_committed_eq [OF ok refl] assms(3) by (intro ext) (auto simp: node_get_def fold)
  with apply_committed_eq [OF ok refl] assms(3) show ?thesis by auto
qed

lemma advance_fold:
  "fold (\<lambda>i n. if term_of (n_log n) i \<noteq> Some (n_term n) then n else if match_count i n \<ge> q then n\<lparr>commit_idx := i\<rparr> else n) is n
   = n\<lparr>commit_idx := fold (\<lambda>i c. if term_of (n_log n) i = Some (n_term n) \<and> match_count i n \<ge> q then i else c) is (commit_idx n)\<rparr>"
  by (induction "is" arbitrary: n) (auto simp: match_count_def)

lemma fold_last_good:
  assumes "sorted_wrt (<) (c # is)"
  shows "fold (\<lambda>i c. if P i then i else c) is c = (if filter P is = [] then c else last (filter P is))"
  using assms by (induction "is" arbitrary: c) auto

lemma sorted_le_last: "sorted xs \<Longrightarrow> x \<in> set xs \<Longrightarrow> x \<le> last (xs :: nat list)"
  by (induction xs) auto

lemma advance_commit_cases:
  assumes "n_role n = Leader"
  shows "\<exists>c. advance_commit n = n\<lparr>commit_idx := c\<rparr>
    \<and> (c = commit_idx n \<or> commit_idx n < c \<and> c \<le> length (n_log n) \<and> term_of (n_log n) c = Some (n_term n)
        \<and> node_quorum n \<le> length (filter (\<lambda>m. c \<le> snd m) (match_idx n)))
    \<and> (\<forall>i. i \<le> length (n_log n) \<and> term_of (n_log n) i = Some (n_term n)
        \<and> node_quorum n \<le> length (filter (\<lambda>m. i \<le> snd m) (match_idx n)) \<longrightarrow> i \<le> c)"
proof -
  let ?P = "\<lambda>i. term_of (n_log n) i = Some (n_term n) \<and> match_count i n \<ge> node_quorum n"
  let ?r = "[commit_idx n + 1 ..< length (n_log n) + 1]"
  let ?c = "if filter ?P ?r = [] then commit_idx n else last (filter ?P ?r)"
  have srt: "sorted_wrt (<) (commit_idx n # ?r)" by (simp del: upt_Suc)
  have eq: "advance_commit n = n\<lparr>commit_idx := ?c\<rparr>"
    using assms fold_last_good [OF srt, of ?P]
    by (simp add: advance_commit_def Let_def advance_fold log_last_index_def del: upt_Suc)
  have c: "?c = commit_idx n \<or> ?c \<in> set ?r \<and> ?P ?c"
    using last_in_set [of "filter ?P ?r"] by (auto simp del: upt_Suc)
  have max: "i \<le> ?c" if "i \<le> length (n_log n)" "?P i" for i
  proof (cases "i \<le> commit_idx n")
    case True
    with c show ?thesis by (auto simp del: upt_Suc)
  next
    case False
    with that have i: "i \<in> set (filter ?P ?r)" by (auto simp del: upt_Suc)
    have "sorted (filter ?P ?r)" by (rule sorted_wrt_filter) (simp del: upt_Suc)
    then have "i \<le> last (filter ?P ?r)" using i by (rule sorted_le_last)
    moreover have "filter ?P ?r \<noteq> []" using i by (metis empty_iff empty_set)
    ultimately show ?thesis by (simp only: if_False)
  qed
  from eq c max show ?thesis by (intro exI [of _ ?c]) (auto simp: match_count_def simp del: upt_Suc)
qed

text \<open>
  A leader commits by quorum only. The commit index moves to the highest index of the leader's
  own term that a quorum is known to hold, and stays where it is when there is none; nothing else
  changes.
\<close>

theorem advance_commit_spec:
  assumes "n_role n = Leader"
  shows "\<exists>c. advance_commit n = n\<lparr>commit_idx := c\<rparr>
    \<and> (c = commit_idx n \<or> commit_idx n < c \<and> c \<le> length (n_log n) \<and> term_of (n_log n) c = Some (n_term n)
        \<and> node_quorum n \<le> length (filter (\<lambda>m. c \<le> snd m) (match_idx n)))
    \<and> (\<forall>i. i \<le> length (n_log n) \<and> term_of (n_log n) i = Some (n_term n)
        \<and> node_quorum n \<le> length (filter (\<lambda>m. i \<le> snd m) (match_idx n)) \<longrightarrow> i \<le> c)"
  using assms by (rule advance_commit_cases)

subsection \<open>Examples\<close>

abbreviation ent :: "nat \<Rightarrow> u8 \<Rightarrow> log_entry" where
  "ent t b \<equiv> \<lparr>self_term = t, le_cmd = Put [b] [b]\<rparr>"

text \<open>A follower whose tail of term 2 diverges from a leader of term 3.\<close>

abbreviation stale :: node where
  "stale \<equiv> (node_new 1 [0, 1, 2])\<lparr>n_term := 2, n_log := [ent 1 1, ent 2 2]\<rparr>"

lemma stale_matching: "log_matching [ent 1 1, ent 3 3, ent 3 4] [ent 1 1, ent 2 2]"
  by (auto simp: log_matching_def less_Suc_eq)

abbreviation repaired :: node where
  "repaired \<equiv> stale\<lparr>n_term := 3, leader_id := Some 0, n_log := [ent 1 1, ent 3 3, ent 3 4], commit_idx := 1\<rparr>"

lemma stale_append:
  "append_entries 0 3 1 (term_at [ent 1 1, ent 3 3, ent 3 4] 1) [ent 3 3, ent 3 4] 1 stale = (None, repaired)"
  by (simp add: append_entries_def node_new_def Let_def log_defs term_at_def)

theorem append_entries_agrees_witness:
  "log_matching [ent 1 1, ent 3 3, ent 3 4] (n_log repaired) \<and> take 3 (n_log repaired) = [ent 1 1, ent 3 3, ent 3 4]"
  using append_entries_agrees [OF stale_append, of 1] stale_matching by (simp add: node_new_def)

theorem append_entries_idempotent_witness:
  "append_entries 0 3 1 (term_at [ent 1 1, ent 3 3, ent 3 4] 1) [ent 3 3, ent 3 4] 1 repaired = (None, repaired)"
  by (rule append_entries_idempotent [OF stale_append]) (use stale_matching in \<open>simp_all add: node_new_def\<close>)

theorem one_winner_per_term_witness:
  "card {i. i < 3 \<and> (1, 0) \<in> set (votes_cast (if i = 0 then [StartElection] else [RequestVote 0 1 0 0]) (node_new i [0..<3]))} = 3
   \<and> card {i. i < 3 \<and> (1, 1) \<in> set (votes_cast (if i = 0 then [StartElection] else [RequestVote 0 1 0 0]) (node_new i [0..<3]))} < 2"
proof -
  let ?ins = "\<lambda>i. if i = 0 then [StartElection] else [RequestVote 0 1 0 0]"
  let ?v = "\<lambda>b i. (1, b) \<in> set (votes_cast (?ins i) (node_new i [0..<3]))"
  have "?v 0 i" for i
    by (cases "i = 0") (auto simp: start_election_u64_def request_vote_def node_new_def log_last_term_def log_last_index_def)
  then have "{i. i < 3 \<and> ?v 0 i} = {..<3}" by auto
  then have all: "card {i. i < 3 \<and> ?v 0 i} = 3" by simp
  have q: "node_quorum (node_new 0 [0..<3]) = 2" by (simp add: node_quorum_def node_new_def)
  have fit: "\<forall>i<3. terms_fit (?ins i) (node_new i [0..<3])" by (simp add: node_new_def)
  have "\<not> 2 \<le> card {i. i < 3 \<and> ?v 1 i}"
  proof
    assume "2 \<le> card {i. i < 3 \<and> ?v 1 i}"
    moreover have "2 \<le> card {i. i < 3 \<and> ?v 0 i}" unfolding all by simp
    ultimately have "(1 :: nat) = 0" unfolding q [symmetric] by (rule one_winner_per_term [OF fit])
    then show False by simp
  qed
  with all show ?thesis by simp
qed

theorem apply_committed_folds_witness:
  "applied (snd (apply_committed (stale\<lparr>commit_idx := 1\<rparr>))) = 1
   \<and> node_get (snd (apply_committed (stale\<lparr>commit_idx := 1\<rparr>))) = (\<lambda>_. None)([1] \<mapsto> [1])"
proof -
  let ?n = "stale\<lparr>commit_idx := 1\<rparr>"
  have "n_state ?n = log_state (take (applied ?n) (n_log ?n))" by (simp add: node_new_def log_state_def)
  from apply_committed_folds [OF this, of "fst (apply_committed ?n)" "snd (apply_committed ?n)"]
  have a: "applied (snd (apply_committed ?n)) = 1"
    "node_get (snd (apply_committed ?n)) = fold write_value (map le_cmd (take (applied (snd (apply_committed ?n))) (n_log ?n))) (\<lambda>_. None)"
    by (simp_all add: node_new_def)
  then show ?thesis by (simp add: node_new_def write_value_def op_value_def)
qed

text \<open>A leader of term 3 whose second entry two of three nodes hold.\<close>

abbreviation ahead :: node where
  "ahead \<equiv> (node_new 0 [0, 1, 2])\<lparr>n_term := 3, n_role := Leader, n_log := [ent 1 1, ent 3 3], match_idx := [(0, 2), (1, 2), (2, 0)]\<rparr>"

theorem advance_commit_spec_witness: "commit_idx (advance_commit ahead) = 2"
proof -
  obtain c where c: "advance_commit ahead = ahead\<lparr>commit_idx := c\<rparr>" "c = 0 \<or> c \<le> 2"
      "\<forall>i. i \<le> 2 \<and> term_of (n_log ahead) i = Some 3 \<and> node_quorum ahead \<le> length (filter (\<lambda>m. i \<le> snd m) (match_idx ahead)) \<longrightarrow> i \<le> c"
    using advance_commit_spec [of ahead] by (auto simp: node_new_def numeral_2_eq_2)
  have "2 \<le> c" using c(3) [THEN spec, of 2] by (simp add: node_new_def node_quorum_def term_of_def log_get_def)
  with c(1,2) show ?thesis by simp
qed

end
