(* ===== verification/Raft_Cluster.thy ===== *)
theory Raft_Cluster
  imports Raft_Node
begin

text \<open>
  The synchronous cluster driver (\<^verbatim>\<open>src/raft/cluster.rs\<close>): elections among the live nodes, the
  replicated write with its catch-up loop, leader reads, failing and reviving nodes, and the optional
  consistency checker. Shown: the catch-up loop terminates and brings any matching log into agreement;
  in every reachable cluster no assertion fires, every node holds a prefix of the one committed
  sequence, writes and reads are those of a single sequential store, and the checker reports nothing.
  The code's election passes the candidate's tip in the wrong order; what that costs is shown at the end.
\<close>

subsection \<open>The program\<close>

datatype cluster_error = NoLeader

text \<open>What a call does: return, return an error, or panic on an assertion.\<close>

datatype 'a outcome = Ok 'a | Err cluster_error | Panic

record inner =
  cl_nodes :: "(nat, node) bmap"
  cl_leader :: "nat option"
  cl_down :: "nat set"

text \<open>\<^verbatim>\<open>self.nodes[&id]\<close> (every id used is a member) and a write through \<^verbatim>\<open>get_mut\<close>.\<close>

definition node_at :: "inner \<Rightarrow> nat \<Rightarrow> node" where
  "node_at g i = the (bm_get (cl_nodes g) i)"

definition set_node :: "nat \<Rightarrow> node \<Rightarrow> inner \<Rightarrow> inner" where
  "set_node i n g = g\<lparr>cl_nodes := bm_insert i n (cl_nodes g)\<rparr>"

definition live :: "inner \<Rightarrow> nat list" where
  "live g = filter (\<lambda>i. i \<notin> cl_down g) (map fst (cl_nodes g))"

definition cl_quorum :: "inner \<Rightarrow> nat" where
  "cl_quorum g = length (cl_nodes g) div 2 + 1"

definition max_term :: "inner \<Rightarrow> nat" where
  "max_term g = fold max (map (n_term \<circ> snd) (cl_nodes g)) 0"

definition tip :: "node \<Rightarrow> nat \<times> nat" where
  "tip n = (log_last_term (n_log n), log_last_index (n_log n))"

definition tip_less :: "nat \<times> nat \<Rightarrow> nat \<times> nat \<Rightarrow> bool" where
  "tip_less a b \<longleftrightarrow> fst a < fst b \<or> fst a = fst b \<and> snd a < snd b"

definition pick_candidate :: "inner \<Rightarrow> nat \<Rightarrow> nat option \<times> (nat \<times> nat) \<Rightarrow> nat option \<times> (nat \<times> nat)" where
  "pick_candidate g i s =
     (case s of (cand, best) \<Rightarrow>
      let key = tip (node_at g i) in
      if tip_less best key \<or> key = best \<and> (case cand of None \<Rightarrow> True | Some c \<Rightarrow> i < c)
      then (Some i, key) else (cand, best))"

text \<open>One round of the voting loop. The tip goes out as \<^verbatim>\<open>(cand_tip.0, cand_tip.1)\<close>, term first.\<close>

definition ask_vote :: "nat \<Rightarrow> nat \<Rightarrow> nat \<times> nat \<Rightarrow> nat \<Rightarrow> nat \<times> inner \<Rightarrow> nat \<times> inner" where
  "ask_vote cand cand_term cand_tip i s =
     (case s of (votes, g) \<Rightarrow>
      if i = cand then (votes, g)
      else case request_vote cand cand_term (fst cand_tip) (snd cand_tip) (node_at g i) of
             (granted, n) \<Rightarrow> (if granted then votes + 1 else votes, set_node i n g))"

definition elect :: "inner \<Rightarrow> nat option \<times> inner" where
  "elect g =
     (let lv = live g in
      if cl_quorum g > length lv then (None, g)
      else
        let cand = the (fst (fold (pick_candidate g) lv (None, (0, 0))));
            cand_term = max_term g + 1;
            g = set_node cand ((start_election (node_at g cand))\<lparr>n_term := cand_term\<rparr>) g;
            cand_tip = tip (node_at g cand)
        in case fold (ask_vote cand cand_term cand_tip) lv (1, g) of
             (votes, g) \<Rightarrow>
               if votes \<ge> cl_quorum g
               then (Some cand, (set_node cand (become_leader (node_at g cand)) g)
                       \<lparr>cl_leader := Some cand, cl_down := cl_down g - {cand}\<rparr>)
               else (None, g\<lparr>cl_leader := None\<rparr>))"

definition ensure_leader :: "inner \<Rightarrow> (cluster_error + nat) \<times> inner" where
  "ensure_leader g =
     (if length (live g) < cl_quorum g then (Inl NoLeader, g\<lparr>cl_leader := None\<rparr>)
      else case (case cl_leader g of Some l \<Rightarrow> if l \<notin> cl_down g then Some l else None | None \<Rightarrow> None) of
             Some l \<Rightarrow> (Inr l, g)
           | None \<Rightarrow> (case elect (g\<lparr>cl_leader := None\<rparr>) of
                        (Some l, g) \<Rightarrow> (Inr l, g) | (None, g) \<Rightarrow> (Inl NoLeader, g)))"

definition inner_fail :: "nat \<Rightarrow> inner \<Rightarrow> inner" where
  "inner_fail i g = (let g = (if cl_leader g = Some i then g\<lparr>cl_leader := None\<rparr> else g)
     in g\<lparr>cl_down := insert i (cl_down g)\<rparr>)"

definition inner_revive :: "nat \<Rightarrow> inner \<Rightarrow> inner" where
  "inner_revive i g = g\<lparr>cl_down := cl_down g - {i}\<rparr>"

text \<open>
  The loop of \<^verbatim>\<open>peer_catch_up\<close>, on the leader's and the peer's node (the two are distinct and only the
  peer's changes).
\<close>

lemma append_entries_shrinks:
  "append_entries from lt prev pt es lc p = (Some r, p') \<Longrightarrow> length (n_log p') \<le> length (n_log p)"
  by (auto simp: append_entries_def Let_def truncate_from_def split: if_splits)

function catch_up_loop :: "nat \<Rightarrow> node \<Rightarrow> nat \<Rightarrow> nat \<Rightarrow> node \<Rightarrow> bool \<times> node" where
  "catch_up_loop leader ld idx lterm p =
     (let start = min (log_last_index (n_log p) + 1) idx;
          prev_idx = start - 1;
          prev_term = (case term_of (n_log ld) prev_idx of Some t \<Rightarrow> t | None \<Rightarrow> 0);
          suffix = List.map_filter (log_get (n_log ld)) [start..<idx + 1];
          before = log_last_index (n_log p)
      in case append_entries leader lterm prev_idx prev_term suffix (commit_idx ld) p of
           (None, p') \<Rightarrow> (True, p')
         | (Some _, p') \<Rightarrow>
             if log_last_index (n_log p') = before then (False, p') else catch_up_loop leader ld idx lterm p')"
  by pat_completeness auto

termination catch_up_loop
  by (relation "measure (\<lambda>(_, _, _, _, p). length (n_log p))")
    (auto simp: log_last_index_def dest!: sym [of "(_, _)"] append_entries_shrinks)

definition peer_catch_up :: "nat \<Rightarrow> nat \<Rightarrow> nat \<Rightarrow> nat \<Rightarrow> inner \<Rightarrow> bool \<times> inner" where
  "peer_catch_up leader peer idx lterm g =
     (if idx = 0 then (True, g)
      else case catch_up_loop leader (node_at g leader) idx lterm (node_at g peer) of
             (ok, p) \<Rightarrow> (ok, set_node peer p g))"

definition apply_node :: "nat list \<Rightarrow> nat option \<Rightarrow> nat \<Rightarrow> node \<Rightarrow> node" where
  "apply_node lv leader_term_at up_to n =
     (if n_id n \<notin> set lv then n
      else if term_of (n_log n) up_to \<noteq> leader_term_at then n
      else snd (apply_committed (n\<lparr>commit_idx := max (commit_idx n) up_to\<rparr>)))"

definition apply_committed_all :: "nat \<Rightarrow> nat \<Rightarrow> inner \<Rightarrow> inner" where
  "apply_committed_all leader up_to g =
     g\<lparr>cl_nodes := map (\<lambda>(i, n). (i, apply_node (live g) (term_of (n_log (node_at g leader)) up_to) up_to n)) (cl_nodes g)\<rparr>"

definition sync_live_followers :: "nat \<Rightarrow> inner \<Rightarrow> inner" where
  "sync_live_followers leader g =
     (let tip = log_last_index (n_log (node_at g leader));
          lterm = n_term (node_at g leader);
          g = fold (\<lambda>i g. if i \<noteq> leader then snd (peer_catch_up leader i tip lterm g) else g) (live g) g
      in apply_committed_all leader (commit_idx (node_at g leader)) g)"

record raft_cluster =
  rc_inner :: inner
  rc_model :: "checker option"

definition cluster_new :: "nat \<Rightarrow> raft_cluster" where
  "cluster_new n = \<lparr>rc_inner = \<lparr>cl_nodes = map (\<lambda>i. (i, node_new i [0..<n])) [0..<n], cl_leader = None, cl_down = {}\<rparr>,
     rc_model = None\<rparr>"

definition cluster_default :: raft_cluster where
  "cluster_default = cluster_new 3"

definition with_model :: "nat \<Rightarrow> checker \<Rightarrow> raft_cluster" where
  "with_model n m = (cluster_new n)\<lparr>rc_model := Some m\<rparr>"

definition cluster_leader :: "raft_cluster \<Rightarrow> nat option" where
  "cluster_leader c = cl_leader (rc_inner c)"

definition cluster_fail :: "nat \<Rightarrow> raft_cluster \<Rightarrow> raft_cluster" where
  "cluster_fail i c = c\<lparr>rc_inner := inner_fail i (rc_inner c)\<rparr>"

definition cluster_revive :: "nat \<Rightarrow> raft_cluster \<Rightarrow> raft_cluster" where
  "cluster_revive i c = c\<lparr>rc_inner := inner_revive i (rc_inner c)\<rparr>"

text \<open>The replication loop of \<^verbatim>\<open>cluster_commit\<close>, counting acceptors.\<close>

definition replicate_to :: "nat \<Rightarrow> nat \<Rightarrow> nat \<Rightarrow> nat \<Rightarrow> nat \<times> inner \<Rightarrow> nat \<times> inner" where
  "replicate_to leader idx lterm i s =
     (case s of (acks, g) \<Rightarrow>
      if i = leader then (acks, g)
      else case peer_catch_up leader i idx lterm g of
             (True, g) \<Rightarrow> (acks + 1, let l = node_at g leader in
                             set_node leader (l\<lparr>match_idx := bm_insert i idx (match_idx l)\<rparr>) g)
           | (False, g) \<Rightarrow> (acks, g))"

definition cluster_commit :: "op \<Rightarrow> raft_cluster \<Rightarrow> nat outcome \<times> raft_cluster" where
  "cluster_commit op c =
     (case ensure_leader (rc_inner c) of
        (Inl e, g) \<Rightarrow> (Err e, c\<lparr>rc_inner := g\<rparr>)
      | (Inr leader, g) \<Rightarrow>
          (case propose op (node_at g leader) of
             None \<Rightarrow> (Panic, c\<lparr>rc_inner := g\<rparr>)
           | Some (idx, ld) \<Rightarrow>
               let g = set_node leader ld g;
                   lterm = n_term (node_at g leader)
               in case fold (replicate_to leader idx lterm) (live g) (1, g) of
                    (acks, g) \<Rightarrow>
                      if acks < cl_quorum g then (Err NoLeader, c\<lparr>rc_inner := g\<rparr>)
                      else
                        let g = set_node leader (advance_commit (node_at g leader)) g;
                            ci = commit_idx (node_at g leader)
                        in if ci \<noteq> idx then (Panic, c\<lparr>rc_inner := g\<rparr>)
                           else (Ok ci, c\<lparr>rc_inner := apply_committed_all leader ci g,
                              rc_model := map_option (case op of
                                  Put key value \<Rightarrow> record_write (word_of_nat ci) key (Some value)
                                | Delete key \<Rightarrow> record_write (word_of_nat ci) key None) (rc_model c)\<rparr>)))"

definition cluster_put :: "bytes \<Rightarrow> bytes \<Rightarrow> raft_cluster \<Rightarrow> nat outcome \<times> raft_cluster" where
  "cluster_put key value c = cluster_commit (Put key value) c"

definition cluster_delete :: "bytes \<Rightarrow> raft_cluster \<Rightarrow> nat outcome \<times> raft_cluster" where
  "cluster_delete key c = cluster_commit (Delete key) c"

definition cluster_get :: "bytes \<Rightarrow> raft_cluster \<Rightarrow> bytes option outcome \<times> raft_cluster" where
  "cluster_get key c =
     (case ensure_leader (rc_inner c) of
        (Inl e, g) \<Rightarrow> (Err e, c\<lparr>rc_inner := g\<rparr>)
      | (Inr leader, g) \<Rightarrow>
          let g = sync_live_followers leader g;
              v = node_get (node_at g leader) key
          in if \<not> list_all (\<lambda>i. node_get (node_at g i) key = v) (live g) then (Panic, c\<lparr>rc_inner := g\<rparr>)
             else (Ok v, c\<lparr>rc_inner := g,
               rc_model := map_option (record_read (word_of_nat (applied (node_at g leader))) key v) (rc_model c)\<rparr>))"

text \<open>The scan takes the range from the prefix on and stops at the first key without it.\<close>

definition cluster_scan :: "bytes \<Rightarrow> raft_cluster \<Rightarrow> (bytes \<times> bytes) list outcome \<times> raft_cluster" where
  "cluster_scan pref c =
     (case ensure_leader (rc_inner c) of
        (Inl e, g) \<Rightarrow> (Err e, c\<lparr>rc_inner := g\<rparr>)
      | (Inr leader, g) \<Rightarrow>
          let g = sync_live_followers leader g;
              from = filter (\<lambda>e. pref \<le> fst e) (n_state (node_at g leader));
              out = map (\<lambda>(k, e). (k, e_value e)) (takeWhile (\<lambda>e. prefix pref (fst e)) from)
          in (Ok out, c\<lparr>rc_inner := g\<rparr>))"

declare catch_up_loop.simps [simp del]

subsection \<open>The catch-up loop\<close>

lemma map_filter_log_get:
  assumes "j \<le> length l"
  shows "List.map_filter (log_get l) [Suc i..<j + 1] = drop i (take j l)"
  using assms
proof (induction j)
  case (Suc j)
  have get: "log_get l (Suc j) = Some (l ! j)" using Suc.prems by (simp add: log_get_def)
  have tk: "take (Suc j) l = take j l @ [l ! j]" using Suc.prems by (simp add: take_Suc_conv_app_nth)
  show ?case
  proof (cases "i \<le> j")
    case True
    then have "[Suc i..<Suc j + 1] = [Suc i..<j + 1] @ [Suc j]" by simp
    with Suc.IH Suc.prems get tk True show ?thesis by (simp add: List.map_filter_def del: upt_Suc)
  next
    case False
    with Suc.prems show ?thesis by (simp add: map_filter_simps)
  qed
qed (simp add: map_filter_simps)

text \<open>The message one round of the loop sends.\<close>

lemma catch_up_message:
  assumes "0 < idx" and "idx \<le> length (n_log ld)" and "k = min (length (n_log p)) (idx - 1)"
  shows "catch_up_loop leader ld idx lterm p =
    (case append_entries leader lterm k (term_at (n_log ld) k) (drop k (take idx (n_log ld))) (commit_idx ld) p of
       (None, p') \<Rightarrow> (True, p')
     | (Some _, p') \<Rightarrow> if length (n_log p') = length (n_log p) then (False, p') else catch_up_loop leader ld idx lterm p')"
proof -
  have k: "min (length (n_log p) + 1) idx = Suc k" "Suc k - 1 = k" using assms(1,3) by auto
  show ?thesis
    by (subst catch_up_loop.simps)
      (simp only: Let_def log_last_index_def k term_at_def [symmetric] map_filter_log_get [OF assms(2)])
qed

lemma slice_of: "j \<le> length l \<Longrightarrow> drop k (take j l) = take (length (drop k (take j l))) (drop k l)"
  by (simp add: drop_take min_def)


text \<open>In the driver a follower's log is a prefix of the leader's: one round does it.\<close>

lemma catch_up_prefix:
  assumes "prefix (n_log p) (n_log ld)" and "n_term p \<le> lterm" and "0 < length (n_log ld)"
  obtains p' where "catch_up_loop leader ld (length (n_log ld)) lterm p = (True, p')" and "n_log p' = n_log ld"
    and "n_term p' = lterm" and "commit_idx p' = max (commit_idx p) (min (commit_idx ld) (length (n_log ld)))"
    and "applied p' = applied p" and "n_state p' = n_state p" and "n_id p' = n_id p" and "peers p' = peers p"
proof -
  let ?l = "n_log ld"
  define k where "k = min (length (n_log p)) (length ?l - 1)"
  let ?es = "drop k (take (length ?l) ?l)"
  obtain z where z: "?l = n_log p @ z" using assms(1) by (rule prefixE)
  have k: "k + length ?es = length ?l" "k \<le> length ?l" "k \<le> length (n_log p)" "take k (n_log p) = take k ?l"
    using assms(3) z by (auto simp: k_def)
  have match: "log_matching ?l (n_log p)" using z by (auto simp: log_matching_def)
  note es = slice_of [of "length ?l" ?l k, simplified]
  obtain res p' where run: "append_entries leader lterm k (term_at ?l k) ?es (commit_idx ld) p = (res, p')"
    by (cases "append_entries leader lterm k (term_at ?l k) ?es (commit_idx ld) p")
  have res: "res = None"
  proof (cases res)
    case (Some r)
    note rej = append_entries_reject [OF run [unfolded Some] assms(2) match k(2)]
    have "n_log p ! (k - 1) = ?l ! (k - 1)" using rej(1) k(3) by (simp add: z nth_append)
    with rej(4) [OF k(3)] show ?thesis by simp
  qed
  note acc = append_entries_accept [OF run [unfolded res] match]
  have "n_log p' = ?l"
    using append_loop_agrees [OF match k(4) [symmetric] k(3), of ?es] acc(1) k z by (auto simp: prefix_def)
  moreover have "catch_up_loop leader ld (length ?l) lterm p = (True, p')"
    using run res by (simp add: catch_up_message [OF assms(3) order_refl k_def])
  ultimately show thesis using acc(4,5,10-13) k that by simp
qed

subsection \<open>The nodes of a cluster\<close>

lemma keys_wf: "map fst (cl_nodes g) = [0..<m] \<Longrightarrow> bm_wf (cl_nodes g)"
  by (simp add: bm_wf_def)

lemma keys_set_node:
  assumes "map fst (cl_nodes g) = [0..<m]" and "i < m"
  shows "map fst (cl_nodes (set_node i n g)) = [0..<m]"
proof (rule strict_sorted_equal)
  show "sorted_wrt (<) (map fst (cl_nodes (set_node i n g)))"
    using bm_wf_insert [OF keys_wf [OF assms(1)]] by (simp add: set_node_def bm_wf_def)
  have "fst ` set (cl_nodes g) = {..<m}" using arg_cong [OF assms(1), of set] by auto
  then show "set (map fst (cl_nodes (set_node i n g))) = set [0..<m]" using assms(2) by (auto simp: set_node_def)
qed simp

lemma node_at_set_node:
  "map fst (cl_nodes g) = [0..<m] \<Longrightarrow> node_at (set_node i n g) j = (if j = i then n else node_at g j)"
  by (simp add: node_at_def set_node_def bm_get_insert [OF keys_wf])

lemma cl_of_set_node [simp]: "cl_leader (set_node i n g) = cl_leader g" "cl_down (set_node i n g) = cl_down g"
  by (simp_all add: set_node_def)

lemma nodes_of:
  assumes "map fst (cl_nodes g) = [0..<m]"
  shows "cl_nodes g = map (\<lambda>i. (i, node_at g i)) [0..<m]"
proof (rule nth_equalityI)
  have len: "length (cl_nodes g) = m" using arg_cong [OF assms, of length] by simp
  then show "length (cl_nodes g) = length (map (\<lambda>i. (i, node_at g i)) [0..<m])" by simp
  fix i assume "i < length (cl_nodes g)"
  moreover from this have "fst (cl_nodes g ! i) = i" using arg_cong [OF assms, of "\<lambda>xs. xs ! i"] len by simp
  ultimately have "bm_get (cl_nodes g) i = Some (snd (cl_nodes g ! i))"
    using bm_wf_distinct [OF keys_wf [OF assms]] nth_mem [of i "cl_nodes g"] by (metis map_of_is_SomeI prod.collapse)
  with \<open>i < length (cl_nodes g)\<close> \<open>fst (cl_nodes g ! i) = i\<close> len show "cl_nodes g ! i = map (\<lambda>i. (i, node_at g i)) [0..<m] ! i"
    by (simp add: node_at_def prod_eq_iff)
qed

subsection \<open>The invariant of the cluster\<close>

text \<open>
  \<open>G\<close> is the committed sequence. Between calls every node has committed and applied all it holds, a
  prefix of \<open>G\<close>; a majority holds all of \<open>G\<close>; the leader does, and its term is the greatest.
\<close>

definition core_ok :: "nat \<Rightarrow> nat \<Rightarrow> raft_log \<Rightarrow> node \<Rightarrow> bool" where
  "core_ok m i G n \<longleftrightarrow> n_id n = i \<and> peers n = [0..<m] \<and> prefix (n_log n) G \<and> commit_idx n = length (n_log n)
     \<and> applied n = length (n_log n) \<and> n_state n = log_state (n_log n) \<and> (\<forall>e \<in> set (n_log n). self_term e \<le> n_term n)"

definition leads :: "nat \<Rightarrow> inner \<Rightarrow> raft_log \<Rightarrow> nat \<Rightarrow> bool" where
  "leads m g G l \<longleftrightarrow> l < m \<and> l \<notin> cl_down g \<and> n_role (node_at g l) = Leader \<and> n_log (node_at g l) = G
     \<and> bm_wf (match_idx (node_at g l)) \<and> (\<forall>i<m. n_term (node_at g i) \<le> n_term (node_at g l))"

definition cl_inv :: "nat \<Rightarrow> inner \<Rightarrow> raft_log \<Rightarrow> bool" where
  "cl_inv m g G \<longleftrightarrow> map fst (cl_nodes g) = [0..<m] \<and> (\<forall>i<m. core_ok m i G (node_at g i))
     \<and> majority m {i \<in> {..<m}. n_log (node_at g i) = G} \<and> sorted (map self_term G)
     \<and> (\<forall>l. cl_leader g = Some l \<longrightarrow> leads m g G l)"

definition same_core :: "node \<Rightarrow> node \<Rightarrow> bool" where
  "same_core n n' \<longleftrightarrow> n_log n' = n_log n \<and> commit_idx n' = commit_idx n \<and> applied n' = applied n \<and> n_state n' = n_state n
     \<and> n_id n' = n_id n \<and> peers n' = peers n \<and> n_term n \<le> n_term n'"

lemma same_core_refl [simp]: "same_core n n"
  by (simp add: same_core_def)

lemma same_core_trans: "same_core n n' \<Longrightarrow> same_core n' n'' \<Longrightarrow> same_core n n''"
  by (simp add: same_core_def)

lemma core_ok_same: "core_ok m i G n \<Longrightarrow> same_core n n' \<Longrightarrow> core_ok m i G n'"
  by (fastforce simp: core_ok_def same_core_def)

lemma cl_inv_same:
  assumes "cl_inv m g G" and "map fst (cl_nodes g') = [0..<m]" and "\<And>i. i < m \<Longrightarrow> same_core (node_at g i) (node_at g' i)"
    and "\<And>l. cl_leader g' = Some l \<Longrightarrow> leads m g' G l"
  shows "cl_inv m g' G"
proof -
  have "{i \<in> {..<m}. n_log (node_at g' i) = G} = {i \<in> {..<m}. n_log (node_at g i) = G}"
    using assms(3) by (auto simp: same_core_def)
  with assms core_ok_same show ?thesis unfolding cl_inv_def by metis
qed

lemma cl_inv_keys: "cl_inv m g G \<Longrightarrow> map fst (cl_nodes g) = [0..<m]"
  by (simp add: cl_inv_def)

lemma live_eq: "map fst (cl_nodes g) = [0..<m] \<Longrightarrow> live g = filter (\<lambda>i. i \<notin> cl_down g) [0..<m]"
  by (simp add: live_def)

lemma quorum_eq:
  assumes "map fst (cl_nodes g) = [0..<m]"
  shows "cl_quorum g = m div 2 + 1"
proof -
  have "length (cl_nodes g) = m" using arg_cong [OF assms, of length] by simp
  then show ?thesis by (simp add: cl_quorum_def)
qed

lemma live_majority:
  assumes "map fst (cl_nodes g) = [0..<m]" and "cl_quorum g \<le> length (live g)"
  shows "majority m (set (live g))"
proof -
  have "distinct (live g)" by (simp add: live_eq [OF assms(1)])
  then have "card (set (live g)) = length (live g)" by (rule distinct_card)
  with assms show ?thesis by (auto simp: majority_def quorum_eq [OF assms(1)] live_eq [OF assms(1)])
qed

lemma cluster_new_inv:
  assumes "0 < m"
  shows "cl_inv m (rc_inner (cluster_new m)) []"
proof -
  let ?g = "rc_inner (cluster_new m)"
  have at: "node_at ?g i = node_new i [0..<m]" if "i < m" for i
  proof -
    have "map_of (map (\<lambda>i. (i, node_new i [0..<m])) [0..<m]) i = Some (node_new i [0..<m])"
      by (rule map_of_is_SomeI) (use that in \<open>auto simp: comp_def\<close>)
    then show ?thesis by (simp add: node_at_def cluster_new_def)
  qed
  have "{i \<in> {..<m}. n_log (node_at ?g i) = []} = {..<m}" using at by (auto simp: node_new_def)
  then have "majority m {i \<in> {..<m}. n_log (node_at ?g i) = []}" using assms by (simp add: majority_def)
  with at show ?thesis
    by (auto simp: cl_inv_def core_ok_def node_new_def log_state_def cluster_new_def comp_def)
qed

subsection \<open>Elections\<close>

lemma request_vote_core:
  "request_vote from t li lt n = (b, n') \<Longrightarrow> same_core n n' \<and> n_term n' = max (n_term n) t"
  by (auto simp: request_vote_def Let_def same_core_def split: if_splits option.splits)

lemma vote_loop:
  assumes "fold (ask_vote cand t tp) ids (v, g) = (v', g')" and "map fst (cl_nodes g) = [0..<m]" and "set ids \<subseteq> {..<m}"
  shows "map fst (cl_nodes g') = [0..<m] \<and> cl_leader g' = cl_leader g \<and> cl_down g' = cl_down g \<and> node_at g' cand = node_at g cand
    \<and> (\<forall>i. same_core (node_at g i) (node_at g' i) \<and> n_term (node_at g' i) \<le> max t (n_term (node_at g i)))"
  using assms
proof (induction ids arbitrary: v g)
  case (Cons j ids)
  show ?case
  proof (cases "j = cand")
    case True
    with Cons show ?thesis by (simp add: ask_vote_def)
  next
    case False
    obtain b n where rv: "request_vote cand t (fst tp) (snd tp) (node_at g j) = (b, n)"
      by (cases "request_vote cand t (fst tp) (snd tp) (node_at g j)")
    let ?g = "set_node j n g"
    have keys: "map fst (cl_nodes ?g) = [0..<m]" using Cons.prems by (intro keys_set_node) auto
    have "ask_vote cand t tp j (v, g) = (if b then v + 1 else v, ?g)" using False rv by (simp add: ask_vote_def)
    then have "fold (ask_vote cand t tp) ids (if b then v + 1 else v, ?g) = (v', g')" using Cons.prems(1) by simp
    from Cons.IH [OF this keys] Cons.prems(3) have ih: "map fst (cl_nodes g') = [0..<m]"
        "cl_leader g' = cl_leader g" "cl_down g' = cl_down g" "node_at g' cand = node_at ?g cand"
        "\<And>i. same_core (node_at ?g i) (node_at g' i)" "\<And>i. n_term (node_at g' i) \<le> max t (n_term (node_at ?g i))" by auto
    note at = node_at_set_node [OF Cons.prems(2), of j n]
    have "same_core (node_at g i) (node_at g' i) \<and> n_term (node_at g' i) \<le> max t (n_term (node_at g i))" for i
      using ih(5,6) [of i] request_vote_core [OF rv] by (cases "i = j") (auto simp: at intro: same_core_trans)
    with ih(1-4) at False show ?thesis by simp
  qed
qed simp

lemma max_term_ge:
  assumes "map fst (cl_nodes g) = [0..<m]" and "i < m"
  shows "n_term (node_at g i) \<le> max_term g"
proof -
  have le: "(\<forall>x \<in> set xs. x \<le> fold max xs a) \<and> a \<le> fold max xs a" for xs and a :: nat
  proof (induction xs arbitrary: a)
    case (Cons x xs)
    from Cons [of "max x a"] show ?case by auto
  qed simp
  have "n_term (node_at g i) \<in> set (map (n_term \<circ> snd) (cl_nodes g))"
    unfolding nodes_of [OF assms(1)] using assms(2) by force
  then show ?thesis using le by (simp add: max_term_def)
qed

lemma pick_from:
  assumes "fold (pick_candidate g) ids (Some c, tip (node_at g c)) = r"
  shows "\<exists>d. r = (Some d, tip (node_at g d)) \<and> d \<in> insert c (set ids) \<and> (\<forall>i \<in> insert c (set ids). \<not> tip_less (tip (node_at g d)) (tip (node_at g i)))"
  using assms
proof (induction ids arbitrary: c)
  case Nil
  then show ?case by (auto simp: tip_less_def)
next
  case (Cons j ids)
  define d where "d = (if tip_less (tip (node_at g c)) (tip (node_at g j)) \<or> tip (node_at g j) = tip (node_at g c) \<and> j < c then j else c)"
  have step: "pick_candidate g j (Some c, tip (node_at g c)) = (Some d, tip (node_at g d))"
    by (simp add: pick_candidate_def d_def Let_def)
  have ge: "\<not> tip_less (tip (node_at g d)) (tip (node_at g c))" "\<not> tip_less (tip (node_at g d)) (tip (node_at g j))"
    by (auto simp: d_def tip_less_def)
  have trans: "\<not> tip_less x z" if "\<not> tip_less x y" "\<not> tip_less y z" for x y z
    using that by (auto simp: tip_less_def)
  from Cons.prems step have "fold (pick_candidate g) ids (Some d, tip (node_at g d)) = r" by simp
  from Cons.IH [OF this] obtain e where e: "r = (Some e, tip (node_at g e))" "e \<in> insert d (set ids)"
    "\<forall>i \<in> insert d (set ids). \<not> tip_less (tip (node_at g e)) (tip (node_at g i))" by blast
  moreover have "e \<in> insert c (set (j # ids))" using e(2) by (auto simp: d_def split: if_splits)
  moreover have "\<not> tip_less (tip (node_at g e)) (tip (node_at g i))" if "i \<in> insert c (set (j # ids))" for i
  proof -
    have "\<not> tip_less (tip (node_at g e)) (tip (node_at g d))" using e(3) by blast
    with ge trans have "\<not> tip_less (tip (node_at g e)) (tip (node_at g c))" "\<not> tip_less (tip (node_at g e)) (tip (node_at g j))" by blast+
    with e(3) that show ?thesis by auto
  qed
  ultimately show ?case by blast
qed

lemma pick_best:
  assumes "lv \<noteq> []"
  obtains d where "fst (fold (pick_candidate g) lv (None, (0, 0))) = Some d" and "d \<in> set lv"
    and "\<And>i. i \<in> set lv \<Longrightarrow> \<not> tip_less (tip (node_at g d)) (tip (node_at g i))"
proof -
  obtain j ids where lv: "lv = j # ids" using assms by (cases lv) auto
  have "tip_less (0, 0) k \<or> k = (0, 0)" for k by (cases k) (auto simp: tip_less_def)
  then have "pick_candidate g j (None, (0, 0)) = (Some j, tip (node_at g j))" by (simp add: pick_candidate_def Let_def)
  then have "fold (pick_candidate g) lv (None, (0, 0)) = fold (pick_candidate g) ids (Some j, tip (node_at g j))" by (simp add: lv)
  with pick_from [OF refl, of g ids j] that lv show thesis by force
qed

lemma tip_prefix:
  assumes "sorted (map self_term G)" and "prefix p G" and "prefix q G" and "\<not> tip_less (log_last_term p, length p) (log_last_term q, length q)"
  shows "length q \<le> length p"
proof (rule ccontr)
  assume "\<not> length q \<le> length p"
  then have lt: "length p < length q" by simp
  have "log_last_term p \<le> log_last_term q"
  proof (cases "p = []")
    case False
    obtain z w where z: "G = p @ z" "G = q @ w" using assms(2,3) unfolding prefix_def by blast
    have "last p = G ! (length p - 1)" using False by (simp add: z(1) last_conv_nth nth_append)
    moreover have "last q = G ! (length q - 1)" using lt by (cases "q = []") (simp_all add: z(2) last_conv_nth nth_append)
    moreover have "self_term (G ! (length p - 1)) \<le> self_term (G ! (length q - 1))"
    proof -
      have "length q - 1 < length G" "length p - 1 \<le> length q - 1" using lt by (simp_all add: z(2))
      with sorted_nth_mono [OF assms(1), of "length p - 1" "length q - 1"] show ?thesis by simp
    qed
    ultimately show ?thesis using False lt by (auto simp: log_last_term_def)
  qed (simp add: log_last_term_def)
  with lt assms(4) show False by (auto simp: tip_less_def)
qed

text \<open>The candidate holds every committed entry: it is the best of a live majority, one of which does.\<close>

lemma candidate_holds:
  assumes inv: "cl_inv m g G" and q: "cl_quorum g \<le> length (live g)"
  obtains d where "fst (fold (pick_candidate g) (live g) (None, (0, 0))) = Some d" and "d \<in> set (live g)" and "n_log (node_at g d) = G"
proof -
  note keys = cl_inv_keys [OF inv]
  have core: "\<And>i. i < m \<Longrightarrow> prefix (n_log (node_at g i)) G" and srt: "sorted (map self_term G)"
    using inv by (simp_all add: cl_inv_def core_ok_def)
  have ne: "live g \<noteq> []" using q by (auto simp: cl_quorum_def)
  obtain d where d: "fst (fold (pick_candidate g) (live g) (None, (0, 0))) = Some d" "d \<in> set (live g)"
      "\<And>i. i \<in> set (live g) \<Longrightarrow> \<not> tip_less (tip (node_at g d)) (tip (node_at g i))"
    using pick_best [OF ne] by metis
  obtain i where i: "i \<in> set (live g)" "i < m" "n_log (node_at g i) = G"
  proof (rule maj.holder_alive [OF _ live_majority [OF keys q], where N = "{..<m}" and keeps = "\<lambda>i. n_log (node_at g i) = G"])
    show "majority m {i \<in> {..<m}. n_log (node_at g i) = G}" using inv by (simp add: cl_inv_def)
  qed (use that in auto)
  have dm: "d < m" using d(2) by (simp add: live_eq [OF keys])
  have "length G \<le> length (n_log (node_at g d))"
    using tip_prefix [OF srt core [OF dm] core [OF i(2)]] d(3) [OF i(1)] i(3) by (simp add: tip_def log_last_index_def)
  with core [OF dm] have "n_log (node_at g d) = G" by (metis append_eq_conv_conj prefix_def take_all)
  with d that show thesis by blast
qed

lemma fold_insert_wf: "bm_wf m \<Longrightarrow> bm_wf (fold (\<lambda>p. bm_insert p v) ps m)"
  by (induction ps arbitrary: m) (simp_all add: bm_wf_insert)

text \<open>The candidate that won becomes the leader of a cluster with the same logs.\<close>

lemma elected_inv:
  assumes inv: "cl_inv m g G" and d: "d < m" "d \<notin> cl_down g" and keys2: "map fst (cl_nodes g2) = [0..<m]"
    and core2: "\<And>i. i < m \<Longrightarrow> same_core (node_at g i) (node_at g2 i)" and log: "n_log (node_at g2 d) = G"
    and terms2: "\<And>i. i < m \<Longrightarrow> n_term (node_at g2 i) \<le> n_term (node_at g2 d)" and down: "cl_down g2 = cl_down g"
    and g3: "g3 = (set_node d (become_leader (node_at g2 d)) g2)\<lparr>cl_leader := Some d, cl_down := cl_down g2 - {d}\<rparr>"
  shows "cl_inv m g3 G" and "cl_leader g3 = Some d" and "cl_down g3 = cl_down g"
proof -
  have at: "node_at g3 i = (if i = d then become_leader (node_at g2 d) else node_at g2 i)" for i
    using node_at_set_node [OF keys2] by (simp add: g3 node_at_def)
  show frame: "cl_leader g3 = Some d" "cl_down g3 = cl_down g" using d down by (simp_all add: g3)
  show "cl_inv m g3 G"
  proof (rule cl_inv_same [OF inv])
    show "map fst (cl_nodes g3) = [0..<m]" using keys_set_node [OF keys2 d(1)] by (simp add: g3)
    show "same_core (node_at g i) (node_at g3 i)" if "i < m" for i
      using core2 [OF that] by (auto simp: at same_core_def become_leader_def)
    show "leads m g3 G l" if "cl_leader g3 = Some l" for l
      using that frame d log terms2 by (auto simp: leads_def at become_leader_def fold_insert_wf)
  qed
qed

lemma elect_inv:
  assumes inv: "cl_inv m g G" and none: "cl_leader g = None" and run: "elect g = (res, g')"
  shows "cl_inv m g' G \<and> cl_leader g' = res \<and> cl_down g' = cl_down g"
proof (cases "cl_quorum g \<le> length (live g)")
  case False
  with run inv none show ?thesis by (simp add: elect_def Let_def)
next
  case True
  note keys = cl_inv_keys [OF inv]
  obtain d where d: "fst (fold (pick_candidate g) (live g) (None, (0, 0))) = Some d" "d \<in> set (live g)" "n_log (node_at g d) = G"
    by (rule candidate_holds [OF inv True])
  have dm: "d < m" "d \<notin> cl_down g" using d(2) by (simp_all add: live_eq [OF keys])
  define t where "t = max_term g + 1"
  define g1 where "g1 = set_node d ((start_election (node_at g d))\<lparr>n_term := t\<rparr>) g"
  have keys1: "map fst (cl_nodes g1) = [0..<m]" unfolding g1_def by (rule keys_set_node [OF keys dm(1)])
  note at1 = node_at_set_node [OF keys, of d, folded g1_def]
  have terms: "n_term (node_at g i) < t" if "i < m" for i using max_term_ge [OF keys that] by (simp add: t_def)
  have core1: "same_core (node_at g i) (node_at g1 i)" if "i < m" for i
    using terms [OF that] by (auto simp: g1_def node_at_set_node [OF keys] same_core_def start_election_def)
  obtain v g2 where vl: "fold (ask_vote d t (tip (node_at g1 d))) (live g) (1, g1) = (v, g2)"
    by (cases "fold (ask_vote d t (tip (node_at g1 d))) (live g) (1, g1)")
  have sub: "set (live g) \<subseteq> {..<m}" by (auto simp: live_eq [OF keys])
  note votes = vote_loop [OF vl keys1 sub]
  have nd: "n_term (node_at g2 d) = t" "n_log (node_at g2 d) = G"
    using votes d(3) by (simp_all add: g1_def node_at_set_node [OF keys] start_election_def)
  have terms2: "n_term (node_at g2 i) \<le> t" if "i < m" for i
    using votes terms [OF that] by (cases "i = d") (auto simp: g1_def node_at_set_node [OF keys] dest: spec [of _ i])
  have core2: "same_core (node_at g i) (node_at g2 i)" if "i < m" for i
    using core1 [OF that] votes by (blast intro: same_core_trans)
  have q2: "cl_quorum g2 = cl_quorum g" using votes keys by (simp add: quorum_eq)
  have down: "cl_down g2 = cl_down g" "cl_leader g2 = None" using votes none by (simp_all add: g1_def)
  show ?thesis
  proof (cases "v \<ge> cl_quorum g")
    case False
    then have g': "g' = g2\<lparr>cl_leader := None\<rparr>" "res = None"
      using run True d vl q2 by (auto simp: elect_def Let_def t_def g1_def)
    have at: "node_at g' i = node_at g2 i" for i by (simp add: g' node_at_def)
    have "cl_inv m g' G" by (rule cl_inv_same [OF inv]) (use votes core2 g' at in auto)
    with g' down show ?thesis by simp
  next
    case win: True
    let ?g3 = "(set_node d (become_leader (node_at g2 d)) g2)\<lparr>cl_leader := Some d, cl_down := cl_down g2 - {d}\<rparr>"
    have g': "g' = ?g3" "res = Some d"
      using run True d vl q2 win by (auto simp: elect_def Let_def t_def g1_def)
    have keys2: "map fst (cl_nodes g2) = [0..<m]" using votes by simp
    from elected_inv [OF inv dm keys2 core2 nd(2) _ down(1) g'(1)] terms2 nd(1) g'(2) show ?thesis by simp
  qed
qed

subsection \<open>Having a leader\<close>

lemma ensure_leader_inv:
  assumes inv: "cl_inv m g G" and run: "ensure_leader g = (res, g')"
  shows "cl_inv m g' G" and "res = Inr l \<Longrightarrow> cl_leader g' = Some l \<and> leads m g' G l \<and> cl_quorum g' \<le> length (live g')"
proof -
  note keys = cl_inv_keys [OF inv]
  have none: "cl_inv m (g\<lparr>cl_leader := None\<rparr>) G"
    by (rule cl_inv_same [OF inv]) (simp_all add: keys node_at_def)
  have fresh: "cl_inv m g' G \<and> (res = Inr l \<longrightarrow> cl_leader g' = Some l \<and> cl_quorum g' \<le> length (live g'))"
    if el: "elect (g\<lparr>cl_leader := None\<rparr>) = (r, g')" and "res = (case r of Some l \<Rightarrow> Inr l | None \<Rightarrow> Inl NoLeader)"
      and q: "cl_quorum g \<le> length (live g)" for r l
  proof -
    have e: "cl_inv m g' G \<and> cl_leader g' = r \<and> cl_down g' = cl_down g" using elect_inv [OF none _ el] by simp
    then have "live g' = live g" "cl_quorum g' = cl_quorum g"
      using keys cl_inv_keys [of m g' G] by (simp_all add: live_eq quorum_eq)
    with e that show ?thesis by (auto split: option.splits)
  qed
  have "cl_inv m g' G \<and> (res = Inr l \<longrightarrow> cl_leader g' = Some l \<and> cl_quorum g' \<le> length (live g'))" for l
    using run none inv fresh [of _ l]
    by (auto simp: ensure_leader_def not_less split: if_splits option.splits prod.splits)
  then show i: "cl_inv m g' G" and "res = Inr l \<Longrightarrow> cl_leader g' = Some l \<and> leads m g' G l \<and> cl_quorum g' \<le> length (live g')"
    by (auto simp: cl_inv_def)
qed

subsection \<open>Replication to the live nodes\<close>

definition caught_up :: "node \<Rightarrow> nat \<Rightarrow> node \<Rightarrow> node \<Rightarrow> bool" where
  "caught_up ld lterm n n' \<longleftrightarrow> n_log n' = n_log ld \<and> n_term n' = lterm
     \<and> commit_idx n' = max (commit_idx n) (min (commit_idx ld) (length (n_log ld)))
     \<and> applied n' = applied n \<and> n_state n' = n_state n \<and> n_id n' = n_id n \<and> peers n' = peers n"

lemma peer_catch_up_prefix:
  assumes "prefix (n_log (node_at g i)) (n_log (node_at g l))" and "n_term (node_at g i) \<le> lterm" and "n_log (node_at g l) \<noteq> []"
  obtains n' where "peer_catch_up l i (length (n_log (node_at g l))) lterm g = (True, set_node i n' g)"
    and "caught_up (node_at g l) lterm (node_at g i) n'"
  using catch_up_prefix [OF assms(1,2), of l] assms(3) that by (fastforce simp: peer_catch_up_def caught_up_def)

text \<open>The fields of the leader the catch-up reads do not change in the replication loop.\<close>

lemma caught_up_cong: "n_log ld' = n_log ld \<Longrightarrow> commit_idx ld' = commit_idx ld \<Longrightarrow> caught_up ld' t n n' = caught_up ld t n n'"
  by (simp add: caught_up_def)

lemma sync_loop:
  assumes "map fst (cl_nodes g) = [0..<m]" and "set ids \<subseteq> {..<m}" and "distinct ids" and "l < m" and "n_log (node_at g l) \<noteq> []"
    and "\<And>i. i \<in> set ids \<Longrightarrow> prefix (n_log (node_at g i)) (n_log (node_at g l)) \<and> n_term (node_at g i) \<le> t"
    and "fold (\<lambda>i g. if i \<noteq> l then snd (peer_catch_up l i (length (n_log (node_at g0 l))) t g) else g) ids g = g'"
    and "n_log (node_at g0 l) = n_log (node_at g l)"
  shows "map fst (cl_nodes g') = [0..<m] \<and> cl_leader g' = cl_leader g \<and> cl_down g' = cl_down g
    \<and> (\<forall>i. if i \<in> set ids \<and> i \<noteq> l then caught_up (node_at g l) t (node_at g i) (node_at g' i) else node_at g' i = node_at g i)"
  using assms
proof (induction ids arbitrary: g)
  case (Cons j ids)
  show ?case
  proof (cases "j = l")
    case True
    with Cons.IH [of g] Cons.prems show ?thesis by (auto split: if_splits)
  next
    case False
    obtain n' where n': "peer_catch_up l j (length (n_log (node_at g l))) t g = (True, set_node j n' g)"
        "caught_up (node_at g l) t (node_at g j) n'"
      using Cons.prems(6) [of j] by (auto intro: peer_catch_up_prefix [OF _ _ Cons.prems(5)])
    let ?g = "set_node j n' g"
    note at = node_at_set_node [OF Cons.prems(1), of j n']
    have keys: "map fst (cl_nodes ?g) = [0..<m]" using Cons.prems(1,2) by (intro keys_set_node) auto
    have step: "fold (\<lambda>i g. if i \<noteq> l then snd (peer_catch_up l i (length (n_log (node_at g0 l))) t g) else g) ids ?g = g'"
      using Cons.prems(7,8) False n'(1) by simp
    have "map fst (cl_nodes g') = [0..<m] \<and> cl_leader g' = cl_leader ?g \<and> cl_down g' = cl_down ?g
      \<and> (\<forall>i. if i \<in> set ids \<and> i \<noteq> l then caught_up (node_at ?g l) t (node_at ?g i) (node_at g' i) else node_at g' i = node_at ?g i)"
      using Cons.prems False by (intro Cons.IH [OF keys _ _ _ _ _ step]) (auto simp: at)
    with Cons.prems(3) n'(2) False show ?thesis by (auto simp: at split: if_splits)
  qed
qed simp

lemma commit_loop:
  assumes "map fst (cl_nodes g) = [0..<m]" and "set ids \<subseteq> {..<m}" and "distinct ids" and "l < m" and "n_log (node_at g l) \<noteq> []"
    and "\<And>i. i \<in> set ids \<Longrightarrow> prefix (n_log (node_at g i)) (n_log (node_at g l)) \<and> n_term (node_at g i) \<le> t"
    and "fold (replicate_to l idx t) ids (a, g) = (a', g')" and "idx = length (n_log (node_at g l))"
  shows "map fst (cl_nodes g') = [0..<m] \<and> cl_leader g' = cl_leader g \<and> cl_down g' = cl_down g \<and> a' = a + length (filter (\<lambda>i. i \<noteq> l) ids)
    \<and> node_at g' l = (node_at g l)\<lparr>match_idx := fold (\<lambda>i. bm_insert i idx) (filter (\<lambda>i. i \<noteq> l) ids) (match_idx (node_at g l))\<rparr>
    \<and> (\<forall>i. i \<noteq> l \<longrightarrow> (if i \<in> set ids then caught_up (node_at g l) t (node_at g i) (node_at g' i) else node_at g' i = node_at g i))"
  using assms
proof (induction ids arbitrary: a g)
  case (Cons j ids)
  show ?case
  proof (cases "j = l")
    case True
    with Cons.IH [of g a] Cons.prems show ?thesis by (auto simp: replicate_to_def)
  next
    case False
    obtain n' where n': "peer_catch_up l j (length (n_log (node_at g l))) t g = (True, set_node j n' g)"
        "caught_up (node_at g l) t (node_at g j) n'"
      using Cons.prems(6) [of j] by (auto intro: peer_catch_up_prefix [OF _ _ Cons.prems(5)])
    define ld where "ld = (node_at g l)\<lparr>match_idx := bm_insert j idx (match_idx (node_at g l))\<rparr>"
    define g2 where "g2 = set_node l ld (set_node j n' g)"
    have keys1: "map fst (cl_nodes (set_node j n' g)) = [0..<m]" using Cons.prems(1,2) by (intro keys_set_node) auto
    have keys: "map fst (cl_nodes g2) = [0..<m]" unfolding g2_def using keys1 Cons.prems(4) by (rule keys_set_node)
    have at: "node_at g2 i = (if i = l then ld else if i = j then n' else node_at g i)" for i
      by (simp add: g2_def node_at_set_node [OF keys1] node_at_set_node [OF Cons.prems(1)])
    have "replicate_to l idx t j (a, g) = (a + 1, g2)"
      using False n'(1) Cons.prems(8) by (simp add: replicate_to_def Let_def g2_def ld_def node_at_set_node [OF Cons.prems(1)])
    then have step: "fold (replicate_to l idx t) ids (a + 1, g2) = (a', g')" using Cons.prems(7) by simp
    have "map fst (cl_nodes g') = [0..<m] \<and> cl_leader g' = cl_leader g2 \<and> cl_down g' = cl_down g2 \<and> a' = a + 1 + length (filter (\<lambda>i. i \<noteq> l) ids)
      \<and> node_at g' l = (node_at g2 l)\<lparr>match_idx := fold (\<lambda>i. bm_insert i idx) (filter (\<lambda>i. i \<noteq> l) ids) (match_idx (node_at g2 l))\<rparr>
      \<and> (\<forall>i. i \<noteq> l \<longrightarrow> (if i \<in> set ids then caught_up (node_at g2 l) t (node_at g2 i) (node_at g' i) else node_at g' i = node_at g2 i))"
      using Cons.prems False by (intro Cons.IH [OF keys _ _ _ _ _ step]) (auto simp: at ld_def)
    moreover have "cl_leader g2 = cl_leader g" "cl_down g2 = cl_down g" by (simp_all add: g2_def)
    moreover have "caught_up ld = caught_up (node_at g l)" by (simp add: fun_eq_iff caught_up_def ld_def)
    moreover have "ld\<lparr>match_idx := x\<rparr> = (node_at g l)\<lparr>match_idx := x\<rparr>" for x by (simp add: ld_def)
    ultimately show ?thesis using Cons.prems(3) n'(2) False by (auto simp: at ld_def split: if_splits)
  qed
qed simp

subsection \<open>Applying what is committed\<close>

lemma apply_all_at:
  assumes "map fst (cl_nodes g) = [0..<m]" and "i < m"
  shows "node_at (apply_committed_all l u g) i = apply_node (live g) (term_of (n_log (node_at g l)) u) u (node_at g i)"
    and "map fst (cl_nodes (apply_committed_all l u g)) = [0..<m]"
proof -
  have "cl_nodes (apply_committed_all l u g) =
      map (\<lambda>i. (i, apply_node (live g) (term_of (n_log (node_at g l)) u) u (node_at g i))) [0..<m]" (is "_ = map ?f _")
    by (simp add: apply_committed_all_def nodes_of [OF assms(1)])
  moreover have "map_of (map ?f [0..<m]) i = Some (apply_node (live g) (term_of (n_log (node_at g l)) u) u (node_at g i))"
    by (rule map_of_is_SomeI) (use assms(2) in \<open>auto simp: comp_def\<close>)
  ultimately show "node_at (apply_committed_all l u g) i = apply_node (live g) (term_of (n_log (node_at g l)) u) u (node_at g i)"
    and "map fst (cl_nodes (apply_committed_all l u g)) = [0..<m]"
    by (simp_all add: node_at_def comp_def)
qed

lemma apply_all_frame [simp]:
  "cl_leader (apply_committed_all l u g) = cl_leader g" "cl_down (apply_committed_all l u g) = cl_down g"
  by (simp_all add: apply_committed_all_def)

text \<open>A live node with the whole log, and a node that is not live.\<close>

definition settled :: "node \<Rightarrow> node" where
  "settled n = n\<lparr>commit_idx := length (n_log n), n_state := log_state (n_log n), applied := length (n_log n)\<rparr>"

lemma apply_node_settled:
  assumes "n_id n \<in> set lv" and "n_log n = L" and "commit_idx n \<le> length L" and "applied n \<le> length L"
    and "n_state n = log_state (take (applied n) L)"
  shows "apply_node lv (term_of L (length L)) (length L) n = settled n"
proof -
  let ?n = "n\<lparr>commit_idx := max (commit_idx n) (length L)\<rparr>"
  have "applied_ok ?n" using assms by (simp add: applied_ok_def)
  from apply_committed_eq [OF this refl] assms show ?thesis by (simp add: apply_node_def settled_def max_def)
qed

lemma apply_node_dead: "n_id n \<notin> set lv \<Longrightarrow> apply_node lv t u n = n"
  by (simp add: apply_node_def)

text \<open>
  The common end of a read and of a write: every live node holds \<open>L\<close> with a prefix of it applied, the
  others hold a prefix of it as before.
\<close>

definition replicated :: "nat \<Rightarrow> inner \<Rightarrow> raft_log \<Rightarrow> nat \<Rightarrow> bool" where
  "replicated m g L l \<longleftrightarrow> map fst (cl_nodes g) = [0..<m] \<and> cl_leader g = Some l \<and> l \<in> set (live g)
     \<and> sorted (map self_term L) \<and> cl_quorum g \<le> length (live g)
     \<and> n_role (node_at g l) = Leader \<and> bm_wf (match_idx (node_at g l)) \<and> (\<forall>i<m. n_term (node_at g i) \<le> n_term (node_at g l))
     \<and> (\<forall>i \<in> set (live g). n_id (node_at g i) = i \<and> peers (node_at g i) = [0..<m] \<and> n_log (node_at g i) = L \<and> commit_idx (node_at g i) \<le> length L
         \<and> applied (node_at g i) \<le> length L \<and> n_state (node_at g i) = log_state (take (applied (node_at g i)) L)
         \<and> (\<forall>e \<in> set L. self_term e \<le> n_term (node_at g i)))
     \<and> (\<forall>i<m. i \<notin> set (live g) \<longrightarrow> core_ok m i L (node_at g i))"

lemma replicated_applied:
  assumes "replicated m g L l"
  shows "cl_inv m (apply_committed_all l (length L) g) L"
    and "i \<in> set (live g) \<Longrightarrow> node_at (apply_committed_all l (length L) g) i = settled (node_at g i)"
proof -
  let ?g = "apply_committed_all l (length L) g"
  have keys: "map fst (cl_nodes g) = [0..<m]" and q: "cl_quorum g \<le> length (live g)" and l: "l \<in> set (live g)"
    using assms by (simp_all add: replicated_def)
  have sub: "i < m" if "i \<in> set (live g)" for i using that by (simp add: live_eq [OF keys])
  have L: "n_log (node_at g l) = L" using assms l by (simp add: replicated_def)
  have lv: "node_at ?g i = settled (node_at g i)" if "i \<in> set (live g)" for i
    using assms that L by (subst apply_all_at [OF keys sub [OF that]]) (auto simp: replicated_def intro!: apply_node_settled)
  then show "i \<in> set (live g) \<Longrightarrow> node_at ?g i = settled (node_at g i)" .
  have dead: "node_at ?g i = node_at g i \<and> core_ok m i L (node_at g i)" if "i < m" "i \<notin> set (live g)" for i
    using assms that by (subst apply_all_at [OF keys that(1)]) (auto simp: replicated_def core_ok_def apply_node_dead)
  have core: "core_ok m i L (node_at ?g i)" if "i < m" for i
  proof (cases "i \<in> set (live g)")
    case True
    with lv [OF True] assms show ?thesis by (simp add: core_ok_def settled_def replicated_def)
  qed (use dead [OF that] in simp)
  have "majority m {i \<in> {..<m}. n_log (node_at ?g i) = L}"
  proof -
    have "set (live g) \<subseteq> {i \<in> {..<m}. n_log (node_at ?g i) = L}" using lv assms sub by (auto simp: settled_def replicated_def)
    then have "card (set (live g)) \<le> card {i \<in> {..<m}. n_log (node_at ?g i) = L}" by (rule card_mono [rotated]) simp
    with live_majority [OF keys q] show ?thesis by (auto simp: majority_def)
  qed
  moreover have "leads m ?g L l"
  proof -
    have tm: "n_term (node_at ?g i) = n_term (node_at g i)" if "i < m" for i
      using lv dead [OF that] by (cases "i \<in> set (live g)") (auto simp: settled_def)
    have "l \<notin> cl_down g" using l by (simp add: live_eq [OF keys])
    with lv [OF l] L tm sub [OF l] assms show ?thesis by (auto simp: leads_def settled_def replicated_def)
  qed
  ultimately show "cl_inv m ?g L"
    using core assms apply_all_at(2) [OF keys sub [OF l]] by (auto simp: cl_inv_def replicated_def)
qed

lemma log_state_prefix: "prefix p L \<Longrightarrow> log_state p = log_state (take (length p) L)"
  by (auto elim!: prefixE)

subsection \<open>A read\<close>

lemma sync_nodes:
  assumes inv: "cl_inv m g G" and ld: "cl_leader g = Some l" "leads m g G l"
    and loop: "fold (\<lambda>i g. if i \<noteq> l then snd (peer_catch_up l i (length G) (n_term (node_at g0 l)) g) else g) (live g) g = g'"
    and g0: "n_log (node_at g0 l) = G" "n_term (node_at g0 l) = n_term (node_at g l)"
  shows "map fst (cl_nodes g') = [0..<m] \<and> cl_leader g' = cl_leader g \<and> cl_down g' = cl_down g
    \<and> (\<forall>i. if i \<in> set (live g) \<and> i \<noteq> l \<and> G \<noteq> [] then caught_up (node_at g l) (n_term (node_at g l)) (node_at g i) (node_at g' i)
           else node_at g' i = node_at g i)"
proof (cases "G = []")
  case True
  have id: "fold (\<lambda>i g. if i \<noteq> l then snd (peer_catch_up l i 0 t g) else g) ids h = h" for ids t h
    by (induction ids) (simp_all add: peer_catch_up_def)
  have "g' = g" using loop unfolding True list.size(3) id by simp
  with cl_inv_keys [OF inv] True show ?thesis by simp
next
  case False
  note keys = cl_inv_keys [OF inv]
  have core: "core_ok m i G (node_at g i)" if "i < m" for i using inv that by (simp add: cl_inv_def)
  have l: "l < m" "l \<notin> cl_down g" "n_log (node_at g l) = G" using ld by (simp_all add: leads_def)
  have sub: "i < m" if "i \<in> set (live g)" for i using that by (simp add: live_eq [OF keys])
  have loop': "fold (\<lambda>i h. if i \<noteq> l then snd (peer_catch_up l i (length (n_log (node_at g0 l))) (n_term (node_at g l)) h) else h) (live g) g = g'"
    using loop by (simp only: g0)
  have "distinct (live g)" "set (live g) \<subseteq> {..<m}" by (auto simp: live_eq [OF keys])
  moreover have "prefix (n_log (node_at g i)) (n_log (node_at g l)) \<and> n_term (node_at g i) \<le> n_term (node_at g l)" if "i \<in> set (live g)" for i
    using core [OF sub [OF that]] ld(2) sub [OF that] l(3) by (simp add: core_ok_def leads_def)
  ultimately have "map fst (cl_nodes g') = [0..<m] \<and> cl_leader g' = cl_leader g \<and> cl_down g' = cl_down g
    \<and> (\<forall>i. if i \<in> set (live g) \<and> i \<noteq> l then caught_up (node_at g l) (n_term (node_at g l)) (node_at g i) (node_at g' i) else node_at g' i = node_at g i)"
    using False l g0 by (intro sync_loop [OF keys _ _ _ _ _ loop']) simp_all
  with False show ?thesis by simp
qed

lemma sync_replicated:
  assumes inv: "cl_inv m g G" and ld: "cl_leader g = Some l" "leads m g G l" "cl_quorum g \<le> length (live g)"
    and loop: "fold (\<lambda>i g. if i \<noteq> l then snd (peer_catch_up l i (length G) (n_term (node_at g0 l)) g) else g) (live g) g = g'"
    and g0: "n_log (node_at g0 l) = G" "n_term (node_at g0 l) = n_term (node_at g l)"
  shows "replicated m g' G l \<and> commit_idx (node_at g' l) = length G \<and> live g' = live g"
proof -
  note keys = cl_inv_keys [OF inv]
  have core: "core_ok m i G (node_at g i)" if "i < m" for i using inv that by (simp add: cl_inv_def)
  have l: "l < m" "l \<notin> cl_down g" "n_log (node_at g l) = G" using ld by (simp_all add: leads_def)
  have lin: "l \<in> set (live g)" using l by (simp add: live_eq [OF keys])
  have sub: "i < m" if "i \<in> set (live g)" for i using that by (simp add: live_eq [OF keys])
  note nodes = sync_nodes [OF inv ld(1,2) loop g0]
  have lv: "live g' = live g" using nodes keys by (simp add: live_eq)
  have nl: "node_at g' l = node_at g l" using nodes by (metis (full_types))
  have node: "n_id (node_at g' i) = i \<and> peers (node_at g' i) = [0..<m] \<and> n_log (node_at g' i) = G \<and> commit_idx (node_at g' i) = length G
      \<and> applied (node_at g' i) \<le> length G \<and> n_state (node_at g' i) = log_state (take (applied (node_at g' i)) G)
      \<and> (\<forall>e \<in> set G. self_term e \<le> n_term (node_at g' i)) \<and> n_term (node_at g' i) \<le> n_term (node_at g l)" if "i \<in> set (live g)" for i
  proof -
    have c: "core_ok m i G (node_at g i)" "core_ok m l G (node_at g l)" using core sub [OF that] l(1) by simp_all
    have pre: "prefix (n_log (node_at g i)) G" "length (n_log (node_at g i)) \<le> length G" using c(1) by (simp_all add: core_ok_def prefix_length_le)
    show ?thesis
    proof (cases "i \<noteq> l \<and> G \<noteq> []")
      case True
      then have "caught_up (node_at g l) (n_term (node_at g l)) (node_at g i) (node_at g' i)" using nodes that by (metis (full_types))
      with c pre l(3) show ?thesis by (auto simp: caught_up_def core_ok_def log_state_prefix)
    next
      case False
      then have "node_at g' i = node_at g i" using nodes by (metis (full_types))
      moreover have "n_log (node_at g i) = G" using False l(3) pre(1) by auto
      moreover have "n_term (node_at g i) \<le> n_term (node_at g l)" using ld(2) sub [OF that] by (simp add: leads_def)
      ultimately show ?thesis using c(1) by (auto simp: core_ok_def)
    qed
  qed
  have dead: "node_at g' i = node_at g i" if "i \<notin> set (live g)" for i using nodes that by (metis (full_types))
  have "n_term (node_at g' i) \<le> n_term (node_at g' l)" if "i < m" for i
    using node [of i] dead [of i] ld(2) that nl by (cases "i \<in> set (live g)") (auto simp: leads_def)
  moreover have "cl_quorum g' = cl_quorum g" using nodes keys by (simp add: quorum_eq)
  moreover have "sorted (map self_term G)" using inv by (simp add: cl_inv_def)
  ultimately have "replicated m g' G l"
    unfolding replicated_def lv using nodes ld lin node core dead nl by (auto simp: leads_def)
  with node [OF lin] lv show ?thesis by simp
qed

lemma sync_inv:
  assumes "cl_inv m g G" and "cl_leader g = Some l" "leads m g G l" "cl_quorum g \<le> length (live g)"
  shows "cl_inv m (sync_live_followers l g) G"
    and "i \<in> set (live (sync_live_followers l g)) \<Longrightarrow> n_state (node_at (sync_live_followers l g) i) = log_state G
      \<and> applied (node_at (sync_live_followers l g) i) = length G"
    and "l \<in> set (live (sync_live_followers l g))"
proof -
  let ?t = "n_term (node_at g l)"
  define g' where "g' = fold (\<lambda>i h. if i \<noteq> l then snd (peer_catch_up l i (length G) ?t h) else h) (live g) g"
  have G: "n_log (node_at g l) = G" using assms(3) by (simp add: leads_def)
  have rep: "replicated m g' G l" "commit_idx (node_at g' l) = length G" "live g' = live g"
    using sync_replicated [OF assms, of g g'] G by (simp_all add: g'_def)
  have eq: "sync_live_followers l g = apply_committed_all l (length G) g'"
    using rep(2) by (simp add: sync_live_followers_def Let_def log_last_index_def G g'_def)
  have lv: "live (apply_committed_all l (length G) g') = live g'"
    using cl_inv_keys [OF replicated_applied(1) [OF rep(1)]] rep(1) by (simp add: live_eq [of _ m] replicated_def)
  show "cl_inv m (sync_live_followers l g) G" unfolding eq by (rule replicated_applied [OF rep(1)])
  show "l \<in> set (live (sync_live_followers l g))" using rep(1) by (simp add: eq lv replicated_def)
  show "n_state (node_at (sync_live_followers l g) i) = log_state G \<and> applied (node_at (sync_live_followers l g) i) = length G"
    if "i \<in> set (live (sync_live_followers l g))"
    using replicated_applied(2) [OF rep(1), of i] that rep(1) unfolding eq lv by (simp add: settled_def replicated_def)
qed

subsection \<open>A write\<close>

lemma fold_insert_get:
  "bm_wf m \<Longrightarrow> map_of (fold (\<lambda>i. bm_insert i v) ids m) k = (if k \<in> set ids then Some v else map_of m k)"
  by (induction ids arbitrary: m) (auto simp: bm_wf_insert bm_get_insert)

lemma length_others: "distinct ids \<Longrightarrow> l \<in> set ids \<Longrightarrow> Suc (length (filter (\<lambda>i. i \<noteq> l) ids)) = length ids"
proof (induction ids)
  case (Cons i ids)
  moreover have "filter (\<lambda>i. i \<noteq> l) ids = ids" if "l \<notin> set ids" using that by (intro filter_True) auto
  ultimately show ?case by (cases "i = l") auto
qed simp

lemma match_quorum:
  fixes mi :: "(nat, nat) bmap"
  assumes "\<And>i. i \<in> set ids \<Longrightarrow> map_of mi i = Some v" and "distinct ids"
  shows "length ids \<le> length (filter (\<lambda>x. v \<le> snd x) mi)"
proof -
  have "set ids \<subseteq> fst ` set (filter (\<lambda>x. v \<le> snd x) mi)"
  proof
    fix i assume "i \<in> set ids"
    then have "(i, v) \<in> set mi" by (intro map_of_SomeD assms(1))
    then show "i \<in> fst ` set (filter (\<lambda>x. v \<le> snd x) mi)" by (auto intro!: image_eqI [of _ _ "(i, v)"])
  qed
  then have "card (set ids) \<le> card (fst ` set (filter (\<lambda>x. v \<le> snd x) mi))" by (rule card_mono [rotated]) simp
  also have "\<dots> \<le> length (filter (\<lambda>x. v \<le> snd x) mi)" using card_image_le card_length le_trans by blast
  finally show ?thesis using distinct_card [OF assms(2)] by simp
qed

lemma propose_leader:
  "n_role n = Leader \<Longrightarrow> propose op n = Some (length (n_log n) + 1,
     n\<lparr>n_log := n_log n @ [\<lparr>self_term = n_term n, le_cmd = op\<rparr>], match_idx := bm_insert (n_id n) (length (n_log n) + 1) (match_idx n)\<rparr>)"
  by (simp add: propose_def Let_def log_append_def)

lemma advance_to_tip:
  assumes "n_role n = Leader" and "term_of (n_log n) (length (n_log n)) = Some (n_term n)"
    and "node_quorum n \<le> length (filter (\<lambda>x. length (n_log n) \<le> snd x) (match_idx n))" and "commit_idx n \<le> length (n_log n)"
  shows "advance_commit n = n\<lparr>commit_idx := length (n_log n)\<rparr>"
proof -
  obtain c where c: "advance_commit n = n\<lparr>commit_idx := c\<rparr>" "c = commit_idx n \<or> c \<le> length (n_log n)"
      "\<forall>i. i \<le> length (n_log n) \<and> term_of (n_log n) i = Some (n_term n)
        \<and> node_quorum n \<le> length (filter (\<lambda>m. i \<le> snd m) (match_idx n)) \<longrightarrow> i \<le> c"
    using advance_commit_cases [OF assms(1)] by blast
  have "length (n_log n) \<le> c" using c(3) assms by blast
  with c(2) assms(4) have "c = length (n_log n)" by auto
  with c(1) show ?thesis by simp
qed

lemma commit_nodes:
  assumes inv: "cl_inv m g G" and ld: "cl_leader g = Some l" "leads m g G l" "cl_quorum g \<le> length (live g)"
    and e: "e = \<lparr>self_term = n_term (node_at g l), le_cmd = op\<rparr>"
    and g1: "g1 = set_node l ((node_at g l)\<lparr>n_log := G @ [e], match_idx := bm_insert l (length G + 1) (match_idx (node_at g l))\<rparr>) g"
    and loop: "fold (replicate_to l (length G + 1) (n_term (node_at g l))) (live g) (1, g1) = (acks, g2)"
    and g3: "g3 = set_node l (advance_commit (node_at g2 l)) g2"
  obtains mi where "bm_wf mi" and "acks = length (live g)" and "map fst (cl_nodes g2) = [0..<m]" and "map fst (cl_nodes g3) = [0..<m]"
    and "cl_leader g3 = Some l" and "cl_down g3 = cl_down g"
    and "node_at g3 l = (node_at g l)\<lparr>n_log := G @ [e], match_idx := mi, commit_idx := length G + 1\<rparr>"
    and "\<And>i. i \<in> set (live g) \<Longrightarrow> i \<noteq> l \<Longrightarrow> caught_up (node_at g1 l) (n_term (node_at g l)) (node_at g i) (node_at g3 i)"
    and "\<And>i. i \<notin> set (live g) \<Longrightarrow> node_at g3 i = node_at g i"
proof -
  note keys = cl_inv_keys [OF inv]
  let ?L = "G @ [e]" and ?t = "n_term (node_at g l)"
  have core: "core_ok m i G (node_at g i)" if "i < m" for i using inv that by (simp add: cl_inv_def)
  have l: "l < m" "l \<notin> cl_down g" "n_log (node_at g l) = G" "n_role (node_at g l) = Leader" "bm_wf (match_idx (node_at g l))"
      "\<And>i. i < m \<Longrightarrow> n_term (node_at g i) \<le> ?t" using ld(2) by (simp_all add: leads_def)
  have lin: "l \<in> set (live g)" and sub: "set (live g) \<subseteq> {..<m}" and dis: "distinct (live g)" using l by (auto simp: live_eq [OF keys])
  define n1 where "n1 = (node_at g l)\<lparr>n_log := ?L, match_idx := bm_insert l (length G + 1) (match_idx (node_at g l))\<rparr>"
  have at1: "node_at g1 i = (if i = l then n1 else node_at g i)" for i by (simp add: g1 n1_def node_at_set_node [OF keys])
  have keys1: "map fst (cl_nodes g1) = [0..<m]" unfolding g1 by (rule keys_set_node [OF keys l(1)])
  have pre: "prefix (n_log (node_at g1 i)) (n_log (node_at g1 l)) \<and> n_term (node_at g1 i) \<le> ?t" if "i \<in> set (live g)" for i
    using core [of i] l(6) [of i] sub that by (auto simp: at1 n1_def core_ok_def)
  have nodes: "map fst (cl_nodes g2) = [0..<m] \<and> cl_leader g2 = cl_leader g1 \<and> cl_down g2 = cl_down g1 \<and> acks = 1 + length (filter (\<lambda>i. i \<noteq> l) (live g))
    \<and> node_at g2 l = (node_at g1 l)\<lparr>match_idx := fold (\<lambda>i. bm_insert i (length G + 1)) (filter (\<lambda>i. i \<noteq> l) (live g)) (match_idx (node_at g1 l))\<rparr>
    \<and> (\<forall>i. i \<noteq> l \<longrightarrow> (if i \<in> set (live g) then caught_up (node_at g1 l) ?t (node_at g1 i) (node_at g2 i) else node_at g2 i = node_at g1 i))"
    by (rule commit_loop [OF keys1 sub dis l(1) _ pre loop]) (simp_all add: at1 n1_def)
  define mi where "mi = fold (\<lambda>i. bm_insert i (length G + 1)) (filter (\<lambda>i. i \<noteq> l) (live g)) (match_idx n1)"
  have n2: "node_at g2 l = n1\<lparr>match_idx := mi\<rparr>" using nodes by (simp add: at1 mi_def)
  have wf1: "bm_wf (match_idx n1)" using l(5) by (simp add: n1_def bm_wf_insert)
  have wf: "bm_wf mi" unfolding mi_def using wf1 by (rule fold_insert_wf)
  have mget: "map_of mi i = Some (length G + 1)" if "i \<in> set (live g)" for i
    unfolding mi_def fold_insert_get [OF wf1] using that l(5) by (auto simp: n1_def bm_get_insert)
  have nq: "node_quorum n1 = cl_quorum g"
    using core [OF l(1)] by (simp add: node_quorum_def n1_def core_ok_def quorum_eq [OF keys])
  have ck: "commit_idx n1 = length G" "n_id n1 = l" "peers n1 = [0..<m]" "applied n1 = length G" "n_state n1 = log_state G"
    using core [OF l(1)] l(3) by (simp_all add: n1_def core_ok_def)
  have "advance_commit (node_at g2 l) = (node_at g2 l)\<lparr>commit_idx := length (n_log (node_at g2 l))\<rparr>"
    by (rule advance_to_tip)
      (use match_quorum [OF mget dis] ld(3) nq l(4) ck(1) in \<open>simp_all add: n2 n1_def e node_quorum_def\<close>)
  then have adv: "advance_commit (node_at g2 l) = n1\<lparr>match_idx := mi, commit_idx := length G + 1\<rparr>"
    by (simp add: n2 n1_def)
  have keys2: "map fst (cl_nodes g2) = [0..<m]" using nodes by simp
  have at3: "node_at g3 i = (if i = l then n1\<lparr>match_idx := mi, commit_idx := length G + 1\<rparr> else node_at g2 i)" for i
    by (simp add: g3 adv node_at_set_node [OF keys2])
  have keys3: "map fst (cl_nodes g3) = [0..<m]" unfolding g3 by (rule keys_set_node [OF keys2 l(1)])
  have frame: "cl_leader g3 = Some l" "cl_down g3 = cl_down g" using nodes ld(1) by (simp_all add: g3 g1)
  have "acks = length (live g)" using nodes length_others [OF dis lin] by simp
  moreover have "node_at g3 l = (node_at g l)\<lparr>n_log := G @ [e], match_idx := mi, commit_idx := length G + 1\<rparr>"
    by (simp add: at3 n1_def)
  moreover have "caught_up (node_at g1 l) ?t (node_at g i) (node_at g3 i)" if "i \<in> set (live g)" "i \<noteq> l" for i
    using nodes that by (auto simp: at1 at3)
  moreover have "node_at g3 i = node_at g i" if "i \<notin> set (live g)" for i
    using nodes that lin by (auto simp: at1 at3)
  ultimately show thesis using that [OF wf _ keys2 keys3 frame] by blast
qed

lemma commit_replicated:
  assumes inv: "cl_inv m g G" and ld: "cl_leader g = Some l" "leads m g G l" "cl_quorum g \<le> length (live g)"
    and e: "e = \<lparr>self_term = n_term (node_at g l), le_cmd = op\<rparr>"
    and g1: "g1 = set_node l ((node_at g l)\<lparr>n_log := G @ [e], match_idx := bm_insert l (length G + 1) (match_idx (node_at g l))\<rparr>) g"
    and loop: "fold (replicate_to l (length G + 1) (n_term (node_at g l))) (live g) (1, g1) = (acks, g2)"
    and g3: "g3 = set_node l (advance_commit (node_at g2 l)) g2"
  shows "acks = length (live g)" and "cl_quorum g2 = cl_quorum g" and "commit_idx (node_at g3 l) = length G + 1"
    and "replicated m g3 (G @ [e]) l"
proof -
  note keys = cl_inv_keys [OF inv]
  let ?L = "G @ [e]" and ?t = "n_term (node_at g l)"
  obtain mi where wf: "bm_wf mi" and acks: "acks = length (live g)" and keys2: "map fst (cl_nodes g2) = [0..<m]"
    and keys3: "map fst (cl_nodes g3) = [0..<m]" and frame: "cl_leader g3 = Some l" "cl_down g3 = cl_down g"
    and leader: "node_at g3 l = (node_at g l)\<lparr>n_log := ?L, match_idx := mi, commit_idx := length G + 1\<rparr>"
    and follower: "\<And>i. i \<in> set (live g) \<Longrightarrow> i \<noteq> l \<Longrightarrow> caught_up (node_at g1 l) ?t (node_at g i) (node_at g3 i)"
    and dead: "\<And>i. i \<notin> set (live g) \<Longrightarrow> node_at g3 i = node_at g i"
    by (rule commit_nodes [OF assms]) (rule that; blast)
  have core: "core_ok m i G (node_at g i)" if "i < m" for i using inv that by (simp add: cl_inv_def)
  have l: "l < m" "l \<notin> cl_down g" "n_log (node_at g l) = G" "n_role (node_at g l) = Leader"
      "\<And>i. i < m \<Longrightarrow> n_term (node_at g i) \<le> ?t" using ld(2) by (simp_all add: leads_def)
  have lin: "l \<in> set (live g)" and sub: "set (live g) \<subseteq> {..<m}" using l by (auto simp: live_eq [OF keys])
  have lv: "live g3 = live g" "cl_quorum g3 = cl_quorum g" using frame keys keys3 by (simp_all add: live_eq quorum_eq)
  show "acks = length (live g)" by (rule acks)
  show "cl_quorum g2 = cl_quorum g" using keys keys2 by (simp add: quorum_eq)
  show "commit_idx (node_at g3 l) = length G + 1" by (simp add: leader)
  have terms: "\<forall>x \<in> set ?L. self_term x \<le> ?t" using core [OF l(1)] l(3) by (auto simp: core_ok_def e)
  have ck: "commit_idx (node_at g l) = length G" using core [OF l(1)] l(3) by (simp add: core_ok_def)
  have n1: "n_log (node_at g1 l) = ?L" "commit_idx (node_at g1 l) = length G"
    using ck by (simp_all add: g1 node_at_set_node [OF keys])
  have node: "n_id (node_at g3 i) = i \<and> peers (node_at g3 i) = [0..<m] \<and> n_log (node_at g3 i) = ?L \<and> commit_idx (node_at g3 i) \<le> length ?L
      \<and> applied (node_at g3 i) \<le> length ?L \<and> n_state (node_at g3 i) = log_state (take (applied (node_at g3 i)) ?L)
      \<and> n_term (node_at g3 i) = ?t" if "i \<in> set (live g)" for i
  proof (cases "i = l")
    case True
    with core [OF l(1)] l(3) show ?thesis by (simp add: leader core_ok_def)
  next
    case False
    have c: "core_ok m i G (node_at g i)" using core sub that by auto
    then have "prefix (n_log (node_at g i)) ?L" "length (n_log (node_at g i)) \<le> length G" by (auto simp: core_ok_def prefix_length_le)
    with c follower [OF that False] n1 show ?thesis
      by (auto simp: caught_up_def core_ok_def log_state_prefix)
  qed
  have "core_ok m i ?L (node_at g3 i)" if "i < m" "i \<notin> set (live g)" for i
    using core [OF that(1)] dead [OF that(2)] by (auto simp: core_ok_def)
  moreover have "n_term (node_at g3 i) \<le> n_term (node_at g3 l)" if "i < m" for i
    using node [of i] node [OF lin] dead [of i] l(5) [OF that] by (cases "i \<in> set (live g)") auto
  moreover have "sorted (map self_term ?L)"
    using inv terms by (auto simp: cl_inv_def sorted_append e)
  ultimately show "replicated m g3 ?L l"
    unfolding replicated_def lv using keys3 frame lin ld(3) node terms wf l(4) by (auto simp: leader)
qed

lemma cluster_commit_inv:
  assumes inv: "cl_inv m (rc_inner c) G" and run: "cluster_commit op c = (res, c')"
  shows "res = Err NoLeader \<and> cl_inv m (rc_inner c') G \<and> rc_model c' = rc_model c
    \<or> (\<exists>e. le_cmd e = op \<and> res = Ok (length G + 1) \<and> cl_inv m (rc_inner c') (G @ [e])
        \<and> rc_model c' = map_option (record_write (word_of_nat (length G + 1)) (op_key op) (op_value op)) (rc_model c))"
proof -
  obtain r g where en: "ensure_leader (rc_inner c) = (r, g)" by (cases "ensure_leader (rc_inner c)")
  show ?thesis
  proof (cases r)
    case (Inl x)
    with run en ensure_leader_inv(1) [OF inv en] show ?thesis by (cases x) (auto simp: cluster_commit_def)
  next
    case (Inr l)
    note i = ensure_leader_inv(1) [OF inv en]
    have ld: "cl_leader g = Some l" "leads m g G l" "cl_quorum g \<le> length (live g)"
      using ensure_leader_inv(2) [OF inv en Inr] by simp_all
    have L: "n_role (node_at g l) = Leader" "n_log (node_at g l) = G" "n_id (node_at g l) = l" "l < m"
      using ld(2) i by (auto simp: leads_def cl_inv_def core_ok_def)
    define e where "e = \<lparr>self_term = n_term (node_at g l), le_cmd = op\<rparr>"
    define g1 where "g1 = set_node l ((node_at g l)\<lparr>n_log := G @ [e], match_idx := bm_insert l (length G + 1) (match_idx (node_at g l))\<rparr>) g"
    have g1: "n_term (node_at g1 l) = n_term (node_at g l)" "live g1 = live g"
      using keys_set_node [OF cl_inv_keys [OF i] L(4)] cl_inv_keys [OF i]
      by (simp_all add: g1_def node_at_set_node [OF cl_inv_keys [OF i]] live_eq [of _ m])
    obtain acks g2 where loop: "fold (replicate_to l (length G + 1) (n_term (node_at g l))) (live g) (1, g1) = (acks, g2)"
      by (cases "fold (replicate_to l (length G + 1) (n_term (node_at g l))) (live g) (1, g1)")
    define g3 where "g3 = set_node l (advance_commit (node_at g2 l)) g2"
    note fin = commit_replicated [OF i ld e_def g1_def loop g3_def]
    have "cluster_commit op c = (Ok (length G + 1), c\<lparr>rc_inner := apply_committed_all l (length G + 1) g3,
        rc_model := map_option (case op of Put key value \<Rightarrow> record_write (word_of_nat (length G + 1)) key (Some value)
          | Delete key \<Rightarrow> record_write (word_of_nat (length G + 1)) key None) (rc_model c)\<rparr>)"
      by (simp only: cluster_commit_def en Inr prod.case sum.case option.case Let_def g1 loop fin(2,3)
          propose_leader [OF L(1), of op, unfolded L(2,3), folded e_def] g1_def [symmetric] g3_def [symmetric])
        (use fin(1) ld(3) in simp)
    moreover have "(case op of Put key value \<Rightarrow> record_write (word_of_nat (length G + 1)) key (Some value)
          | Delete key \<Rightarrow> record_write (word_of_nat (length G + 1)) key None) = record_write (word_of_nat (length G + 1)) (op_key op) (op_value op)"
      by (cases op) (simp_all add: op_value_def)
    moreover have "cl_inv m (apply_committed_all l (length G + 1) g3) (G @ [e])"
      using replicated_applied(1) [OF fin(4)] by simp
    ultimately show ?thesis using run by (intro disjI2 exI [of _ e]) (auto simp: e_def)
  qed
qed

end
