(* ===== verification/Raft_Props.thy ===== *)
theory Raft_Props
  imports Raft_Cluster
begin

text \<open>
  What clients of the cluster see (\<^verbatim>\<open>src/raft/cluster.rs\<close>), over every sequence of writes, reads, scans,
  failures and revivals: the cluster is a single sequential store that may answer \<^verbatim>\<open>NoLeader\<close>.
\<close>

subsection \<open>Every call keeps the invariant\<close>

definition log_value :: "op list \<Rightarrow> bytes \<Rightarrow> bytes option" where
  "log_value C = fold write_value C (\<lambda>_. None)"

lemma log_state_value: "map_option e_value (bm_get (log_state G) key) = log_value (map le_cmd G) key"
proof -
  have "map_option e_value (bm_get (log_state G) key) = snapshot_get (snap_of (map (\<lambda>e. [le_cmd e]) G)) key"
    by (simp add: log_state_def snap_of_def snapshot_get_def)
  also have "\<dots> = fold write_value (concat (map (\<lambda>e. [le_cmd e]) G)) (\<lambda>_. None) key" by (simp add: get_snap_of)
  also have "concat (map (\<lambda>e. [le_cmd e]) G) = map le_cmd G" by (induction G) simp_all
  finally show ?thesis by (simp add: log_value_def)
qed

lemma cluster_get_inv:
  assumes inv: "cl_inv m (rc_inner c) G" and run: "cluster_get key c = (res, c')"
  shows "cl_inv m (rc_inner c') G \<and> (res = Err NoLeader \<and> rc_model c' = rc_model c
    \<or> res = Ok (log_value (map le_cmd G) key)
      \<and> rc_model c' = map_option (record_read (word_of_nat (length G)) key (log_value (map le_cmd G) key)) (rc_model c))"
proof -
  obtain r g where en: "ensure_leader (rc_inner c) = (r, g)" by (cases "ensure_leader (rc_inner c)")
  note i = ensure_leader_inv(1) [OF inv en]
  show ?thesis
  proof (cases r)
    case (Inl x)
    with run en i show ?thesis by (cases x) (auto simp: cluster_get_def)
  next
    case (Inr l)
    have ld: "cl_leader g = Some l" "leads m g G l" "cl_quorum g \<le> length (live g)"
      using ensure_leader_inv(2) [OF inv en Inr] by simp_all
    note sync = sync_inv [OF i ld]
    let ?g = "sync_live_followers l g"
    have v: "node_get (node_at ?g j) key = log_value (map le_cmd G) key" if "j \<in> set (live ?g)" for j
      using sync(2) [OF that] by (simp add: node_get_def log_state_value)
    then have "list_all (\<lambda>j. node_get (node_at ?g j) key = node_get (node_at ?g l) key) (live ?g)"
      using sync(3) by (auto simp: list_all_iff)
    with run en Inr sync(1) sync(2,3) v [OF sync(3)] show ?thesis by (auto simp: cluster_get_def Let_def)
  qed
qed

lemma prefix_between:
  "pref \<le> (x :: bytes) \<Longrightarrow> x \<le> y \<Longrightarrow> prefix pref y \<Longrightarrow> prefix pref x"
proof (induction pref arbitrary: x y)
  case (Cons a pref)
  then show ?case by (cases x; cases y) (auto simp: not_less [symmetric])
qed simp

lemma scan_take_while:
  assumes "bm_wf (m :: kvmap)"
  shows "takeWhile (\<lambda>e. prefix pref (fst e)) (filter (\<lambda>e. pref \<le> fst e) m) = filter (\<lambda>e. prefix pref (fst e)) m"
proof -
  have le: "pref \<le> k" if "prefix pref k" for k using that by (auto elim!: prefixE intro: order_trans [OF _ append_le_cancel [THEN iffD2, of "[]"]] simp del: append_le_cancel)
  have "sorted_wrt (\<lambda>x y. fst x < fst y \<and> pref \<le> fst x) (filter (\<lambda>e. pref \<le> fst e) m)"
    using assms by (induction m) auto
  then have "takeWhile (\<lambda>e. prefix pref (fst e)) (filter (\<lambda>e. pref \<le> fst e) m)
      = filter (\<lambda>e. prefix pref (fst e)) (filter (\<lambda>e. pref \<le> fst e) m)"
    by (rule takeWhile_eq_filter_sorted) (auto intro: prefix_between less_imp_le)
  also have "\<dots> = filter (\<lambda>e. prefix pref (fst e)) m" using le by (auto simp: filter_filter intro: filter_cong)
  finally show ?thesis .
qed

lemma cluster_scan_inv:
  assumes inv: "cl_inv m (rc_inner c) G" and run: "cluster_scan pref c = (res, c')"
  shows "cl_inv m (rc_inner c') G \<and> rc_model c' = rc_model c \<and> (res = Err NoLeader
    \<or> res = Ok (map (\<lambda>(k, e). (k, e_value e)) (filter (\<lambda>e. prefix pref (fst e)) (log_state G))))"
proof -
  obtain r g where en: "ensure_leader (rc_inner c) = (r, g)" by (cases "ensure_leader (rc_inner c)")
  note i = ensure_leader_inv(1) [OF inv en]
  show ?thesis
  proof (cases r)
    case (Inl x)
    with run en i show ?thesis by (cases x) (auto simp: cluster_scan_def)
  next
    case (Inr l)
    have ld: "cl_leader g = Some l" "leads m g G l" "cl_quorum g \<le> length (live g)"
      using ensure_leader_inv(2) [OF inv en Inr] by simp_all
    note sync = sync_inv [OF i ld]
    have "bm_wf (log_state G)" by (simp add: log_state_def bm_wf_hist_from)
    with run en Inr sync(1) sync(2) [OF sync(3)] show ?thesis by (auto simp: cluster_scan_def Let_def scan_take_while)
  qed
qed

lemma fail_revive_inv:
  assumes "cl_inv m g G"
  shows "cl_inv m (inner_fail i g) G" and "cl_inv m (inner_revive i g) G"
proof -
  have at: "node_at (inner_fail i g) j = node_at g j" "node_at (inner_revive i g) j = node_at g j" for j
    by (simp_all add: node_at_def inner_fail_def inner_revive_def Let_def)
  show "cl_inv m (inner_fail i g) G"
    by (rule cl_inv_same [OF assms])
      (use assms in \<open>auto simp: at inner_fail_def Let_def cl_inv_def leads_def node_at_def split: if_splits\<close>)
  show "cl_inv m (inner_revive i g) G"
    by (rule cl_inv_same [OF assms])
      (use assms in \<open>auto simp: at inner_revive_def cl_inv_def leads_def node_at_def\<close>)
qed

subsection \<open>Reachable clusters\<close>

text \<open>\<open>C\<close> lists the commands whose \<^verbatim>\<open>put\<close> or \<^verbatim>\<open>delete\<close> returned \<^verbatim>\<open>Ok\<close>.\<close>

inductive cl_reach :: "nat \<Rightarrow> raft_cluster \<Rightarrow> op list \<Rightarrow> bool" for m where
  cr_new: "cl_reach m (cluster_new m) []"
| cr_model: "cl_reach m (with_model m checker_new) []"
| cr_commit: "cl_reach m c C \<Longrightarrow> cluster_commit op c = (Ok i, c') \<Longrightarrow> cl_reach m c' (C @ [op])"
| cr_commit_fails: "cl_reach m c C \<Longrightarrow> cluster_commit op c = (Err e, c') \<Longrightarrow> cl_reach m c' C"
| cr_get: "cl_reach m c C \<Longrightarrow> cluster_get key c = (res, c') \<Longrightarrow> res \<noteq> Panic \<Longrightarrow> cl_reach m c' C"
| cr_scan: "cl_reach m c C \<Longrightarrow> cluster_scan pref c = (res, c') \<Longrightarrow> res \<noteq> Panic \<Longrightarrow> cl_reach m c' C"
| cr_fail: "cl_reach m c C \<Longrightarrow> cl_reach m (cluster_fail i c) C"
| cr_revive: "cl_reach m c C \<Longrightarrow> cl_reach m (cluster_revive i c) C"

definition model_ok :: "op list \<Rightarrow> checker option \<Rightarrow> bool" where
  "model_ok C mo \<longleftrightarrow> (\<forall>chk. mo = Some chk \<longrightarrow> (\<exists>evs. chk = recorded evs
     \<and> (\<forall>k. writes_to k evs = hist_writes k 0 (map (\<lambda>op. [op]) C))
     \<and> (\<forall>r \<in> set (reads_of evs). \<exists>n \<le> length C. rr_index r = word_of_nat n \<and> rr_value r = log_value (take n C) (rr_key r))))"

lemma model_ok_write:
  assumes "model_ok C mo"
  shows "model_ok (C @ [op]) (map_option (record_write (word_of_nat (length C + 1)) (op_key op) (op_value op)) mo)"
  unfolding model_ok_def
proof (intro allI impI)
  fix chk assume "map_option (record_write (word_of_nat (length C + 1)) (op_key op) (op_value op)) mo = Some chk"
  then obtain m0 where m0: "mo = Some m0" "chk = record_write (word_of_nat (length C + 1)) (op_key op) (op_value op) m0" by auto
  then obtain evs where evs: "m0 = recorded evs" "\<forall>k. writes_to k evs = hist_writes k 0 (map (\<lambda>op. [op]) C)"
      "\<forall>r \<in> set (reads_of evs). \<exists>n \<le> length C. rr_index r = word_of_nat n \<and> rr_value r = log_value (take n C) (rr_key r)"
    using assms by (auto simp: model_ok_def)
  let ?evs = "evs @ [Wrote (word_of_nat (length C + 1)) (op_key op) (op_value op)]"
  have "chk = recorded ?evs" by (simp add: m0 evs(1) recorded_snoc)
  moreover have "\<forall>k. writes_to k ?evs = hist_writes k 0 (map (\<lambda>op. [op]) (C @ [op]))"
    using evs(2) by (simp add: hist_writes_append)
  moreover have "\<forall>r \<in> set (reads_of ?evs). \<exists>n \<le> length (C @ [op]). rr_index r = word_of_nat n
      \<and> rr_value r = log_value (take n (C @ [op])) (rr_key r)"
  proof
    fix r assume "r \<in> set (reads_of ?evs)"
    then obtain n where "n \<le> length C" "rr_index r = word_of_nat n" "rr_value r = log_value (take n C) (rr_key r)"
      using evs(3) by auto
    then show "\<exists>n \<le> length (C @ [op]). rr_index r = word_of_nat n \<and> rr_value r = log_value (take n (C @ [op])) (rr_key r)"
      by (intro exI [of _ n]) simp
  qed
  ultimately show "\<exists>evs. chk = recorded evs \<and> (\<forall>k. writes_to k evs = hist_writes k 0 (map (\<lambda>op. [op]) (C @ [op])))
      \<and> (\<forall>r \<in> set (reads_of evs). \<exists>n \<le> length (C @ [op]). rr_index r = word_of_nat n \<and> rr_value r = log_value (take n (C @ [op])) (rr_key r))"
    by blast
qed

lemma model_ok_read:
  assumes "model_ok C mo"
  shows "model_ok C (map_option (record_read (word_of_nat (length C)) key (log_value C key)) mo)"
  unfolding model_ok_def
proof (intro allI impI)
  fix chk assume "map_option (record_read (word_of_nat (length C)) key (log_value C key)) mo = Some chk"
  then obtain m0 where m0: "mo = Some m0" "chk = record_read (word_of_nat (length C)) key (log_value C key) m0" by auto
  then obtain evs where evs: "m0 = recorded evs" "\<forall>k. writes_to k evs = hist_writes k 0 (map (\<lambda>op. [op]) C)"
      "\<forall>r \<in> set (reads_of evs). \<exists>n \<le> length C. rr_index r = word_of_nat n \<and> rr_value r = log_value (take n C) (rr_key r)"
    using assms by (auto simp: model_ok_def)
  let ?evs = "evs @ [ReadAt (word_of_nat (length C)) key (log_value C key)]"
  have "chk = recorded ?evs" by (simp add: m0 evs(1) recorded_snoc)
  moreover have "\<forall>r \<in> set (reads_of ?evs). \<exists>n \<le> length C. rr_index r = word_of_nat n \<and> rr_value r = log_value (take n C) (rr_key r)"
    using evs(3) by (auto intro: exI [of _ "length C"])
  ultimately show "\<exists>evs. chk = recorded evs \<and> (\<forall>k. writes_to k evs = hist_writes k 0 (map (\<lambda>op. [op]) C))
      \<and> (\<forall>r \<in> set (reads_of evs). \<exists>n \<le> length C. rr_index r = word_of_nat n \<and> rr_value r = log_value (take n C) (rr_key r))"
    using evs(2) by (intro exI [of _ ?evs]) simp
qed

lemma cl_reach_inv:
  assumes "cl_reach m c C" and "0 < m"
  shows "\<exists>G. cl_inv m (rc_inner c) G \<and> map le_cmd G = C \<and> model_ok C (rc_model c)"
  using assms(1)
proof induction
  case cr_new
  show ?case using cluster_new_inv [OF assms(2)] by (intro exI [of _ "[]"]) (simp add: model_ok_def cluster_new_def)
next
  case cr_model
  have "checker_new = recorded []" by (simp add: recorded_def)
  moreover have "rc_inner (with_model m checker_new) = rc_inner (cluster_new m)" by (simp add: with_model_def)
  ultimately show ?case
    using cluster_new_inv [OF assms(2)] by (intro exI [of _ "[]"]) (auto simp: model_ok_def with_model_def intro!: exI [of _ "[]"])
next
  case (cr_commit c C op i c')
  then obtain G where G: "cl_inv m (rc_inner c) G" "map le_cmd G = C" "model_ok C (rc_model c)" by blast
  from cluster_commit_inv [OF G(1) cr_commit(2)] obtain e where "le_cmd e = op" "cl_inv m (rc_inner c') (G @ [e])"
    "rc_model c' = map_option (record_write (word_of_nat (length G + 1)) (op_key op) (op_value op)) (rc_model c)" by auto
  with G model_ok_write [OF G(3), of op] show ?case by (intro exI [of _ "G @ [e]"]) auto
next
  case (cr_commit_fails c C op e c')
  then show ?case using cluster_commit_inv by fastforce
next
  case (cr_get c C key res c')
  then obtain G where G: "cl_inv m (rc_inner c) G" "map le_cmd G = C" "model_ok C (rc_model c)" by blast
  from cluster_get_inv [OF G(1) cr_get(2)] G model_ok_read [OF G(3), of key] show ?case by (intro exI [of _ G]) auto
next
  case (cr_scan c C pref res c')
  then show ?case using cluster_scan_inv by metis
next
  case (cr_fail c C i)
  then show ?case using fail_revive_inv(1) by (force simp: cluster_fail_def)
next
  case (cr_revive c C i)
  then show ?case using fail_revive_inv(2) by (force simp: cluster_revive_def)
qed

subsection \<open>What clients are promised\<close>

text \<open>
  C5: the cluster refines one sequential store. After any sequence of calls, failures and revivals a
  write either answers \<^verbatim>\<open>NoLeader\<close> or gets the next index; a read either answers \<^verbatim>\<open>NoLeader\<close> or returns what
  all acknowledged writes in order leave; a scan either answers \<^verbatim>\<open>NoLeader\<close> or returns the keys with the
  prefix from that same state. No assertion of the driver ever fires.
\<close>

theorem cluster_refines_store:
  assumes "cl_reach m c C" and "0 < m"
  shows "fst (cluster_commit op c) \<in> {Err NoLeader, Ok (length C + 1)}
    \<and> fst (cluster_get key c) \<in> {Err NoLeader, Ok (fold write_value C (\<lambda>_. None) key)}
    \<and> fst (cluster_scan pref c) \<in> {Err NoLeader, Ok (map (\<lambda>(k, e). (k, e_value e))
        (filter (\<lambda>e. prefix pref (fst e)) (sn_data (snap_of (map (\<lambda>op. [op]) C)))))}"
proof -
  obtain G where G: "cl_inv m (rc_inner c) G" "map le_cmd G = C" using cl_reach_inv [OF assms] by blast
  have st: "log_state G = sn_data (snap_of (map (\<lambda>op. [op]) C))"
    by (simp add: log_state_def snap_of_def comp_def flip: G(2))
  have len: "length G = length C" using arg_cong [OF G(2), of length] by simp
  have "fst (cluster_commit op c) \<in> {Err NoLeader, Ok (length C + 1)}"
    using cluster_commit_inv [OF G(1) surjective_pairing] len by auto
  moreover have "fst (cluster_get key c) \<in> {Err NoLeader, Ok (fold write_value C (\<lambda>_. None) key)}"
    using cluster_get_inv [OF G(1) surjective_pairing] by (auto simp: G(2) log_value_def)
  moreover have "fst (cluster_scan pref c) \<in> {Err NoLeader, Ok (map (\<lambda>(k, e). (k, e_value e))
        (filter (\<lambda>e. prefix pref (fst e)) (sn_data (snap_of (map (\<lambda>op. [op]) C)))))}"
    using cluster_scan_inv [OF G(1) surjective_pairing] by (auto simp: st)
  ultimately show ?thesis by blast
qed

text \<open>
  C22: nodes never disagree and nothing is lost. In every reachable cluster each node has applied a
  prefix of the acknowledged commands and its state is the fold of exactly that prefix; a majority of
  the nodes hold all of them.
\<close>

theorem cluster_nodes_agree:
  assumes "cl_reach m c C" and "0 < m"
  shows "(\<forall>i<m. let n = node_at (rc_inner c) i in
      map le_cmd (n_log n) = take (applied n) C \<and> applied n \<le> length C
      \<and> n_state n = sn_data (snap_of (map (\<lambda>op. [op]) (take (applied n) C))))
    \<and> m div 2 + 1 \<le> card {i. i < m \<and> map le_cmd (n_log (node_at (rc_inner c) i)) = C}"
proof -
  obtain G where G: "cl_inv m (rc_inner c) G" "map le_cmd G = C" using cl_reach_inv [OF assms] by blast
  have node: "map le_cmd (n_log n) = take (applied n) C \<and> applied n \<le> length C
      \<and> n_state n = sn_data (snap_of (map (\<lambda>op. [op]) (take (applied n) C)))" if "i < m" and n: "n = node_at (rc_inner c) i" for i n
  proof -
    have core: "prefix (n_log n) G" "applied n = length (n_log n)" "n_state n = log_state (n_log n)"
      using G(1) that by (simp_all add: cl_inv_def core_ok_def)
    then have "map le_cmd (n_log n) = take (applied n) C" "applied n \<le> length C"
      by (auto simp: G(2) [symmetric] take_map elim!: prefixE)
    moreover have "n_state n = sn_data (snap_of (map (\<lambda>op. [op]) (map le_cmd (n_log n))))"
      by (simp add: core(3) log_state_def snap_of_def comp_def)
    ultimately show ?thesis by metis
  qed
  have "{i \<in> {..<m}. n_log (node_at (rc_inner c) i) = G} \<subseteq> {i. i < m \<and> map le_cmd (n_log (node_at (rc_inner c) i)) = C}"
    using G(2) by auto
  then have "card {i \<in> {..<m}. n_log (node_at (rc_inner c) i) = G} \<le> card {i. i < m \<and> map le_cmd (n_log (node_at (rc_inner c) i)) = C}"
    by (rule card_mono [rotated]) simp
  moreover have "m div 2 + 1 \<le> card {i \<in> {..<m}. n_log (node_at (rc_inner c) i) = G}"
    using G(1) by (simp add: cl_inv_def majority_def)
  ultimately show ?thesis unfolding Let_def using node by (meson le_trans)
qed

lemma hist_writes_sorted: "i + length H < 2 ^ 64 \<Longrightarrow> sorted (map fst (hist_writes k i H))"
proof (induction H arbitrary: i)
  case (Cons ops H)
  have "(word_of_nat (Suc i) :: u64) \<le> j" if "(j, s) \<in> set (hist_writes k (Suc i) H)" for j s
    using hist_writes_index [OF that] Cons.prems by (auto simp: word_le_nat_alt unat_u64_of_nat simp del: of_nat_Suc)
  with Cons show ?case by (auto simp: sorted_append comp_def map_replicate_const simp del: of_nat_Suc)
qed simp

text \<open>
  C26: the cluster is linearizable for its checker. A cluster wired to a checker, whatever happened
  to it, has recorded no read that the checker reports.
\<close>

theorem cluster_linearizable:
  assumes "cl_reach m c C" and "0 < m" and "rc_model c = Some chk" and "length C < 2 ^ 64"
  shows "violations (fst (check chk)) = []"
proof -
  have "model_ok C (rc_model c)" using cl_reach_inv [OF assms(1,2)] by blast
  then obtain evs where evs: "chk = recorded evs" "\<forall>k. writes_to k evs = hist_writes k 0 (map (\<lambda>op. [op]) C)"
      "\<forall>r \<in> set (reads_of evs). \<exists>n \<le> length C. rr_index r = word_of_nat n \<and> rr_value r = log_value (take n C) (rr_key r)"
    using assms(3) by (auto simp: model_ok_def)
  show ?thesis unfolding evs(1)
  proof (rule accepts_history [where H = "map (\<lambda>op. [op]) C"])
    show "\<forall>k. sort_key fst (writes_to k evs) = hist_writes k 0 (map (\<lambda>op. [op]) C)"
      using evs(2) hist_writes_sorted [of 0 "map (\<lambda>op. [op]) C"] assms(4) by (simp add: sort_key_id_if_sorted)
    have "log_value (take n C) key = snapshot_get (snap_of (take n (map (\<lambda>op. [op]) C))) key" for n key
    proof -
      have "concat (map (\<lambda>op. [op]) xs) = xs" for xs :: "op list" by (induction xs) simp_all
      then show ?thesis by (simp add: get_snap_of log_value_def take_map)
    qed
    with evs(3) show "\<forall>r \<in> set (reads_of evs). \<exists>n \<le> length (map (\<lambda>op. [op]) C). rr_index r = word_of_nat n
        \<and> rr_value r = snapshot_get (snap_of (take n (map (\<lambda>op. [op]) C))) (rr_key r)" by auto
  qed (use assms(4) in simp)
qed

text \<open>
  A minority does nothing. While fewer nodes than a quorum are live, a write and a read answer
  \<^verbatim>\<open>NoLeader\<close> and no node changes.
\<close>

theorem minority_refused:
  assumes "length (live (rc_inner c)) < cl_quorum (rc_inner c)"
  shows "fst (cluster_commit op c) = Err NoLeader \<and> fst (cluster_get key c) = Err NoLeader
    \<and> cl_nodes (rc_inner (snd (cluster_commit op c))) = cl_nodes (rc_inner c)
    \<and> cl_nodes (rc_inner (snd (cluster_get key c))) = cl_nodes (rc_inner c)"
  using assms by (simp add: cluster_commit_def cluster_get_def ensure_leader_def)

subsection \<open>What the swapped tip costs\<close>

text \<open>
  \<^verbatim>\<open>elect\<close> passes the candidate's tip as (term, index) to a parameter list that reads it as (index,
  term). A voter whose last term exceeds the candidate's log length then refuses, though the
  candidate's log is as good as its own.
\<close>

lemma vote_denied:
  assumes "li < log_last_term (n_log n)"
  shows "fst (request_vote cand t lt li n) = False"
  using assms by (auto simp: request_vote_def Let_def split: option.splits)

lemma votes_denied:
  assumes "fold (ask_vote cand t tp) ids (v, g) = (v', g')" and "map fst (cl_nodes g) = [0..<m]" and "set ids \<subseteq> {..<m}"
    and "\<And>i. i \<in> set ids \<Longrightarrow> i \<noteq> cand \<Longrightarrow> snd tp < log_last_term (n_log (node_at g i))"
  shows "v' = v"
  using assms
proof (induction ids arbitrary: g)
  case (Cons j ids)
  show ?case
  proof (cases "j = cand")
    case True
    with Cons show ?thesis by (simp add: ask_vote_def)
  next
    case False
    obtain b n where rv: "request_vote cand t (fst tp) (snd tp) (node_at g j) = (b, n)"
      by (cases "request_vote cand t (fst tp) (snd tp) (node_at g j)")
    have "\<not> b" using vote_denied [OF Cons.prems(4) [of j], of cand t "fst tp"] False rv by simp
    then have "ask_vote cand t tp j (v, g) = (v, set_node j n g)" using False rv by (simp add: ask_vote_def)
    then have "fold (ask_vote cand t tp) ids (v, set_node j n g) = (v', g')" using Cons.prems(1) by simp
    moreover have "snd tp < log_last_term (n_log (node_at (set_node j n g) i))" if "i \<in> set ids" "i \<noteq> cand" for i
      using Cons.prems(4) that False request_vote_core [OF rv]
      by (auto simp: node_at_set_node [OF Cons.prems(2)] same_core_def)
    moreover have "map fst (cl_nodes (set_node j n g)) = [0..<m]" using Cons.prems by (intro keys_set_node) auto
    ultimately show ?thesis using Cons.IH Cons.prems(3) by simp
  qed
qed simp

lemma elect_denied:
  assumes inv: "cl_inv m g G" and "cl_leader g = None" and "2 \<le> m" and "length G < log_last_term G"
    and all: "\<And>i. i < m \<Longrightarrow> n_log (node_at g i) = G" and run: "elect g = (res, g')"
  shows "res = None \<and> (\<forall>i<m. n_log (node_at g' i) = G)"
proof (cases "cl_quorum g \<le> length (live g)")
  case False
  with run all show ?thesis by (simp add: elect_def Let_def)
next
  case True
  note keys = cl_inv_keys [OF inv]
  obtain d where d: "fst (fold (pick_candidate g) (live g) (None, (0, 0))) = Some d" "d \<in> set (live g)"
    using candidate_holds [OF inv True] by blast
  have dm: "d < m" and sub: "set (live g) \<subseteq> {..<m}" using d(2) by (auto simp: live_eq [OF keys])
  define t where "t = max_term g + 1"
  define g1 where "g1 = set_node d ((start_election (node_at g d))\<lparr>n_term := t\<rparr>) g"
  have keys1: "map fst (cl_nodes g1) = [0..<m]" unfolding g1_def by (rule keys_set_node [OF keys dm])
  have log1: "n_log (node_at g1 i) = G" if "i < m" for i
    using all [OF that] all [OF dm] by (simp add: g1_def node_at_set_node [OF keys] start_election_def)
  obtain v g2 where vl: "fold (ask_vote d t (tip (node_at g1 d))) (live g) (1, g1) = (v, g2)"
    by (cases "fold (ask_vote d t (tip (node_at g1 d))) (live g) (1, g1)")
  have v: "v = 1"
    by (rule votes_denied [OF vl keys1 sub]) (use log1 sub dm assms(4) in \<open>auto simp: tip_def log_last_index_def\<close>)
  have core: "map fst (cl_nodes g2) = [0..<m]" "\<And>i. n_log (node_at g2 i) = n_log (node_at g1 i)"
    using vote_loop [OF vl keys1 sub] by (simp_all add: same_core_def)
  have "\<not> cl_quorum g2 \<le> v" using assms(3) by (simp add: v quorum_eq [OF core(1)])
  then have "g' = g2\<lparr>cl_leader := None\<rparr>" "res = None"
    using run True d vl by (auto simp: elect_def Let_def t_def g1_def)
  with core(2) log1 show ?thesis by (simp add: node_at_def)
qed

text \<open>A cluster without a leader whose nodes, live or not, all hold the log \<open>G\<close>.\<close>

definition leaderless :: "nat \<Rightarrow> raft_log \<Rightarrow> raft_cluster \<Rightarrow> bool" where
  "leaderless m G c \<longleftrightarrow> cl_leader (rc_inner c) = None \<and> (\<forall>i<m. n_log (node_at (rc_inner c) i) = G)"

lemma leaderless_fail: "leaderless m G c \<Longrightarrow> leaderless m G (cluster_fail i c) \<and> leaderless m G (cluster_revive i c)"
  by (simp add: leaderless_def cluster_fail_def cluster_revive_def inner_fail_def inner_revive_def node_at_def Let_def)

text \<open>
  C27: failover can be refused for ever. Once there is no leader and every node, live or not, holds the same log, whose last
  term exceeds its length, every write, read and scan answers \<^verbatim>\<open>NoLeader\<close>, even with all nodes
  live, and neither these calls nor the failure or revival of a node leads out of that situation. The comment on \<^verbatim>\<open>elect\<close>
  promises success whenever a majority is live.
\<close>

theorem failover_refused:
  assumes "cl_reach m c C" and "2 \<le> m" and "leaderless m G c" and "length G < log_last_term G"
  shows "(\<exists>c'. cluster_commit op c = (Err NoLeader, c') \<and> cluster_get key c = (Err NoLeader, c')
      \<and> cluster_scan pref c = (Err NoLeader, c') \<and> cl_reach m c' C \<and> leaderless m G c')
    \<and> leaderless m G (cluster_fail i c) \<and> leaderless m G (cluster_revive i c)"
proof -
  have none: "cl_leader (rc_inner c) = None" and logs: "\<And>i. i < m \<Longrightarrow> n_log (node_at (rc_inner c) i) = G"
    using assms(3) by (simp_all add: leaderless_def)
  obtain G' where G': "cl_inv m (rc_inner c) G'" using cl_reach_inv [OF assms(1)] assms(2) by auto
  have "majority m {i \<in> {..<m}. n_log (node_at (rc_inner c) i) = G'}" using G' by (simp add: cl_inv_def)
  then have "{i \<in> {..<m}. n_log (node_at (rc_inner c) i) = G'} \<noteq> {}" by (metis add_is_0 card.empty le_zero_eq majority_def one_neq_zero)
  then have inv: "cl_inv m (rc_inner c) G" using G' logs by auto
  obtain res g' where el: "elect (rc_inner c) = (res, g')" by (cases "elect (rc_inner c)")
  note den = elect_denied [OF inv none assms(2,4) logs el] and ei = elect_inv [OF inv none el]
  define g2 where "g2 = (if length (live (rc_inner c)) < cl_quorum (rc_inner c) then rc_inner c else g')"
  have same: "(rc_inner c)\<lparr>cl_leader := None\<rparr> = rc_inner c" using none by simp
  have g2: "ensure_leader (rc_inner c) = (Inl NoLeader, g2)" "cl_leader g2 = None" "\<forall>i<m. n_log (node_at g2 i) = G"
    using den ei el none logs by (simp_all add: ensure_leader_def g2_def same)
  let ?c = "c\<lparr>rc_inner := g2\<rparr>"
  have run: "cluster_commit op c = (Err NoLeader, ?c)" "cluster_get key c = (Err NoLeader, ?c)" "cluster_scan pref c = (Err NoLeader, ?c)"
    using g2(1) by (simp_all add: cluster_commit_def cluster_get_def cluster_scan_def)
  have "leaderless m G ?c" using g2(2,3) by (simp add: leaderless_def)
  with run cr_commit_fails [OF assms(1) run(1)] leaderless_fail [OF assms(3)] show ?thesis by blast
qed

subsection \<open>Runs\<close>

text \<open>Three nodes: a write, the leader fails, another write, it comes back.\<close>

definition demo_cluster :: raft_cluster where
  "demo_cluster =
     (let c = snd (cluster_put [1] [1] (with_model 3 checker_new));
          c = snd (cluster_put [2] [2] (cluster_fail 0 c))
      in snd (cluster_get [1] (cluster_revive 0 c)))"

text \<open>Two failovers before the first write, then the leader of term 3 fails and comes back.\<close>

definition stuck_cluster :: raft_cluster where
  "stuck_cluster =
     (let c = snd (cluster_get [1] (cluster_new 3));
          c = snd (cluster_get [1] (cluster_fail 0 c));
          c = snd (cluster_get [1] (cluster_fail 1 (cluster_revive 0 c)));
          c = snd (cluster_put [1] [7] (cluster_revive 1 c))
      in cluster_revive 0 (cluster_fail 0 c))"

lemma stuck_tips:
  "map (\<lambda>i. n_log (node_at (rc_inner stuck_cluster) i)) [0, 1, 2] = replicate 3 [\<lparr>self_term = 3, le_cmd = Put [1] [7]\<rparr>]
   \<and> cl_leader (rc_inner stuck_cluster) = None \<and> cl_down (rc_inner stuck_cluster) = {}"
  by code_simp

lemma reach_put:
  "cl_reach m c C \<Longrightarrow> fst (cluster_put k v c) = Ok i \<Longrightarrow> cl_reach m (snd (cluster_put k v c)) (C @ [Put k v])"
  by (rule cr_commit [of m c C _ i]) (auto simp: cluster_put_def prod_eq_iff)

lemma reach_get:
  assumes "cl_reach m c C" and "0 < m"
  shows "cl_reach m (snd (cluster_get k c)) C"
proof -
  obtain G where "cl_inv m (rc_inner c) G" using cl_reach_inv [OF assms] by blast
  from cluster_get_inv [OF this surjective_pairing, of k] have "fst (cluster_get k c) \<noteq> Panic" by auto
  then show ?thesis by (rule cr_get [OF assms(1) surjective_pairing])
qed

lemma demo_reach: "cl_reach 3 demo_cluster [Put [1] [1], Put [2] [2]]"
proof -
  let ?c1 = "snd (cluster_put [1] [1] (with_model 3 checker_new))"
  let ?c2 = "snd (cluster_put [2] [2] (cluster_fail 0 ?c1))"
  have "fst (cluster_put [1] [1] (with_model 3 checker_new)) = Ok 1" by code_simp
  with reach_put [OF cr_model] have "cl_reach 3 ?c1 ([] @ [Put [1] [1]])" by metis
  moreover have "fst (cluster_put [2] [2] (cluster_fail 0 ?c1)) = Ok 2" by code_simp
  ultimately have "cl_reach 3 ?c2 (([] @ [Put [1] [1]]) @ [Put [2] [2]])" using reach_put [OF cr_fail] by metis
  from reach_get [OF cr_revive [OF this]] show ?thesis by (simp add: demo_cluster_def Let_def)
qed

lemma stuck_reach: "cl_reach 3 stuck_cluster [Put [1] [7]]"
proof -
  let ?c1 = "snd (cluster_get [1] (cluster_new 3))"
  let ?c2 = "snd (cluster_get [1] (cluster_fail 0 ?c1))"
  let ?c3 = "snd (cluster_get [1] (cluster_fail 1 (cluster_revive 0 ?c2)))"
  have "cl_reach 3 ?c1 []" by (rule reach_get [OF cr_new]) simp
  then have "cl_reach 3 ?c2 []" by (rule reach_get [OF cr_fail]) simp
  then have "cl_reach 3 ?c3 []" by (rule reach_get [OF cr_fail [OF cr_revive]]) simp
  moreover have "fst (cluster_put [1] [7] (cluster_revive 1 ?c3)) = Ok 1" by code_simp
  ultimately have "cl_reach 3 (snd (cluster_put [1] [7] (cluster_revive 1 ?c3))) ([] @ [Put [1] [7]])"
    using reach_put [OF cr_revive] by metis
  then show ?thesis unfolding stuck_cluster_def Let_def by (intro cr_revive cr_fail) simp
qed

theorem cluster_refines_store_witness:
  "fst (cluster_commit (Delete [1]) demo_cluster) \<in> {Err NoLeader, Ok 3}
   \<and> fst (cluster_get [2] demo_cluster) \<in> {Err NoLeader, Ok (Some [2])}"
  using cluster_refines_store [OF demo_reach, of "Delete [1]" "[2]" "[]"] by (simp add: write_value_def op_value_def numeral_3_eq_3)

theorem cluster_nodes_agree_witness:
  "applied (node_at (rc_inner demo_cluster) 1) \<le> 2
   \<and> 2 \<le> card {i. i < 3 \<and> map le_cmd (n_log (node_at (rc_inner demo_cluster) i)) = [Put [1] [1], Put [2] [2]]}"
proof -
  have "(3 :: nat) div 2 + 1 = 2" by simp
  with cluster_nodes_agree [OF demo_reach] show ?thesis by (auto simp: Let_def numeral_2_eq_2)
qed

theorem cluster_linearizable_witness:
  "\<exists>chk. rc_model demo_cluster = Some chk \<and> checked (fst (check chk)) = 1 \<and> violations (fst (check chk)) = []"
proof -
  have "map_option (\<lambda>chk. checked (fst (check chk))) (rc_model demo_cluster) = Some 1" by code_simp
  then obtain chk where "rc_model demo_cluster = Some chk" "checked (fst (check chk)) = 1" by auto
  with cluster_linearizable [OF demo_reach _ this(1)] show ?thesis by simp
qed

theorem minority_refused_witness:
  "fst (cluster_commit (Delete [1]) (cluster_fail 1 (cluster_fail 2 demo_cluster))) = Err NoLeader"
proof -
  have "length (live (rc_inner (cluster_fail 1 (cluster_fail 2 demo_cluster)))) < cl_quorum (rc_inner (cluster_fail 1 (cluster_fail 2 demo_cluster)))"
    by code_simp
  from minority_refused [OF this] show ?thesis by blast
qed

theorem failover_refused_witness:
  "cl_down (rc_inner stuck_cluster) = {} \<and> fst (cluster_commit (Put [2] [2]) stuck_cluster) = Err NoLeader
   \<and> fst (cluster_get [1] stuck_cluster) = Err NoLeader \<and> fst (cluster_scan [] stuck_cluster) = Err NoLeader"
proof -
  let ?G = "[\<lparr>self_term = 3, le_cmd = Put [1] [7]\<rparr>]"
  have "n_log (node_at (rc_inner stuck_cluster) i) = ?G" if "i < 3" for i
    using stuck_tips that by (auto simp: numeral_3_eq_3 numeral_2_eq_2 less_Suc_eq)
  then have "leaderless 3 ?G stuck_cluster" using stuck_tips by (simp add: leaderless_def)
  moreover have "length ?G < log_last_term ?G" by (simp add: log_last_term_def)
  ultimately show ?thesis
    using failover_refused [OF stuck_reach, of ?G "Put [2] [2]" "[1]" "[]" 0] stuck_tips by auto
qed


end
