(* ===== verification/Value_Store.thy ===== *)
theory Value_Store
  imports Codec Crc Framing Fs
begin

text \<open>
  The off-heap value store (\<^verbatim>\<open>src/valuestore.rs\<close>): an append-only log of blobs with an in-memory index,
  crash recovery by a scan, and compaction that publishes a rewritten log atomically. The directory
  is that of \<open>Fs\<close>, with the log and its temporary file by name; a handle follows its file through the
  rename. Offsets and lengths are natural numbers (a file is shorter than \<open>2 ^ 64\<close> bytes), ids are
  \<open>u64\<close>. Shown: a handle reads back its value, every acknowledged blob survives failures, crashes and
  compactions that keep it, a dropped handle reads as absent for ever, and ids are never reused.
\<close>

subsection \<open>The program\<close>

record blob_ref =
  br_id :: u64
  br_offset :: nat
  br_len :: nat

definition BLOBS :: string where "BLOBS = ''blobs''"

definition BLOBS_TMP :: string where "BLOBS_TMP = ''blobs.tmp''"

definition REC_HDR :: nat where "REC_HDR = 16"

definition REC_TRAIL :: nat where "REC_TRAIL = 4"

definition FENCE_ID :: u64 where "FENCE_ID = - 1"

record vstore =
  vs_next_id :: u64
  vs_end :: nat
  vs_index :: "(u64, nat \<times> nat) bmap"
  vs_poisoned :: bool

definition vs_check_usable :: "vstore \<Rightarrow> unit io_result" where
  "vs_check_usable st = (if vs_poisoned st then Inl Other else Inr ())"

definition vs_roll_back :: "vstore \<Rightarrow> fs \<Rightarrow> vstore \<times> fs" where
  "vs_roll_back st d =
     (case io_then (fs_set_len BLOBS (vs_end st) d) (fs_sync (Synced BLOBS)) of
        (Inl _, d) \<Rightarrow> (st\<lparr>vs_poisoned := True\<rparr>, d)
      | (Inr _, d) \<Rightarrow> (st, d))"

text \<open>One record, in four writes.\<close>

definition blob_crc :: "bytes \<Rightarrow> bytes \<Rightarrow> bytes \<Rightarrow> u32" where
  "blob_crc hdr lenb payload = crc_finish (crc_update (crc_update (crc_update crc_new hdr) lenb) payload)"

definition write_record :: "string \<Rightarrow> u64 \<Rightarrow> bytes \<Rightarrow> fs \<Rightarrow> unit io_result \<times> fs" where
  "write_record name bid payload d =
     (let hdr = u64_to_be bid;
          lenb = u64_to_be (word_of_nat (length payload));
          crc = blob_crc hdr lenb payload
      in io_then (fs_write_all name hdr d) (\<lambda>d.
         io_then (fs_write_all name lenb d) (\<lambda>d.
         io_then (fs_write_all name payload d) (\<lambda>d.
         fs_write_all name (u32_to_be crc) d))))"

text \<open>
  The scan. The source computes the end of a record with checked arithmetic and stops on overflow;
  an end beyond \<open>2 ^ 64\<close> is beyond every file, so the unbounded sum stops at the same records.
\<close>

function scan_records :: "(u64 \<Rightarrow> nat \<Rightarrow> bytes \<Rightarrow> 's \<Rightarrow> 's) \<Rightarrow> bytes \<Rightarrow> nat \<Rightarrow> 's \<Rightarrow> 's \<times> nat" where
  "scan_records sink f pos s =
     (if pos + (REC_HDR + REC_TRAIL) > length f then (s, pos)
      else
        let hdr = take REC_HDR (drop pos f);
            bid = u64_from_be (take 8 hdr);
            len = unat (u64_from_be (take 8 (drop 8 hdr)));
            nxt = pos + (len + (REC_HDR + REC_TRAIL))
        in if nxt > length f then (s, pos)
           else
             let payload = take len (drop (pos + REC_HDR) f);
                 crcb = take REC_TRAIL (drop (pos + REC_HDR + len) f)
             in if crc_finish (crc_update (crc_update crc_new hdr) payload) \<noteq> u32_from_be crcb then (s, pos)
                else scan_records sink f nxt (sink bid pos payload s))"
  by pat_completeness auto
termination
  by (relation "measure (\<lambda>(_, f, pos, _). length f - pos)") (auto simp: REC_HDR_def)

declare scan_records.simps [simp del]

text \<open>The sink of \<^verbatim>\<open>open\<close>: the index and the highest fence.\<close>

definition open_sink :: "u64 \<Rightarrow> nat \<Rightarrow> bytes \<Rightarrow> (u64, nat \<times> nat) bmap \<times> u64 \<Rightarrow> (u64, nat \<times> nat) bmap \<times> u64" where
  "open_sink bid offset payload s =
     (case s of (index, fence) \<Rightarrow>
      if bid = FENCE_ID
      then (index, if length payload = 8 then max fence (u64_from_be payload) else fence)
      else (bm_insert bid (offset, length payload) index, fence))"

definition vs_open :: "fs \<Rightarrow> vstore io_result \<times> fs" where
  "vs_open d =
     (let created = \<not> fs_exists BLOBS d in
      io_then (fs_call d) (\<lambda>d.
      io_then (fs_open_create BLOBS d) (\<lambda>d.
      io_then (if created then fs_sync SyncedDir d else (Inr (), d)) (\<lambda>d.
      case scan_records open_sink (fs_content BLOBS d) 0 ([], 0) of
        ((index, fence), end) \<Rightarrow>
          io_then (if length (fs_content BLOBS d) > end
                   then io_then (fs_set_len BLOBS end d) (fs_sync (Synced BLOBS)) else (Inr (), d)) (\<lambda>d.
          (Inr \<lparr>vs_next_id = max (if index = [] then 0 else fst (last index) + 1) fence,
                vs_end = end, vs_index = index, vs_poisoned = False\<rparr>, d))))))"

definition vs_put :: "bytes \<Rightarrow> vstore \<Rightarrow> fs \<Rightarrow> blob_ref io_result \<times> vstore \<times> fs" where
  "vs_put value st d =
     (case vs_check_usable st of Inl e \<Rightarrow> (Inl e, st, d) | Inr _ \<Rightarrow>
      let bid = vs_next_id st in
      if bid = FENCE_ID then (Inl Other, st, d)
      else
        let offset = vs_end st in
        case io_then (write_record BLOBS bid value d) (fs_sync (Synced BLOBS)) of
          (Inl e, d) \<Rightarrow> (case vs_roll_back st d of (st, d) \<Rightarrow> (Inl e, st, d))
        | (Inr _, d) \<Rightarrow>
            (Inr \<lparr>br_id = bid, br_offset = offset, br_len = length value\<rparr>,
             st\<lparr>vs_end := vs_end st + (REC_HDR + REC_TRAIL) + length value, vs_next_id := bid + 1,
                vs_index := bm_insert bid (offset, length value) (vs_index st)\<rparr>, d))"

text \<open>A positioned read of \<open>n\<close> bytes; \<open>None\<close> is running out of file.\<close>

definition read_or_eof :: "bytes \<Rightarrow> nat \<Rightarrow> nat \<Rightarrow> bytes option" where
  "read_or_eof f at n = (if at + n \<le> length f then Some (take n (drop at f)) else None)"

definition vs_get :: "blob_ref \<Rightarrow> vstore \<Rightarrow> fs \<Rightarrow> bytes option" where
  "vs_get r st d =
     (case bm_get (vs_index st) (br_id r) of
        None \<Rightarrow> None
      | Some (offset, len) \<Rightarrow>
          if len \<noteq> br_len r then None
          else case read_or_eof (fs_content BLOBS d) offset REC_HDR of
            None \<Rightarrow> None
          | Some hdr \<Rightarrow>
              let disk_id = u64_from_be (take 8 hdr);
                  disk_len = u64_from_be (take 8 (drop 8 hdr))
              in if disk_id \<noteq> br_id r \<or> unat disk_len \<noteq> len then None
                 else case read_or_eof (fs_content BLOBS d) (offset + REC_HDR) len of
                   None \<Rightarrow> None
                 | Some payload \<Rightarrow>
                     (case read_or_eof (fs_content BLOBS d) (offset + REC_HDR + len) REC_TRAIL of
                        None \<Rightarrow> None
                      | Some crcb \<Rightarrow>
                          if crc_finish (crc_update (crc_update crc_new hdr) payload) \<noteq> u32_from_be crcb then None
                          else Some payload))"

text \<open>
  The sink of \<^verbatim>\<open>compact\<close>: the new index, the running end, the first failure and the directory. A
  buffered write reaches the temporary file at the latest at the flush; here it does at once.
\<close>

type_synonym compact_state = "(u64, nat \<times> nat) bmap \<times> nat \<times> error_kind option \<times> fs"

definition compact_sink :: "u64 set \<Rightarrow> u64 \<Rightarrow> nat \<Rightarrow> bytes \<Rightarrow> compact_state \<Rightarrow> compact_state" where
  "compact_sink lv bid old_offset payload s =
     (case s of (index, end, failed, d) \<Rightarrow>
      if failed \<noteq> None \<or> bid = FENCE_ID \<or> bid \<notin> lv then s
      else case write_record BLOBS_TMP bid payload d of
             (Inr _, d) \<Rightarrow> (bm_insert bid (end, length payload) index,
                            end + (REC_HDR + REC_TRAIL + length payload), failed, d)
           | (Inl e, d) \<Rightarrow> (index, end, Some e, d))"

text \<open>
  The part of \<^verbatim>\<open>compact\<close> before the rename: the kept records and the fence in the temporary file, flushed
  and synced.
\<close>

definition compact_build :: "u64 set \<Rightarrow> vstore \<Rightarrow> fs \<Rightarrow> (((u64, nat \<times> nat) bmap \<times> nat) io_result) \<times> fs" where
  "compact_build lv st d =
     (case fs_create_new BLOBS_TMP (snd (fs_remove BLOBS_TMP d)) of
        (Inl e, d) \<Rightarrow> (Inl e, d)
      | (Inr _, d) \<Rightarrow>
          (case scan_records (compact_sink lv) (fs_content BLOBS d) 0 ([], 0, None, d) of
             ((index, end, failed, d), scanned) \<Rightarrow>
               (case failed of Some e \<Rightarrow> (Inl e, d) | None \<Rightarrow>
                if scanned \<noteq> vs_end st then (Inl InvalidData, d)
                else case io_then (write_record BLOBS_TMP FENCE_ID (u64_to_be (vs_next_id st)) d) (\<lambda>d.
                          io_then (fs_call d) (fs_sync (Synced BLOBS_TMP))) of
                  (Inl e, d) \<Rightarrow> (Inl e, d)
                | (Inr _, d) \<Rightarrow> (Inr (index, end + (REC_HDR + REC_TRAIL + 8)), d))))"

definition vs_compact :: "u64 set \<Rightarrow> vstore \<Rightarrow> fs \<Rightarrow> nat io_result \<times> vstore \<times> fs" where
  "vs_compact lv st d =
     (case vs_check_usable st of Inl e \<Rightarrow> (Inl e, st, d) | Inr _ \<Rightarrow>
      case compact_build lv st d of
        (Inl e, d) \<Rightarrow> (Inl e, st, d)
      | (Inr (index, end), d) \<Rightarrow>
          (case fs_rename BLOBS_TMP BLOBS d of
             (Inl e, d) \<Rightarrow> (Inl e, st, d)
           | (Inr _, d) \<Rightarrow>
               let st = st\<lparr>vs_index := index, vs_end := end\<rparr>
               in case fs_sync SyncedDir d of
                    (Inl e, d) \<Rightarrow> (Inl e, st, d)
                  | (Inr _, d) \<Rightarrow> (Inr end, st, d)))"

definition vs_count :: "vstore \<Rightarrow> nat" where
  "vs_count st = length (vs_index st)"

lemmas rec_sizes = REC_HDR_def REC_TRAIL_def

subsection \<open>The log as a list of blobs\<close>

type_synonym blob = "u64 \<times> bytes"

definition blob_frame :: "blob \<Rightarrow> bytes" where
  "blob_frame r = u64_to_be (fst r) @ u64_to_be (word_of_nat (length (snd r))) @ snd r
     @ u32_to_be (crc32 (u64_to_be (fst r) @ u64_to_be (word_of_nat (length (snd r))) @ snd r))"

definition blob_ok :: "blob \<Rightarrow> bool" where
  "blob_ok r \<longleftrightarrow> length (snd r) < 2 ^ 64"

lemma length_blob_frame [simp]: "length (blob_frame r) = 20 + length (snd r)"
  by (simp add: blob_frame_def)

lemma crc_two: "crc_finish (crc_update (crc_update crc_new a) b) = crc32 (a @ b)"
  using crc_finish_chunks [of "[a, b]"] by simp

lemma blob_crc_eq: "blob_crc a b c = crc32 (a @ b @ c)"
  using crc_finish_chunks [of "[a, b, c]"] by (simp add: blob_crc_def)

lemma scan_blob:
  assumes "blob_ok r"
  shows "scan_records sink (pre @ blob_frame r @ post) (length pre) s =
    scan_records sink (pre @ blob_frame r @ post) (length pre + length (blob_frame r)) (sink (fst r) (length pre) (snd r) s)"
proof -
  let ?lb = "u64_to_be (word_of_nat (length (snd r)))"
  define f where "f = pre @ blob_frame r @ post"
  have f: "f = pre @ (u64_to_be (fst r) @ ?lb) @ snd r @ u32_to_be (crc32 (u64_to_be (fst r) @ ?lb @ snd r)) @ post"
    by (simp add: f_def blob_frame_def)
  have hdr: "take 16 (drop (length pre) f) = u64_to_be (fst r) @ ?lb"
    and pay: "take (length (snd r)) (drop (length pre + 16) f) = snd r"
    and crc: "take 4 (drop (length pre + 16 + length (snd r)) f) = u32_to_be (crc32 (u64_to_be (fst r) @ ?lb @ snd r))"
    and len: "length f = length pre + (length (snd r) + 20) + length post"
    by (simp_all add: f)
  have "unat (word_of_nat (length (snd r)) :: u64) = length (snd r)" using assms by (simp add: blob_ok_def unat_u64_of_nat)
  then show ?thesis
    unfolding f_def [symmetric]
    by (subst scan_records.simps) (simp add: rec_sizes Let_def hdr pay crc len crc_two add.commute [of 20])
qed

lemma scan_blob_end: "scan_records sink pre (length pre) s = (s, length pre)"
  by (subst scan_records.simps) (simp add: rec_sizes)

lemma scan_blob_torn:
  assumes "blob_ok r" and "strict_prefix t (blob_frame r)"
  shows "scan_records sink (pre @ t) (length pre) s = (s, length pre)"
proof (cases "length t < 20")
  case True
  then show ?thesis by (subst scan_records.simps) (simp add: rec_sizes)
next
  case False
  obtain u where u: "blob_frame r = t @ u" "u \<noteq> []" using assms(2) by (auto simp: strict_prefix_def prefix_def)
  have "length (t @ u) = 20 + length (snd r)" by (metis length_blob_frame u(1))
  then have short: "length t < 20 + length (snd r)" using u(2) by (cases u) simp_all
  have "take 8 (drop 8 (take 16 t)) = take 8 (drop 8 (take 16 (blob_frame r)))" using False u by simp
  also have "\<dots> = u64_to_be (word_of_nat (length (snd r)))" by (simp add: blob_frame_def)
  finally show ?thesis
    using assms(1) short by (subst scan_records.simps) (simp add: rec_sizes Let_def blob_ok_def unat_u64_of_nat)
qed

interpretation blobs: framed_log blob_frame blob_ok "\<lambda>pos s r. Inr (sink (fst r) pos (snd r) s)" "\<lambda>e. e" "\<lambda>s pos _. (s, pos)" "scan_records sink"
  for sink
proof
  show "blob_frame r \<noteq> []" if "blob_ok r" for r using length_blob_frame [of r] by (metis add_is_0 length_0_conv zero_neq_numeral)
qed (simp_all add: scan_blob_end scan_blob scan_blob_torn)

subsection \<open>What a scan makes of a log\<close>

primrec scan_all :: "(u64 \<Rightarrow> nat \<Rightarrow> bytes \<Rightarrow> 's \<Rightarrow> 's) \<Rightarrow> nat \<Rightarrow> blob list \<Rightarrow> 's \<Rightarrow> 's" where
  "scan_all sink pos [] s = s"
| "scan_all sink pos (r # rs) s = scan_all sink (pos + length (blob_frame r)) rs (sink (fst r) pos (snd r) s)"

lemma emit_scan_all: "blobs.emit_all sink pos s rs = Inr (scan_all sink pos rs s)"
  by (induction rs arbitrary: pos s) simp_all

lemma scan_all_append:
  "scan_all sink pos (rs @ rs') s = scan_all sink (pos + length (blobs.frames rs)) rs' (scan_all sink pos rs s)"
  by (induction rs arbitrary: pos s) (simp_all add: add.assoc)

lemma scan_log:
  assumes "list_all blob_ok L" and "t = [] \<or> blob_ok r \<and> strict_prefix t (blob_frame r)"
  shows "scan_records sink (blobs.frames L @ t) 0 s = (scan_all sink 0 L s, length (blobs.frames L))"
proof (cases "t = []")
  case True
  with blobs.scan_whole [OF assms(1), of sink "[]" s] show ?thesis by (simp add: emit_scan_all)
next
  case False
  with assms blobs.scan_whole_torn [OF assms(1), of r t sink "[]" s] show ?thesis by (simp add: emit_scan_all)
qed

definition index_of :: "blob list \<Rightarrow> (u64, nat \<times> nat) bmap" where
  "index_of L = fst (scan_all open_sink 0 L ([], 0))"

definition fence_of :: "blob list \<Rightarrow> u64" where
  "fence_of L = snd (scan_all open_sink 0 L ([], 0))"

definition next_id_of :: "blob list \<Rightarrow> u64" where
  "next_id_of L = max (if index_of L = [] then 0 else fst (last (index_of L)) + 1) (fence_of L)"

text \<open>The blobs of a log, without its fences.\<close>

definition real :: "blob list \<Rightarrow> blob list" where
  "real L = filter (\<lambda>r. fst r \<noteq> FENCE_ID) L"

lemma real_simps [simp]:
  "real [] = []" "real (L @ L') = real L @ real L'" "real (r # L) = (if fst r = FENCE_ID then real L else r # real L)"
  by (simp_all add: real_def)

lemma open_state_snoc:
  "scan_all open_sink 0 (L @ [r]) s = open_sink (fst r) (length (blobs.frames L)) (snd r) (scan_all open_sink 0 L s)"
  by (simp add: scan_all_append)

lemma index_of_snoc:
  "index_of (L @ [r]) = (if fst r = FENCE_ID then index_of L
     else bm_insert (fst r) (length (blobs.frames L), length (snd r)) (index_of L))"
  unfolding index_of_def open_state_snoc by (simp add: open_sink_def split: prod.split)

lemma fence_of_snoc:
  "fence_of (L @ [r]) = (if fst r = FENCE_ID \<and> length (snd r) = 8 then max (fence_of L) (u64_from_be (snd r)) else fence_of L)"
  unfolding fence_of_def open_state_snoc by (simp add: open_sink_def split: prod.split)

lemma index_of_Nil [simp]: "index_of [] = []" and fence_of_Nil [simp]: "fence_of [] = 0"
  by (simp_all add: index_of_def fence_of_def)

lemma index_of_wf: "bm_wf (index_of L)"
  by (induction L rule: rev_induct) (simp_all add: index_of_snoc bm_wf_insert)

lemma index_of_keys: "fst ` set (index_of L) = fst ` set (real L)"
  by (induction L rule: rev_induct) (simp_all add: index_of_snoc)

lemma index_of_get:
  assumes "distinct (map fst (real L))"
  shows "map_of (index_of L) i = Some (off, len) \<longleftrightarrow>
    i \<noteq> FENCE_ID \<and> (\<exists>pre v post. L = pre @ (i, v) # post \<and> off = length (blobs.frames pre) \<and> len = length v)"
  using assms
proof (induction L rule: rev_induct)
  case (snoc r L)
  have dis: "distinct (map fst (real L))" using snoc.prems by simp
  have ext: "(\<exists>pre v post. L @ [r] = pre @ (i, v) # post \<and> off = length (blobs.frames pre) \<and> len = length v) \<longleftrightarrow>
      (\<exists>pre v post. L = pre @ (i, v) # post \<and> off = length (blobs.frames pre) \<and> len = length v)
      \<or> fst r = i \<and> off = length (blobs.frames L) \<and> len = length (snd r)" (is "?l \<longleftrightarrow> ?r")
  proof
    assume ?l
    then obtain pre v post where *: "L @ [r] = pre @ (i, v) # post" "off = length (blobs.frames pre)" "len = length v" by blast
    then show ?r by (cases post rule: rev_cases) auto
  next
    assume ?r
    then show ?l
    proof (elim disjE exE conjE)
      fix pre v post
      assume "L = pre @ (i, v) # post" "off = length (blobs.frames pre)" "len = length v"
      then show ?l by (intro exI [of _ pre] exI [of _ v] exI [of _ "post @ [r]"]) simp
    next
      assume "fst r = i" "off = length (blobs.frames L)" "len = length (snd r)"
      then show ?l by (intro exI [of _ L] exI [of _ "snd r"] exI [of _ "[]"]) auto
    qed
  qed
  show ?case
  proof (cases "fst r = FENCE_ID \<or> fst r \<noteq> i")
    case True
    then have "map_of (index_of (L @ [r])) i = map_of (index_of L) i \<or> i = FENCE_ID"
      by (auto simp: index_of_snoc bm_get_insert [OF index_of_wf])
    moreover have "map_of (index_of L') FENCE_ID = None" for L'
      unfolding map_of_eq_None_iff index_of_keys by (auto simp: real_def)
    ultimately show ?thesis using True snoc.IH [OF dis] unfolding ext by (cases "i = FENCE_ID") auto
  next
    case False
    then have "i \<notin> fst ` set (real L)" using snoc.prems by auto
    then have "\<not> (\<exists>pre v post. L = pre @ (i, v) # post)" using False by auto
    with False show ?thesis unfolding ext by (auto simp: index_of_snoc bm_get_insert [OF index_of_wf])
  qed
qed simp

lemma map_of_real:
  assumes "distinct (map fst (real L))"
  shows "map_of (real L) i = Some v \<longleftrightarrow> i \<noteq> FENCE_ID \<and> (i, v) \<in> set L"
  using assms by (auto simp: real_def)

subsection \<open>The next id\<close>

lemma word_less_succ: "(x :: u64) \<noteq> - 1 \<Longrightarrow> y < x + 1 \<longleftrightarrow> y \<le> x"
  using inc_less_eq_iff [of x y] by (simp flip: not_le)

lemma last_max: "bm_wf m \<Longrightarrow> k \<in> fst ` set m \<Longrightarrow> k \<le> fst (last m)"
  by (induction m) (auto simp: less_imp_le)

lemma real_below_next:
  assumes "i \<in> fst ` set (real L)"
  shows "i < next_id_of L"
proof -
  have k: "i \<in> fst ` set (index_of L)" using assms by (simp add: index_of_keys)
  then have ne: "index_of L \<noteq> []" by auto
  have "fst (last (index_of L)) \<in> fst ` set (real L)" using ne by (simp flip: index_of_keys)
  then have "fst (last (index_of L)) \<noteq> - 1" by (auto simp: real_def FENCE_ID_def)
  then have "i < fst (last (index_of L)) + 1" using last_max [OF index_of_wf k] by (simp add: word_less_succ)
  then show ?thesis using ne by (simp add: next_id_of_def less_max_iff_disj)
qed

lemma next_id_put:
  assumes "next_id_of L \<noteq> FENCE_ID"
  shows "next_id_of (L @ [(next_id_of L, v)]) = next_id_of L + 1"
    and "index_of (L @ [(next_id_of L, v)]) = index_of L @ [(next_id_of L, (length (blobs.frames L), length v))]"
proof -
  have "\<forall>e \<in> set (index_of L). fst e < next_id_of L" using real_below_next [of _ L] by (auto simp flip: index_of_keys)
  then show ix: "index_of (L @ [(next_id_of L, v)]) = index_of L @ [(next_id_of L, (length (blobs.frames L), length v))]"
    using assms by (simp add: index_of_snoc bm_insert_last)
  have "fence_of L \<le> next_id_of L" by (simp add: next_id_of_def)
  then have "fence_of L < next_id_of L + 1" using assms by (simp add: word_less_succ FENCE_ID_def)
  with ix assms show "next_id_of (L @ [(next_id_of L, v)]) = next_id_of L + 1"
    by (simp add: next_id_of_def [of "L @ _"] fence_of_snoc)
qed

text \<open>The log a compaction writes.\<close>

definition compacted :: "u64 set \<Rightarrow> blob list \<Rightarrow> blob list" where
  "compacted lv L = filter (\<lambda>r. fst r \<in> lv) (real L) @ [(FENCE_ID, u64_to_be (next_id_of L))]"

lemma fence_of_real: "fence_of (filter p (real L)) = 0"
proof (induction L rule: rev_induct)
  case (snoc r L)
  then show ?case by (auto simp: fence_of_snoc)
qed simp

lemma real_compacted: "real (compacted lv L) = filter (\<lambda>r. fst r \<in> lv) (real L)"
  by (auto simp: compacted_def real_def intro: filter_cong)

lemma next_id_compacted: "next_id_of (compacted lv L) = next_id_of L"
proof -
  let ?K = "filter (\<lambda>r. fst r \<in> lv) (real L)"
  have ix: "index_of (compacted lv L) = index_of ?K" by (simp add: compacted_def index_of_snoc)
  have fe: "fence_of (compacted lv L) = next_id_of L" by (simp add: compacted_def fence_of_snoc fence_of_real)
  have "fst (last (index_of ?K)) + 1 \<le> next_id_of L" if "index_of ?K \<noteq> []"
  proof -
    have "fst (last (index_of ?K)) \<in> fst ` set (index_of ?K)" using that by simp
    then have "fst (last (index_of ?K)) \<in> fst ` set (real L)" unfolding index_of_keys by (auto simp: real_def)
    then have "fst (last (index_of ?K)) < next_id_of L" by (rule real_below_next)
    then show ?thesis by (metis inc_le)
  qed
  then show ?thesis using ix fe by (simp add: next_id_of_def [of "compacted lv L"] max_def)
qed

subsection \<open>Effects on the directory\<close>

text \<open>A write that appended \<open>b\<close>, or a prefix of it when it failed.\<close>

definition wrote :: "string \<Rightarrow> bytes \<Rightarrow> unit io_result \<Rightarrow> fs \<Rightarrow> fs \<Rightarrow> bool" where
  "wrote name b res d d' \<longleftrightarrow>
     (\<exists>t. prefix t b \<and> (res = Inr () \<longrightarrow> t = b) \<and> fs_files d' = bm_insert name (fs_content name d @ t) (fs_files d))"

lemma write_all_wrote: "fs_write_all name b d = (res, d') \<Longrightarrow> wrote name b res d d'"
  unfolding wrote_def fs_write_all_def
  by (auto simp: fs_content_def split: prod.splits io_outcome.splits intro!: exI [of _ "take _ b"] take_is_prefix)

lemma wrote_content:
  assumes "bm_wf (fs_files d)" and "fs_files d' = bm_insert name c (fs_files d)"
  shows "fs_content name d' = c" and "bm_wf (fs_files d')"
    and "n \<noteq> name \<Longrightarrow> bm_get (fs_files d') n = bm_get (fs_files d) n"
  using assms by (simp_all add: fs_content_def bm_get_insert bm_wf_insert)

lemma wrote_then:
  assumes "bm_wf (fs_files d)" and "io_then (fs_write_all name a d) g = (res, d')"
    and "\<And>d1. g d1 = (res, d') \<Longrightarrow> bm_wf (fs_files d1) \<Longrightarrow> wrote name b res d1 d'"
  shows "wrote name (a @ b) res d d'"
proof (cases "fs_write_all name a d")
  case (Pair r1 d1)
  note w = write_all_wrote [OF Pair]
  show ?thesis
  proof (cases r1)
    case (Inl e)
    then show ?thesis using w assms(2) Pair by (auto simp: wrote_def intro: prefix_prefix)
  next
    case (Inr u)
    then have f1: "fs_files d1 = bm_insert name (fs_content name d @ a) (fs_files d)" using w by (simp add: wrote_def)
    have "wrote name b res d1 d'"
      using assms(2,3) Pair Inr wrote_content(2) [OF assms(1) f1] by simp
    then obtain t where t: "prefix t b" "res = Inr () \<longrightarrow> t = b"
      "fs_files d' = bm_insert name (fs_content name d1 @ t) (fs_files d1)" by (auto simp: wrote_def)
    then have "fs_files d' = bm_insert name (fs_content name d @ a @ t) (fs_files d)"
      using wrote_content(1) [OF assms(1) f1] by (simp add: f1 bm_insert_twice assms(1))
    with t(1,2) show ?thesis unfolding wrote_def by (intro exI [of _ "a @ t"]) auto
  qed
qed

lemma write_record_wrote:
  assumes "bm_wf (fs_files d)" and "write_record name bid v d = (res, d')"
  shows "wrote name (blob_frame (bid, v)) res d d'"
  using assms(2) unfolding write_record_def Let_def blob_frame_def fst_conv snd_conv blob_crc_eq
proof (rule wrote_then [OF assms(1)])
  fix d1
  assume "bm_wf (fs_files d1)"
    and "io_then (fs_write_all name (u64_to_be (word_of_nat (length v))) d1)
      (\<lambda>d. io_then (fs_write_all name v d)
        (fs_write_all name (u32_to_be (crc32 (u64_to_be bid @ u64_to_be (word_of_nat (length v)) @ v))))) = (res, d')"
  then show "wrote name (u64_to_be (word_of_nat (length v)) @ v
      @ u32_to_be (crc32 (u64_to_be bid @ u64_to_be (word_of_nat (length v)) @ v))) res d1 d'"
    by (rule wrote_then) (rule wrote_then, auto intro: write_all_wrote)
qed

text \<open>A call that leaves a file as it is.\<close>

definition keeps :: "string \<Rightarrow> fs \<Rightarrow> fs \<Rightarrow> bool" where
  "keeps name d d' \<longleftrightarrow> (bm_wf (fs_files d) \<longrightarrow> bm_wf (fs_files d') \<and> bm_get (fs_files d') name = bm_get (fs_files d) name)"

lemma keeps_refl [intro]: "fs_files d' = fs_files d \<Longrightarrow> keeps name d d'"
  by (simp add: keeps_def)

lemma keeps_trans: "keeps name d1 d2 \<Longrightarrow> keeps name d2 d3 \<Longrightarrow> keeps name d1 d3"
  by (simp add: keeps_def)

lemma keeps_wrote: "wrote other b res d d' \<Longrightarrow> name \<noteq> other \<Longrightarrow> keeps name d d'"
  unfolding wrote_def keeps_def by (auto simp: bm_get_insert bm_wf_insert)

lemma keeps_remove: "name \<noteq> other \<Longrightarrow> keeps name d (snd (fs_remove other d))"
  unfolding keeps_def fs_remove_def
  by (auto simp: bm_get_remove bm_wf_remove split: prod.splits io_outcome.splits)

lemma keeps_create_new: "name \<noteq> other \<Longrightarrow> fs_create_new other d = (res, d') \<Longrightarrow> keeps name d d'"
  unfolding keeps_def fs_create_new_def
  by (auto simp: bm_get_insert bm_wf_insert split: prod.splits io_outcome.splits if_splits)

lemma blob_names [simp]: "BLOBS \<noteq> BLOBS_TMP" "BLOBS_TMP \<noteq> BLOBS"
  by (simp_all add: BLOBS_def BLOBS_TMP_def)

subsection \<open>Compaction\<close>

text \<open>What the sink has built once it has seen \<open>M\<close>: a failure, or the kept blobs in the temporary file.\<close>

definition kept_ok :: "fs \<Rightarrow> blob list \<Rightarrow> compact_state \<Rightarrow> bool" where
  "kept_ok d0 M s \<longleftrightarrow> (case s of (index, end, failed, d) \<Rightarrow>
     bm_wf (fs_files d) \<and> bm_get (fs_files d) BLOBS = bm_get (fs_files d0) BLOBS
     \<and> (failed = None \<longrightarrow> index = index_of M \<and> end = length (blobs.frames M) \<and> fs_content BLOBS_TMP d = blobs.frames M))"

lemma compact_sink_kept:
  assumes "kept_ok d0 M s"
  shows "kept_ok d0 (if fst r = FENCE_ID \<or> fst r \<notin> lv then M else M @ [r]) (compact_sink lv (fst r) pos (snd r) s)"
proof -
  obtain index fin failed d where s: "s = (index, fin, failed, d)" by (cases s)
  show ?thesis
  proof (cases "failed \<noteq> None \<or> fst r = FENCE_ID \<or> fst r \<notin> lv")
    case True
    then show ?thesis using assms by (auto simp: s kept_ok_def compact_sink_def)
  next
    case False
    obtain res d' where w: "write_record BLOBS_TMP (fst r) (snd r) d = (res, d')" by fastforce
    have wf: "bm_wf (fs_files d)" using assms by (simp add: s kept_ok_def)
    have wr: "wrote BLOBS_TMP (blob_frame r) res d d'" using write_record_wrote [OF wf w] by simp
    have k: "bm_wf (fs_files d') \<and> bm_get (fs_files d') BLOBS = bm_get (fs_files d) BLOBS"
      using keeps_wrote [OF wr blob_names(1)] wf by (simp add: keeps_def)
    show ?thesis
    proof (cases res)
      case (Inl e)
      then show ?thesis using False assms k w by (simp add: s kept_ok_def compact_sink_def)
    next
      case (Inr u)
      then have "fs_files d' = bm_insert BLOBS_TMP (fs_content BLOBS_TMP d @ blob_frame r) (fs_files d)"
        using wr by (simp add: wrote_def)
      from wrote_content(1) [OF wf this] show ?thesis
        using False assms k w Inr by (simp add: s kept_ok_def compact_sink_def index_of_snoc rec_sizes add.commute)
    qed
  qed
qed

lemma compact_scan_kept:
  "kept_ok d0 M s \<Longrightarrow> kept_ok d0 (M @ filter (\<lambda>r. fst r \<in> lv) (real L)) (scan_all (compact_sink lv) pos L s)"
proof (induction L arbitrary: M s pos)
  case (Cons r L)
  from Cons.IH [OF compact_sink_kept [OF Cons.prems, of r lv pos]] show ?case by (auto split: if_splits)
qed simp

subsection \<open>The log on disk and the open store\<close>

definition log_ok :: "blob list \<Rightarrow> bool" where
  "log_ok L \<longleftrightarrow> list_all blob_ok L \<and> distinct (map fst (real L))"

text \<open>What a failed append can leave behind the intact log.\<close>

definition torn_put :: "blob list \<Rightarrow> bytes \<Rightarrow> bool" where
  "torn_put L t \<longleftrightarrow> t = [] \<or> next_id_of L \<noteq> FENCE_ID \<and> (\<exists>v. length v < 2 ^ 64 \<and> prefix t (blob_frame (next_id_of L, v)))"

definition disk_log :: "blob list \<Rightarrow> bytes \<Rightarrow> fs \<Rightarrow> bool" where
  "disk_log L t d \<longleftrightarrow> log_ok L \<and> torn_put L t \<and> bm_wf (fs_files d) \<and> fs_content BLOBS d = blobs.frames L @ t"

definition open_log :: "blob list \<Rightarrow> bytes \<Rightarrow> vstore \<Rightarrow> fs \<Rightarrow> bool" where
  "open_log L t st d \<longleftrightarrow> disk_log L t d \<and> (t = [] \<or> vs_poisoned st)
     \<and> vs_next_id st = next_id_of L \<and> vs_end st = length (blobs.frames L) \<and> vs_index st = index_of L"

lemma log_ok_put: "log_ok L \<Longrightarrow> next_id_of L \<noteq> FENCE_ID \<Longrightarrow> length v < 2 ^ 64 \<Longrightarrow> log_ok (L @ [(next_id_of L, v)])"
  using real_below_next [of "next_id_of L" L] by (auto simp: log_ok_def blob_ok_def)

lemma log_ok_compacted: "log_ok L \<Longrightarrow> log_ok (compacted lv L)"
  unfolding log_ok_def real_compacted
  by (auto simp: compacted_def list_all_iff blob_ok_def distinct_map_filter) (auto simp: real_def)

lemma disk_log_files: "disk_log L t d \<Longrightarrow> fs_files d' = fs_files d \<Longrightarrow> disk_log L t d'"
  by (simp add: disk_log_def fs_content_def)

lemma disk_log_keeps: "disk_log L t d \<Longrightarrow> keeps BLOBS d d' \<Longrightarrow> disk_log L t d'"
  by (simp add: disk_log_def keeps_def fs_content_def)

text \<open>A whole record behind the log is adopted by the next scan; a partial one is cut off.\<close>

lemma scan_disk_log:
  assumes "disk_log L t d"
  obtains (cut) "scan_records sink (fs_content BLOBS d) 0 s = (scan_all sink 0 L s, length (blobs.frames L))"
  | (whole) v where "length v < 2 ^ 64" "next_id_of L \<noteq> FENCE_ID" "t = blob_frame (next_id_of L, v)"
proof -
  have L: "list_all blob_ok L" using assms by (simp add: disk_log_def log_ok_def)
  have c: "fs_content BLOBS d = blobs.frames L @ t" using assms by (simp add: disk_log_def)
  from assms have "torn_put L t" by (simp add: disk_log_def)
  then consider "t = []" | v where "length v < 2 ^ 64" "next_id_of L \<noteq> FENCE_ID" "prefix t (blob_frame (next_id_of L, v))"
    by (auto simp: torn_put_def)
  then show thesis
  proof cases
    case 1
    then show thesis using cut unfolding c by (simp add: scan_log [OF L, of "[]", simplified])
  next
    case (2 v)
    show thesis
    proof (cases "t = blob_frame (next_id_of L, v)")
      case True
      with 2 whole show thesis by blast
    next
      case False
      with 2 have "t = [] \<or> blob_ok (next_id_of L, v) \<and> strict_prefix t (blob_frame (next_id_of L, v))"
        by (simp add: blob_ok_def strict_prefix_def)
      then show thesis by (intro cut) (simp only: c scan_log [OF L])
    qed
  qed
qed

lemma disk_log_adopt:
  assumes "disk_log L (blob_frame (next_id_of L, v)) d" and "length v < 2 ^ 64" and "next_id_of L \<noteq> FENCE_ID"
  shows "disk_log (L @ [(next_id_of L, v)]) [] d"
  using assms log_ok_put [of L v] by (simp add: disk_log_def torn_put_def)

text \<open>Every disk log is one whose scan finds exactly its blobs.\<close>

lemma disk_log_scanned:
  assumes "disk_log L t d"
  obtains L' t' where "disk_log L' t' d" "\<And>(sink :: u64 \<Rightarrow> nat \<Rightarrow> bytes \<Rightarrow> 's \<Rightarrow> 's) s. scan_records sink (fs_content BLOBS d) 0 s = (scan_all sink 0 L' s, length (blobs.frames L'))"
    "L' = L \<or> next_id_of L \<noteq> FENCE_ID \<and> (\<exists>v. L' = L @ [(next_id_of L, v)])"
proof (cases "\<exists>v. length v < 2 ^ 64 \<and> next_id_of L \<noteq> FENCE_ID \<and> t = blob_frame (next_id_of L, v)")
  case True
  then obtain v where v: "length v < 2 ^ 64" "next_id_of L \<noteq> FENCE_ID" "t = blob_frame (next_id_of L, v)" by blast
  with assms have L': "disk_log (L @ [(next_id_of L, v)]) [] d" by (auto intro: disk_log_adopt)
  moreover have "list_all blob_ok (L @ [(next_id_of L, v)])" using L' by (simp add: disk_log_def log_ok_def)
  from scan_log [OF this, of "[]"] have "scan_records sink (fs_content BLOBS d) 0 s =
      (scan_all sink 0 (L @ [(next_id_of L, v)]) s, length (blobs.frames (L @ [(next_id_of L, v)])))"
    for sink :: "u64 \<Rightarrow> nat \<Rightarrow> bytes \<Rightarrow> 's \<Rightarrow> 's" and s
    using L' by (simp add: disk_log_def)
  ultimately show thesis using that v(2) by blast
next
  case False
  then have "scan_records sink (fs_content BLOBS d) 0 s = (scan_all sink 0 L s, length (blobs.frames L))"
    for sink :: "u64 \<Rightarrow> nat \<Rightarrow> bytes \<Rightarrow> 's \<Rightarrow> 's" and s
    by (rule_tac scan_disk_log [OF assms, of sink s]) blast+
  with assms show thesis using that by blast
qed

subsection \<open>The operations on the log\<close>

lemma set_len_files:
  assumes "fs_set_len name n d = (res, d')" and "n \<le> length (fs_content name d)"
  shows "fs_files d' = fs_files d \<and> res \<noteq> Inr () \<or> fs_files d' = bm_insert name (take n (fs_content name d)) (fs_files d) \<and> res = Inr ()"
  using assms by (auto simp: fs_set_len_def Let_def fs_content_def split: prod.splits io_outcome.splits)

text \<open>Cutting the log back to its intact records.\<close>

lemma cut_disk_log:
  assumes "disk_log L t d" and "io_then (fs_set_len BLOBS (length (blobs.frames L)) d) (fs_sync ev) = (res, d')"
  shows "\<exists>t'. disk_log L t' d' \<and> (res = Inr () \<longrightarrow> t' = [])"
proof -
  obtain r1 d1 where sl: "fs_set_len BLOBS (length (blobs.frames L)) d = (r1, d1)" by fastforce
  have c: "fs_content BLOBS d = blobs.frames L @ t" and wf: "bm_wf (fs_files d)" using assms(1) by (simp_all add: disk_log_def)
  from set_len_files [OF sl] c consider "fs_files d1 = fs_files d" "r1 \<noteq> Inr ()"
    | "fs_files d1 = bm_insert BLOBS (blobs.frames L) (fs_files d)" "r1 = Inr ()" by auto
  then show ?thesis
  proof cases
    case 1
    then have "disk_log L t d1 \<and> res \<noteq> Inr () \<and> d' = d1"
      using assms(2) sl disk_log_files [OF assms(1), of d1] by (cases r1) auto
    then show ?thesis by blast
  next
    case 2
    have "disk_log L [] d1"
      using assms(1) wrote_content(1,2) [OF wf 2(1)] by (simp add: disk_log_def torn_put_def)
    moreover have "fs_files d' = fs_files d1" using assms(2) 2 sl by (auto dest: sync_files)
    ultimately show ?thesis using disk_log_files by blast
  qed
qed

lemma open_create_content:
  assumes "bm_wf (fs_files d)" and "fs_open_create name d = (res, d')"
  shows "bm_wf (fs_files d')" and "fs_content name d' = fs_content name d"
  using assms
  by (auto simp: fs_open_create_def fs_content_def fs_exists_def bm_wf_insert bm_get_insert split: prod.splits io_outcome.splits if_splits)

text \<open>
  An open, from the directory it has created the log in: whatever fails, the directory still
  holds the log, and after success the store is the one of the log its scan found.
\<close>

lemma vs_open_spec:
  assumes "disk_log L t d" and "vs_open d = (res, d')"
  shows "\<exists>L' t'. (L' = L \<or> next_id_of L \<noteq> FENCE_ID \<and> (\<exists>v. L' = L @ [(next_id_of L, v)]))
    \<and> disk_log L' t' d' \<and> (\<forall>st. res = Inr st \<longrightarrow> t' = [] \<and> open_log L' [] st d')"
proof -
  obtain r1 d1 where s1: "fs_call d = (r1, d1)" by fastforce
  obtain r2 d2 where s2: "fs_open_create BLOBS d1 = (r2, d2)" by fastforce
  obtain r3 d3 where s3: "(if \<not> fs_exists BLOBS d then fs_sync SyncedDir d2 else (Inr (), d2)) = (r3, d3)" by fastforce
  have d1: "disk_log L t d1" using assms(1) call_files [OF s1] by (rule disk_log_files)
  have d2: "disk_log L t d2" using d1 open_create_content [OF _ s2] by (simp add: disk_log_def)
  have "fs_files d3 = fs_files d2" using s3 by (auto dest: sync_files split: if_splits)
  with d2 have d3: "disk_log L t d3" by (rule disk_log_files)
  obtain L' t' where L': "disk_log L' t' d3"
    and sc: "scan_records open_sink (fs_content BLOBS d3) 0 ([], 0) = (scan_all open_sink 0 L' ([], 0), length (blobs.frames L'))"
    and ext: "L' = L \<or> next_id_of L \<noteq> FENCE_ID \<and> (\<exists>v. L' = L @ [(next_id_of L, v)])"
    using disk_log_scanned [OF d3] by metis
  obtain r4 d4 where s4: "(if length (fs_content BLOBS d3) > length (blobs.frames L')
      then io_then (fs_set_len BLOBS (length (blobs.frames L')) d3) (fs_sync (Synced BLOBS)) else (Inr (), d3)) = (r4, d4)" by fastforce
  obtain t4 where d4: "disk_log L' t4 d4" "r4 = Inr () \<longrightarrow> t4 = []"
  proof (cases "length (fs_content BLOBS d3) > length (blobs.frames L')")
    case True
    then show thesis using cut_disk_log [OF L'] s4 that by auto
  next
    case False
    then have "t' = []" using L' by (simp add: disk_log_def)
    then show thesis using that L' s4 False by simp
  qed
  have run: "vs_open d = (case r1 of Inl e \<Rightarrow> (Inl e, d1) | Inr _ \<Rightarrow> case r2 of Inl e \<Rightarrow> (Inl e, d2) | Inr _ \<Rightarrow>
      case r3 of Inl e \<Rightarrow> (Inl e, d3) | Inr _ \<Rightarrow> case r4 of Inl e \<Rightarrow> (Inl e, d4) | Inr _ \<Rightarrow>
      (Inr \<lparr>vs_next_id = next_id_of L', vs_end = length (blobs.frames L'), vs_index = index_of L', vs_poisoned = False\<rparr>, d4))"
    unfolding vs_open_def Let_def
    by (cases "scan_all open_sink 0 L' ([], 0)")
      (simp add: s1 s2 s3 sc s4 next_id_of_def index_of_def fence_of_def split: sum.split)
  show ?thesis using assms(2) d1 d2 d3 d4 ext unfolding run
    by (auto simp: open_log_def split: sum.splits)
qed

lemma vs_put_spec:
  assumes "open_log L t st d" and "length v < 2 ^ 64" and "vs_put v st d = (res, st', d')"
  shows "case res of
      Inr r \<Rightarrow> next_id_of L \<noteq> FENCE_ID \<and> r = \<lparr>br_id = next_id_of L, br_offset = length (blobs.frames L), br_len = length v\<rparr>
        \<and> open_log (L @ [(next_id_of L, v)]) [] st' d'
    | Inl _ \<Rightarrow> \<exists>t'. open_log L t' st' d'"
proof (cases "vs_poisoned st \<or> next_id_of L = FENCE_ID")
  case True
  then have "vs_put v st d = (Inl Other, st, d)"
    using assms(1) by (auto simp: vs_put_def vs_check_usable_def open_log_def)
  then show ?thesis using assms(1,3) by auto
next
  case False
  have o: "disk_log L [] d" "vs_next_id st = next_id_of L" "vs_end st = length (blobs.frames L)" "vs_index st = index_of L"
    using assms(1) False by (auto simp: open_log_def)
  have wf: "bm_wf (fs_files d)" and c: "fs_content BLOBS d = blobs.frames L" using o(1) by (simp_all add: disk_log_def)
  obtain r1 d1 where w: "write_record BLOBS (next_id_of L) v d = (r1, d1)" by fastforce
  obtain r2 d2 where s: "io_then (r1, d1) (fs_sync (Synced BLOBS)) = (r2, d2)" by fastforce
  obtain u where u: "prefix u (blob_frame (next_id_of L, v))" "r1 = Inr () \<longrightarrow> u = blob_frame (next_id_of L, v)"
    "fs_files d1 = bm_insert BLOBS (blobs.frames L @ u) (fs_files d)"
    using write_record_wrote [OF wf w] c by (auto simp: wrote_def)
  have "disk_log L u d1"
    using o(1) False u(1) assms(2) wrote_content(1,2) [OF wf u(3)] by (auto simp: disk_log_def torn_put_def)
  then have d2: "disk_log L u d2" using io_then_sync(1) [OF s] by (rule disk_log_files)
  have run: "vs_put v st d = (case r2 of
      Inl e \<Rightarrow> (case vs_roll_back st d2 of (st, d) \<Rightarrow> (Inl e, st, d))
    | Inr _ \<Rightarrow> (Inr \<lparr>br_id = next_id_of L, br_offset = length (blobs.frames L), br_len = length v\<rparr>,
        st\<lparr>vs_end := length (blobs.frames L) + 20 + length v, vs_next_id := next_id_of L + 1,
           vs_index := bm_insert (next_id_of L) (length (blobs.frames L), length v) (index_of L)\<rparr>, d2))"
    using False by (simp add: vs_put_def vs_check_usable_def o w s rec_sizes Let_def split: sum.split)
  show ?thesis
  proof (cases r2)
    case (Inl e)
    obtain r3 d3 where b: "io_then (fs_set_len BLOBS (length (blobs.frames L)) d2) (fs_sync (Synced BLOBS)) = (r3, d3)" by fastforce
    obtain t' where t': "disk_log L t' d3" "r3 = Inr () \<longrightarrow> t' = []" using cut_disk_log [OF d2 b] by blast
    have "vs_roll_back st d2 = (if r3 = Inr () then st else st\<lparr>vs_poisoned := True\<rparr>, d3)"
      by (cases r3) (simp_all add: vs_roll_back_def o b)
    then show ?thesis using t' o assms(3) Inl unfolding run by (auto simp: open_log_def split: if_splits)
  next
    case (Inr x)
    then have "r1 = Inr ()" using io_then_sync(2) [OF s] by simp
    then have "disk_log (L @ [(next_id_of L, v)]) [] d2" using d2 u(2) assms(2) False by (intro disk_log_adopt) auto
    then show ?thesis using assms(3) Inr False o next_id_put [of L v] unfolding run
      by (auto simp: open_log_def bm_insert_last index_of_snoc)
  qed
qed

text \<open>A read of the log.\<close>

lemma read_record:
  assumes "blob_ok (i, v)" and "fs_content BLOBS d = pre @ blob_frame (i, v) @ post"
    and "bm_get (vs_index st) i = Some (length pre, length v)" and "br_id r = i"
  shows "vs_get r st d = (if length v = br_len r then Some v else None)"
proof -
  have u: "unat (word_of_nat (length v) :: u64) = length v" using assms(1) by (simp add: blob_ok_def unat_u64_of_nat)
  show ?thesis
    using u by (auto simp: vs_get_def assms(2-4) read_or_eof_def rec_sizes Let_def blob_frame_def crc_two)
qed

lemma vs_get_spec:
  assumes "open_log L t st d"
  shows "vs_get r st d = (case map_of (real L) (br_id r) of None \<Rightarrow> None | Some v \<Rightarrow> if length v = br_len r then Some v else None)"
proof -
  have dis: "distinct (map fst (real L))" and ok: "list_all blob_ok L" and ix: "vs_index st = index_of L"
    and c: "fs_content BLOBS d = blobs.frames L @ t"
    using assms by (simp_all add: open_log_def disk_log_def log_ok_def)
  show ?thesis
  proof (cases "map_of (real L) (br_id r)")
    case None
    then have "bm_get (index_of L) (br_id r) = None" unfolding map_of_eq_None_iff index_of_keys by simp
    then show ?thesis using None by (simp add: vs_get_def ix)
  next
    case (Some v)
    then have "br_id r \<noteq> FENCE_ID" "(br_id r, v) \<in> set L" by (simp_all add: map_of_real [OF dis])
    then obtain pre post where L: "L = pre @ (br_id r, v) # post" by (auto simp: in_set_conv_decomp)
    have "bm_get (index_of L) (br_id r) = Some (length (blobs.frames pre), length v)"
      unfolding index_of_get [OF dis] using L \<open>br_id r \<noteq> FENCE_ID\<close> by blast
    moreover have "blob_ok (br_id r, v)" using ok L by simp
    ultimately show ?thesis
      using read_record [of "br_id r" v d "blobs.frames pre" "blobs.frames post @ t" st r] c Some by (simp add: ix L)
  qed
qed

lemma fs_rename_spec:
  assumes "fs_rename src dst d = (res, d')" and "bm_wf (fs_files d)"
  shows "bm_wf (fs_files d')" and "res = Inr () \<Longrightarrow> fs_content dst d' = fs_content src d"
    and "res \<noteq> Inr () \<Longrightarrow> fs_files d' = fs_files d"
  using assms
  by (auto simp: fs_rename_def fs_content_def bm_wf_insert bm_wf_remove bm_get_insert split: prod.splits io_outcome.splits option.splits)

lemma compact_build_spec:
  assumes "open_log L [] st d" and "compact_build lv st d = (res, d')"
  shows "disk_log L [] d'"
    and "res = Inr (ix, fin) \<Longrightarrow> ix = index_of (compacted lv L) \<and> fin = length (blobs.frames (compacted lv L))
      \<and> fs_content BLOBS_TMP d' = blobs.frames (compacted lv L)"
proof -
  let ?K = "filter (\<lambda>r. fst r \<in> lv) (real L)"
  let ?D = "snd (fs_remove BLOBS_TMP d)"
  obtain r1 d1 where cn: "fs_create_new BLOBS_TMP ?D = (r1, d1)" by fastforce
  have d: "disk_log L [] d" and st: "vs_next_id st = next_id_of L" "vs_end st = length (blobs.frames L)"
    using assms(1) by (simp_all add: open_log_def)
  have k1: "keeps BLOBS d d1" using keeps_trans [OF keeps_remove keeps_create_new [OF _ cn]] by simp
  have d1: "disk_log L [] d1" using d k1 by (rule disk_log_keeps)
  have c1: "fs_content BLOBS_TMP d1 = []" if "r1 = Inr u" for u
  proof -
    have "bm_wf (fs_files ?D)" using d keeps_remove [of BLOBS BLOBS_TMP d] by (simp add: disk_log_def keeps_def)
    then show ?thesis using cn that
      by (auto simp: fs_create_new_def fs_content_def bm_get_insert split: prod.splits io_outcome.splits if_splits)
  qed
  obtain ix1 fin1 f1 d2 where sc: "scan_all (compact_sink lv) 0 L ([], 0, None, d1) = (ix1, fin1, f1, d2)" by (metis prod_cases4)
  have scan: "scan_records (compact_sink lv) (fs_content BLOBS d1) 0 ([], 0, None, d1) = ((ix1, fin1, f1, d2), length (blobs.frames L))"
    using d1 scan_log [of L "[]" _ "compact_sink lv"] by (simp add: disk_log_def log_ok_def sc)
  obtain r3 d3 where w: "write_record BLOBS_TMP FENCE_ID (u64_to_be (next_id_of L)) d2 = (r3, d3)" by fastforce
  obtain r4 d4 where s: "io_then (r3, d3) (\<lambda>d. io_then (fs_call d) (fs_sync (Synced BLOBS_TMP))) = (r4, d4)" by fastforce
  have f4: "fs_files d4 = fs_files d3" "r4 = Inr () \<Longrightarrow> r3 = Inr ()"
    using s by (auto simp: io_then_def split: sum.splits prod.splits dest!: sync_files call_files)
  have run: "compact_build lv st d = (case r1 of Inl e \<Rightarrow> (Inl e, d1) | Inr _ \<Rightarrow> case f1 of Some e \<Rightarrow> (Inl e, d2) | None \<Rightarrow>
      case r4 of Inl e \<Rightarrow> (Inl e, d4) | Inr _ \<Rightarrow> (Inr (ix1, fin1 + 28), d4))"
    unfolding compact_build_def cn by (simp add: scan w s st rec_sizes split: sum.split option.split)
  have kept: "kept_ok d1 ?K (ix1, fin1, f1, d2)" if "r1 = Inr u" for u
    using compact_scan_kept [of d1 "[]" "([], 0, None, d1)" lv L 0] d1 c1 [OF that] by (simp add: kept_ok_def disk_log_def sc)
  have d2: "disk_log L [] d2" "bm_wf (fs_files d2)" if "r1 = Inr u" for u
    using kept [OF that] d1 by (simp_all add: kept_ok_def disk_log_def fs_content_def)
  have wr: "wrote BLOBS_TMP (blob_frame (FENCE_ID, u64_to_be (next_id_of L))) r3 d2 d3" if "r1 = Inr u" for u
    using write_record_wrote [OF d2(2) [OF that] w] .
  have d4: "disk_log L [] d4" if "r1 = Inr u" for u
    using disk_log_files [OF disk_log_keeps [OF d2(1) [OF that] keeps_wrote [OF wr [OF that]]] f4(1)] by simp
  show "disk_log L [] d'" using assms(2) d1 d2(1) d4 unfolding run by (auto split: sum.splits option.splits)
  show "ix = index_of (compacted lv L) \<and> fin = length (blobs.frames (compacted lv L))
      \<and> fs_content BLOBS_TMP d' = blobs.frames (compacted lv L)" if "res = Inr (ix, fin)"
  proof -
    have ok: "r1 = Inr ()" "f1 = None" "r4 = Inr ()" "ix = ix1" "fin = fin1 + 28" "d' = d4"
      using assms(2) that unfolding run by (auto split: sum.splits option.splits)
    have k: "ix1 = index_of ?K" "fin1 = length (blobs.frames ?K)" "fs_content BLOBS_TMP d2 = blobs.frames ?K"
      using kept ok by (simp_all add: kept_ok_def)
    have "fs_files d3 = bm_insert BLOBS_TMP (blobs.frames ?K @ blob_frame (FENCE_ID, u64_to_be (next_id_of L))) (fs_files d2)"
      using wr [OF ok(1)] f4(2) [OF ok(3)] k(3) by (simp add: wrote_def)
    from wrote_content(1) [OF d2(2) [OF ok(1)] this] f4(1)
    have "fs_content BLOBS_TMP d4 = blobs.frames ?K @ blob_frame (FENCE_ID, u64_to_be (next_id_of L))"
      by (simp add: fs_content_def)
    then show ?thesis by (simp add: ok k compacted_def index_of_snoc)
  qed
qed

text \<open>
  A compaction that fails leaves the log and the store as they were, unless what failed is the
  sync after the rename: then the compacted log is in place, as after success.
\<close>

lemma vs_compact_spec:
  assumes "open_log L t st d" and "vs_compact lv st d = (res, st', d')"
  shows "(\<exists>e. res = Inl e) \<and> st' = st \<and> open_log L t st d'
    \<or> t = [] \<and> open_log (compacted lv L) [] st' d' \<and> (\<forall>fin. res = Inr fin \<longrightarrow> fin = vs_end st')"
proof (cases "vs_poisoned st")
  case True
  then show ?thesis using assms by (auto simp: vs_compact_def vs_check_usable_def)
next
  case False
  then have t: "t = []" and o: "open_log L [] st d" using assms(1) by (auto simp: open_log_def)
  obtain r1 d1 where b: "compact_build lv st d = (r1, d1)" by fastforce
  have d1: "disk_log L [] d1" by (rule compact_build_spec [OF o b])
  have keep: "open_log L t st d2" if "fs_files d2 = fs_files d1" for d2
    using o d1 t disk_log_files [OF d1 that] by (simp add: open_log_def)
  show ?thesis
  proof (cases r1)
    case (Inl e)
    then show ?thesis using keep [OF refl] assms(2) False b by (auto simp: vs_compact_def vs_check_usable_def)
  next
    case (Inr x)
    obtain ix fin where x: "x = (ix, fin)" by fastforce
    note built = compact_build_spec(2) [OF o b, of ix fin, unfolded Inr x, OF refl]
    obtain r2 d2 where rn: "fs_rename BLOBS_TMP BLOBS d1 = (r2, d2)" by fastforce
    note ren = fs_rename_spec [OF rn]
    show ?thesis
    proof (cases r2)
      case (Inl e)
      then show ?thesis using keep ren(3) d1 assms(2) False b Inr x rn
        by (auto simp: vs_compact_def vs_check_usable_def disk_log_def)
    next
      case Inr2: (Inr u)
      let ?st = "st\<lparr>vs_index := ix, vs_end := fin\<rparr>"
      obtain r3 d3 where s: "fs_sync SyncedDir d2 = (r3, d3)" by fastforce
      have "disk_log (compacted lv L) [] d2"
        using d1 ren(1,2) Inr2 built log_ok_compacted [of L lv] by (simp add: disk_log_def torn_put_def)
      then have "open_log (compacted lv L) [] ?st d3"
        using o built disk_log_files [OF _ sync_files [OF s]] by (simp add: open_log_def next_id_compacted)
      moreover have "st' = ?st \<and> d' = d3 \<and> (\<forall>n. res = Inr n \<longrightarrow> n = fin)"
        using assms(2) False b Inr x rn Inr2 s by (auto simp: vs_compact_def vs_check_usable_def Let_def split: sum.splits)
      ultimately show ?thesis using t by auto
    qed
  qed
qed

subsection \<open>Lives of a value store\<close>

text \<open>
  Any sequence of opens, puts, compactions and crashes, each with any pattern of I/O failures; a
  crash inside a call is a run in which all its later I/O calls fail. \<open>A\<close> lists every handle ever
  returned with its value, \<open>K\<close> the ids every compaction since was told to keep, and \<open>D\<close> the ids some
  successful compaction was told to drop.
\<close>

type_synonym handles = "(blob_ref \<times> bytes) list"

abbreviation handle_ids :: "handles \<Rightarrow> u64 set" where
  "handle_ids A \<equiv> (\<lambda>a. br_id (fst a)) ` set A"

inductive vs_reach :: "handles \<Rightarrow> u64 set \<Rightarrow> u64 set \<Rightarrow> vstore option \<Rightarrow> fs \<Rightarrow> bool" where
  vr_init: "bm_wf (fs_files d) \<Longrightarrow> \<not> fs_exists BLOBS d \<Longrightarrow> vs_reach [] {} {} None d"
| vr_open: "vs_reach A K D None d \<Longrightarrow> vs_open (d\<lparr>fs_outcomes := outs\<rparr>) = (Inr st, d') \<Longrightarrow> vs_reach A K D (Some st) d'"
| vr_open_fails: "vs_reach A K D None d \<Longrightarrow> vs_open (d\<lparr>fs_outcomes := outs\<rparr>) = (Inl e, d') \<Longrightarrow> vs_reach A K D None d'"
| vr_put: "vs_reach A K D (Some st) d \<Longrightarrow> length v < 2 ^ 64 \<Longrightarrow> vs_put v st d = (Inr r, st', d')
    \<Longrightarrow> vs_reach (A @ [(r, v)]) (insert (br_id r) K) D (Some st') d'"
| vr_put_fails: "vs_reach A K D (Some st) d \<Longrightarrow> length v < 2 ^ 64 \<Longrightarrow> vs_put v st d = (Inl e, st', d')
    \<Longrightarrow> vs_reach A K D (Some st') d'"
| vr_compact: "vs_reach A K D (Some st) d \<Longrightarrow> vs_compact lv st d = (Inr fin, st', d')
    \<Longrightarrow> vs_reach A (K \<inter> lv) (D \<union> (handle_ids A - lv)) (Some st') d'"
| vr_compact_fails: "vs_reach A K D (Some st) d \<Longrightarrow> vs_compact lv st d = (Inl e, st', d')
    \<Longrightarrow> vs_reach A (K \<inter> lv) D (Some st') d'"
| vr_crash: "vs_reach A K D (Some st) d \<Longrightarrow> vs_reach A K D None d"

text \<open>How the handles relate to the log.\<close>

definition blob_at :: "blob list \<Rightarrow> u64 \<Rightarrow> bytes option" where
  "blob_at L i = map_of (real L) i"

definition handle_ok :: "u64 set \<Rightarrow> blob list \<Rightarrow> blob_ref \<times> bytes \<Rightarrow> bool" where
  "handle_ok K L a \<longleftrightarrow> br_id (fst a) < next_id_of L \<and> br_len (fst a) = length (snd a)
     \<and> blob_at L (br_id (fst a)) \<in> (if br_id (fst a) \<in> K then {Some (snd a)} else {None, Some (snd a)})"

definition handles_ok :: "handles \<Rightarrow> u64 set \<Rightarrow> u64 set \<Rightarrow> blob list \<Rightarrow> bool" where
  "handles_ok A K D L \<longleftrightarrow> distinct (map (\<lambda>a. br_id (fst a)) A) \<and> list_all (handle_ok K L) A
     \<and> (\<forall>i \<in> D. i < next_id_of L \<and> blob_at L i = None)"

lemma blob_at_put:
  assumes "next_id_of L \<noteq> FENCE_ID"
  shows "j \<noteq> next_id_of L \<Longrightarrow> blob_at (L @ [(next_id_of L, v)]) j = blob_at L j"
    and "blob_at (L @ [(next_id_of L, v)]) (next_id_of L) = Some v"
    and "j \<le> next_id_of L \<Longrightarrow> j < next_id_of (L @ [(next_id_of L, v)])"
proof -
  have "map_of (real L) (next_id_of L) = None"
    using real_below_next [of "next_id_of L" L] unfolding map_of_eq_None_iff by blast
  then show "blob_at (L @ [(next_id_of L, v)]) (next_id_of L) = Some v" using assms by (simp add: blob_at_def map_add_def)
  show "blob_at (L @ [(next_id_of L, v)]) j = blob_at L j" if "j \<noteq> next_id_of L"
    using assms that by (simp add: blob_at_def map_add_def split: option.split)
  show "j < next_id_of (L @ [(next_id_of L, v)])" if "j \<le> next_id_of L"
    using assms that by (simp add: next_id_put FENCE_ID_def word_less_succ)
qed

lemma blob_at_compacted: "blob_at (compacted lv L) i = (if i \<in> lv then blob_at L i else None)"
  by (simp add: blob_at_def real_compacted bm_get_filter_key [where p = "\<lambda>i. i \<in> lv"])

lemma handle_adopt: "handle_ok K L a \<Longrightarrow> next_id_of L \<noteq> FENCE_ID \<Longrightarrow> handle_ok K (L @ [(next_id_of L, v)]) a"
  unfolding handle_ok_def using blob_at_put(1,3) [of L "br_id (fst a)" v] by (metis less_imp_le less_irrefl)

lemma handle_insert: "handle_ok K L a \<Longrightarrow> br_id (fst a) \<noteq> i \<Longrightarrow> handle_ok (insert i K) L a"
  unfolding handle_ok_def by simp

lemma handle_compact: "handle_ok K L a \<Longrightarrow> handle_ok (K \<inter> lv) (compacted lv L) a"
  unfolding handle_ok_def next_id_compacted blob_at_compacted by (auto split: if_splits)

lemma handles_adopt:
  "handles_ok A K D L \<Longrightarrow> next_id_of L \<noteq> FENCE_ID \<Longrightarrow> handles_ok A K D (L @ [(next_id_of L, v)])"
  unfolding handles_ok_def list_all_iff using blob_at_put(1,3) [of L _ v] by (auto simp: handle_adopt less_imp_le)

lemma handles_put:
  assumes "handles_ok A K D L" and "next_id_of L \<noteq> FENCE_ID" and "br_id r = next_id_of L" and "br_len r = length v"
  shows "handles_ok (A @ [(r, v)]) (insert (br_id r) K) D (L @ [(next_id_of L, v)])"
proof -
  have ne: "br_id (fst a) \<noteq> next_id_of L" if "a \<in> set A" for a
    using assms(1) that by (auto simp: handles_ok_def list_all_iff handle_ok_def)
  then have "next_id_of L \<notin> handle_ids A" by (metis imageE)
  then have "distinct (map (\<lambda>a. br_id (fst a)) (A @ [(r, v)]))"
    using assms(1,3) by (simp add: handles_ok_def)
  moreover have "list_all (handle_ok (insert (br_id r) K) (L @ [(next_id_of L, v)])) A"
    using handles_adopt [OF assms(1,2)] ne assms(3) by (auto simp: handles_ok_def list_all_iff intro: handle_insert)
  moreover have "handle_ok (insert (br_id r) K) (L @ [(next_id_of L, v)]) (r, v)"
    using assms(3,4) blob_at_put(2,3) [OF assms(2)] by (simp add: handle_ok_def)
  ultimately show ?thesis using handles_adopt [OF assms(1,2)] by (simp add: handles_ok_def)
qed

lemma handles_mono: "handles_ok A K D L \<Longrightarrow> K' \<subseteq> K \<Longrightarrow> handles_ok A K' D L"
  unfolding handles_ok_def list_all_iff handle_ok_def by (auto split: if_splits)

lemma handles_compact:
  assumes "handles_ok A K D L"
  shows "handles_ok A (K \<inter> lv) (D \<union> (handle_ids A - lv)) (compacted lv L)"
proof -
  have "i < next_id_of L \<and> blob_at (compacted lv L) i = None" if "i \<in> D \<union> (handle_ids A - lv)" for i
    using that assms by (auto simp: handles_ok_def list_all_iff handle_ok_def blob_at_compacted)
  then show ?thesis using assms by (auto simp: handles_ok_def list_all_iff handle_compact next_id_compacted)
qed

lemma handles_extend:
  assumes "handles_ok A K D L" and "L' = L \<or> next_id_of L \<noteq> FENCE_ID \<and> (\<exists>v. L' = L @ [(next_id_of L, v)])"
  shows "handles_ok A K D L'"
  using assms handles_adopt by auto

definition life_ok :: "handles \<Rightarrow> u64 set \<Rightarrow> u64 set \<Rightarrow> vstore option \<Rightarrow> fs \<Rightarrow> bool" where
  "life_ok A K D so d \<longleftrightarrow> (\<exists>L t. handles_ok A K D L
     \<and> (case so of None \<Rightarrow> disk_log L t d | Some st \<Rightarrow> open_log L t st d))"

lemma vs_reach_ok: "vs_reach A K D so d \<Longrightarrow> life_ok A K D so d"
proof (induction rule: vs_reach.induct)
  case (vr_init d)
  then have "disk_log [] [] d" by (simp add: disk_log_def log_ok_def torn_put_def fs_content_def fs_exists_def split: option.split)
  then show ?case by (auto simp: life_ok_def handles_ok_def intro!: exI [of _ "[]"])
next
  case (vr_open A K D d outs st d')
  then obtain L t where "handles_ok A K D L" "disk_log L t d" by (auto simp: life_ok_def)
  then show ?case using vs_open_spec [OF disk_log_files vr_open.hyps(2), of L t d] handles_extend
    by (fastforce simp: life_ok_def)
next
  case (vr_open_fails A K D d outs e d')
  then obtain L t where "handles_ok A K D L" "disk_log L t d" by (auto simp: life_ok_def)
  then show ?case using vs_open_spec [OF disk_log_files vr_open_fails.hyps(2), of L t d] handles_extend
    by (fastforce simp: life_ok_def)
next
  case (vr_put A K D st d v r st' d')
  then obtain L t where "handles_ok A K D L" "open_log L t st d" by (auto simp: life_ok_def)
  with vs_put_spec [OF this(2) vr_put.hyps(2,3)] handles_put [of A K D L r v] show ?case
    by (auto simp: life_ok_def)
next
  case (vr_put_fails A K D st d v e st' d')
  then obtain L t where "handles_ok A K D L" "open_log L t st d" by (auto simp: life_ok_def)
  with vs_put_spec [OF this(2) vr_put_fails.hyps(2,3)] show ?case by (auto simp: life_ok_def)
next
  case (vr_compact A K D st d lv fin st' d')
  then obtain L t where "handles_ok A K D L" "open_log L t st d" by (auto simp: life_ok_def)
  with vs_compact_spec [OF this(2) vr_compact.hyps(2)] handles_compact [of A K D L lv] show ?case
    by (auto simp: life_ok_def)
next
  case (vr_compact_fails A K D st d lv e st' d')
  then obtain L t where L: "handles_ok A K D L" "open_log L t st d" by (auto simp: life_ok_def)
  have "handles_ok A (K \<inter> lv) D L" using L(1) by (rule handles_mono) simp
  moreover have "handles_ok A (K \<inter> lv) D (compacted lv L)"
    using handles_compact [OF L(1), of lv] by (auto simp: handles_ok_def)
  ultimately show ?case using vs_compact_spec [OF L(2) vr_compact_fails.hyps(2)] by (auto simp: life_ok_def)
next
  case (vr_crash A K D st d)
  then show ?case by (auto simp: life_ok_def open_log_def)
qed

subsection \<open>Healthy runs\<close>

lemma healthy_calls:
  assumes "fs_outcomes d = []"
  shows "\<exists>d'. fs_write_all name b d = (Inr (), d') \<and> fs_outcomes d' = []" and "fs_sync ev d = (Inr (), fs_note ev d)"
  using assms by (simp_all add: fs_write_all_def fs_sync_def)

lemma healthy_record: "fs_outcomes d = [] \<Longrightarrow> \<exists>d'. write_record name i v d = (Inr (), d') \<and> fs_outcomes d' = []"
  by (simp add: write_record_def Let_def fs_write_all_def)

lemma healthy_scan:
  "fs_outcomes d = [] \<Longrightarrow> \<exists>ix' fin' d'. scan_all (compact_sink lv) pos L (ix, fin, None, d) = (ix', fin', None, d') \<and> fs_outcomes d' = []"
proof (induction L arbitrary: pos ix fin d)
  case (Cons r L)
  obtain d1 where "write_record BLOBS_TMP (fst r) (snd r) d = (Inr (), d1)" "fs_outcomes d1 = []"
    using healthy_record [OF Cons.prems] by blast
  then obtain ix1 fin1 d1 where "compact_sink lv (fst r) pos (snd r) (ix, fin, None, d) = (ix1, fin1, None, d1)" "fs_outcomes d1 = []"
    using Cons.prems by (cases "fst r = FENCE_ID \<or> fst r \<notin> lv") (auto simp: compact_sink_def)
  with Cons.IH show ?case by simp
qed simp

lemma healthy_put:
  assumes "fs_outcomes d = []" and "\<not> vs_poisoned st" and "vs_next_id st \<noteq> FENCE_ID"
  shows "\<exists>r st' d'. vs_put v st d = (Inr r, st', d') \<and> fs_outcomes d' = [] \<and> \<not> vs_poisoned st'"
proof -
  obtain d' where "write_record BLOBS (vs_next_id st) v d = (Inr (), d')" "fs_outcomes d' = []" using healthy_record [OF assms(1)] by blast
  then show ?thesis using assms(2,3) healthy_calls(2) [of d'] by (simp add: vs_put_def vs_check_usable_def Let_def)
qed

lemma healthy_build:
  assumes "open_log L [] st d" and "fs_outcomes d = []"
  obtains ix fin d' where "compact_build lv st d = (Inr (ix, fin), d')" "fs_outcomes d' = []"
proof -
  have wf: "bm_wf (fs_files d)" using assms(1) by (simp add: open_log_def disk_log_def)
  obtain d1 where d1: "fs_create_new BLOBS_TMP (snd (fs_remove BLOBS_TMP d)) = (Inr (), d1)" "fs_outcomes d1 = []"
  proof -
    let ?D = "snd (fs_remove BLOBS_TMP d)"
    have "fs_outcomes ?D = []" "\<not> fs_exists BLOBS_TMP ?D"
      using assms(2) by (simp_all add: fs_remove_def fs_exists_def bm_get_remove)
    then show thesis using that [of "fs_create BLOBS_TMP ?D"] by (simp add: fs_create_new_def)
  qed
  have "keeps BLOBS d d1" using keeps_trans [OF keeps_remove keeps_create_new [OF _ d1(1)]] by simp
  then have "disk_log L [] d1" using assms(1) by (auto simp: open_log_def intro: disk_log_keeps)
  then have sc: "scan_records (compact_sink lv) (fs_content BLOBS d1) 0 ([], 0, None, d1)
      = (scan_all (compact_sink lv) 0 L ([], 0, None, d1), length (blobs.frames L))"
    using scan_log [of L "[]" _ "compact_sink lv"] by (simp add: disk_log_def log_ok_def)
  obtain ix fin d2 where d2: "scan_all (compact_sink lv) 0 L ([], 0, None, d1) = (ix, fin, None, d2)" "fs_outcomes d2 = []"
    using healthy_scan [OF d1(2)] by blast
  obtain d3 where d3: "write_record BLOBS_TMP FENCE_ID (u64_to_be (vs_next_id st)) d2 = (Inr (), d3)" "fs_outcomes d3 = []"
    using healthy_record [OF d2(2)] by blast
  show thesis
    by (rule that [of ix "fin + 28" "fs_note (Synced BLOBS_TMP) d3"])
      (use assms(1) d1 d2 d3 healthy_calls(2) [of d3] in \<open>simp_all add: compact_build_def sc open_log_def rec_sizes fs_call_def\<close>)
qed

lemma healthy_compact:
  assumes "open_log L t st d" and "fs_outcomes d = []" and "\<not> vs_poisoned st"
  shows "\<exists>fin st' d'. vs_compact lv st d = (Inr fin, st', d')"
proof -
  have o: "open_log L [] st d" using assms(1,3) by (auto simp: open_log_def)
  obtain ix fin d1 where b: "compact_build lv st d = (Inr (ix, fin), d1)" "fs_outcomes d1 = []"
    by (rule healthy_build [OF o assms(2)])
  note c = compact_build_spec(2) [OF o b(1) refl]
  have "blobs.frames (compacted lv L) \<noteq> []" by (auto simp: compacted_def dest: arg_cong [where f = length])
  then obtain x where x: "bm_get (fs_files d1) BLOBS_TMP = Some x"
    using c by (auto simp: fs_content_def split: option.splits)
  obtain d2 where "fs_rename BLOBS_TMP BLOBS d1 = (Inr (), d2)" "fs_outcomes d2 = []"
    using b(2) x by (simp add: fs_rename_def)
  then show ?thesis using b assms(3) healthy_calls(2) [of d2] by (simp add: vs_compact_def vs_check_usable_def Let_def)
qed

subsection \<open>The properties\<close>

text \<open>
  C10: over any sequence of opens, puts, compactions, crashes and I/O failures, a handle reads as its own
  value or as absent, never as another blob's bytes; it reads as its value while every
  compaction was told to keep it, as absent for ever once a successful one was told to drop
  it; and no id is handed out twice.
\<close>

theorem handles_read_back:
  assumes "vs_reach A K D (Some st) d"
  shows "(\<forall>(r, v) \<in> set A. vs_get r st d \<in> {None, Some v} \<and> (br_id r \<in> K \<longrightarrow> vs_get r st d = Some v)
      \<and> (br_id r \<in> D \<longrightarrow> vs_get r st d = None))
    \<and> distinct (map (\<lambda>a. br_id (fst a)) A)"
proof -
  obtain L t where L: "handles_ok A K D L" "open_log L t st d" using vs_reach_ok [OF assms] by (auto simp: life_ok_def)
  have "vs_get r st d = blob_at L (br_id r)" if "(r, v) \<in> set A" for r v
    using that L(1) vs_get_spec [OF L(2), of r]
    by (auto simp: handles_ok_def list_all_iff handle_ok_def blob_at_def split: option.splits if_splits)
  moreover have "handle_ok K L (r, v)" if "(r, v) \<in> set A" for r v
    using L(1) that by (auto simp: handles_ok_def list_all_iff)
  ultimately show ?thesis using L(1) by (fastforce simp: handles_ok_def handle_ok_def split: if_splits)
qed

text \<open>
  On a healthy directory a put of a store that is not poisoned and has ids left succeeds,
  under an id never used before; the handle reads back the value, also in the next life, and every
  other handle reads as before.
\<close>

theorem put_get_roundtrip:
  assumes "vs_reach A K D (Some st) d" and "fs_outcomes d = []" and "\<not> vs_poisoned st" and "vs_next_id st \<noteq> FENCE_ID"
    and "length v < 2 ^ 64"
  shows "\<exists>r st' d'. vs_put v st d = (Inr r, st', d') \<and> vs_get r st' d' = Some v \<and> br_id r \<notin> handle_ids A
    \<and> (\<forall>q. br_id q \<noteq> br_id r \<longrightarrow> vs_get q st' d' = vs_get q st d)
    \<and> (\<forall>outs st2 d2. vs_open (d'\<lparr>fs_outcomes := outs\<rparr>) = (Inr st2, d2) \<longrightarrow> vs_get r st2 d2 = Some v)"
proof -
  obtain L t where L: "handles_ok A K D L" "open_log L t st d" using vs_reach_ok [OF assms(1)] by (auto simp: life_ok_def)
  obtain r st' d' where p: "vs_put v st d = (Inr r, st', d')" using healthy_put [OF assms(2-4)] by blast
  have s: "next_id_of L \<noteq> FENCE_ID" "br_id r = next_id_of L" "br_len r = length v" "open_log (L @ [(next_id_of L, v)]) [] st' d'"
    using vs_put_spec [OF L(2) assms(5) p] by auto
  have get: "vs_get q st' d' = (case blob_at (L @ [(next_id_of L, v)]) (br_id q) of None \<Rightarrow> None | Some w \<Rightarrow> if length w = br_len q then Some w else None)" for q
    using vs_get_spec [OF s(4)] by (simp add: blob_at_def)
  have reach: "vs_reach (A @ [(r, v)]) (insert (br_id r) K) D (Some st') d'" using vr_put [OF assms(1,5) p] .
  have "vs_get r st2 d2 = Some v" if re: "vs_open (d'\<lparr>fs_outcomes := outs\<rparr>) = (Inr st2, d2)" for outs st2 d2
  proof -
    obtain L2 t2 where L2: "handles_ok (A @ [(r, v)]) (insert (br_id r) K) D L2" "open_log L2 t2 st2 d2"
      using vs_reach_ok [OF vr_open [OF vr_crash [OF reach] re]] by (auto simp: life_ok_def)
    then have "blob_at L2 (br_id r) = Some v" by (simp add: handles_ok_def handle_ok_def)
    then show ?thesis using vs_get_spec [OF L2(2), of r] s(3) by (simp add: blob_at_def)
  qed
  moreover have "br_id r \<notin> handle_ids A" using vs_reach_ok [OF reach] by (auto simp: life_ok_def handles_ok_def)
  moreover have "vs_get q st' d' = vs_get q st d" if "br_id q \<noteq> br_id r" for q
    using get [of q] vs_get_spec [OF L(2), of q] blob_at_put(1) [OF s(1)] that s(2) by (simp add: blob_at_def)
  moreover have "vs_get r st' d' = Some v" using get [of r] blob_at_put(2) [OF s(1)] s(2,3) by simp
  ultimately show ?thesis using p by blast
qed

text \<open>
  C12: a compaction of a store that is not poisoned succeeds on a healthy directory. Whatever fails,
  it is all or nothing: either every handle reads as before, or exactly those to kept blobs
  do and the others read as absent; after success it is the latter. The next id never changes.
\<close>

theorem compact_atomic:
  assumes "vs_reach A K D (Some st) d"
  shows "(fs_outcomes d = [] \<longrightarrow> \<not> vs_poisoned st \<longrightarrow> (\<exists>fin st' d'. vs_compact lv st d = (Inr fin, st', d')))
    \<and> (\<forall>res st' d'. vs_compact lv st d = (res, st', d') \<longrightarrow> vs_next_id st' = vs_next_id st
        \<and> ((\<exists>e. res = Inl e) \<and> (\<forall>r. vs_get r st' d' = vs_get r st d)
          \<or> (\<forall>r. vs_get r st' d' = (if br_id r \<in> lv then vs_get r st d else None))))"
proof -
  obtain L t where L: "open_log L t st d" using vs_reach_ok [OF assms] by (auto simp: life_ok_def)
  have "vs_next_id st' = vs_next_id st \<and> ((\<exists>e. res = Inl e) \<and> (\<forall>r. vs_get r st' d' = vs_get r st d)
          \<or> (\<forall>r. vs_get r st' d' = (if br_id r \<in> lv then vs_get r st d else None)))"
    if run: "vs_compact lv st d = (res, st', d')" for res st' d'
    using vs_compact_spec [OF L run]
  proof (elim disjE conjE)
    assume a: "\<exists>e. res = Inl e" "st' = st" "open_log L t st d'"
    then show ?thesis using vs_get_spec [OF L] vs_get_spec [OF a(3)] by simp
  next
    assume a: "t = []" "open_log (compacted lv L) [] st' d'"
    have "vs_get r st' d' = (if br_id r \<in> lv then vs_get r st d else None)" for r
      using vs_get_spec [OF L, of r] vs_get_spec [OF a(2), of r] blob_at_compacted [of lv L "br_id r"]
      by (simp add: blob_at_def)
    moreover have "vs_next_id st' = vs_next_id st" using a(2) L by (simp add: open_log_def next_id_compacted)
    ultimately show ?thesis by blast
  qed
  then show ?thesis using healthy_compact [OF L] by blast
qed

subsection \<open>Witnesses\<close>

definition new_values :: "vstore \<times> fs" where
  "new_values = (\<lparr>vs_next_id = 0, vs_end = 0, vs_index = [], vs_poisoned = False\<rparr>, \<lparr>fs_files = [(BLOBS, [])], fs_outcomes = [],
     fs_disk = disk_step SyncedDir (disk_step (Created BLOBS) (boot []))\<rparr>)"

lemma new_values_reach: "vs_reach [] {} {} (Some (fst new_values)) (snd new_values)"
proof (rule vr_open [of _ _ _ "\<lparr>fs_files = [], fs_outcomes = [], fs_disk = boot []\<rparr>" "[]"])
  show "vs_reach [] {} {} None \<lparr>fs_files = [], fs_outcomes = [], fs_disk = boot []\<rparr>" by (rule vr_init) (simp_all add: fs_exists_def)
  show "vs_open (\<lparr>fs_files = [], fs_outcomes = [], fs_disk = boot []\<rparr>\<lparr>fs_outcomes := []\<rparr>) = (Inr (fst new_values), snd new_values)"
    by (simp add: vs_open_def new_values_def fs_exists_def fs_call_def fs_sync_def fs_open_create_def fs_create_def
        fs_set_def fs_note_def fs_content_def scan_records.simps REC_HDR_def)
qed

lemma one_value:
  obtains r st d where "vs_reach [(r, [1, 2])] {br_id r} {} (Some st) d" "fs_outcomes d = []" "\<not> vs_poisoned st"
    "r = \<lparr>br_id = 0, br_offset = 0, br_len = 2\<rparr>"
proof -
  have n: "fs_outcomes (snd new_values) = []" "\<not> vs_poisoned (fst new_values)" "vs_next_id (fst new_values) = 0"
    "vs_end (fst new_values) = 0"
    by (simp_all add: new_values_def)
  obtain r st d where p: "vs_put [1, 2] (fst new_values) (snd new_values) = (Inr r, st, d)" "fs_outcomes d = []" "\<not> vs_poisoned st"
    using healthy_put [OF n(1,2)] n(3) by (fastforce simp: FENCE_ID_def)
  have "vs_reach ([] @ [(r, [1, 2])]) (insert (br_id r) {}) {} (Some st) d"
    by (rule vr_put [OF new_values_reach _ p(1)]) simp
  moreover have "r = \<lparr>br_id = 0, br_offset = 0, br_len = 2\<rparr>"
    using p(1) n(2-4) by (auto simp: vs_put_def vs_check_usable_def Let_def FENCE_ID_def split: prod.splits sum.splits)
  ultimately show thesis using that p by simp
qed

theorem handles_read_back_witness:
  "\<exists>st d. vs_get \<lparr>br_id = 0, br_offset = 0, br_len = 2\<rparr> st d = Some [1, 2]"
proof -
  obtain r st d where o: "vs_reach [(r, [1, 2])] {br_id r} {} (Some st) d" "r = \<lparr>br_id = 0, br_offset = 0, br_len = 2\<rparr>"
    by (rule one_value)
  from handles_read_back [OF o(1)] o(2) show ?thesis by auto
qed

theorem put_get_roundtrip_witness:
  "\<exists>r st d. vs_put [9] (fst new_values) (snd new_values) = (Inr r, st, d) \<and> vs_get r st d = Some [9]"
  using put_get_roundtrip [OF new_values_reach, of "[9]"] by (auto simp: new_values_def FENCE_ID_def)

theorem compact_atomic_witness:
  "\<exists>st0 d0 fin st d. vs_compact {5} st0 d0 = (Inr fin, st, d)
     \<and> vs_get \<lparr>br_id = 0, br_offset = 0, br_len = 2\<rparr> st d = None \<and> vs_next_id st = vs_next_id st0"
proof -
  obtain r st0 d0 where o: "vs_reach [(r, [1, 2])] {br_id r} {} (Some st0) d0" "fs_outcomes d0 = []" "\<not> vs_poisoned st0"
    by (rule one_value)
  then obtain fin st d where run: "vs_compact {5} st0 d0 = (Inr fin, st, d)"
    using compact_atomic [OF o(1), of "{5}"] by blast
  then have "vs_next_id st = vs_next_id st0 \<and> (\<forall>r. vs_get r st d = (if br_id r \<in> {5} then vs_get r st0 d0 else None))"
    using compact_atomic [OF o(1), of "{5}"] by blast
  then have "vs_get \<lparr>br_id = 0, br_offset = 0, br_len = 2\<rparr> st d = None \<and> vs_next_id st = vs_next_id st0" by simp
  with run show ?thesis by blast
qed

end
