(* ===== verification/Value_Power.thy ===== *)
theory Value_Power
  imports Value_Store
begin

text \<open>
  The value store (\<^verbatim>\<open>src/valuestore.rs\<close>) and power failures. A handle is durable when the directory entry of the blob log
  is; but two failed syncs of the directory are forgotten, and a handle returned after one of them can be lost.
\<close>

subsection \<open>A put into a log whose directory entry is durable\<close>

text \<open>Calls on the blob log leave the directory as it is.\<close>

definition same_dir :: "fs \<Rightarrow> fs \<Rightarrow> bool" where
  "same_dir d d' \<longleftrightarrow> linked d' \<and> dk_dir (fs_disk d') = dk_dir (fs_disk d) \<and> dk_dirs (fs_disk d') = dk_dirs (fs_disk d)"

lemma same_dir_exists: "same_dir d d' \<Longrightarrow> linked d \<Longrightarrow> fs_exists x d' = fs_exists x d"
  by (simp add: same_dir_def linked_exists)

lemma same_dir_write:
  assumes "linked d" and "fs_exists x d" and "fs_write_all x b d = (r, d')"
  shows "same_dir d d'"
proof -
  obtain n where "fs_disk d' = disk_step (Wrote x (take n b)) (fs_disk d)" using assms(3) by (rule write_disk) blast
  then show ?thesis
    using linked_calls(4) [OF assms] by (auto simp: same_dir_def disk_step.simps dk_modify_def split: option.split)
qed

lemma same_dir_then:
  assumes "same_dir d d1" and "\<And>u. r1 = Inr u \<Longrightarrow> f d1 = (r, d2) \<Longrightarrow> same_dir d1 d2" and "io_then (r1, d1) f = (r, d2)"
  shows "same_dir d d2"
  using assms by (cases r1) (auto simp: same_dir_def)

lemma same_dir_record:
  assumes lk: "linked d" and ex: "fs_exists x d" and run: "write_record x i v d = (r, d')"
  shows "same_dir d d'"
proof -
  have step: "same_dir d0 d2" if "same_dir d d0" "fs_write_all x b d0 = (r2, d2)" for d0 b r2 d2
    by (rule same_dir_write [OF _ _ that(2)]) (use that(1) ex same_dir_exists [OF that(1) lk] in \<open>simp_all add: same_dir_def\<close>)
  have trans: "same_dir d d2" if "same_dir d d0" "same_dir d0 d2" for d0 d2 using that by (simp add: same_dir_def)
  have refl: "same_dir d d" using lk by (simp add: same_dir_def)
  let ?h = "u64_to_be i" and ?l = "u64_to_be (word_of_nat (length v))"
  obtain r1 d1 where c1: "fs_write_all x ?h d = (r1, d1)" by force
  obtain r2 d2 where c2: "io_then (r1, d1) (fs_write_all x ?l) = (r2, d2)" by force
  obtain r3 d3 where c3: "io_then (r2, d2) (fs_write_all x v) = (r3, d3)" by force
  have s1: "same_dir d d1" using step [OF refl c1] .
  have s2: "same_dir d d2" by (rule same_dir_then [OF s1 _ c2]) (rule step [OF s1])
  have s3: "same_dir d d3" by (rule same_dir_then [OF s2 _ c3]) (rule step [OF s2])
  have c4: "io_then (r3, d3) (fs_write_all x (u32_to_be (blob_crc ?h ?l v))) = (r, d')"
    using run c1 c2 c3 by (cases r1; cases r2; cases r3) (auto simp: write_record_def Let_def)
  show ?thesis by (rule same_dir_then [OF s3 _ c4]) (rule step [OF s3])
qed

lemma put_on_medium:
  assumes lk: "linked d" and ex: "fs_exists BLOBS d" and run: "vs_put v st d = (Inr r, st', d')"
  obtains i where "same_dir d d'" and "bm_get (dk_dir (fs_disk d')) BLOBS = Some i" and "dk_maybe (fs_disk d') i = {dk_data (fs_disk d') i}"
proof -
  obtain r1 d1 where c1: "write_record BLOBS (vs_next_id st) v d = (r1, d1)" by force
  have c2: "r1 = Inr ()" "fs_sync (Synced BLOBS) d1 = (Inr (), d')"
    using run c1 by (cases r1; cases "fs_sync (Synced BLOBS) d1"; cases "fst (fs_sync (Synced BLOBS) d1)";
        auto simp: vs_put_def vs_check_usable_def Let_def split: if_splits prod.splits)+
  have s1: "same_dir d d1" using same_dir_record [OF lk ex c1] .
  have k: "fs_disk d' = disk_step (Synced BLOBS) (fs_disk d1)" using sync_disk [OF c2(2)] by simp
  obtain i where i: "bm_get (dk_dir (fs_disk d1)) BLOBS = Some i"
    using s1 ex linked_exists [OF lk, of BLOBS] by (auto simp: same_dir_def)
  have "linked d'" using s1 linked_calls(2) [OF _ c2(2)] by (simp add: same_dir_def)
  then show thesis using s1 i k by (intro that [of i]) (simp_all add: same_dir_def disk_step.simps)
qed

lemma vs_open_healthy: "fs_outcomes d = [] \<Longrightarrow> \<exists>st d'. vs_open d = (Inr st, d')"
  by (auto simp: vs_open_def fs_call_def fs_open_create_def fs_sync_def fs_set_len_def Let_def split: prod.split)

text \<open>
  C11: a put is durable once the log's directory entry is. When it returns a handle, then whatever part of the writes that are not
  synced a power failure loses, the next open succeeds and reads that handle as its value, and so every
  earlier one that all compactions were told to keep.
\<close>

theorem put_survives_power_cut:
  assumes reach: "vs_reach A K D (Some st) d" and lk: "linked d" and ex: "fs_exists BLOBS d"
    and dir: "dk_dirs (fs_disk d) = {dk_dir (fs_disk d)}" and len: "length v < 2 ^ 64"
    and put: "vs_put v st d = (Inr r, st', d')" and cut: "cut d' d2"
  shows "\<exists>st3 d3. vs_open d2 = (Inr st3, d3) \<and> vs_get r st3 d3 = Some v
    \<and> (\<forall>(q, w) \<in> set A. br_id q \<in> K \<longrightarrow> vs_get q st3 d3 = Some w)"
proof -
  obtain i where i: "same_dir d d'" "bm_get (dk_dir (fs_disk d')) BLOBS = Some i" "dk_maybe (fs_disk d') i = {dk_data (fs_disk d') i}"
    by (rule put_on_medium [OF lk ex put])
  have "linked d'" "dk_dirs (fs_disk d') = {dk_dir (fs_disk d')}" using i(1) dir by (simp_all add: same_dir_def)
  note found = cut_durable [OF cut this i(2,3)]
  obtain L t where L: "handles_ok (A @ [(r, v)]) (insert (br_id r) K) D L" "open_log L t st' d'"
    using vs_reach_ok [OF vr_put [OF reach len put]] by (auto simp: life_ok_def)
  have "disk_log L t d2" using L(2) found by (simp add: open_log_def disk_log_def)
  moreover obtain st3 d3 where o: "vs_open d2 = (Inr st3, d3)" using vs_open_healthy [OF found(3)] by blast
  ultimately obtain L' where L': "handles_ok (A @ [(r, v)]) (insert (br_id r) K) D L'" "open_log L' [] st3 d3"
    using vs_open_spec [of L t d2 "Inr st3" d3] handles_extend [OF L(1)] by blast
  have "vs_get q st3 d3 = Some w" if "(q, w) \<in> set (A @ [(r, v)])" "br_id q \<in> insert (br_id r) K" for q w
    using L'(1) that vs_get_spec [OF L'(2), of q]
    by (force simp: handles_ok_def list_all_iff handle_ok_def blob_at_def)
  with o show ?thesis by auto
qed

lemma new_values_linked: "linked (snd new_values)"
proof -
  have "linked \<lparr>fs_files = [], fs_outcomes = [], fs_disk = boot []\<rparr>"
    using disk_wf_boot [of "[]"] by (simp add: linked_def image_boot boot_def)
  from linked_synced [OF linked_created [OF this, of BLOBS], of SyncedDir]
  show ?thesis by (simp add: new_values_def fs_create_def fs_note_def fs_set_def)
qed

theorem put_survives_power_cut_witness:
  "\<exists>r st d d2 st3 d3. vs_put [9] (fst new_values) (snd new_values) = (Inr r, st, d) \<and> cut d d2
     \<and> vs_open d2 = (Inr st3, d3) \<and> vs_get r st3 d3 = Some [9]"
proof -
  have n: "fs_outcomes (snd new_values) = []" "\<not> vs_poisoned (fst new_values)" "vs_next_id (fst new_values) \<noteq> FENCE_ID"
    "fs_exists BLOBS (snd new_values)" "dk_dirs (fs_disk (snd new_values)) = {dk_dir (fs_disk (snd new_values))}"
    by (simp_all add: new_values_def FENCE_ID_def fs_exists_def disk_step.simps)
  obtain r st d where p: "vs_put [9] (fst new_values) (snd new_values) = (Inr r, st, d)" using healthy_put [OF n(1-3)] by blast
  have "linked d" by (rule put_on_medium [OF new_values_linked n(4) p]) (simp add: same_dir_def)
  then have c: "cut d (power_on (fs_files d))" by (rule cut_nothing_lost)
  from put_survives_power_cut [OF new_values_reach new_values_linked n(4,5) _ p c] p c show ?thesis by auto
qed

subsection \<open>Directory syncs that failed and are forgotten\<close>

definition no_files :: fs where
  "no_files = \<lparr>fs_files = [], fs_outcomes = [], fs_disk = boot []\<rparr>"

text \<open>A new log on an empty directory, and what the next open finds of nothing.\<close>

lemmas vs_calls = fs_exists_def fs_call_def fs_sync_def fs_open_create_def fs_create_def fs_set_def fs_note_def fs_content_def
  fs_write_all_def fs_remove_def fs_create_new_def fs_rename_def fs_unset_def next_io_def scan_records.simps rec_sizes

lemma open_nothing:
  "vs_open (power_on []) = (Inr (fst new_values), snd new_values)" "vs_get r (fst new_values) (snd new_values) = None"
  by (simp_all add: vs_open_def new_values_def vs_get_def power_on_def vs_calls)

text \<open>
  The first open creates the log but fails to sync its directory. The second finds the log there, does not sync, and
  a put into it returns a handle; after a power failure the log itself is gone.
\<close>

theorem retried_open_loses_put:
  "\<exists>e d1 st d2 r st2 d3 d4 st4 d5. vs_open (no_files\<lparr>fs_outcomes := [IoOk, IoOk, IoErr Other 0]\<rparr>) = (Inl e, d1)
     \<and> vs_open d1 = (Inr st, d2) \<and> vs_put v st d2 = (Inr r, st2, d3) \<and> cut d3 d4
     \<and> vs_open d4 = (Inr st4, d5) \<and> vs_get r st4 d5 = None"
proof -
  let ?d = "\<lparr>fs_files = [(BLOBS, [])], fs_outcomes = [], fs_disk = disk_step (Created BLOBS) (boot [])\<rparr>"
  have o: "vs_open (no_files\<lparr>fs_outcomes := [IoOk, IoOk, IoErr Other 0]\<rparr>) = (Inl Other, ?d)" "vs_open ?d = (Inr (fst new_values), ?d)"
    by (simp_all add: vs_open_def no_files_def new_values_def vs_calls)
  have n: "\<not> vs_poisoned (fst new_values)" "vs_next_id (fst new_values) \<noteq> FENCE_ID" by (simp_all add: new_values_def FENCE_ID_def)
  have "fs_outcomes ?d = []" by simp
  from healthy_put [OF this n] obtain r st d where p: "vs_put v (fst new_values) ?d = (Inr r, st, d)" by blast
  have "linked no_files" using disk_wf_boot [of "[]"] by (simp add: linked_def no_files_def image_boot boot_def)
  from linked_created [OF this, of BLOBS] have lk: "linked ?d" by (simp add: no_files_def fs_create_def fs_set_def fs_note_def)
  have "fs_exists BLOBS ?d" by (simp add: fs_exists_def)
  from lk this p have s: "same_dir ?d d" by (rule put_on_medium)
  have "[] \<in> dk_dirs (fs_disk d)" using s by (simp add: same_dir_def disk_step.simps dk_rename_def Let_def boot_def boot_dir_def)
  moreover have "choice (fs_disk d) (dk_data (fs_disk d))" using s by (simp add: same_dir_def linked_def disk_wf_def choice_def)
  ultimately have c: "cut d (power_on [])" unfolding cut_def by force
  show ?thesis using o p c open_nothing by blast
qed

text \<open>What a compaction of an empty log and a put leave on the medium when all their calls but the directory sync succeed.\<close>

definition record_step :: "string \<Rightarrow> u64 \<Rightarrow> bytes \<Rightarrow> disk \<Rightarrow> disk" where
  "record_step x i v k =
     (let h = u64_to_be i; l = u64_to_be (word_of_nat (length v)) in
      disk_step (Wrote x (u32_to_be (blob_crc h l v))) (disk_step (Wrote x v) (disk_step (Wrote x l) (disk_step (Wrote x h) k))))"

lemma put_medium:
  assumes "fs_outcomes d = []" and "\<not> vs_poisoned st" and "vs_next_id st \<noteq> FENCE_ID"
  shows "\<exists>r st' d'. vs_put v st d = (Inr r, st', d') \<and> fs_disk d' = disk_step (Synced BLOBS) (record_step BLOBS (vs_next_id st) v (fs_disk d))"
  using assms
  by (simp add: vs_put_def vs_check_usable_def write_record_def Let_def fs_write_all_def fs_sync_def record_step_def next_io_def)

lemma compact_medium:
  "\<exists>st d. vs_compact {} (fst new_values) ((snd new_values)\<lparr>fs_outcomes := replicate 9 IoOk @ [IoErr Other 0]\<rparr>) = (Inl Other, st, d)
     \<and> fs_outcomes d = [] \<and> \<not> vs_poisoned st \<and> vs_next_id st = 0
     \<and> fs_disk d = disk_step (Renamed BLOBS_TMP BLOBS) (disk_step (Synced BLOBS_TMP)
         (record_step BLOBS_TMP FENCE_ID (u64_to_be 0) (disk_step (Created BLOBS_TMP) (fs_disk (snd new_values)))))"
proof -
  have "replicate 9 IoOk = [IoOk, IoOk, IoOk, IoOk, IoOk, IoOk, IoOk, IoOk, IoOk]" by (simp add: eval_nat_numeral)
  then show ?thesis
    by (simp add: vs_compact_def vs_check_usable_def compact_build_def new_values_def vs_calls write_record_def Let_def
        record_step_def BLOBS_def BLOBS_TMP_def)
qed

lemma lost_on_medium:
  fixes v :: bytes
  defines "k \<equiv> disk_step (Synced BLOBS) (record_step BLOBS 0 v (disk_step (Renamed BLOBS_TMP BLOBS) (disk_step (Synced BLOBS_TMP)
    (record_step BLOBS_TMP FENCE_ID (u64_to_be 0) (disk_step (Created BLOBS_TMP) (fs_disk (snd new_values)))))))"
  shows "disk_wf k" and "[(BLOBS, 0)] \<in> dk_dirs k" and "dk_data k 0 = []"
proof -
  have "disk_wf (fs_disk (snd new_values))" using new_values_linked by (simp add: linked_def)
  then show "disk_wf k" unfolding k_def record_step_def Let_def by (intro disk_wf_step)
  show "[(BLOBS, 0)] \<in> dk_dirs k" "dk_data k 0 = []"
    by (simp_all add: k_def record_step_def new_values_def Let_def BLOBS_def BLOBS_TMP_def disk_step.simps dk_rename_def dk_modify_def
        boot_def boot_dir_def boot_data_def bm_remove_def)
qed

text \<open>
  C31: a compaction renames the new log into place and fails to sync the directory. It reports the error, but puts go on into the
  new log and return handles; a power failure may bring the old log back, without them.
\<close>

theorem failed_compact_loses_put:
  "\<exists>st d e st1 d1 r st2 d2 d3 st4 d4. vs_open no_files = (Inr st, d)
     \<and> vs_compact {} st (d\<lparr>fs_outcomes := replicate 9 IoOk @ [IoErr Other 0]\<rparr>) = (Inl e, st1, d1)
     \<and> vs_put v st1 d1 = (Inr r, st2, d2) \<and> cut d2 d3
     \<and> vs_open d3 = (Inr st4, d4) \<and> vs_get r st4 d4 = None"
proof -
  obtain st1 d1 where c: "vs_compact {} (fst new_values) ((snd new_values)\<lparr>fs_outcomes := replicate 9 IoOk @ [IoErr Other 0]\<rparr>) = (Inl Other, st1, d1)"
      "fs_outcomes d1 = []" "\<not> vs_poisoned st1" "vs_next_id st1 = 0"
      "fs_disk d1 = disk_step (Renamed BLOBS_TMP BLOBS) (disk_step (Synced BLOBS_TMP)
         (record_step BLOBS_TMP FENCE_ID (u64_to_be 0) (disk_step (Created BLOBS_TMP) (fs_disk (snd new_values)))))"
    using compact_medium by blast
  obtain r st2 d2 where p: "vs_put v st1 d1 = (Inr r, st2, d2)"
      "fs_disk d2 = disk_step (Synced BLOBS) (record_step BLOBS 0 v (fs_disk d1))"
    using put_medium [OF c(2,3), of v] c(4) by (auto simp: FENCE_ID_def)
  note k = lost_on_medium [of v, folded c(5) p(2)]
  have "choice (fs_disk d2) (dk_data (fs_disk d2))" using k(1) by (simp add: disk_wf_def choice_def)
  moreover have "image_of [(BLOBS, 0)] (dk_data (fs_disk d2)) = [(BLOBS, [])]" using k(3) by (simp add: image_of_def)
  ultimately have cut: "cut d2 (power_on [(BLOBS, [])])" using k(2) unfolding cut_def by metis
  have o: "vs_open no_files = (Inr (fst new_values), snd new_values)"
    using open_nothing(1) by (simp add: no_files_def power_on_def)
  have "vs_open (power_on [(BLOBS, [])]) = (Inr (fst new_values), power_on [(BLOBS, [])])"
      "vs_get r (fst new_values) (power_on [(BLOBS, [])]) = None"
    by (simp_all add: vs_open_def new_values_def vs_get_def power_on_def vs_calls)
  with o c(1) p(1) cut show ?thesis by blast
qed

end
