(* ===== verification/Btree.thy ===== *)
theory Btree
  imports Ordered_Map
begin

text \<open>
  The B+ tree of \<^verbatim>\<open>src/btree_store.rs\<close>, in memory: insertion by splits, lookup, deletion without
  rebalancing, ordered scans and pruned range queries. Indexing a vector out of range panics in
  the source; \<open>None\<close> is that panic here. Shown: no operation of a well-formed tree panics, the tree
  implements the sorted map (\<open>kv_map\<close>), the range query returns exactly the entries in range, and the
  shape invariant bounds the height.
\<close>

subsection \<open>The program\<close>

definition ORDER :: nat where "ORDER = 5"

definition MIN_CHILDREN :: nat where "MIN_CHILDREN = 3"

definition MIN_LEAF_KEYS :: nat where "MIN_LEAF_KEYS = 2"

datatype bnode =
    Internal "bytes list" "bnode list"
  | Leaf "(bytes \<times> bytes) list"

fun node_count :: "bnode \<Rightarrow> nat" where
  "node_count (Leaf es) = length es"
| "node_count (Internal ks cs) = sum_list (map node_count cs)"

record split =
  sp_median :: bytes
  sp_right :: bnode

record btree =
  bt_root :: bnode
  bt_len :: nat

definition bt_new :: btree where
  "bt_new = \<lparr>bt_root = Leaf [], bt_len = 0\<rparr>"

text \<open>A child that is indexed in range is smaller than its parent.\<close>

lemma size_nth_list [termination_simp]: "i < length cs \<Longrightarrow> size (cs ! i) < Suc (size_list size cs)"
  by (metis nth_mem order.refl size_list_estimation' le_imp_less_Suc)

text \<open>
  Insertion into a subtree: whether the key is new, the split to lift into the parent if the node
  overflowed, and the node left in place.
\<close>

fun insert_rec :: "bnode \<Rightarrow> bytes \<Rightarrow> bytes \<Rightarrow> (bool \<times> split option \<times> bnode) option" where
  "insert_rec (Leaf es) key val =
     (let pos = partition_point (\<lambda>e. fst e < key) es;
          (inserted, es) =
            (if pos < length es \<and> fst (es ! pos) = key then (False, es[pos := (fst (es ! pos), val)])
             else (True, take pos es @ (key, val) # drop pos es))
      in if length es > ORDER - 1
         then let mid = length es div 2
              in Some (inserted, Some \<lparr>sp_median = fst (es ! mid), sp_right = Leaf (drop mid es)\<rparr>, Leaf (take mid es))
         else Some (inserted, None, Leaf es))"
| "insert_rec (Internal ks cs) key val =
     (let i = partition_point (\<lambda>k. k \<le> key) ks
      in if i < length cs
         then case insert_rec (cs ! i) key val of
                None \<Rightarrow> None
              | Some (inserted, None, c) \<Rightarrow> Some (inserted, None, Internal ks (cs[i := c]))
              | Some (inserted, Some sp, c) \<Rightarrow>
                  let ks = take i ks @ sp_median sp # drop i ks;
                      cs = cs[i := c];
                      cs = take (i + 1) cs @ sp_right sp # drop (i + 1) cs
                  in if length cs > ORDER
                     then let mid = length ks div 2
                          in Some (inserted,
                               Some \<lparr>sp_median = ks ! mid, sp_right = Internal (drop (mid + 1) ks) (drop (mid + 1) cs)\<rparr>,
                               Internal (take mid ks) (take (mid + 1) cs))
                     else Some (inserted, None, Internal ks cs)
         else None)"

definition bt_insert :: "bytes \<Rightarrow> bytes \<Rightarrow> btree \<Rightarrow> btree option" where
  "bt_insert key val t =
     (case insert_rec (bt_root t) key val of
        None \<Rightarrow> None
      | Some (inserted, sp, root) \<Rightarrow>
          let t = t\<lparr>bt_root := root, bt_len := (if inserted then bt_len t + 1 else bt_len t)\<rparr>
          in case sp of
               None \<Rightarrow> Some t
             | Some s \<Rightarrow> Some (t\<lparr>bt_root := Internal [sp_median s] [bt_root t, sp_right s]\<rparr>))"

fun get_rec :: "bnode \<Rightarrow> bytes \<Rightarrow> bytes option option" where
  "get_rec (Leaf es) key = Some (map_option snd (find (\<lambda>e. fst e = key) es))"
| "get_rec (Internal ks cs) key =
     (let i = partition_point (\<lambda>k. k \<le> key) ks
      in if i < length cs then get_rec (cs ! i) key else None)"

definition bt_get :: "btree \<Rightarrow> bytes \<Rightarrow> bytes option option" where
  "bt_get t key = get_rec (bt_root t) key"

fun delete_rec :: "bnode \<Rightarrow> bytes \<Rightarrow> (bool \<times> bnode) option" where
  "delete_rec (Leaf es) key =
     (let pos = partition_point (\<lambda>e. fst e < key) es
      in if pos < length es \<and> fst (es ! pos) = key then Some (True, Leaf (take pos es @ drop (pos + 1) es))
         else Some (False, Leaf es))"
| "delete_rec (Internal ks cs) key =
     (let i = partition_point (\<lambda>k. k \<le> key) ks
      in if i < length cs
         then case delete_rec (cs ! i) key of
                None \<Rightarrow> None
              | Some (removed, c) \<Rightarrow> Some (removed, Internal ks (cs[i := c]))
         else None)"

definition bt_delete :: "bytes \<Rightarrow> btree \<Rightarrow> (bool \<times> btree) option" where
  "bt_delete key t =
     (case delete_rec (bt_root t) key of
        None \<Rightarrow> None
      | Some (removed, root) \<Rightarrow>
          Some (removed, t\<lparr>bt_root := root, bt_len := (if removed then bt_len t - 1 else bt_len t)\<rparr>))"

fun collect :: "(bytes \<times> bytes \<Rightarrow> bool) \<Rightarrow> bnode \<Rightarrow> (bytes \<times> bytes) list \<Rightarrow> (bytes \<times> bytes) list" where
  "collect p (Leaf es) out = out @ filter p es"
| "collect p (Internal ks cs) out = fold (\<lambda>c out. collect p c out) cs out"

definition bt_scan :: "(bytes \<times> bytes \<Rightarrow> bool) \<Rightarrow> btree \<Rightarrow> (bytes \<times> bytes) list" where
  "bt_scan p t = collect p (bt_root t) []"

lemma size_list_drop: "size_list f (drop n xs) \<le> size_list f xs"
  by (induction xs arbitrary: n) (auto simp: drop_Cons' le_SucI trans_le_add2)

text \<open>The pruned walk; \<open>collect_children\<close> is its loop over the children from index \<open>i\<close> on.\<close>

function (sequential) collect_range :: "bnode \<Rightarrow> bytes \<Rightarrow> bytes \<Rightarrow> (bytes \<times> bytes) list \<Rightarrow> (bytes \<times> bytes) list option"
  and collect_children :: "bytes list \<Rightarrow> nat \<Rightarrow> bnode list \<Rightarrow> bytes \<Rightarrow> bytes \<Rightarrow> (bytes \<times> bytes) list \<Rightarrow> (bytes \<times> bytes) list option" where
  "collect_range (Leaf es) lo hi out =
     Some (out @ takeWhile (\<lambda>e. \<not> hi \<le> fst e) (drop (partition_point (\<lambda>e. fst e < lo) es) es))"
| "collect_range (Internal ks cs) lo hi out =
     (let first = partition_point (\<lambda>k. k \<le> lo) ks
      in collect_children ks first (drop first cs) lo hi out)"
| "collect_children ks i [] lo hi out = Some out"
| "collect_children ks i (c # cs) lo hi out =
     (if 0 < i \<and> length ks \<le> i - 1 then None
      else if 0 < i \<and> hi \<le> ks ! (i - 1) then Some out
      else case collect_range c lo hi out of
             None \<Rightarrow> None
           | Some out \<Rightarrow> collect_children ks (i + 1) cs lo hi out)"
  by pat_completeness auto
termination
  by (relation "measure (\<lambda>x. case x of Inl (n, _) \<Rightarrow> size n | Inr (_, _, cs, _) \<Rightarrow> size_list size cs)")
    (auto simp: le_imp_less_Suc size_list_drop trans_le_add2)

definition bt_range :: "bytes \<Rightarrow> bytes \<Rightarrow> btree \<Rightarrow> (bytes \<times> bytes) list option" where
  "bt_range lo hi t = (if lo < hi then collect_range (bt_root t) lo hi [] else Some [])"

text \<open>The invariant the source's tests assert of a tree that was only inserted into.\<close>

fun assert_invariants :: "bnode \<Rightarrow> bool \<Rightarrow> bool" where
  "assert_invariants (Leaf es) is_root \<longleftrightarrow> sorted_wrt (<) (map fst es) \<and> length es < ORDER
     \<and> (is_root \<or> MIN_LEAF_KEYS \<le> length es)"
| "assert_invariants (Internal ks cs) is_root \<longleftrightarrow> length ks + 1 = length cs \<and> length cs \<le> ORDER
     \<and> (is_root \<or> MIN_CHILDREN \<le> length cs) \<and> sorted_wrt (<) ks \<and> list_all (\<lambda>c. assert_invariants c False) cs"

definition bt_is_empty :: "btree \<Rightarrow> bool" where
  "bt_is_empty t \<longleftrightarrow> bt_len t = 0"

subsection \<open>Intervals and chains of children\<close>

text \<open>
  A subtree holds keys of an interval with optional bounds, the lower one inclusive. The children
  of a node form a chain: the separators cut its interval into theirs.
\<close>

type_synonym bound = "bytes option"

definition below :: "bound \<Rightarrow> bound \<Rightarrow> bool" where
  "below lo hi \<longleftrightarrow> (case lo of None \<Rightarrow> True | Some l \<Rightarrow> case hi of None \<Rightarrow> True | Some h \<Rightarrow> l < h)"

definition in_bounds :: "bound \<Rightarrow> bound \<Rightarrow> bytes \<Rightarrow> bool" where
  "in_bounds lo hi k \<longleftrightarrow> (case lo of None \<Rightarrow> True | Some l \<Rightarrow> l \<le> k) \<and> (case hi of None \<Rightarrow> True | Some h \<Rightarrow> k < h)"

lemma below_simps [simp]: "below None hi" "below lo None" "below (Some l) (Some h) \<longleftrightarrow> l < h"
  by (simp_all add: below_def split: option.split)

lemma in_bounds_weaken:
  "in_bounds lo (Some m) k \<Longrightarrow> below (Some m) hi \<Longrightarrow> in_bounds lo hi k"
  "in_bounds (Some m) hi k \<Longrightarrow> below lo (Some m) \<Longrightarrow> in_bounds lo hi k"
  by (auto simp: in_bounds_def below_def split: option.splits)

lemma below_trans: "below lo (Some m) \<Longrightarrow> below (Some m) hi \<Longrightarrow> below lo hi"
  by (auto simp: below_def split: option.splits)

fun chain :: "(bound \<Rightarrow> bound \<Rightarrow> 'n \<Rightarrow> bool) \<Rightarrow> bound \<Rightarrow> bound \<Rightarrow> bytes list \<Rightarrow> 'n list \<Rightarrow> bool" where
  "chain P lo hi [] [c] \<longleftrightarrow> below lo hi \<and> P lo hi c"
| "chain P lo hi (k # ks) (c # cs) \<longleftrightarrow> below lo (Some k) \<and> P lo (Some k) c \<and> chain P (Some k) hi ks cs"
| "chain P lo hi _ _ \<longleftrightarrow> False"

lemma chain_cong [fundef_cong]:
  assumes "lo = lo'" "hi = hi'" "ks = ks'" "cs = cs'" "\<And>l h c. c \<in> set cs' \<Longrightarrow> P l h c = Q l h c"
  shows "chain P lo hi ks cs = chain Q lo' hi' ks' cs'"
proof -
  have "chain P lo' hi' ks' cs' = chain Q lo' hi' ks' cs'" using assms(5)
    by (induction P lo' hi' ks' cs' rule: chain.induct) auto
  then show ?thesis by (simp add: assms)
qed

lemma chain_mono: "chain P lo hi ks cs \<Longrightarrow> (\<And>l h c. c \<in> set cs \<Longrightarrow> P l h c \<Longrightarrow> Q l h c) \<Longrightarrow> chain Q lo hi ks cs"
  by (induction P lo hi ks cs rule: chain.induct) auto

lemma chain_length: "chain P lo hi ks cs \<Longrightarrow> length cs = length ks + 1"
  by (induction P lo hi ks cs rule: chain.induct) auto

lemma chain_below: "chain P lo hi ks cs \<Longrightarrow> below lo hi"
  by (induction P lo hi ks cs rule: chain.induct) (auto intro: below_trans)

lemma chain_set: "chain P lo hi ks cs \<Longrightarrow> c \<in> set cs \<Longrightarrow> \<exists>l h. P l h c"
  by (induction P lo hi ks cs rule: chain.induct) auto

lemma chain_keys: "chain P lo hi ks cs \<Longrightarrow> k \<in> set ks \<Longrightarrow> below lo (Some k) \<and> below (Some k) hi"
  by (induction P lo hi ks cs rule: chain.induct) (auto intro: below_trans chain_below)

lemma chain_sorted: "chain P lo hi ks cs \<Longrightarrow> sorted_wrt (<) ks"
  by (induction P lo hi ks cs rule: chain.induct) (auto dest: chain_keys)

text \<open>The part of a chain before a child, and the lower bound it leaves.\<close>

fun front :: "(bound \<Rightarrow> bound \<Rightarrow> 'n \<Rightarrow> bool) \<Rightarrow> bound \<Rightarrow> bytes list \<Rightarrow> 'n list \<Rightarrow> bool" where
  "front P lo [] [] \<longleftrightarrow> True"
| "front P lo (k # ks) (c # cs) \<longleftrightarrow> below lo (Some k) \<and> P lo (Some k) c \<and> front P (Some k) ks cs"
| "front P lo _ _ \<longleftrightarrow> False"

primrec top :: "bound \<Rightarrow> bytes list \<Rightarrow> bound" where
  "top lo [] = lo"
| "top lo (k # ks) = top (Some k) ks"

definition nxt :: "bytes list \<Rightarrow> bound \<Rightarrow> bound" where
  "nxt ks hi = (case ks of [] \<Rightarrow> hi | k # _ \<Rightarrow> Some k)"

lemma chain_append:
  "length cs1 = length ks1 \<Longrightarrow> chain P lo hi (ks1 @ ks2) (cs1 @ cs2) \<longleftrightarrow> front P lo ks1 cs1 \<and> chain P (top lo ks1) hi ks2 cs2"
  by (induction cs1 ks1 arbitrary: lo rule: list_induct2) simp_all

lemma chain_hd: "chain P lo hi ks (c # cs) \<Longrightarrow> P lo (nxt ks hi) c \<and> below lo (nxt ks hi)"
  by (cases ks; cases cs) (simp_all add: nxt_def)

lemma chain_swap: "chain P lo hi ks (c # cs) \<Longrightarrow> P lo (nxt ks hi) c' \<Longrightarrow> chain P lo hi ks (c' # cs)"
  by (cases ks; cases cs) (simp_all add: nxt_def)

lemma chain_insert:
  "chain P lo hi ks (c # cs) \<Longrightarrow> P lo (Some m) c' \<Longrightarrow> P (Some m) (nxt ks hi) r \<Longrightarrow> below lo (Some m)
   \<Longrightarrow> below (Some m) (nxt ks hi) \<Longrightarrow> chain P lo hi (m # ks) (c' # r # cs)"
  by (cases ks; cases cs) (simp_all add: nxt_def)

lemma chain_cut:
  "chain P lo hi (ks1 @ m # ks2) (cs1 @ cs2) \<Longrightarrow> length cs1 = length ks1 + 1
   \<Longrightarrow> chain P lo (Some m) ks1 cs1 \<and> chain P (Some m) hi ks2 cs2"
proof (induction ks1 arbitrary: lo cs1)
  case Nil
  then show ?case by (cases cs1) auto
next
  case (Cons k ks1)
  then show ?case by (cases cs1) auto
qed

lemma bm_wf_append: "bm_wf (m @ m') \<longleftrightarrow> bm_wf m \<and> bm_wf m' \<and> (\<forall>k \<in> fst ` set m. \<forall>k' \<in> fst ` set m'. k < k')"
  by (auto simp: bm_wf_def sorted_wrt_append)

text \<open>The entries below a chain are in its interval and in order.\<close>

lemma chain_entries:
  assumes "chain P lo hi ks cs" and "\<And>l h c. c \<in> set cs \<Longrightarrow> P l h c \<Longrightarrow> bm_wf (f c) \<and> (\<forall>k \<in> fst ` set (f c). in_bounds l h k)"
  shows "bm_wf (concat (map f cs)) \<and> (\<forall>k \<in> fst ` set (concat (map f cs)). in_bounds lo hi k)"
  using assms
proof (induction P lo hi ks cs rule: chain.induct)
  case (2 P lo hi k ks c cs)
  have rest: "bm_wf (concat (map f cs))" "\<forall>j \<in> fst ` set (concat (map f cs)). in_bounds (Some k) hi j"
    using "2.IH" "2.prems" by auto
  have c: "bm_wf (f c)" "\<forall>j \<in> fst ` set (f c). in_bounds lo (Some k) j" using "2.prems" by auto
  have bnd: "below lo (Some k)" "below (Some k) hi" using "2.prems"(1) chain_below by auto
  have "i < j" if "i \<in> fst ` set (f c)" "j \<in> fst ` set (concat (map f cs))" for i j
    using c(2) rest(2) that by (fastforce simp: in_bounds_def)
  then have "bm_wf (concat (map f (c # cs)))" using rest(1) c(1) by (auto simp: bm_wf_append)
  moreover have "in_bounds lo hi j" if "j \<in> fst ` set (f c) \<union> fst ` set (concat (map f cs))" for j
    using that c(2) rest(2) bnd by (auto intro: in_bounds_weaken)
  ultimately show ?case by (simp add: image_Un)
qed auto

lemma front_entries:
  assumes "front P lo ks cs" and "\<And>l h c. c \<in> set cs \<Longrightarrow> P l h c \<Longrightarrow> (\<forall>k \<in> fst ` set (f c). in_bounds l h k)"
    and "\<forall>k \<in> set ks. k \<le> key"
  shows "\<forall>k \<in> fst ` set (concat (map f cs)). k < key"
  using assms
proof (induction P lo ks cs rule: front.induct)
  case (2 P lo k ks c cs)
  then have "\<forall>j \<in> fst ` set (f c). in_bounds lo (Some k) j" "k \<le> key"
    using "2.prems"(2) [of c lo "Some k"] by simp_all
  then have "\<forall>j \<in> fst ` set (f c). j < key" by (auto simp: in_bounds_def)
  with 2 show ?case by (auto simp: image_Un)
qed auto

subsection \<open>The shape invariant\<close>

text \<open>
  A node of height \<open>h\<close> whose keys lie between the bounds. Below the root an internal node has at
  least \<open>MIN_CHILDREN\<close> children and a leaf at least \<open>m\<close> keys: \<open>MIN_LEAF_KEYS\<close> in a tree that was only
  inserted into, \<open>0\<close> after deletions.
\<close>

fun node_ok :: "nat \<Rightarrow> bool \<Rightarrow> nat \<Rightarrow> bound \<Rightarrow> bound \<Rightarrow> bnode \<Rightarrow> bool" where
  "node_ok m root h lo hi (Leaf es) \<longleftrightarrow> h = 0 \<and> bm_wf es \<and> (\<forall>k \<in> fst ` set es. in_bounds lo hi k)
     \<and> length es < ORDER \<and> (root \<or> m \<le> length es)"
| "node_ok m root h lo hi (Internal ks cs) \<longleftrightarrow> 0 < h \<and> (if root then 2 else MIN_CHILDREN) \<le> length cs
     \<and> length cs \<le> ORDER \<and> chain (node_ok m False (h - 1)) lo hi ks cs"

fun flat :: "bnode \<Rightarrow> (bytes \<times> bytes) list" where
  "flat (Leaf es) = es"
| "flat (Internal ks cs) = concat (map flat cs)"

fun leaves :: "bnode \<Rightarrow> nat" where
  "leaves (Leaf es) = 1"
| "leaves (Internal ks cs) = sum_list (map leaves cs)"

lemmas tree_sizes = ORDER_def MIN_CHILDREN_def MIN_LEAF_KEYS_def

lemma node_entries:
  "node_ok m root h lo hi n \<Longrightarrow> bm_wf (flat n) \<and> (\<forall>k \<in> fst ` set (flat n). in_bounds lo hi k)"
proof (induction m root h lo hi n rule: node_ok.induct)
  case (2 m root h lo hi ks cs)
  then show ?case using chain_entries [of "node_ok m False (h - 1)" lo hi ks cs flat] by simp
qed simp

lemma node_count_flat: "node_count n = length (flat n)"
  by (induction n) (simp_all add: length_concat comp_def cong: map_cong)

lemma node_fill_mono: "node_ok m root h lo hi n \<Longrightarrow> m' \<le> m \<Longrightarrow> node_ok m' root h lo hi n"
proof (induction m root h lo hi n rule: node_ok.induct)
  case (2 m root h lo hi ks cs)
  then show ?case using chain_mono [of "node_ok m False (h - 1)" lo hi ks cs "node_ok m' False (h - 1)"] by simp
qed auto

lemma node_root: "node_ok m root h lo hi n \<Longrightarrow> node_ok m True h lo hi n"
  by (cases n) (auto simp: tree_sizes split: if_splits)

text \<open>Routing: the child an operation descends into, and what lies to either side of it.\<close>

lemma route:
  assumes "node_ok m root h lo hi (Internal ks cs)" and "in_bounds lo hi key" and "i = partition_point (\<lambda>k. k \<le> key) ks"
  obtains cs1 c cs2 where "cs = cs1 @ c # cs2" "length cs1 = i" "i < length cs"
    "front (node_ok m False (h - 1)) lo (take i ks) cs1"
    "chain (node_ok m False (h - 1)) (top lo (take i ks)) hi (drop i ks) (c # cs2)"
    "node_ok m False (h - 1) (top lo (take i ks)) (nxt (drop i ks) hi) c"
    "in_bounds (top lo (take i ks)) (nxt (drop i ks) hi) key"
    "\<forall>k \<in> fst ` set (concat (map flat cs1)). k < key" "\<forall>k \<in> fst ` set (concat (map flat cs2)). key < k"
proof -
  let ?P = "node_ok m False (h - 1)"
  have ch: "chain ?P lo hi ks cs" using assms(1) by simp
  have i: "i \<le> length ks" "i < length cs" using chain_length [OF ch] by (simp_all add: assms(3) le_imp_less_Suc)
  define cs1 c cs2 where "cs1 = take i cs" and "c = cs ! i" and "cs2 = drop (Suc i) cs"
  have cs: "cs = cs1 @ c # cs2" and len: "length cs1 = length (take i ks)"
    using i by (simp_all add: cs1_def c_def cs2_def id_take_nth_drop [symmetric])
  have ks: "take i ks = takeWhile (\<lambda>k. k \<le> key) ks" "drop i ks = dropWhile (\<lambda>k. k \<le> key) ks"
    by (simp_all add: assms(3) take_partition_point drop_partition_point)
  have parts: "front ?P lo (take i ks) cs1" "chain ?P (top lo (take i ks)) hi (drop i ks) (c # cs2)"
    using ch chain_append [OF len, of ?P lo hi "drop i ks" "c # cs2"] by (simp_all add: cs)
  have le: "\<forall>k \<in> set (take i ks). k \<le> key" unfolding ks by (auto dest: set_takeWhileD)
  have "in_bounds (top lo l) None key" if "\<forall>k \<in> set l. k \<le> key" "in_bounds lo None key" for l lo
    using that by (induction l arbitrary: lo) (auto simp: in_bounds_def)
  then have "in_bounds (top lo (take i ks)) None key" using le assms(2) by (auto simp: in_bounds_def)
  moreover have gt: "key < k" if "drop i ks = k # r" for k r
    using that unfolding ks by (metis hd_dropWhile list.discI list.sel(1) not_le)
  ultimately have key: "in_bounds (top lo (take i ks)) (nxt (drop i ks) hi) key"
    using assms(2) by (auto simp: in_bounds_def nxt_def split: list.splits)
  have "\<forall>k \<in> fst ` set (concat (map flat cs1)). k < key"
    by (rule front_entries [OF parts(1) _ le]) (auto dest: node_entries)
  moreover have "\<forall>k \<in> fst ` set (concat (map flat cs2)). key < k"
  proof (cases "drop i ks")
    case Nil
    with parts(2) have "cs2 = []" by (cases cs2) simp_all
    then show ?thesis by simp
  next
    case (Cons k r)
    then have "chain ?P (Some k) hi r cs2" using parts(2) by simp
    from chain_entries [OF this, of flat] node_entries
    have "\<forall>j \<in> fst ` set (concat (map flat cs2)). in_bounds (Some k) hi j" by blast
    then show ?thesis using gt [OF Cons] by (fastforce simp: in_bounds_def)
  qed
  ultimately show thesis
    using that [OF cs _ i(2) parts _ key] chain_hd [OF parts(2)] len i by simp
qed

subsection \<open>Lookup\<close>

lemma find_map_of: "map_option snd (find (\<lambda>e. fst e = k) es) = map_of es k"
  by (induction es) auto

lemma map_of_mid:
  "\<forall>j \<in> fst ` set a. j < k \<Longrightarrow> \<forall>j \<in> fst ` set c. k < j \<Longrightarrow> map_of (a @ b @ c) k = map_of b (k :: 'k :: linorder)"
proof -
  assume "\<forall>j \<in> fst ` set a. j < k" and "\<forall>j \<in> fst ` set c. k < j"
  then have "map_of a k = None" "map_of c k = None" unfolding map_of_eq_None_iff by blast+
  then show ?thesis by (simp add: map_add_def split: option.split)
qed

lemma get_rec_flat: "node_ok m root h lo hi n \<Longrightarrow> in_bounds lo hi key \<Longrightarrow> get_rec n key = Some (map_of (flat n) key)"
proof (induction n arbitrary: root h lo hi)
  case (Internal ks cs)
  define i where "i = partition_point (\<lambda>k. k \<le> key) ks"
  obtain cs1 c cs2 where r: "cs = cs1 @ c # cs2" "length cs1 = i" "i < length cs"
    "node_ok m False (h - 1) (top lo (take i ks)) (nxt (drop i ks) hi) c"
    "in_bounds (top lo (take i ks)) (nxt (drop i ks) hi) key"
    "\<forall>k \<in> fst ` set (concat (map flat cs1)). k < key" "\<forall>k \<in> fst ` set (concat (map flat cs2)). key < k"
    by (rule route [OF Internal.prems i_def])
  have "get_rec c key = Some (map_of (flat c) key)" using Internal.IH [of c] r(1,4,5) by auto
  moreover have "cs ! i = c" using r(1,2) by (simp add: nth_append)
  ultimately show ?case using map_of_mid [OF r(6,7), of "flat c"] r(1,3) by (simp add: i_def [symmetric] Let_def)
qed (simp add: find_map_of)

subsection \<open>Insertion\<close>

lemma bm_insert_mid:
  "\<forall>j \<in> fst ` set a. j < k \<Longrightarrow> \<forall>j \<in> fst ` set c. k < j \<Longrightarrow> bm_insert k v (a @ b @ c) = a @ bm_insert k v b @ c"
proof (induction a)
  case Nil
  then have "bm_insert k v c = (k, v) # c" by (cases c) auto
  then show ?case by (induction b) simp_all
qed auto

lemma leaf_insert:
  assumes "pos = partition_point (\<lambda>e. fst e < key) es"
  shows "bm_insert key val es =
    (if pos < length es \<and> fst (es ! pos) = key then es[pos := (fst (es ! pos), val)] else take pos es @ (key, val) # drop pos es)"
  unfolding assms by (induction es) (auto simp: partition_point_def)

lemma leaf_key:
  assumes "bm_wf es" and "pos = partition_point (\<lambda>e. fst e < key) es"
  shows "map_of es key = None \<longleftrightarrow> \<not> (pos < length es \<and> fst (es ! pos) = key)"
  unfolding assms(2) using assms(1)
proof (induction es)
  case (Cons e es)
  have "map_of es key = None" if "key < fst e" using that Cons.prems by (auto simp: map_of_eq_None_iff)
  with Cons show ?case by (cases e) (auto simp: partition_point_def)
qed (simp add: partition_point_def)

text \<open>What an insertion promises its caller.\<close>

definition inserted_ok :: "nat \<Rightarrow> bool \<Rightarrow> nat \<Rightarrow> bound \<Rightarrow> bound \<Rightarrow> bnode \<Rightarrow> bytes \<Rightarrow> bytes \<Rightarrow> split option \<Rightarrow> bnode \<Rightarrow> bool" where
  "inserted_ok m root h lo hi n key val sp n' \<longleftrightarrow> (case sp of
      None \<Rightarrow> node_ok m root h lo hi n' \<and> flat n' = bm_insert key val (flat n) \<and> leaves n' \<le> leaves n + 1
    | Some s \<Rightarrow> node_ok m False h lo (Some (sp_median s)) n' \<and> node_ok m False h (Some (sp_median s)) hi (sp_right s)
        \<and> below lo (Some (sp_median s)) \<and> below (Some (sp_median s)) hi
        \<and> flat n' @ flat (sp_right s) = bm_insert key val (flat n) \<and> leaves n' + leaves (sp_right s) \<le> leaves n + 1)"

lemma insert_leaf:
  assumes "node_ok m root h lo hi (Leaf es)" and "in_bounds lo hi key" and "m \<le> MIN_LEAF_KEYS"
  shows "\<exists>sp n'. insert_rec (Leaf es) key val = Some (map_of es key = None, sp, n') \<and> inserted_ok m root h lo hi (Leaf es) key val sp n'"
proof -
  let ?es = "bm_insert key val es"
  have wf: "bm_wf es" and keys: "\<forall>k \<in> fst ` set es. in_bounds lo hi k" and len: "length es < 5"
    and fill: "root \<or> m \<le> length es" and h: "h = 0" using assms(1) by (simp_all add: tree_sizes)
  have run: "insert_rec (Leaf es) key val =
      (if length ?es > 4 then Some (map_of es key = None, Some \<lparr>sp_median = fst (?es ! (length ?es div 2)), sp_right = Leaf (drop (length ?es div 2) ?es)\<rparr>, Leaf (take (length ?es div 2) ?es))
       else Some (map_of es key = None, None, Leaf ?es))"
    using leaf_insert [OF refl, of key val es] leaf_key [OF wf refl, of key] by (auto simp: Let_def tree_sizes)
  have wf': "bm_wf ?es" and keys': "\<forall>k \<in> fst ` set ?es. in_bounds lo hi k" and len': "length ?es \<le> length es + 1" "length es \<le> length ?es"
    using wf keys assms(2) by (auto simp: bm_wf_insert length_bm_insert)
  show ?thesis
  proof (cases "length ?es > 4")
    case False
    then have "inserted_ok m root h lo hi (Leaf es) key val None (Leaf ?es)"
      using wf' keys' len' fill h by (auto simp: inserted_ok_def tree_sizes)
    then show ?thesis using run False by auto
  next
    case True
    then have five: "length ?es = 5" using len len' by simp
    then obtain a b c d e where es: "?es = [a, b, c, d, e]"
      by (auto simp: numeral_eq_Suc length_Suc_conv)
    have "inserted_ok m root h lo hi (Leaf es) key val (Some \<lparr>sp_median = fst c, sp_right = Leaf [c, d, e]\<rparr>) (Leaf [a, b])"
      using wf' keys' assms(3) h es by (auto simp: inserted_ok_def tree_sizes in_bounds_def below_def split: option.splits)
    then show ?thesis using run by (auto simp: es)
  qed
qed

lemma cut_sums:
  "concat (map f (take n xs)) @ concat (map f (drop n xs)) = concat (map f xs)"
  "sum_list (map g (take n xs)) + sum_list (map g (drop n xs)) = (sum_list (map g xs) :: nat)"
  by (metis append_take_drop_id concat_append map_append)
    (metis append_take_drop_id sum_list_append map_append)

lemma split_overflow:
  assumes "chain (node_ok m False (h - 1)) lo hi ks cs" and "length cs = 6" and "0 < h"
  shows "node_ok m False h lo (Some (ks ! 2)) (Internal (take 2 ks) (take 3 cs))
    \<and> node_ok m False h (Some (ks ! 2)) hi (Internal (drop 3 ks) (drop 3 cs))
    \<and> below lo (Some (ks ! 2)) \<and> below (Some (ks ! 2)) hi"
proof -
  have len: "length ks = 5" using chain_length [OF assms(1)] assms(2) by simp
  then have ks: "take 2 ks @ ks ! 2 # drop 3 ks = ks" using id_take_nth_drop [of 2 ks] by simp
  have "chain (node_ok m False (h - 1)) lo (Some (ks ! 2)) (take 2 ks) (take 3 cs)
      \<and> chain (node_ok m False (h - 1)) (Some (ks ! 2)) hi (drop 3 ks) (drop 3 cs)"
    by (rule chain_cut) (use assms len ks in simp_all)
  moreover have "below lo (Some (ks ! 2)) \<and> below (Some (ks ! 2)) hi"
    using chain_keys [OF assms(1), of "ks ! 2"] len by simp
  ultimately show ?thesis using assms(2,3) len by (simp add: tree_sizes)
qed

text \<open>An internal node with a child more than before: it fits, or it is cut in the middle.\<close>

lemma lifted_ok:
  assumes ch: "chain (node_ok m False (h - 1)) lo hi ks cs" and fl: "concat (map flat cs) = bm_insert key val (flat n)"
    and lv: "sum_list (map leaves cs) \<le> leaves n + 1" and h: "0 < h"
    and size: "length cs \<le> 6" "(if root then 2 else 3) \<le> length cs"
  shows "\<not> 5 < length cs \<Longrightarrow> inserted_ok m root h lo hi n key val None (Internal ks cs)"
    and "5 < length cs \<Longrightarrow> length ks div 2 = 2"
    and "5 < length cs \<Longrightarrow> inserted_ok m root h lo hi n key val
      (Some \<lparr>sp_median = ks ! 2, sp_right = Internal (drop 3 ks) (drop 3 cs)\<rparr>) (Internal (take 2 ks) (take 3 cs))"
proof -
  show "inserted_ok m root h lo hi n key val None (Internal ks cs)" if "\<not> 5 < length cs"
    using that ch fl lv h size by (simp add: inserted_ok_def tree_sizes split: if_splits)
  assume "5 < length cs"
  with size have six: "length cs = 6" by simp
  then show "length ks div 2 = 2" using chain_length [OF ch] by simp
  show "inserted_ok m root h lo hi n key val
      (Some \<lparr>sp_median = ks ! 2, sp_right = Internal (drop 3 ks) (drop 3 cs)\<rparr>) (Internal (take 2 ks) (take 3 cs))"
    using split_overflow [OF ch six h] fl lv cut_sums(1) [of flat 3 cs] cut_sums(2) [of leaves 3 cs]
    unfolding inserted_ok_def by simp
qed

lemma insert_internal:
  assumes ok: "node_ok m root h lo hi (Internal ks cs)" and key: "in_bounds lo hi key"
    and IH: "\<And>c h lo hi. c \<in> set cs \<Longrightarrow> node_ok m False h lo hi c \<Longrightarrow> in_bounds lo hi key \<Longrightarrow>
      \<exists>sp n'. insert_rec c key val = Some (map_of (flat c) key = None, sp, n') \<and> inserted_ok m False h lo hi c key val sp n'"
  shows "\<exists>sp n'. insert_rec (Internal ks cs) key val = Some (map_of (flat (Internal ks cs)) key = None, sp, n')
    \<and> inserted_ok m root h lo hi (Internal ks cs) key val sp n'"
proof -
  let ?P = "node_ok m False (h - 1)"
  define i where "i = partition_point (\<lambda>k. k \<le> key) ks"
  obtain cs1 c cs2 where r: "cs = cs1 @ c # cs2" "length cs1 = i" "i < length cs"
    and fr: "front ?P lo (take i ks) cs1" and ch: "chain ?P (top lo (take i ks)) hi (drop i ks) (c # cs2)"
    and c: "?P (top lo (take i ks)) (nxt (drop i ks) hi) c" "in_bounds (top lo (take i ks)) (nxt (drop i ks) hi) key"
    and sides: "\<forall>k \<in> fst ` set (concat (map flat cs1)). k < key" "\<forall>k \<in> fst ` set (concat (map flat cs2)). key < k"
    by (rule route [OF ok key i_def])
  have nth: "cs ! i = c" "cs[i := x] = cs1 @ x # cs2" for x using r by (simp_all add: nth_append list_update_append)
  have len: "length cs1 = length (take i ks)" and lcs: "length cs = length ks + 1"
    using r(2) chain_length [of ?P lo hi ks cs] ok by (simp_all add: i_def)
  have size: "0 < h" "(if root then 2 else 3) \<le> length cs" "length cs \<le> 5" using ok by (auto simp: tree_sizes)
  have get: "map_of (flat (Internal ks cs)) key = map_of (flat c) key"
    using map_of_mid [OF sides, of "flat c"] by (simp add: r(1))
  have flat: "bm_insert key val (flat (Internal ks cs)) = concat (map flat cs1) @ bm_insert key val (flat c) @ concat (map flat cs2)"
    using bm_insert_mid [OF sides, of val "flat c"] by (simp add: r(1))
  obtain sp c' where rec: "insert_rec c key val = Some (map_of (flat c) key = None, sp, c')"
    and cok: "inserted_ok m False (h - 1) (top lo (take i ks)) (nxt (drop i ks) hi) c key val sp c'"
    using IH [OF _ c] r(1) by auto
  show ?thesis
  proof (cases sp)
    case None
    have "chain ?P lo hi ks (cs1 @ c' # cs2)"
      using chain_append [OF len, of ?P lo hi "drop i ks" "c' # cs2"] fr chain_swap [OF ch] cok None by (simp add: inserted_ok_def)
    then have "inserted_ok m root h lo hi (Internal ks cs) key val None (Internal ks (cs1 @ c' # cs2))"
      using size cok None flat by (simp add: inserted_ok_def r(1) tree_sizes split: if_splits)
    then show ?thesis using rec r(3) None nth get by (simp add: i_def [symmetric] Let_def)
  next
    case (Some s)
    let ?ks = "take i ks @ sp_median s # drop i ks" and ?cs = "cs1 @ c' # sp_right s # cs2"
    have "chain ?P (top lo (take i ks)) hi (sp_median s # drop i ks) (c' # sp_right s # cs2)"
      using cok Some by (intro chain_insert [OF ch]) (simp_all add: inserted_ok_def)
    then have ch': "chain ?P lo hi ?ks ?cs"
      using chain_append [OF len, of ?P lo hi "sp_median s # drop i ks" "c' # sp_right s # cs2"] fr by blast
    have fl: "concat (map flat ?cs) = bm_insert key val (flat (Internal ks cs))"
      and lv: "sum_list (map leaves ?cs) \<le> leaves (Internal ks cs) + 1"
      using cok Some flat by (simp_all add: inserted_ok_def r(1))
    have run: "insert_rec (Internal ks cs) key val = (if length ?cs > 5
        then Some (map_of (flat c) key = None, Some \<lparr>sp_median = ?ks ! (length ?ks div 2),
          sp_right = Internal (drop (length ?ks div 2 + 1) ?ks) (drop (length ?ks div 2 + 1) ?cs)\<rparr>,
          Internal (take (length ?ks div 2) ?ks) (take (length ?ks div 2 + 1) ?cs))
        else Some (map_of (flat c) key = None, None, Internal ?ks ?cs))"
      using rec r(2,3) Some nth by (simp add: i_def [symmetric] Let_def tree_sizes)
    have "length ?cs \<le> 6" "(if root then 2 else 3) \<le> length ?cs" using size(2,3) r(1) by (auto split: if_splits)
    note lifted = lifted_ok [OF ch' fl lv size(1) this]
    show ?thesis
    proof (cases "length ?cs > 5")
      case False
      with lifted(1) run get show ?thesis by auto
    next
      case True
      from lifted(2,3) [OF True] run get True show ?thesis by auto
    qed
  qed
qed

lemma insert_rec_spec:
  "node_ok m root h lo hi n \<Longrightarrow> in_bounds lo hi key \<Longrightarrow> m \<le> MIN_LEAF_KEYS \<Longrightarrow>
   \<exists>sp n'. insert_rec n key val = Some (map_of (flat n) key = None, sp, n') \<and> inserted_ok m root h lo hi n key val sp n'"
proof (induction n arbitrary: root h lo hi)
  case (Leaf es)
  then show ?case using insert_leaf by simp
next
  case (Internal ks cs)
  then show ?case by (intro insert_internal) auto
qed

subsection \<open>Deletion\<close>

lemma bm_remove_mid:
  "\<forall>j \<in> fst ` set a. j < k \<Longrightarrow> \<forall>j \<in> fst ` set c. k < j \<Longrightarrow> bm_remove k (a @ b @ c) = a @ bm_remove k b @ (c :: ('k :: linorder, 'v) bmap)"
proof -
  assume "\<forall>j \<in> fst ` set a. j < k" and "\<forall>j \<in> fst ` set c. k < j"
  then have "bm_remove k a = a" "bm_remove k c = c" by (force simp: bm_remove_def filter_id_conv)+
  then show ?thesis by (simp add: bm_remove_def)
qed

lemma leaf_remove:
  assumes "bm_wf es" and "pos = partition_point (\<lambda>e. fst e < key) es"
  shows "bm_remove key es = (if pos < length es \<and> fst (es ! pos) = key then take pos es @ drop (pos + 1) es else es)"
  unfolding assms(2) using assms(1)
proof (induction es)
  case (Cons e es)
  have "bm_remove key es = es" if "key \<le> fst e"
    using that Cons.prems by (auto simp: bm_remove_def filter_id_conv)
  with Cons show ?case by (auto simp: partition_point_def bm_remove_def)
qed (simp add: bm_remove_def)

lemma delete_rec_spec:
  "node_ok 0 root h lo hi n \<Longrightarrow> in_bounds lo hi key \<Longrightarrow>
   \<exists>n'. delete_rec n key = Some (map_of (flat n) key \<noteq> None, n') \<and> node_ok 0 root h lo hi n'
     \<and> flat n' = bm_remove key (flat n) \<and> leaves n' = leaves n"
proof (induction n arbitrary: root h lo hi)
  case (Leaf es)
  then have wf: "bm_wf es" by simp
  have run: "delete_rec (Leaf es) key = Some (map_of es key \<noteq> None, Leaf (bm_remove key es))"
    using leaf_remove [OF wf refl, of key] leaf_key [OF wf refl, of key] by (auto simp: Let_def)
  have "length (bm_remove key es) \<le> length es" "set (bm_remove key es) \<subseteq> set es" by (auto simp: bm_remove_def)
  then show ?case using Leaf run by (auto simp: bm_wf_remove)
next
  case (Internal ks cs)
  let ?P = "node_ok 0 False (h - 1)"
  define i where "i = partition_point (\<lambda>k. k \<le> key) ks"
  obtain cs1 c cs2 where r: "cs = cs1 @ c # cs2" "length cs1 = i" "i < length cs"
    and fr: "front ?P lo (take i ks) cs1" and ch: "chain ?P (top lo (take i ks)) hi (drop i ks) (c # cs2)"
    and c: "?P (top lo (take i ks)) (nxt (drop i ks) hi) c" "in_bounds (top lo (take i ks)) (nxt (drop i ks) hi) key"
    and sides: "\<forall>k \<in> fst ` set (concat (map flat cs1)). k < key" "\<forall>k \<in> fst ` set (concat (map flat cs2)). key < k"
    by (rule route [OF Internal.prems i_def])
  obtain c' where c': "delete_rec c key = Some (map_of (flat c) key \<noteq> None, c')"
    "?P (top lo (take i ks)) (nxt (drop i ks) hi) c'" "flat c' = bm_remove key (flat c)" "leaves c' = leaves c"
    using Internal.IH [OF _ c] r(1) by auto
  have nth: "cs ! i = c" "cs[i := c'] = cs1 @ c' # cs2" using r by (simp_all add: nth_append list_update_append)
  have len: "length cs1 = length (take i ks)" using r(2) by (simp add: i_def)
  have "chain ?P lo hi ks (cs1 @ c' # cs2)"
    using chain_append [OF len, of ?P lo hi "drop i ks" "c' # cs2"] fr chain_swap [OF ch c'(2)] by simp
  then have "node_ok 0 root h lo hi (Internal ks (cs1 @ c' # cs2))" using Internal.prems(1) r(1) by simp
  moreover have "delete_rec (Internal ks cs) key = Some (map_of (flat (Internal ks cs)) key \<noteq> None, Internal ks (cs1 @ c' # cs2))"
    using c'(1) r(3) nth map_of_mid [OF sides, of "flat c"] by (simp add: i_def [symmetric] Let_def r(1))
  moreover have "flat (Internal ks (cs1 @ c' # cs2)) = bm_remove key (flat (Internal ks cs))"
    using bm_remove_mid [OF sides, of "flat c"] c'(3) by (simp add: r(1))
  ultimately show ?case using c'(4) r(1) by auto
qed

subsection \<open>Scans and ranges\<close>

lemma collect_flat: "collect p n out = out @ filter p (flat n)"
proof (induction n arbitrary: out)
  case (Internal ks cs)
  have "fold (collect p) cs out = out @ filter p (concat (map flat cs))" for out
    using Internal.IH by (induction cs arbitrary: out) auto
  then show ?case by simp
qed simp

abbreviation in_range :: "bytes \<Rightarrow> bytes \<Rightarrow> bytes \<times> bytes \<Rightarrow> bool" where
  "in_range a b e \<equiv> a \<le> fst e \<and> fst e < b"

lemma leaf_range:
  assumes "bm_wf es"
  shows "takeWhile (\<lambda>e. \<not> b \<le> fst e) (drop (partition_point (\<lambda>e. fst e < a) es) es) = filter (in_range a b) es"
proof -
  have s: "sorted_wrt (\<lambda>x y. fst x < fst y) es" using assms by (simp add: bm_wf_def sorted_wrt_map)
  have "drop (partition_point (\<lambda>e. fst e < a) es) es = filter (\<lambda>e. a \<le> fst e) es"
    unfolding drop_partition_point using dropWhile_eq_filter_sorted [OF s, of "\<lambda>e. fst e < a"] by (auto simp: not_less)
  moreover have "sorted_wrt (\<lambda>x y. fst x < fst y) (filter (\<lambda>e. a \<le> fst e) es)" using s by (rule sorted_wrt_filter)
  ultimately show ?thesis
    using takeWhile_eq_filter_sorted [of "\<lambda>x y. fst x < fst y" "filter (\<lambda>e. a \<le> fst e) es" "\<lambda>e. \<not> b \<le> fst e"]
    by (simp add: not_le conj_commute)
qed

lemma collect_children_range:
  assumes "chain (node_ok m False h) (if i = 0 then lo else Some (ks ! (i - 1))) hi (drop i ks) cs" and "i \<le> length ks"
    and "\<And>c h lo hi out. c \<in> set cs \<Longrightarrow> node_ok m False h lo hi c \<Longrightarrow> collect_range c a b out = Some (out @ filter (in_range a b) (flat c))"
  shows "collect_children ks i cs a b out = Some (out @ filter (in_range a b) (concat (map flat cs)))"
  using assms
proof (induction cs arbitrary: i out)
  case (Cons c cs)
  let ?lo = "if i = 0 then lo else Some (ks ! (i - 1))"
  have rng: "\<forall>k \<in> fst ` set (concat (map flat (c # cs))). in_bounds ?lo hi k"
    using chain_entries [OF Cons.prems(1), of flat] node_entries by blast
  have c: "collect_range c a b out = Some (out @ filter (in_range a b) (flat c))" for out
    using Cons.prems(3) [of c] chain_hd [OF Cons.prems(1)] by auto
  have idx: "\<not> (0 < i \<and> length ks \<le> i - 1)" using Cons.prems(2) by auto
  show ?case
  proof (cases "0 < i \<and> b \<le> ks ! (i - 1)")
    case True
    have "b \<le> k" if "k \<in> fst ` set (concat (map flat (c # cs)))" for k
    proof -
      have "in_bounds (Some (ks ! (i - 1))) hi k" using bspec [OF rng that] True by simp
      then have "ks ! (i - 1) \<le> k" by (simp add: in_bounds_def)
      then show ?thesis using conjunct2 [OF True] by (rule order_trans [rotated])
    qed
    then have "filter (in_range a b) (concat (map flat (c # cs))) = []"
      unfolding filter_empty_conv by (metis image_eqI not_le)
    then show ?thesis using True idx by simp
  next
    case False
    have "collect_children ks (i + 1) cs a b out' = Some (out' @ filter (in_range a b) (concat (map flat cs)))" for out'
    proof (cases "drop i ks")
      case Nil
      then have "cs = []" using Cons.prems(1) by (cases cs) simp_all
      then show ?thesis by simp
    next
      case (Cons k r)
      have k: "i < length ks" using Cons by (metis drop_eq_Nil linorder_not_le list.distinct(1))
      then have "k = ks ! i" "r = drop (Suc i) ks" using Cons by (simp_all add: Cons_nth_drop_Suc [symmetric])
      then show ?thesis using Cons.IH [of "i + 1" out'] Cons.prems(1,3) k \<open>drop i ks = k # r\<close> by simp
    qed
    then show ?thesis using False idx c by auto
  qed
qed simp

lemma collect_range_flat:
  "node_ok m root h lo hi n \<Longrightarrow> collect_range n a b out = Some (out @ filter (in_range a b) (flat n))"
proof (induction n arbitrary: root h lo hi out)
  case (Leaf es)
  then show ?case using leaf_range [of es b a] by simp
next
  case (Internal ks cs)
  define i where "i = partition_point (\<lambda>k. k \<le> a) ks"
  have ch: "chain (node_ok m False (h - 1)) lo hi ks cs" using Internal.prems by simp
  let ?cs1 = "take i cs" and ?cs2 = "drop i cs"
  have i: "i \<le> length ks" by (simp add: i_def)
  have len: "length ?cs1 = length (take i ks)" using chain_length [OF ch] i by simp
  have top: "top lo (take i ks) = (if i = 0 then lo else Some (ks ! (i - 1)))"
  proof -
    have "top lo (l @ [k]) = Some k" for l k lo by (induction l arbitrary: lo) simp_all
    then show ?thesis using i by (cases i) (simp_all add: take_Suc_conv_app_nth)
  qed
  have parts: "front (node_ok m False (h - 1)) lo (take i ks) ?cs1"
    "chain (node_ok m False (h - 1)) (if i = 0 then lo else Some (ks ! (i - 1))) hi (drop i ks) ?cs2"
    using ch chain_append [OF len, of "node_ok m False (h - 1)" lo hi "drop i ks" ?cs2] by (simp_all add: top)
  have "\<forall>k \<in> set (take i ks). k \<le> a" unfolding i_def take_partition_point by (auto dest: set_takeWhileD)
  then have "\<forall>k \<in> fst ` set (concat (map flat ?cs1)). k < a"
    by (intro front_entries [OF parts(1)]) (auto dest: node_entries)
  then have "filter (in_range a b) (concat (map flat ?cs1)) = []" by (fastforce simp: filter_empty_conv)
  then have "filter (in_range a b) (concat (map flat (?cs1 @ ?cs2))) = filter (in_range a b) (concat (map flat ?cs2))"
    unfolding map_append concat_append filter_append by simp
  moreover have "collect_children ks i ?cs2 a b out = Some (out @ filter (in_range a b) (concat (map flat ?cs2)))"
    by (rule collect_children_range [OF parts(2) i], rule Internal.IH) (auto dest: in_set_dropD)
  ultimately show ?case by (simp add: i_def [symmetric] Let_def)
qed

subsection \<open>The tree\<close>

definition bt_ok :: "nat \<Rightarrow> btree \<Rightarrow> bool" where
  "bt_ok m t \<longleftrightarrow> (\<exists>h. node_ok m True h None None (bt_root t)) \<and> bt_len t = length (flat (bt_root t))"

abbreviation bt_entries :: "btree \<Rightarrow> (bytes \<times> bytes) list" where
  "bt_entries t \<equiv> flat (bt_root t)"

lemma in_bounds_None [simp]: "in_bounds None None k"
  by (simp add: in_bounds_def)

lemma bt_ok_fill: "bt_ok m t \<Longrightarrow> bt_ok 0 t"
  unfolding bt_ok_def using node_fill_mono by blast

lemma bt_ok_new: "bt_ok m bt_new"
  by (simp add: bt_ok_def bt_new_def ORDER_def)

lemma bt_insert_spec:
  assumes "bt_ok m t" and "m \<le> MIN_LEAF_KEYS"
  shows "\<exists>t'. bt_insert key val t = Some t' \<and> bt_ok m t' \<and> bt_entries t' = bm_insert key val (bt_entries t)
    \<and> leaves (bt_root t') \<le> leaves (bt_root t) + 1"
proof -
  obtain h where h: "node_ok m True h None None (bt_root t)" and len: "bt_len t = length (bt_entries t)"
    using assms(1) by (auto simp: bt_ok_def)
  obtain sp n' where rec: "insert_rec (bt_root t) key val = Some (map_of (bt_entries t) key = None, sp, n')"
    and ok: "inserted_ok m True h None None (bt_root t) key val sp n'"
    using insert_rec_spec [OF h in_bounds_None assms(2)] by blast
  have len': "(if map_of (bt_entries t) key = None then bt_len t + 1 else bt_len t) = length (bm_insert key val (bt_entries t))"
    using node_entries [OF h] by (simp add: len length_bm_insert)
  show ?thesis
  proof (cases sp)
    case None
    then show ?thesis using rec ok len' by (auto simp: bt_insert_def inserted_ok_def bt_ok_def Let_def)
  next
    case (Some s)
    let ?t = "t\<lparr>bt_root := Internal [sp_median s] [n', sp_right s], bt_len := length (bm_insert key val (bt_entries t))\<rparr>"
    have s: "flat n' @ flat (sp_right s) = bm_insert key val (bt_entries t)" "leaves n' + leaves (sp_right s) \<le> leaves (bt_root t) + 1"
      using ok Some by (simp_all add: inserted_ok_def)
    have "node_ok m True (Suc h) None None (Internal [sp_median s] [n', sp_right s])"
      using ok Some by (simp add: inserted_ok_def tree_sizes)
    then have "bt_ok m ?t" using s(1) by (auto simp: bt_ok_def simp flip: s(1))
    moreover have "bt_insert key val t = Some ?t" using rec Some len' by (simp add: bt_insert_def Let_def)
    ultimately show ?thesis using s by (intro exI [of _ ?t]) simp
  qed
qed

lemma bt_delete_spec:
  assumes "bt_ok 0 t"
  shows "\<exists>t'. bt_delete key t = Some (map_of (bt_entries t) key \<noteq> None, t') \<and> bt_ok 0 t' \<and> bt_entries t' = bm_remove key (bt_entries t)
    \<and> leaves (bt_root t') = leaves (bt_root t)"
proof -
  obtain h where h: "node_ok 0 True h None None (bt_root t)" and len: "bt_len t = length (bt_entries t)"
    using assms by (auto simp: bt_ok_def)
  obtain n' where d: "delete_rec (bt_root t) key = Some (map_of (bt_entries t) key \<noteq> None, n')" "node_ok 0 True h None None n'"
    "flat n' = bm_remove key (bt_entries t)" "leaves n' = leaves (bt_root t)"
    using delete_rec_spec [OF h in_bounds_None] by blast
  have wf: "bm_wf (bt_entries t)" using node_entries [OF h] by blast
  have "length (bm_remove key (bt_entries t)) = (if map_of (bt_entries t) key \<noteq> None then bt_len t - 1 else bt_len t)"
  proof (cases "map_of (bt_entries t) key")
    case None
    then show ?thesis by (simp add: bm_remove_absent len)
  next
    case (Some v)
    have "bm_insert key v (bm_remove key (bt_entries t)) = bt_entries t"
      using wf Some by (intro bm_ext) (auto simp: bm_wf_insert bm_wf_remove bm_get_insert bm_get_remove)
    then have "length (bt_entries t) = length (bm_remove key (bt_entries t)) + 1"
      using length_bm_insert [OF bm_wf_remove [OF wf], of key v key] by (simp add: bm_get_remove)
    then show ?thesis using Some len by simp
  qed
  then show ?thesis using d by (auto simp: bt_delete_def bt_ok_def)
qed

lemma bt_get_spec: "bt_ok m t \<Longrightarrow> bt_get t key = Some (map_of (bt_entries t) key)"
  unfolding bt_ok_def bt_get_def using get_rec_flat by auto

text \<open>
  The tree implements the finite-map interface. The source's operations do not return where
  they panic; the interpretation leaves the tree alone there, and \<open>bt_insert_spec\<close> and
  \<open>bt_delete_spec\<close> show that it never comes to that.
\<close>

interpretation bt: kv_map bt_new "\<lambda>t k. the (bt_get t k)"
  "\<lambda>k v t. case bt_insert k v t of Some t' \<Rightarrow> t' | None \<Rightarrow> t" "\<lambda>k t. case bt_delete k t of Some (_, t') \<Rightarrow> t' | None \<Rightarrow> t"
  bt_entries "bt_ok 0"
proof
  fix t k v
  assume ok: "bt_ok 0 t"
  obtain t1 where i: "bt_insert k v t = Some t1" "bt_ok 0 t1" "bt_entries t1 = bm_insert k v (bt_entries t)"
    using bt_insert_spec [OF ok, of k v] by auto
  obtain b t2 where d: "bt_delete k t = Some (b, t2)" "bt_ok 0 t2" "bt_entries t2 = bm_remove k (bt_entries t)"
    using bt_delete_spec [OF ok, of k] by auto
  show wf: "bm_wf (bt_entries t)" using ok node_entries by (auto simp: bt_ok_def)
  show "bt_ok 0 (case bt_insert k v t of Some t' \<Rightarrow> t' | None \<Rightarrow> t)" using i by simp
  show "bt_ok 0 (case bt_delete k t of Some (_, t') \<Rightarrow> t' | None \<Rightarrow> t)" using d by simp
  show "(\<lambda>k. the (bt_get t k)) = map_of (bt_entries t)" using bt_get_spec [OF ok] by auto
  show "(\<lambda>j. the (bt_get (case bt_insert k v t of Some t' \<Rightarrow> t' | None \<Rightarrow> t) j)) = (\<lambda>j. the (bt_get t j))(k \<mapsto> v)"
    using bt_get_spec [OF i(2)] bt_get_spec [OF ok] i wf by (auto simp: bm_get_insert)
  show "(\<lambda>j. the (bt_get (case bt_delete k t of Some (_, t') \<Rightarrow> t' | None \<Rightarrow> t) j)) = (\<lambda>j. the (bt_get t j))(k := None)"
    using bt_get_spec [OF d(2)] bt_get_spec [OF ok] d by (auto simp: bm_get_remove)
next
  show "the (bt_get bt_new k) = None" for k by (simp add: bt_get_spec [OF bt_ok_new]) (simp add: bt_new_def)
qed (rule bt_ok_new)

subsection \<open>The properties\<close>

text \<open>Trees built by any sequence of insertions (\<open>Some v\<close>) and deletions (\<open>None\<close>).\<close>

inductive bt_reach :: "(bytes \<times> bytes option) list \<Rightarrow> btree \<Rightarrow> bool" where
  br_new: "bt_reach [] bt_new"
| br_insert: "bt_reach us t \<Longrightarrow> bt_insert k v t = Some t' \<Longrightarrow> bt_reach (us @ [(k, Some v)]) t'"
| br_delete: "bt_reach us t \<Longrightarrow> bt_delete k t = Some (b, t') \<Longrightarrow> bt_reach (us @ [(k, None)]) t'"

definition written :: "(bytes \<times> bytes option) list \<Rightarrow> bytes \<Rightarrow> bytes option" where
  "written us = fold (\<lambda>u f. f(fst u := snd u)) us (\<lambda>_. None)"

lemma bt_reach_run: "bt_reach us t \<Longrightarrow> t = bt.run us bt_new"
proof (induction rule: bt_reach.induct)
  have app: "bt.run (us @ vs) s = bt.run vs (bt.run us s)" for us vs s by (induction us arbitrary: s) simp_all
  case (br_insert us t k v t')
  then show ?case by (simp add: app)
next
  have app: "bt.run (us @ vs) s = bt.run vs (bt.run us s)" for us vs s by (induction us arbitrary: s) simp_all
  case (br_delete us t k b t')
  then show ?case by (simp add: app)
qed simp

lemma bt_reach_ok: "bt_reach us t \<Longrightarrow> bt_ok 0 t"
  using bt_reach_run bt.inv_run [OF bt_ok_new] by blast

lemma bt_reach_entries: "bt_reach us t \<Longrightarrow> map_of (bt_entries t) = written us"
  using bt_reach_run [of us t] bt.lookup_run [OF bt_ok_new, of us] bt.lookup_entries [OF bt_reach_ok, of us t]
    bt.lookup_empty
  by (simp add: written_def)

text \<open>
  C13: after any sequence of insertions and deletions the tree answers as the map they build: a lookup
  returns the last value written, the length is the number of keys present, a scan lists the
  matching entries in key order, a deletion reports whether the key was there, and no operation
  panics.
\<close>

theorem btree_refines_map:
  assumes "bt_reach us t"
  shows "bt_get t k = Some (written us k) \<and> bt_len t = card (dom (written us))
    \<and> sorted_wrt (<) (map fst (bt_scan p t)) \<and> set (bt_scan p t) = {e. written us (fst e) = Some (snd e) \<and> p e}
    \<and> (\<exists>t'. bt_insert k v t = Some t') \<and> (\<exists>t'. bt_delete k t = Some (written us k \<noteq> None, t'))"
proof -
  have ok: "bt_ok 0 t" using assms by (rule bt_reach_ok)
  have m: "map_of (bt_entries t) = written us" using assms by (rule bt_reach_entries)
  have wf: "bm_wf (bt_entries t)" using ok by (rule bt.entries_wf)
  have "dom (written us) = fst ` set (bt_entries t)" unfolding m [symmetric] by (rule dom_map_of_conv_image_fst)
  then have "bt_len t = card (dom (written us))"
    using ok bm_wf_distinct [OF wf] by (metis bt_ok_def distinct_card length_map set_map)
  moreover have "set (bt_scan p t) = {e. written us (fst e) = Some (snd e) \<and> p e}"
    using bm_wf_distinct [OF wf] unfolding m [symmetric] by (auto simp: bt_scan_def collect_flat)
  moreover have "sorted_wrt (<) (map fst (bt_scan p t))"
    using bm_wf_filter [OF wf, of p] by (simp add: bt_scan_def collect_flat bm_wf_def)
  moreover have "bt_get t k = Some (written us k)" using bt_get_spec [OF ok] m by simp
  ultimately show ?thesis using bt_insert_spec [OF ok, of k v] bt_delete_spec [OF ok, of k] m by auto
qed

text \<open>
  C39: the pruned range query returns what the full scan with the same bounds does, whatever bounds it
  is given, and never indexes out of range.
\<close>

theorem btree_range_exact:
  assumes "bt_reach us t"
  shows "bt_range a b t = Some (bt_scan (in_range a b) t)"
proof (cases "a < b")
  case True
  obtain h where "node_ok 0 True h None None (bt_root t)" using bt_reach_ok [OF assms] by (auto simp: bt_ok_def)
  from collect_range_flat [OF this, of a b "[]"] True show ?thesis by (simp add: bt_range_def bt_scan_def collect_flat)
next
  case False
  then have "filter (in_range a b) (bt_entries t) = []" by (auto simp: filter_empty_conv)
  then show ?thesis using False by (simp add: bt_range_def bt_scan_def collect_flat)
qed

subsection \<open>The height\<close>

fun height :: "bnode \<Rightarrow> nat" where
  "height (Leaf es) = 0"
| "height (Internal ks cs) = Suc (fold max (map height cs) 0)"

lemma sum_list_lower: "\<forall>x \<in> set xs. (b :: nat) \<le> f x \<Longrightarrow> length xs * b \<le> sum_list (map f xs)"
  by (induction xs) auto

lemma node_leaves: "node_ok m False h lo hi n \<Longrightarrow> 3 ^ h \<le> leaves n"
proof (induction n arbitrary: h lo hi)
  case (Internal ks cs)
  have "3 ^ (h - 1) \<le> leaves c" if "c \<in> set cs" for c
    using chain_set [of "node_ok m False (h - 1)" lo hi ks cs c] Internal that by auto
  then have "length cs * 3 ^ (h - 1) \<le> leaves (Internal ks cs)" by (simp add: sum_list_lower)
  moreover have "3 * 3 ^ (h - 1) \<le> length cs * (3 :: nat) ^ (h - 1)" using Internal.prems by (intro mult_le_mono1) (simp add: tree_sizes)
  ultimately have "3 * 3 ^ (h - 1) \<le> leaves (Internal ks cs)" by (rule order_trans [rotated])
  moreover have "(3 :: nat) ^ h = 3 * 3 ^ (h - 1)" using Internal.prems by (cases h) simp_all
  ultimately show ?case by metis
qed simp

lemma node_height: "node_ok m root h lo hi n \<Longrightarrow> height n = h"
proof (induction n arbitrary: root h lo hi)
  case (Internal ks cs)
  have eq: "height c = h - 1" if "c \<in> set cs" for c
    using chain_set [of "node_ok m False (h - 1)" lo hi ks cs c] Internal that by auto
  have "cs \<noteq> []" using Internal.prems by (auto split: if_splits simp: tree_sizes)
  then obtain c cs' where cs: "cs = c # cs'" by (cases cs) auto
  have "map height cs = replicate (length cs) (h - 1)" using eq by (simp add: map_replicate_const [symmetric] cong: map_cong)
  moreover have "fold max (replicate n x) x = (x :: nat)" for n x by (induction n) simp_all
  ultimately show ?case using Internal.prems cs by (cases h) simp_all
qed simp

lemma root_leaves:
  assumes "node_ok m True h None None n"
  shows "2 * 3 ^ (h - 1) \<le> leaves n \<or> h = 0"
proof (cases n)
  case (Internal ks cs)
  have "3 ^ (h - 1) \<le> leaves c" if "c \<in> set cs" for c
    using chain_set [of "node_ok m False (h - 1)" None None ks cs c] assms Internal that node_leaves by auto
  then have "length cs * 3 ^ (h - 1) \<le> leaves n" by (simp add: Internal sum_list_lower)
  moreover have "2 * 3 ^ (h - 1) \<le> length cs * (3 :: nat) ^ (h - 1)" using assms Internal by (intro mult_le_mono1) simp
  ultimately have "2 * 3 ^ (h - 1) \<le> leaves n" by (rule order_trans [rotated])
  then show ?thesis by blast
qed (use assms in simp)

lemma bt_reach_leaves: "bt_reach us t \<Longrightarrow> leaves (bt_root t) \<le> length us + 1"
proof (induction rule: bt_reach.induct)
  case (br_insert us t k v t')
  then show ?case using bt_insert_spec [OF bt_reach_ok, of us t k v] by auto
next
  case (br_delete us t k b t')
  then show ?case using bt_delete_spec [OF bt_reach_ok, of us t k] by auto
qed (simp add: bt_new_def)

lemma node_assert: "node_ok MIN_LEAF_KEYS root h lo hi n \<Longrightarrow> assert_invariants n root"
proof (induction n arbitrary: root h lo hi)
  case (Internal ks cs)
  have ch: "chain (node_ok MIN_LEAF_KEYS False (h - 1)) lo hi ks cs" using Internal.prems by simp
  have "list_all (\<lambda>c. assert_invariants c False) cs"
    unfolding list_all_iff using chain_set [OF ch] Internal.IH by blast
  then show ?case using chain_length [OF ch] chain_sorted [OF ch] Internal.prems by (cases root) auto
qed (auto simp: bm_wf_def)

lemma bt_reach_fill: "bt_reach us t \<Longrightarrow> list_all (\<lambda>u. snd u \<noteq> None) us \<Longrightarrow> bt_ok MIN_LEAF_KEYS t"
proof (induction rule: bt_reach.induct)
  case (br_insert us t k v t')
  then show ?case using bt_insert_spec [of MIN_LEAF_KEYS t k v] by auto
qed (auto simp: bt_ok_new)

lemma bt_reach_height:
  assumes "bt_reach us t" and "length us < 2 ^ 64"
  shows "height (bt_root t) \<le> 41"
proof (rule ccontr)
  obtain h where h: "node_ok 0 True h None None (bt_root t)" using bt_reach_ok [OF assms(1)] by (auto simp: bt_ok_def)
  assume "\<not> height (bt_root t) \<le> 41"
  then have big: "\<not> h \<le> 41" using node_height [OF h] by simp
  then have "(3 :: nat) ^ 41 \<le> 3 ^ (h - 1)" by (intro power_increasing) simp_all
  moreover have "2 * 3 ^ (h - 1) \<le> leaves (bt_root t)" using root_leaves [OF h] big by auto
  ultimately have "2 * 3 ^ 41 \<le> leaves (bt_root t)" by linarith
  then show False using bt_reach_leaves [OF assms(1)] assms(2) by simp
qed

text \<open>
  C40: the shape of the tree. All leaves are at one depth, which is at most \<open>41\<close> for any history of fewer
  than \<open>2 ^ 64\<close> updates, deletions without rebalancing included, so far below the limit a document may
  nest; and a tree that was only inserted into satisfies the order and fill
  invariants the source's tests assert.
\<close>

theorem btree_shape:
  assumes "bt_reach us t" and "length us < 2 ^ 64"
  shows "height (bt_root t) \<le> 41 \<and> (list_all (\<lambda>u. snd u \<noteq> None) us \<longrightarrow> assert_invariants (bt_root t) True)"
proof -
  have "height (bt_root t) \<le> 41" using assms by (rule bt_reach_height)
  moreover have "assert_invariants (bt_root t) True" if "list_all (\<lambda>u. snd u \<noteq> None) us"
    using bt_reach_fill [OF assms(1) that] node_assert by (auto simp: bt_ok_def)
  ultimately show ?thesis by blast
qed

subsection \<open>Witnesses\<close>

text \<open>Six insertions, which split the root, and a deletion.\<close>

definition demo_tree :: btree where
  "demo_tree = snd (the (bt_delete [2] (foldl (\<lambda>t k. the (bt_insert [k] [k, k] t)) bt_new [3, 1, 2, 6, 5, 4])))"

definition demo_updates :: "(bytes \<times> bytes option) list" where
  "demo_updates = map (\<lambda>k. ([k], Some [k, k])) [3, 1, 2, 6, 5, 4] @ [([2], None)]"

lemma demo_tree_reach: "bt_reach demo_updates demo_tree"
proof -
  have ins: "bt_reach (map (\<lambda>k. ([k], Some [k, k])) ks) (foldl (\<lambda>t k. the (bt_insert [k] [k, k] t)) bt_new ks)" for ks
  proof (induction ks rule: rev_induct)
    case (snoc k ks)
    then show ?case using bt_insert_spec [OF bt_reach_ok [OF snoc], of "[k]" "[k, k]"] br_insert by fastforce
  qed (simp add: br_new)
  define t where "t = foldl (\<lambda>t k. the (bt_insert [k] [k, k] t)) bt_new [3, 1, 2, 6, 5, 4]"
  have t: "bt_reach (map (\<lambda>k. ([k], Some [k, k])) [3, 1, 2, 6, 5, 4]) t" unfolding t_def by (rule ins)
  obtain b t' where d: "bt_delete [2] t = Some (b, t')" using bt_delete_spec [OF bt_reach_ok [OF t], of "[2]"] by blast
  then have "demo_tree = t'" by (simp add: demo_tree_def t_def)
  with br_delete [OF t d] show ?thesis unfolding demo_updates_def by blast
qed

theorem btree_refines_map_witness:
  "bt_get demo_tree [4] = Some (Some [4, 4]) \<and> bt_get demo_tree [2] = Some None"
  using btree_refines_map [OF demo_tree_reach, of "[4]"] btree_refines_map [OF demo_tree_reach, of "[2]"]
  by (simp add: written_def demo_updates_def)

theorem btree_range_exact_witness:
  "bt_range [2] [5] demo_tree = Some [([3], [3, 3]), ([4], [4, 4])]"
proof -
  have "bt_entries demo_tree = [([1], [1, 1]), ([3], [3, 3]), ([4], [4, 4]), ([5], [5, 5]), ([6], [6, 6])]"
  proof (rule bm_ext)
    show "bm_wf (bt_entries demo_tree)" using bt.entries_wf [OF bt_reach_ok [OF demo_tree_reach]] .
  qed (auto simp: bt_reach_entries [OF demo_tree_reach] written_def demo_updates_def fun_eq_iff)
  then have "bt_scan (in_range [2] [5]) demo_tree = [([3], [3, 3]), ([4], [4, 4])]"
    by (simp add: bt_scan_def collect_flat)
  then show ?thesis using btree_range_exact [OF demo_tree_reach, of "[2]" "[5]"] by simp
qed

theorem btree_shape_witness: "height (bt_root demo_tree) \<le> 41"
  using btree_shape [OF demo_tree_reach] by (simp add: demo_updates_def)

end
