(* ===== verification/Btree_Doc.thy ===== *)
theory Btree_Doc
  imports Btree Checkpoint
begin

text \<open>
  The document a B+ tree is saved in (\<^verbatim>\<open>src/btree_store.rs\<close>): nested pages, each with a magic number and
  a checksum, read back by a bounded parser and replaced atomically on disk. A cursor over a page body is the part
  of it not read yet. Lengths are those of vectors, so below \<open>2 ^ 64\<close>. Shown: a committed tree is read
  back exactly, a commit that fails leaves the old document, and one damaged byte is refused.
\<close>

subsection \<open>The program\<close>

definition DOC_MAGIC :: u32 where "DOC_MAGIC = 0x42545252"

definition MAX_DEPTH :: nat where "MAX_DEPTH = 64"

definition BTREE_DAT :: string where "BTREE_DAT = ''btree.dat''"

definition BTREE_TMP :: string where "BTREE_TMP = ''btree.tmp''"

definition doc_len32 :: "nat \<Rightarrow> u32 io_result" where
  "doc_len32 n = (if n < 2 ^ 32 then Inr (word_of_nat n) else Inl InvalidInput)"

text \<open>A length-prefixed byte string, and the runs of them in the two kinds of page.\<close>

definition put_bytes :: "bytes \<Rightarrow> bytes io_result" where
  "put_bytes b = try_bind (doc_len32 (length b)) (\<lambda>n. Inr (u32_to_le n @ b))"

primrec put_keys :: "bytes list \<Rightarrow> bytes io_result" where
  "put_keys [] = Inr []"
| "put_keys (k # ks) = try_bind (put_bytes k) (\<lambda>b. try_bind (put_keys ks) (\<lambda>bs. Inr (b @ bs)))"

primrec put_entries :: "(bytes \<times> bytes) list \<Rightarrow> bytes io_result" where
  "put_entries [] = Inr []"
| "put_entries (e # es) =
     try_bind (put_bytes (fst e)) (\<lambda>k. try_bind (put_bytes (snd e)) (\<lambda>v.
     try_bind (put_entries es) (\<lambda>bs. Inr (k @ v @ bs))))"

definition seal_page :: "bytes \<Rightarrow> bytes" where
  "seal_page body = u32_to_le DOC_MAGIC @ body @ u32_to_le (crc32 body)"

fun node_page :: "bnode \<Rightarrow> bytes io_result"
  and page_children :: "bnode list \<Rightarrow> bytes io_result" where
  "node_page (Leaf es) =
     try_bind (doc_len32 (length es)) (\<lambda>n. try_bind (put_entries es) (\<lambda>b.
     Inr (seal_page (0 # u32_to_le n @ b))))"
| "node_page (Internal ks cs) =
     try_bind (doc_len32 (length ks)) (\<lambda>n. try_bind (put_keys ks) (\<lambda>kb.
     try_bind (doc_len32 (length cs)) (\<lambda>m. try_bind (page_children cs) (\<lambda>cb.
     Inr (seal_page (1 # u32_to_le n @ kb @ u32_to_le m @ cb))))))"
| "page_children [] = Inr []"
| "page_children (c # cs) =
     try_bind (node_page c) (\<lambda>b. try_bind (page_children cs) (\<lambda>bs.
     Inr (u64_to_le (word_of_nat (length b)) @ b @ bs)))"

text \<open>The cursor: every read checks what remains.\<close>

definition doc_take :: "nat \<Rightarrow> bytes \<Rightarrow> (bytes \<times> bytes) option" where
  "doc_take n c = (if n \<le> length c then Some (take n c, drop n c) else None)"

definition doc_u32 :: "bytes \<Rightarrow> (nat \<times> bytes) option" where
  "doc_u32 c = (case doc_take 4 c of None \<Rightarrow> None | Some (b, c) \<Rightarrow> Some (unat (u32_from_le b), c))"

definition doc_u64 :: "bytes \<Rightarrow> (nat \<times> bytes) option" where
  "doc_u64 c = (case doc_take 8 c of None \<Rightarrow> None | Some (b, c) \<Rightarrow> Some (unat (u64_from_le b), c))"

definition doc_bytes :: "bytes \<Rightarrow> (bytes \<times> bytes) option" where
  "doc_bytes c = (case doc_u32 c of None \<Rightarrow> None | Some (n, c) \<Rightarrow> doc_take n c)"

primrec parse_keys :: "nat \<Rightarrow> bytes \<Rightarrow> (bytes list \<times> bytes) option" where
  "parse_keys 0 c = Some ([], c)"
| "parse_keys (Suc n) c =
     (case doc_bytes c of None \<Rightarrow> None | Some (k, c) \<Rightarrow>
      case parse_keys n c of None \<Rightarrow> None | Some (ks, c) \<Rightarrow> Some (k # ks, c))"

primrec parse_entries :: "nat \<Rightarrow> bytes \<Rightarrow> ((bytes \<times> bytes) list \<times> bytes) option" where
  "parse_entries 0 c = Some ([], c)"
| "parse_entries (Suc n) c =
     (case doc_bytes c of None \<Rightarrow> None | Some (k, c) \<Rightarrow>
      case doc_bytes c of None \<Rightarrow> None | Some (v, c) \<Rightarrow>
      case parse_entries n c of None \<Rightarrow> None | Some (es, c) \<Rightarrow> Some ((k, v) # es, c))"

text \<open>What the parser checks of a page before its fields: size, magic and checksum.\<close>

definition open_page :: "bytes \<Rightarrow> bytes option" where
  "open_page b =
     (if length b < 4 + 4 then None
      else if u32_from_le (take 4 b) \<noteq> DOC_MAGIC then None
      else let rest = drop 4 b;
               body = take (length rest - 4) rest;
               crc = drop (length rest - 4) rest
           in if u32_from_le crc \<noteq> crc32 body then None else Some body)"

lemma doc_take_length: "doc_take n c = Some (b, c') \<Longrightarrow> length b + length c' = length c"
  by (auto simp: doc_take_def split: if_splits)

lemma doc_u32_length: "doc_u32 c = Some (n, c') \<Longrightarrow> length c' < length c"
  by (auto simp: doc_u32_def doc_take_def split: option.splits if_splits)

lemma doc_u64_length: "doc_u64 c = Some (n, c') \<Longrightarrow> length c' < length c"
  by (auto simp: doc_u64_def doc_take_def split: option.splits if_splits)

lemma parse_keys_length: "parse_keys n c = Some (ks, c') \<Longrightarrow> length c' \<le> length c"
  by (induction n arbitrary: c ks c')
    (fastforce simp: doc_bytes_def split: option.splits dest: doc_take_length doc_u32_length)+

lemma open_page_length: "open_page b = Some body \<Longrightarrow> length body < length b"
  by (auto simp: open_page_def Let_def split: if_splits)

function (sequential) parse_page :: "bytes \<Rightarrow> nat \<Rightarrow> bnode option"
  and parse_children :: "nat \<Rightarrow> bytes \<Rightarrow> nat \<Rightarrow> (bnode list \<times> bytes) option" where
  "parse_page b depth =
     (if depth > MAX_DEPTH then None
      else case open_page b of
        None \<Rightarrow> None
      | Some [] \<Rightarrow> None
      | Some (tag # c) \<Rightarrow>
          if tag = 0
          then (case doc_u32 c of None \<Rightarrow> None | Some (n, c) \<Rightarrow>
                if n > length c div 8 then None
                else case parse_entries n c of None \<Rightarrow> None | Some (es, c) \<Rightarrow>
                     if c = [] then Some (Leaf es) else None)
          else if tag = 1
          then (case doc_u32 c of None \<Rightarrow> None | Some (n, c) \<Rightarrow>
                if n > length c div 4 then None
                else case parse_keys n c of None \<Rightarrow> None | Some (ks, c) \<Rightarrow>
                     case doc_u32 c of None \<Rightarrow> None | Some (cn, c) \<Rightarrow>
                     if n = 0 \<or> cn \<noteq> n + 1 then None
                     else case parse_children cn c depth of None \<Rightarrow> None | Some (cs, c) \<Rightarrow>
                          if c = [] then Some (Internal ks cs) else None)
          else None)"
| "parse_children 0 c depth = Some ([], c)"
| "parse_children (Suc n) c depth =
     (case doc_u64 c of None \<Rightarrow> None | Some (clen, c) \<Rightarrow>
      case doc_take clen c of None \<Rightarrow> None | Some (b, c) \<Rightarrow>
      case parse_page b (depth + 1) of None \<Rightarrow> None | Some node \<Rightarrow>
      case parse_children n c depth of None \<Rightarrow> None | Some (cs, c) \<Rightarrow> Some (node # cs, c))"
  by pat_completeness auto
termination
  by (relation "measure (\<lambda>x. case x of Inl (b, _) \<Rightarrow> length b | Inr (_, c, _) \<Rightarrow> length c)")
    (fastforce dest: doc_take_length doc_u32_length doc_u64_length parse_keys_length open_page_length)+

declare parse_page.simps [simp del]

definition tree_document :: "bnode \<Rightarrow> bytes io_result" where
  "tree_document root = try_bind (node_page root) (\<lambda>body. Inr (seal_page body))"

definition commit_document :: "bytes \<Rightarrow> fs \<Rightarrow> unit io_result \<times> fs" where
  "commit_document doc d =
     io_then (fs_call d) (\<lambda>d.
     io_then (fs_open_truncate BTREE_TMP d) (\<lambda>d.
     io_then (fs_write_all BTREE_TMP doc d) (\<lambda>d.
     io_then (fs_sync (Synced BTREE_TMP) d) (\<lambda>d.
     io_then (fs_rename BTREE_TMP BTREE_DAT d) (fs_sync SyncedDir)))))"

definition bt_commit :: "btree \<Rightarrow> fs \<Rightarrow> unit io_result \<times> fs" where
  "bt_commit t d = (case tree_document (bt_root t) of Inl e \<Rightarrow> (Inl e, d) | Inr doc \<Rightarrow> commit_document doc d)"

definition bt_open :: "fs \<Rightarrow> btree io_result" where
  "bt_open d =
     (case bm_get (fs_files d) BTREE_DAT of
        None \<Rightarrow> Inr bt_new
      | Some doc \<Rightarrow>
          (case open_page doc of
             None \<Rightarrow> Inl InvalidData
           | Some body \<Rightarrow>
               (case parse_page body 0 of
                  Some root \<Rightarrow> Inr \<lparr>bt_root = root, bt_len = node_count root\<rparr>
                | None \<Rightarrow> Inl InvalidData)))"

subsection \<open>Pages read back\<close>

lemma open_seal [simp]: "open_page (seal_page body) = Some body"
  by (simp add: open_page_def seal_page_def Let_def)

lemma doc_len32_Inr: "doc_len32 n = Inr w \<Longrightarrow> n < 2 ^ 32 \<and> unat w = n"
  by (auto simp: doc_len32_def unat_u32_of_nat split: if_splits)

lemma doc_u32_enc: "unat w = n \<Longrightarrow> doc_u32 (u32_to_le w @ rest) = Some (n, rest)"
  by (simp add: doc_u32_def doc_take_def)

lemma doc_u64_enc: "n < 2 ^ 64 \<Longrightarrow> doc_u64 (u64_to_le (word_of_nat n) @ rest) = Some (n, rest)"
  by (simp add: doc_u64_def doc_take_def unat_u64_of_nat)

lemma put_bytes_read: "put_bytes k = Inr b \<Longrightarrow> doc_bytes (b @ rest) = Some (k, rest)"
  by (auto simp: put_bytes_def try_bind_Inr_iff doc_bytes_def doc_u32_enc doc_take_def dest!: doc_len32_Inr)

lemma put_bytes_length: "put_bytes k = Inr b \<Longrightarrow> 4 \<le> length b"
  by (auto simp: put_bytes_def try_bind_Inr_iff)

lemma put_keys_read: "put_keys ks = Inr b \<Longrightarrow> parse_keys (length ks) (b @ rest) = Some (ks, rest) \<and> 4 * length ks \<le> length b"
  by (induction ks arbitrary: b) (fastforce simp: try_bind_Inr_iff put_bytes_read dest: put_bytes_length)+

lemma put_entries_read: "put_entries es = Inr b \<Longrightarrow> parse_entries (length es) (b @ rest) = Some (es, rest) \<and> 8 * length es \<le> length b"
proof (induction es arbitrary: b)
  case (Cons e es)
  then obtain k v bs where b: "put_bytes (fst e) = Inr k" "put_bytes (snd e) = Inr v" "put_entries es = Inr bs" "b = k @ v @ bs"
    by (auto simp: try_bind_Inr_iff)
  with Cons.IH [OF b(3)] put_bytes_length [OF b(1)] put_bytes_length [OF b(2)] show ?case
    by (simp add: put_bytes_read)
qed simp

text \<open>The shape the parser insists on.\<close>

fun page_shape :: "bnode \<Rightarrow> bool" where
  "page_shape (Leaf es) \<longleftrightarrow> True"
| "page_shape (Internal ks cs) \<longleftrightarrow> ks \<noteq> [] \<and> length cs = length ks + 1 \<and> list_all page_shape cs"

lemma height_child:
  assumes "c \<in> set cs"
  shows "height c < height (Internal ks cs)"
proof -
  have "a \<le> fold max xs a \<and> (\<forall>x \<in> set xs. x \<le> fold max xs a)" for xs and a :: nat
    by (induction xs arbitrary: a) (auto intro: order_trans [OF max.cobounded1] order_trans [OF max.cobounded2])
  then show ?thesis using assms by (simp add: le_imp_less_Suc)
qed

lemma length_seal [simp]: "length (seal_page body) = 8 + length body"
  by (simp add: seal_page_def)

lemma page_children_read:
  assumes "page_children cs = Inr b" and "length b < 2 ^ 64"
    and "\<And>c pb. c \<in> set cs \<Longrightarrow> node_page c = Inr pb \<Longrightarrow> length pb < 2 ^ 64 \<Longrightarrow> parse_page pb (depth + 1) = Some c"
  shows "parse_children (length cs) (b @ rest) depth = Some (cs, rest)"
  using assms
proof (induction cs arbitrary: b)
  case (Cons c cs)
  then obtain pb bs where b: "node_page c = Inr pb" "page_children cs = Inr bs" "b = u64_to_le (word_of_nat (length pb)) @ pb @ bs"
    by (auto simp: try_bind_Inr_iff)
  then have len: "length pb < 2 ^ 64" "length bs < 2 ^ 64" using Cons.prems(2) by simp_all
  have "parse_page pb (depth + 1) = Some c" using Cons.prems(3) [of c] b(1) len(1) by simp
  moreover have "parse_children (length cs) (bs @ rest) depth = Some (cs, rest)"
    using Cons.IH [OF b(2) len(2)] Cons.prems(3) by simp
  ultimately show ?case using len(1) b(3) by (simp add: doc_u64_enc doc_take_def)
qed simp

lemma page_roundtrip:
  "node_page n = Inr b \<Longrightarrow> page_shape n \<Longrightarrow> height n + depth \<le> MAX_DEPTH \<Longrightarrow> length b < 2 ^ 64 \<Longrightarrow> parse_page b depth = Some n"
proof (induction n arbitrary: b depth)
  case (Leaf es)
  then obtain w eb where b: "doc_len32 (length es) = Inr w" "put_entries es = Inr eb" "b = seal_page (0 # u32_to_le w @ eb)"
    by (auto simp: try_bind_Inr_iff)
  have "parse_entries (length es) eb = Some (es, []) \<and> 8 * length es \<le> length eb" using put_entries_read [OF b(2), of "[]"] by simp
  moreover from this have "length es \<le> length eb div 8" by (simp add: less_eq_div_iff_mult_less_eq)
  ultimately show ?case using Leaf.prems(3) doc_len32_Inr [OF b(1)]
    by (subst parse_page.simps) (simp add: b(3) doc_u32_enc)
next
  case (Internal ks cs)
  then obtain w kb u cb where b: "doc_len32 (length ks) = Inr w" "put_keys ks = Inr kb" "doc_len32 (length cs) = Inr u"
    "page_children cs = Inr cb" "b = seal_page (1 # u32_to_le w @ kb @ u32_to_le u @ cb)"
    by (auto simp: try_bind_Inr_iff)
  have "parse_page pb (depth + 1) = Some c" if "c \<in> set cs" "node_page c = Inr pb" "length pb < 2 ^ 64" for c pb
    using Internal.IH [OF that(1,2)] Internal.prems(2,3) that(1,3) height_child [OF that(1), of ks] by (simp add: list_all_iff)
  then have kids: "parse_children (length cs) cb depth = Some (cs, [])"
    using page_children_read [OF b(4), of depth "[]"] Internal.prems(4) by (simp add: b(5))
  have keys: "parse_keys (length ks) (kb @ rest) = Some (ks, rest)" "4 * length ks \<le> length kb" for rest
    using put_keys_read [OF b(2)] by blast+
  have "length ks \<le> (length kb + (4 + length cb)) div 4" using keys(2) by (simp add: less_eq_div_iff_mult_less_eq)
  then show ?case using Internal.prems(2,3) doc_len32_Inr [OF b(1)] doc_len32_Inr [OF b(3)] keys kids
    by (subst parse_page.simps) (simp add: b(5) doc_u32_enc not_less)
qed

lemma node_page_shape: "node_ok m root h lo hi n \<Longrightarrow> page_shape n"
proof (induction n arbitrary: root h lo hi)
  case (Internal ks cs)
  have ch: "chain (node_ok m False (h - 1)) lo hi ks cs" using Internal.prems by simp
  have "list_all page_shape cs" unfolding list_all_iff using chain_set [OF ch] Internal.IH by blast
  moreover have "2 \<le> length cs" using Internal.prems by (cases root) (simp_all add: tree_sizes)
  ultimately show ?case using chain_length [OF ch] by auto
qed simp

subsection \<open>Damage\<close>

lemma le32_update_neq:
  assumes "i < 4" and "v \<noteq> u32_to_le w ! i"
  shows "u32_from_le ((u32_to_le w)[i := v]) \<noteq> w"
  using assms le32.dec_eq_iff [of "(u32_to_le w)[i := v]" w] by (metis le32.length_enc length_list_update nth_list_update_eq)

lemma sealed_damage:
  assumes "j < length (u32_to_le DOC_MAGIC @ b @ u32_to_le (crc32 b))" and "v \<noteq> (u32_to_le DOC_MAGIC @ b @ u32_to_le (crc32 b)) ! j"
  shows "open_page ((u32_to_le DOC_MAGIC @ b @ u32_to_le (crc32 b))[j := v]) = None"
proof -
  consider "j < 4" | "4 \<le> j" "j - 4 < length b" | "4 \<le> j" "length b \<le> j - 4" "j - 4 - length b < 4"
    using assms(1) by force
  then show ?thesis
  proof cases
    case 1
    then show ?thesis using assms(2) le32_update_neq [of j v DOC_MAGIC]
      by (simp add: open_page_def list_update_append nth_append)
  next
    case 2
    then have "crc32 (b[j - 4 := v]) \<noteq> crc32 b"
      using assms(2) by (intro crc32_update_neq) (simp_all add: nth_append)
    then show ?thesis using 2 by (simp add: open_page_def list_update_append Let_def)
  next
    case 3
    then show ?thesis using assms(2) le32_update_neq [of "j - 4 - length b" v "crc32 b"]
      by (simp add: open_page_def list_update_append nth_append Let_def)
  qed
qed

subsection \<open>Commits\<close>

lemma doc_names [simp]: "BTREE_DAT \<noteq> BTREE_TMP" "BTREE_TMP \<noteq> BTREE_DAT"
  by (simp_all add: BTREE_DAT_def BTREE_TMP_def)

text \<open>Whatever fails, the live document is the old one or the new one, and the new one after success.\<close>

lemma commit_document_spec:
  assumes "bm_wf (fs_files d)" and "commit_document doc d = (res, d')"
  shows "bm_get (fs_files d') BTREE_DAT = Some doc \<or> bm_get (fs_files d') BTREE_DAT = bm_get (fs_files d) BTREE_DAT \<and> res \<noteq> Inr ()"
proof -
  obtain r1 d1 where s1: "fs_call d = (r1, d1)" by fastforce
  obtain r2 d2 where s2: "fs_open_truncate BTREE_TMP d1 = (r2, d2)" by fastforce
  obtain r3 d3 where s3: "fs_write_all BTREE_TMP doc d2 = (r3, d3)" by fastforce
  obtain r4 d4 where s4: "fs_sync (Synced BTREE_TMP) d3 = (r4, d4)" by fastforce
  obtain r5 d5 where s5: "fs_rename BTREE_TMP BTREE_DAT d4 = (r5, d5)" by fastforce
  obtain r6 d6 where s6: "fs_sync SyncedDir d5 = (r6, d6)" by fastforce
  have run: "commit_document doc d = (case r1 of Inl e \<Rightarrow> (Inl e, d1) | Inr _ \<Rightarrow> case r2 of Inl e \<Rightarrow> (Inl e, d2) | Inr _ \<Rightarrow>
      case r3 of Inl e \<Rightarrow> (Inl e, d3) | Inr _ \<Rightarrow> case r4 of Inl e \<Rightarrow> (Inl e, d4) | Inr _ \<Rightarrow>
      case r5 of Inl e \<Rightarrow> (Inl e, d5) | Inr _ \<Rightarrow> (r6, d6))"
    by (simp add: commit_document_def s1 s2 s3 s4 s5 s6 split: sum.split)
  have f1: "fs_files d1 = fs_files d" and f4: "fs_files d4 = fs_files d3" and f6: "fs_files d6 = fs_files d5"
    using s1 s4 s6 by (blast dest: sync_files call_files)+
  have f2: "fs_files d2 = fs_files d1 \<or> fs_files d2 = bm_insert BTREE_TMP [] (fs_files d1)"
    "r2 = Inr () \<Longrightarrow> fs_files d2 = bm_insert BTREE_TMP [] (fs_files d1)"
    using s2 by (auto simp: fs_open_truncate_def split: prod.splits io_outcome.splits)
  have wf2: "bm_wf (fs_files d2)" using f2(1) assms(1) f1 by (auto simp: bm_wf_insert)
  obtain c where f3: "fs_files d3 = bm_insert BTREE_TMP c (fs_files d2)" "r3 = Inr () \<Longrightarrow> c = fs_content BTREE_TMP d2 @ doc"
    using s3 by (auto simp: fs_write_all_def fs_content_def split: prod.splits io_outcome.splits)
  have wf4: "bm_wf (fs_files d4)" using wf2 f3(1) f4 by (simp add: bm_wf_insert)
  have old: "bm_get (fs_files x) BTREE_DAT = bm_get (fs_files d) BTREE_DAT" if "x \<in> {d1, d2, d3, d4}" for x
    using that f1 f2(1) f3(1) f4 assms(1) wf2 by (auto simp: bm_get_insert)
  have tmp: "bm_get (fs_files d4) BTREE_TMP = Some doc" if "r2 = Inr ()" "r3 = Inr ()"
    using f2(2) f3 f4 that assms(1) f1 wf2 by (simp add: bm_get_insert fs_content_def)
  have f5: "fs_files d5 = (if r5 = Inr () then bm_insert BTREE_DAT doc (bm_remove BTREE_TMP (fs_files d4)) else fs_files d4)"
    if "r2 = Inr ()" "r3 = Inr ()"
    using s5 tmp that by (auto simp: fs_rename_def split: prod.splits io_outcome.splits)
  have new: "bm_get (fs_files d6) BTREE_DAT = Some doc" if "r2 = Inr ()" "r3 = Inr ()" "r5 = Inr ()"
    using f5 that f6 wf4 by (simp add: bm_get_insert bm_wf_remove)
  have keep: "bm_get (fs_files d5) BTREE_DAT = bm_get (fs_files d) BTREE_DAT" if "r2 = Inr ()" "r3 = Inr ()" "r5 \<noteq> Inr ()"
    using f5 that old [of d4] by simp
  show ?thesis using assms(2) old new keep unfolding run by (auto split: sum.splits)
qed

lemma bt_open_doc:
  assumes "bt_reach us t" and "length us < 2 ^ 64" and "tree_document (bt_root t) = Inr doc" and "length doc < 2 ^ 64"
    and "bm_get (fs_files d) BTREE_DAT = Some doc"
  shows "bt_open d = Inr t"
proof -
  obtain b where b: "node_page (bt_root t) = Inr b" "doc = seal_page b" using assms(3) by (auto simp: tree_document_def try_bind_Inr_iff)
  obtain h where h: "node_ok 0 True h None None (bt_root t)" and len: "bt_len t = length (bt_entries t)"
    using bt_reach_ok [OF assms(1)] by (auto simp: bt_ok_def)
  have "height (bt_root t) \<le> 41" using bt_reach_height [OF assms(1,2)] .
  then have "parse_page b 0 = Some (bt_root t)"
    using page_roundtrip [OF b(1) node_page_shape [OF h], of 0] assms(4) b(2) by (simp add: MAX_DEPTH_def)
  then show ?thesis using assms(5) b(2) len by (simp add: bt_open_def node_count_flat)
qed

text \<open>
  C14: saving a tree is atomic and exact. Whatever I/O call of a commit fails, the next open finds what it would
  have found before or exactly the tree that was committed, the latter if the commit returned \<^verbatim>\<open>Ok\<close>;
  on a healthy directory it does return \<^verbatim>\<open>Ok\<close>.
\<close>

theorem btree_commit_atomic:
  assumes "bt_reach us t" and "length us < 2 ^ 64" and "tree_document (bt_root t) = Inr doc" and "length doc < 2 ^ 64"
    and "bm_wf (fs_files d)" and "bt_commit t d = (res, d')"
  shows "(bt_open d' = Inr t \<or> bt_open d' = bt_open d \<and> res \<noteq> Inr ()) \<and> (fs_outcomes d = [] \<longrightarrow> res = Inr ())"
proof -
  have run: "commit_document doc d = (res, d')" using assms(3,6) by (simp add: bt_commit_def)
  have "res = Inr ()" if "fs_outcomes d = []"
    using run that assms(5)
    by (auto simp: commit_document_def fs_sync_def fs_call_def fs_open_truncate_def fs_write_all_def fs_rename_def bm_get_insert bm_wf_insert)
  moreover have "bt_open d' = Inr t \<or> bt_open d' = bt_open d \<and> res \<noteq> Inr ()"
    using commit_document_spec [OF assms(5) run] bt_open_doc [OF assms(1-4), of d'] by (auto simp: bt_open_def)
  ultimately show ?thesis by blast
qed

text \<open>
  One damaged byte anywhere in a saved document makes the open report \<^verbatim>\<open>InvalidData\<close>; it is never
  read as another tree.
\<close>

theorem btree_detects_damage:
  assumes "tree_document root = Inr doc" and "j < length doc" and "v \<noteq> doc ! j"
    and "bm_get (fs_files d) BTREE_DAT = Some (doc[j := v])"
  shows "bt_open d = Inl InvalidData"
proof -
  obtain b where doc: "doc = u32_to_le DOC_MAGIC @ b @ u32_to_le (crc32 b)"
    using assms(1) by (auto simp: tree_document_def try_bind_Inr_iff seal_page_def)
  have "open_page (doc[j := v]) = None"
    using assms(2,3) unfolding doc by (rule sealed_damage)
  then show ?thesis using assms(4) by (simp add: bt_open_def)
qed

subsection \<open>Witnesses\<close>

definition leaf_tree :: btree where
  "leaf_tree = \<lparr>bt_root = Leaf [([1], [2, 3])], bt_len = 1\<rparr>"

lemma leaf_tree_reach: "bt_reach [([1], Some [2, 3])] leaf_tree"
  using br_insert [OF br_new, of "[1]" "[2, 3]" leaf_tree]
  by (simp add: bt_insert_def bt_new_def leaf_tree_def Let_def partition_point_def ORDER_def)

definition leaf_doc :: bytes where
  "leaf_doc = seal_page (seal_page (0 # u32_to_le 1 @ u32_to_le 1 @ [1] @ u32_to_le 2 @ [2, 3]))"

lemma leaf_tree_doc: "tree_document (bt_root leaf_tree) = Inr leaf_doc" and length_leaf_doc: "length leaf_doc = 32"
  by (simp_all add: tree_document_def leaf_tree_def leaf_doc_def doc_len32_def put_bytes_def)

theorem btree_commit_atomic_witness:
  "bt_open (snd (bt_commit leaf_tree \<lparr>fs_files = [], fs_outcomes = [], fs_disk = boot []\<rparr>)) = Inr leaf_tree"
  using btree_commit_atomic [OF leaf_tree_reach _ leaf_tree_doc _ _ surjective_pairing, of "\<lparr>fs_files = [], fs_outcomes = [], fs_disk = boot []\<rparr>"]
  by (auto simp: length_leaf_doc)

theorem btree_detects_damage_witness:
  "bt_open \<lparr>fs_files = [(BTREE_DAT, leaf_doc[8 := leaf_doc ! 8 + 1])], fs_outcomes = [], fs_disk = boot []\<rparr> = Inl InvalidData"
  by (rule btree_detects_damage [OF leaf_tree_doc, of 8]) (simp_all add: length_leaf_doc)

end
