(* ===== verification/Epoch_Rcu.thy ===== *)
theory Epoch_Rcu
  imports Rcu "HOL-Library.Multiset"
begin

text \<open>
  Epoch-based reclamation (\<^verbatim>\<open>src/epoch_rcu.rs\<close>). The operations of the manager and the cell are built from
  their atomic parts, one per lock section or atomic access, and the machine \<open>ep_act\<close> interleaves the
  same parts over any number of threads. Versions are numbered as they are allocated; the epoch is
  a \<open>u64\<close> and a publish at its maximum is left out. A version is reclaimed when
  \<^verbatim>\<open>reclaim\<close> drops the reference the queue has of it; a reader has a clone of its own, so its memory outlives that. Shown: no
  version is reclaimed while a reader holds it that was registered when the reclaimer sampled the readers; and a
  reader that registers between the sampling and the draining is not protected.
\<close>

subsection \<open>The program\<close>

record epoch_mgr =
  em_epoch :: u64
  em_active :: "u64 list"
  em_retired :: "(u64 \<times> nat) list"

definition em_new :: epoch_mgr where
  "em_new = \<lparr>em_epoch = 0, em_active = [], em_retired = []\<rparr>"

text \<open>Registering a reader: the load of the epoch, then the push under the lock.\<close>

definition em_register :: "u64 \<Rightarrow> epoch_mgr \<Rightarrow> epoch_mgr" where
  "em_register e m = m\<lparr>em_active := em_active m @ [e]\<rparr>"

definition em_enter_raw :: "epoch_mgr \<Rightarrow> u64 \<times> epoch_mgr" where
  "em_enter_raw m = (let e = em_epoch m in (e, em_register e m))"

text \<open>Retiring: the atomic increment, then the push under the lock.\<close>

definition em_tag :: "epoch_mgr \<Rightarrow> u64 \<times> epoch_mgr" where
  "em_tag m = (em_epoch m + 1, m\<lparr>em_epoch := em_epoch m + 1\<rparr>)"

definition em_push :: "u64 \<Rightarrow> nat \<Rightarrow> epoch_mgr \<Rightarrow> epoch_mgr" where
  "em_push e v m = m\<lparr>em_retired := em_retired m @ [(e, v)]\<rparr>"

definition em_retire :: "nat \<Rightarrow> epoch_mgr \<Rightarrow> u64 \<times> epoch_mgr" where
  "em_retire v m = (case em_tag m of (e, m) \<Rightarrow> (e, em_push e v m))"

text \<open>Reclaiming: the least active entry under one lock, then the drain under the other.\<close>

definition em_min_active :: "epoch_mgr \<Rightarrow> u64" where
  "em_min_active m = fold min (em_active m) (- 1)"

definition em_ready :: "u64 \<Rightarrow> epoch_mgr \<Rightarrow> (u64 \<times> nat) list" where
  "em_ready k m = takeWhile (\<lambda>r. fst r \<le> k) (em_retired m)"

definition em_drain :: "u64 \<Rightarrow> epoch_mgr \<Rightarrow> nat \<times> epoch_mgr" where
  "em_drain k m = (let freed = length (em_ready k m) in (freed, m\<lparr>em_retired := drop freed (em_retired m)\<rparr>))"

definition em_reclaim :: "epoch_mgr \<Rightarrow> nat \<times> epoch_mgr" where
  "em_reclaim m = em_drain (em_min_active m) m"

definition em_pending :: "epoch_mgr \<Rightarrow> nat" where
  "em_pending m = length (em_retired m)"

text \<open>\<^verbatim>\<open>Vec::swap_remove\<close>: the last element takes the place of the removed one.\<close>

definition swap_remove :: "nat \<Rightarrow> 'a list \<Rightarrow> 'a list" where
  "swap_remove i xs = butlast (xs[i := last xs])"

definition em_exit :: "u64 \<Rightarrow> epoch_mgr \<Rightarrow> epoch_mgr" where
  "em_exit e m =
     (let i = length (takeWhile (\<lambda>x. x \<noteq> e) (em_active m))
      in if i < length (em_active m) then m\<lparr>em_active := swap_remove i (em_active m)\<rparr> else m)"

record epoch_rcu =
  er_current :: nat
  er_mgr :: epoch_mgr

definition er_new :: "nat \<Rightarrow> epoch_rcu" where
  "er_new v = \<lparr>er_current = v, er_mgr = em_new\<rparr>"

definition er_snapshot :: "epoch_rcu \<Rightarrow> (u64 \<times> nat) \<times> epoch_rcu" where
  "er_snapshot r = (case em_enter_raw (er_mgr r) of (e, m) \<Rightarrow> ((e, er_current r), r\<lparr>er_mgr := m\<rparr>))"

definition er_swap :: "nat \<Rightarrow> epoch_rcu \<Rightarrow> nat \<times> epoch_rcu" where
  "er_swap v r = (er_current r, r\<lparr>er_current := v\<rparr>)"

definition er_publish :: "nat \<Rightarrow> epoch_rcu \<Rightarrow> epoch_rcu" where
  "er_publish v r = (case er_swap v r of (old, r) \<Rightarrow> r\<lparr>er_mgr := snd (em_retire old (er_mgr r))\<rparr>)"

definition er_reclaim :: "epoch_rcu \<Rightarrow> nat \<times> epoch_rcu" where
  "er_reclaim r = (case em_reclaim (er_mgr r) of (n, m) \<Rightarrow> (n, r\<lparr>er_mgr := m\<rparr>))"

definition er_pending :: "epoch_rcu \<Rightarrow> nat" where
  "er_pending r = em_pending (er_mgr r)"

subsection \<open>Interleavings\<close>

text \<open>
  Where a thread is in a call: a reader has loaded the epoch, is registered, or holds a version; a
  publisher has swapped the old version out, or has its tag; a reclaimer has sampled the readers.
\<close>

datatype ep_thread =
    Idle
  | RLoaded u64
  | REntered u64
  | RHolds u64 nat
  | PSwapped nat
  | PTagged u64 nat
  | CSampled u64

datatype ep_action = Load | Register | Clone | Leave | Swap | Tag | Push | Sample | Drain

fun entry_of :: "ep_thread \<Rightarrow> u64 list" where
  "entry_of (REntered e) = [e]"
| "entry_of (RHolds e v) = [e]"
| "entry_of _ = []"

text \<open>
  The state of a run: the cell, the number of the next version, the threads and the versions reclaimed, whose reference in the queue was dropped. \<open>ep_seen i\<close> is
  an observation of the model: the readers that were registered when thread \<open>i\<close> sampled and have not left since.
\<close>

record ep_state =
  ep_cell :: epoch_rcu
  ep_next :: nat
  ep_threads :: "ep_thread list"
  ep_reclaimed :: "nat set"
  ep_seen :: "nat \<Rightarrow> nat set"

definition ep_init :: "nat \<Rightarrow> ep_state" where
  "ep_init n = \<lparr>ep_cell = er_new 0, ep_next = 1, ep_threads = replicate n Idle, ep_reclaimed = {}, ep_seen = (\<lambda>_. {})\<rparr>"

abbreviation with_mgr :: "epoch_mgr \<Rightarrow> ep_state \<Rightarrow> ep_state" where
  "with_mgr m s \<equiv> s\<lparr>ep_cell := (ep_cell s)\<lparr>er_mgr := m\<rparr>\<rparr>"

abbreviation at :: "nat \<Rightarrow> ep_thread \<Rightarrow> ep_state \<Rightarrow> ep_state" where
  "at i t s \<equiv> s\<lparr>ep_threads := (ep_threads s)[i := t]\<rparr>"

abbreviation unseen :: "nat \<Rightarrow> ep_state \<Rightarrow> ep_state" where
  "unseen i s \<equiv> s\<lparr>ep_seen := (\<lambda>k. ep_seen s k - {i})\<rparr>"

fun ep_act :: "nat \<Rightarrow> ep_action \<Rightarrow> ep_thread \<Rightarrow> ep_state \<Rightarrow> ep_state option" where
  "ep_act i Load Idle s = Some (at i (RLoaded (em_epoch (er_mgr (ep_cell s)))) s)"
| "ep_act i Register (RLoaded e) s = Some (at i (REntered e) (with_mgr (em_register e (er_mgr (ep_cell s))) s))"
| "ep_act i Clone (REntered e) s = Some (at i (RHolds e (er_current (ep_cell s))) s)"
| "ep_act i Leave (REntered e) s = Some (unseen i (at i Idle (with_mgr (em_exit e (er_mgr (ep_cell s))) s)))"
| "ep_act i Leave (RHolds e v) s = Some (unseen i (at i Idle (with_mgr (em_exit e (er_mgr (ep_cell s))) s)))"
| "ep_act i Swap Idle s =
     (case er_swap (ep_next s) (ep_cell s) of (old, c) \<Rightarrow> Some (at i (PSwapped old) (s\<lparr>ep_cell := c, ep_next := ep_next s + 1\<rparr>)))"
| "ep_act i Tag (PSwapped v) s =
     (if em_epoch (er_mgr (ep_cell s)) = - 1 then None
      else case em_tag (er_mgr (ep_cell s)) of (e, m) \<Rightarrow> Some (at i (PTagged e v) (with_mgr m s)))"
| "ep_act i Push (PTagged e v) s = Some (at i Idle (with_mgr (em_push e v (er_mgr (ep_cell s))) s))"
| "ep_act i Sample Idle s =
     Some (at i (CSampled (em_min_active (er_mgr (ep_cell s))))
       (s\<lparr>ep_seen := (ep_seen s)(i := {j. j < length (ep_threads s) \<and> entry_of (ep_threads s ! j) \<noteq> []})\<rparr>))"
| "ep_act i Drain (CSampled k) s =
     Some (at i Idle ((with_mgr (snd (em_drain k (er_mgr (ep_cell s)))) s)
       \<lparr>ep_reclaimed := ep_reclaimed s \<union> snd ` set (em_ready k (er_mgr (ep_cell s)))\<rparr>))"
| "ep_act i a t s = None"

definition ep_do :: "nat \<Rightarrow> ep_action \<Rightarrow> ep_state \<Rightarrow> ep_state option" where
  "ep_do i a s = (if i < length (ep_threads s) then ep_act i a (ep_threads s ! i) s else None)"

inductive ep_reach :: "nat \<Rightarrow> ep_state \<Rightarrow> bool" for n where
  er_init: "ep_reach n (ep_init n)"
| er_step: "ep_reach n s \<Longrightarrow> ep_do i a s = Some s' \<Longrightarrow> ep_reach n s'"

text \<open>The cell with its swap is a publication cell, like the one the engine reads through.\<close>

interpretation ec: publish_cell er_new er_current er_swap
  by unfold_locales (simp_all add: er_new_def er_swap_def)

lemmas em_defs = em_register_def em_tag_def em_push_def em_drain_def em_exit_def er_swap_def Let_def

text \<open>The actions, by what they find the thread doing.\<close>

lemma ep_act_cases:
  assumes "ep_act i a t s = Some s'"
  obtains (load) "t = Idle" "s' = at i (RLoaded (em_epoch (er_mgr (ep_cell s)))) s"
  | (register) e where "t = RLoaded e" "s' = at i (REntered e) (with_mgr (em_register e (er_mgr (ep_cell s))) s)"
  | (clone) e where "t = REntered e" "s' = at i (RHolds e (er_current (ep_cell s))) s"
  | (leave) e where "entry_of t = [e]" "s' = unseen i (at i Idle (with_mgr (em_exit e (er_mgr (ep_cell s))) s))"
  | (swap) "t = Idle" "s' = at i (PSwapped (er_current (ep_cell s))) (s\<lparr>ep_cell := (ep_cell s)\<lparr>er_current := ep_next s\<rparr>, ep_next := ep_next s + 1\<rparr>)"
  | (tag) v where "t = PSwapped v" "em_epoch (er_mgr (ep_cell s)) \<noteq> - 1"
      "s' = at i (PTagged (em_epoch (er_mgr (ep_cell s)) + 1) v) (with_mgr ((er_mgr (ep_cell s))\<lparr>em_epoch := em_epoch (er_mgr (ep_cell s)) + 1\<rparr>) s)"
  | (push) e v where "t = PTagged e v" "s' = at i Idle (with_mgr (em_push e v (er_mgr (ep_cell s))) s)"
  | (sample) "t = Idle" "s' = at i (CSampled (em_min_active (er_mgr (ep_cell s))))
       (s\<lparr>ep_seen := (ep_seen s)(i := {j. j < length (ep_threads s) \<and> entry_of (ep_threads s ! j) \<noteq> []})\<rparr>)"
  | (drain) k where "t = CSampled k" "s' = at i Idle ((with_mgr (snd (em_drain k (er_mgr (ep_cell s)))) s)
       \<lparr>ep_reclaimed := ep_reclaimed s \<union> snd ` set (em_ready k (er_mgr (ep_cell s)))\<rparr>)"
proof (cases a)
  case Load
  then show thesis using assms load by (cases t) simp_all
next
  case Register
  then show thesis using assms register by (cases t) simp_all
next
  case Clone
  then show thesis using assms clone by (cases t) simp_all
next
  case Leave
  then show thesis using assms leave by (cases t) simp_all
next
  case Swap
  then show thesis using assms swap by (cases t) (simp_all add: er_swap_def)
next
  case Tag
  then show thesis using assms tag by (cases t) (simp_all add: em_tag_def split: if_splits)
next
  case Push
  then show thesis using assms push by (cases t) simp_all
next
  case Sample
  then show thesis using assms sample by (cases t) simp_all
next
  case Drain
  then show thesis using assms drain by (cases t) simp_all
qed

subsection \<open>The active list\<close>

lemma mset_swap_remove:
  assumes "i < length xs"
  shows "mset (swap_remove i xs) = mset xs - {#xs ! i#}"
proof -
  let ?ys = "xs[i := last xs]"
  have ne: "xs \<noteq> []" using assms by auto
  have last: "last ?ys = last xs" using assms ne by (cases "i = length xs - 1") (auto simp: last_conv_nth nth_list_update)
  have "mset ?ys = add_mset (last xs) (mset (butlast ?ys))"
    using append_butlast_last_id [of ?ys] ne last by (metis list_update_nonempty union_mset_add_mset_right add.right_neutral mset.simps mset_append)
  moreover have "mset ?ys = add_mset (last xs) (mset xs - {#xs ! i#})" using assms by (rule mset_update)
  ultimately show ?thesis by (simp add: swap_remove_def)
qed

lemma position_first:
  "e \<in> set xs \<Longrightarrow> length (takeWhile (\<lambda>x. x \<noteq> e) xs) < length xs \<and> xs ! length (takeWhile (\<lambda>x. x \<noteq> e) xs) = e"
  by (induction xs) auto

lemma mset_exit:
  assumes "e \<in> set (em_active m)"
  shows "mset (em_active (em_exit e m)) = mset (em_active m) - {#e#}"
proof -
  let ?i = "length (takeWhile (\<lambda>x. x \<noteq> e) (em_active m))"
  have i: "?i < length (em_active m)" "em_active m ! ?i = e"
    using position_first [OF assms] by simp_all
  then show ?thesis using mset_swap_remove [OF i(1)] by (simp add: em_exit_def)
qed

lemma mset_concat_update:
  assumes "i < length xs"
  shows "mset (concat (map f (xs[i := t]))) + mset (f (xs ! i)) = mset (concat (map f xs)) + mset (f t)"
  using assms
proof (induction xs arbitrary: i)
  case (Cons x xs)
  then show ?case by (cases i) (auto simp: union_ac)
qed simp

definition active_ok :: "ep_state \<Rightarrow> bool" where
  "active_ok s \<longleftrightarrow> mset (em_active (er_mgr (ep_cell s))) = mset (concat (map entry_of (ep_threads s)))"

lemma active_entry:
  assumes "active_ok s" and "i < length (ep_threads s)" and "entry_of (ep_threads s ! i) = [e]"
  shows "e \<in> set (em_active (er_mgr (ep_cell s)))"
proof -
  have "e \<in> set (concat (map entry_of (ep_threads s)))" using assms(2,3) nth_mem by force
  then show ?thesis using assms(1) unfolding active_ok_def by (metis set_mset_mset)
qed

lemma active_step:
  assumes "active_ok s" and i: "i < length (ep_threads s)" and "ep_act i a (ep_threads s ! i) s = Some s'"
  shows "active_ok s'"
  using assms(3)
proof (cases rule: ep_act_cases)
  case (leave e)
  have "mset (em_active (em_exit e (er_mgr (ep_cell s)))) = mset (em_active (er_mgr (ep_cell s))) - {#e#}"
    using active_entry [OF assms(1) i leave(1)] by (rule mset_exit)
  moreover have "mset (concat (map entry_of (ep_threads s))) = add_mset e (mset (concat (map entry_of ((ep_threads s)[i := Idle]))))"
    using mset_concat_update [OF i, of entry_of Idle] leave(1) by simp
  ultimately show ?thesis using assms(1) leave(2) by (simp add: active_ok_def)
next
  case (clone e)
  then show ?thesis using assms(1) mset_concat_update [OF i, of entry_of "RHolds e (er_current (ep_cell s))"]
    by (simp add: active_ok_def)
qed (use assms(1) mset_concat_update [OF i, of entry_of] in \<open>auto simp: active_ok_def em_defs\<close>)

subsection \<open>Tags\<close>

text \<open>
  A version is tagged above the entry of every reader that holds it: the reader loaded its entry before
  the version stopped being current.
\<close>

fun thread_ok :: "epoch_rcu \<Rightarrow> nat \<Rightarrow> ep_thread \<Rightarrow> bool" where
  "thread_ok c nx (RLoaded e) \<longleftrightarrow> e \<le> em_epoch (er_mgr c)"
| "thread_ok c nx (REntered e) \<longleftrightarrow> e \<le> em_epoch (er_mgr c)"
| "thread_ok c nx (RHolds e v) \<longleftrightarrow> e \<le> em_epoch (er_mgr c) \<and> v < nx"
| "thread_ok c nx (PSwapped v) \<longleftrightarrow> v < nx \<and> v \<noteq> er_current c"
| "thread_ok c nx (PTagged e v) \<longleftrightarrow> v < nx \<and> v \<noteq> er_current c"
| "thread_ok c nx _ \<longleftrightarrow> True"

definition versions_ok :: "ep_state \<Rightarrow> bool" where
  "versions_ok s \<longleftrightarrow> er_current (ep_cell s) < ep_next s \<and> (\<forall>t \<in> set (ep_threads s). thread_ok (ep_cell s) (ep_next s) t)
     \<and> (\<forall>r \<in> set (em_retired (er_mgr (ep_cell s))). snd r < ep_next s \<and> snd r \<noteq> er_current (ep_cell s))"

definition tags_ok :: "ep_state \<Rightarrow> bool" where
  "tags_ok s \<longleftrightarrow> (\<forall>e v k. RHolds e v \<in> set (ep_threads s) \<longrightarrow>
     (PTagged k v \<in> set (ep_threads s) \<longrightarrow> e < k) \<and> ((k, v) \<in> set (em_retired (er_mgr (ep_cell s))) \<longrightarrow> e < k))"

lemma thread_ok_mono:
  assumes "thread_ok c nx t" and "em_epoch (er_mgr c) \<le> em_epoch (er_mgr c')" and "er_current c' = er_current c"
  shows "thread_ok c' nx t"
  using assms by (cases t) auto

lemma thread_ok_swap: "thread_ok c nx t \<Longrightarrow> thread_ok (c\<lparr>er_current := nx\<rparr>) (Suc nx) t"
  by (cases t) auto

lemma epoch_step: "(e :: u64) \<noteq> - 1 \<Longrightarrow> x \<le> e \<Longrightarrow> x < e + 1"
  using inc_less_eq_iff [of e x] by (auto simp flip: not_le)

lemma in_update: "x \<in> set (xs[i := t]) \<Longrightarrow> x = t \<or> x \<in> set xs"
  using set_update_subset_insert [of xs i t] by blast

lemma versions_step:
  assumes ok: "versions_ok s" and i: "i < length (ep_threads s)" and act: "ep_act i a (ep_threads s ! i) s = Some s'"
  shows "versions_ok s'"
proof -
  have ti: "thread_ok (ep_cell s) (ep_next s) (ep_threads s ! i)" using ok i by (simp add: versions_ok_def)
  have all: "thread_ok (ep_cell s) (ep_next s) t" if "t \<in> set (ep_threads s)" for t using ok that by (simp add: versions_ok_def)
  from act show ?thesis
  proof (cases rule: ep_act_cases)
    case swap
    then show ?thesis using ok all thread_ok_swap by (fastforce simp: versions_ok_def dest!: in_update)
  next
    case (tag v)
    let ?c = "(ep_cell s)\<lparr>er_mgr := (er_mgr (ep_cell s))\<lparr>em_epoch := em_epoch (er_mgr (ep_cell s)) + 1\<rparr>\<rparr>"
    have "thread_ok ?c (ep_next s) t" if "t \<in> set (ep_threads s)" for t
      by (rule thread_ok_mono [OF all [OF that]]) (use epoch_step [OF tag(2) order_refl] in \<open>simp_all add: less_imp_le\<close>)
    then show ?thesis using ok ti tag by (auto simp: versions_ok_def dest!: in_update)
  next
    case (leave e)
    have "thread_ok (ep_cell s') (ep_next s') t" if "t \<in> set (ep_threads s)" for t
      using all [OF that] leave(2) by (auto simp: em_defs intro: thread_ok_mono)
    then show ?thesis using ok leave(2) by (auto simp: versions_ok_def em_defs dest!: in_update)
  next
    case (drain k)
    have "thread_ok (ep_cell s') (ep_next s') t" if "t \<in> set (ep_threads s)" for t
      using all [OF that] drain(2) by (auto simp: em_defs intro: thread_ok_mono)
    then show ?thesis using ok drain(2) by (auto simp: versions_ok_def em_defs dest!: in_update dest: in_set_dropD)
  next
    case (register e)
    have "thread_ok (ep_cell s') (ep_next s') t" if "t \<in> set (ep_threads s)" for t
      using all [OF that] register(2) by (auto simp: em_defs intro: thread_ok_mono)
    then show ?thesis using ok ti register by (auto simp: versions_ok_def em_defs dest!: in_update)
  next
    case (push e v)
    have "thread_ok (ep_cell s') (ep_next s') t" if "t \<in> set (ep_threads s)" for t
      using all [OF that] push(2) by (auto simp: em_defs intro: thread_ok_mono)
    then show ?thesis using ok ti push by (auto simp: versions_ok_def em_defs dest!: in_update)
  qed (use ok ti in \<open>auto simp: versions_ok_def dest!: in_update\<close>)
qed

lemma tags_step:
  assumes tags: "tags_ok s" and ok: "versions_ok s" and i: "i < length (ep_threads s)"
    and act: "ep_act i a (ep_threads s ! i) s = Some s'"
  shows "tags_ok s'"
proof -
  have mem: "ep_threads s ! i \<in> set (ep_threads s)" using i by simp
  have all: "thread_ok (ep_cell s) (ep_next s) t" if "t \<in> set (ep_threads s)" for t using ok that by (simp add: versions_ok_def)
  have cur: "PTagged k (er_current (ep_cell s)) \<notin> set (ep_threads s)"
    "(k, er_current (ep_cell s)) \<notin> set (em_retired (er_mgr (ep_cell s)))" for k
    using all ok by (force simp: versions_ok_def)+
  have hold: "e \<le> em_epoch (er_mgr (ep_cell s))" if "RHolds e v \<in> set (ep_threads s)" for e v using all [OF that] by simp
  from act show ?thesis
  proof (cases rule: ep_act_cases)
    case (clone e)
    then show ?thesis using tags cur unfolding tags_ok_def by (auto dest!: in_update)
  next
    case (tag v)
    then show ?thesis using tags hold epoch_step [OF tag(2)] unfolding tags_ok_def by (auto dest!: in_update)
  next
    case (push e v)
    then show ?thesis using tags mem unfolding tags_ok_def by (auto simp: em_push_def dest!: in_update)
  next
    case (drain k)
    then show ?thesis using tags unfolding tags_ok_def by (auto simp: em_defs dest!: in_update dest: in_set_dropD)
  qed (use tags in \<open>auto simp: tags_ok_def em_defs dest!: in_update\<close>)
qed

subsection \<open>Samples\<close>

definition seen_ok :: "ep_state \<Rightarrow> bool" where
  "seen_ok s \<longleftrightarrow> (\<forall>i k j. i < length (ep_threads s) \<longrightarrow> ep_threads s ! i = CSampled k \<longrightarrow> j \<in> ep_seen s i \<longrightarrow>
     j < length (ep_threads s) \<and> (\<exists>e. entry_of (ep_threads s ! j) = [e] \<and> k \<le> e))"

lemma fold_min_le: "fold min xs a \<le> (a :: u64)" "x \<in> set xs \<Longrightarrow> fold min xs a \<le> (x :: u64)"
proof -
  show le: "fold min xs a \<le> a" for xs and a :: u64
  proof (induction xs arbitrary: a)
    case (Cons y ys)
    have "fold min ys (min y a) \<le> a" using Cons [of "min y a"] min.cobounded2 by (rule order_trans)
    then show ?case by simp
  qed simp
  show "x \<in> set xs \<Longrightarrow> fold min xs a \<le> x"
  proof (induction xs arbitrary: a)
    case (Cons y ys)
    then show ?case using le [of ys "min y a"] by (auto intro: order_trans)
  qed simp
qed

lemma min_active_le: "e \<in> set (em_active m) \<Longrightarrow> em_min_active m \<le> e"
  unfolding em_min_active_def by (rule fold_min_le(2))

lemma entry_of_one: "entry_of t \<noteq> [] \<Longrightarrow> \<exists>e. entry_of t = [e]"
  by (cases t) auto

text \<open>A step that leaves the entries of the other threads and the samples alone keeps the invariant.\<close>

lemma seen_frame:
  assumes "seen_ok s" and "i < length (ep_threads s)" and "ep_threads s' = (ep_threads s)[i := t]"
    and "\<And>k. ep_seen s' k \<subseteq> ep_seen s k" and "\<And>k. t \<noteq> CSampled k"
    and "entry_of t = entry_of (ep_threads s ! i) \<or> (\<forall>k. i \<notin> ep_seen s' k) \<or> entry_of (ep_threads s ! i) = []"
  shows "seen_ok s'"
  unfolding seen_ok_def
proof (intro allI impI)
  fix i' k j
  assume a: "i' < length (ep_threads s')" "ep_threads s' ! i' = CSampled k" "j \<in> ep_seen s' i'"
  then have i': "i' \<noteq> i" "i' < length (ep_threads s)" "ep_threads s ! i' = CSampled k" "j \<in> ep_seen s i'"
    using assms(2-5) by (auto simp: nth_list_update split: if_splits)
  then obtain e where e: "j < length (ep_threads s)" "entry_of (ep_threads s ! j) = [e]" "k \<le> e"
    using assms(1) unfolding seen_ok_def by blast
  have "entry_of (ep_threads s' ! j) = [e]" using e assms(2,3,6) a(3) by (cases "j = i") auto
  then show "j < length (ep_threads s') \<and> (\<exists>e. entry_of (ep_threads s' ! j) = [e] \<and> k \<le> e)" using e assms(3) by simp
qed

lemma seen_step:
  assumes seen: "seen_ok s" and ok: "active_ok s" and i: "i < length (ep_threads s)"
    and act: "ep_act i a (ep_threads s ! i) s = Some s'"
  shows "seen_ok s'"
  using act
proof (cases rule: ep_act_cases)
  case sample
  show ?thesis
    unfolding seen_ok_def
  proof (intro allI impI)
    fix i' k j
    assume a: "i' < length (ep_threads s')" "ep_threads s' ! i' = CSampled k" "j \<in> ep_seen s' i'"
    have same: "entry_of (ep_threads s' ! j) = entry_of (ep_threads s ! j)" if "j < length (ep_threads s)" for j
      using sample that by (cases "j = i") auto
    show "j < length (ep_threads s') \<and> (\<exists>e. entry_of (ep_threads s' ! j) = [e] \<and> k \<le> e)"
    proof (cases "i' = i")
      case True
      then have k: "k = em_min_active (er_mgr (ep_cell s))" "j < length (ep_threads s)" "entry_of (ep_threads s ! j) \<noteq> []"
        using a sample i by auto
      then obtain e where e: "entry_of (ep_threads s ! j) = [e]" using entry_of_one by blast
      then have "k \<le> e" unfolding k(1) using active_entry [OF ok k(2)] by (intro min_active_le)
      then show ?thesis using e same [OF k(2)] k(2) sample by simp
    next
      case False
      then have "j < length (ep_threads s) \<and> (\<exists>e. entry_of (ep_threads s ! j) = [e] \<and> k \<le> e)"
        using a sample seen unfolding seen_ok_def by auto
      then show ?thesis using same sample by auto
    qed
  qed
next
  case (leave e)
  show ?thesis by (rule seen_frame [OF seen i, where t = Idle]) (use leave in auto)
next
  case (clone e)
  show ?thesis by (rule seen_frame [OF seen i, where t = "RHolds e (er_current (ep_cell s))"]) (use clone in auto)
qed (auto intro!: seen_frame [OF seen i])

subsection \<open>The properties\<close>

definition ep_inv :: "nat \<Rightarrow> ep_state \<Rightarrow> bool" where
  "ep_inv n s \<longleftrightarrow> length (ep_threads s) = n \<and> active_ok s \<and> versions_ok s \<and> tags_ok s \<and> seen_ok s"

lemma ep_reach_inv: "ep_reach n s \<Longrightarrow> ep_inv n s"
proof (induction rule: ep_reach.induct)
  case er_init
  have "concat (map entry_of (replicate n Idle)) = []" by (induction n) simp_all
  then show ?case
    by (auto simp: ep_inv_def ep_init_def active_ok_def versions_ok_def tags_ok_def seen_ok_def er_new_def em_new_def)
next
  case (er_step s i a s')
  then have i: "i < length (ep_threads s)" and act: "ep_act i a (ep_threads s ! i) s = Some s'"
    by (auto simp: ep_do_def split: if_splits)
  have "length (ep_threads s') = length (ep_threads s)" using act by (cases rule: ep_act_cases) auto
  then show ?case
    using er_step.IH i act active_step versions_step tags_step seen_step unfolding ep_inv_def by blast
qed

text \<open>
  C28: the grace period. However readers, publishers and reclaimers on any number of threads interleave,
  draining never reclaims a version that a reader holds which was registered when the reclaimer
  sampled the active readers and has not left since.
\<close>

theorem epoch_grace_period:
  assumes "ep_reach n s" and "i < n" and "ep_threads s ! i = CSampled k" and "j \<in> ep_seen s i"
    and "ep_threads s ! j = RHolds e v" and "v \<notin> ep_reclaimed s"
  shows "\<exists>s'. ep_do i Drain s = Some s' \<and> v \<notin> ep_reclaimed s'"
proof -
  have inv: "ep_inv n s" using assms(1) by (rule ep_reach_inv)
  have n: "length (ep_threads s) = n" using inv by (simp add: ep_inv_def)
  have j: "j < n" "k \<le> e"
    using inv assms(2-5) unfolding ep_inv_def seen_ok_def by (metis entry_of.simps(2) list.inject)+
  have "RHolds e v \<in> set (ep_threads s)" using assms(5) j(1) n by (metis nth_mem)
  then have "k < x" if "(x, v) \<in> set (em_retired (er_mgr (ep_cell s)))" for x
    using inv that j(2) unfolding ep_inv_def tags_ok_def by (meson le_less_trans)
  then have "v \<notin> snd ` set (em_ready k (er_mgr (ep_cell s)))"
    by (fastforce simp: em_ready_def dest: set_takeWhileD)
  then show ?thesis using assms(2,3,6) n by (simp add: ep_do_def)
qed

definition ep_run :: "(nat \<times> ep_action) list \<Rightarrow> ep_state \<Rightarrow> ep_state option" where
  "ep_run steps s = foldl (\<lambda>so (i, a). Option.bind so (ep_do i a)) (Some s) steps"

lemma ep_run_reach: "ep_run steps (ep_init n) = Some s \<Longrightarrow> ep_reach n s"
proof (induction steps arbitrary: s rule: rev_induct)
  case Nil
  then show ?case using ep_reach.er_init by (auto simp: ep_run_def)
next
  case (snoc x steps)
  then obtain t where t: "ep_run steps (ep_init n) = Some t" "ep_do (fst x) (snd x) t = Some s"
    by (cases x) (auto simp: ep_run_def bind_eq_Some_conv)
  then show ?case using snoc.IH ep_reach.er_step by blast
qed

text \<open>The strong references to a version: the cell's, the clone of each reader that holds it, a publisher's on the way to the queue, and the queue's.\<close>

fun thread_ref :: "nat \<Rightarrow> ep_thread \<Rightarrow> bool" where
  "thread_ref v (RHolds e w) \<longleftrightarrow> w = v"
| "thread_ref v (PSwapped w) \<longleftrightarrow> w = v"
| "thread_ref v (PTagged e w) \<longleftrightarrow> w = v"
| "thread_ref v _ \<longleftrightarrow> False"

definition ep_refs :: "nat \<Rightarrow> ep_state \<Rightarrow> nat" where
  "ep_refs v s = (if er_current (ep_cell s) = v then 1 else 0) + length (filter (thread_ref v) (ep_threads s))
     + length (filter (\<lambda>r. snd r = v) (em_retired (er_mgr (ep_cell s))))"

lemma no_readers:
  assumes "ep_inv n s" and "em_active (er_mgr (ep_cell s)) = []"
  shows "filter (thread_ref (er_current (ep_cell s))) (ep_threads s) = []"
proof -
  have "\<not> thread_ref (er_current (ep_cell s)) t" if t: "t \<in> set (ep_threads s)" for t
  proof -
    have "mset (concat (map entry_of (ep_threads s))) = {#}" using assms by (simp add: ep_inv_def active_ok_def)
    then have "entry_of t = []" using t by auto
    moreover have "thread_ok (ep_cell s) (ep_next s) t" using assms(1) t by (simp add: ep_inv_def versions_ok_def)
    ultimately show ?thesis by (cases t) auto
  qed
  then show ?thesis by simp
qed

lemma filter_update: "filter P xs = [] \<Longrightarrow> i < length xs \<Longrightarrow> P t \<Longrightarrow> filter P (xs[i := t]) = [t]"
  by (induction xs arbitrary: i) (auto split: nat.split if_splits)

lemma run_Cons: "ep_run ((i, a) # steps) s = (case ep_do i a s of None \<Rightarrow> None | Some s \<Rightarrow> ep_run steps s)"
proof -
  have "foldl (\<lambda>so (i, a). Option.bind so (ep_do i a)) None steps = None" by (induction steps) auto
  then show ?thesis by (simp add: ep_run_def split: option.split)
qed

text \<open>
  C30: the limit of that protection. The reclaimer samples the readers under one lock and drains under
  another, so a reader can register and a version be published in between. From every reachable state with no reader inside and
  three threads idle, there is a run after which \<^verbatim>\<open>reclaim\<close> has dropped the queue's reference of a version although a
  reader that registered, and cloned it, before its publish retired it is still inside its critical section: the
  reader's clone is the last reference, and the grace period is gone though the memory is not.
\<close>

theorem reclaim_race:
  assumes reach: "ep_reach n s" and t: "i < n" "j < n" "k < n" "i \<noteq> j" "i \<noteq> k" "j \<noteq> k"
    and idle: "ep_threads s ! i = Idle" "ep_threads s ! j = Idle" "ep_threads s ! k = Idle"
    and none: "em_active (er_mgr (ep_cell s)) = []" and room: "em_epoch (er_mgr (ep_cell s)) \<noteq> - 1"
  shows "\<exists>s' e. ep_run [(k, Sample), (i, Load), (i, Register), (i, Clone), (j, Swap), (j, Tag), (j, Push), (k, Drain)] s = Some s'
    \<and> ep_threads s' ! i = RHolds e (er_current (ep_cell s)) \<and> e \<in> set (em_active (er_mgr (ep_cell s')))
    \<and> er_current (ep_cell s) \<in> ep_reclaimed s' \<and> ep_refs (er_current (ep_cell s)) s' = 1"
proof -
  let ?v = "er_current (ep_cell s)" and ?e = "em_epoch (er_mgr (ep_cell s))" and ?ts = "ep_threads s"
  have inv: "ep_inv n s" using reach by (rule ep_reach_inv)
  then have n: "length ?ts = n" and next_v: "?v < ep_next s" by (simp_all add: ep_inv_def versions_ok_def)
  define s' where "s' = the (ep_run [(k, Sample), (i, Load), (i, Register), (i, Clone), (j, Swap), (j, Tag), (j, Push), (k, Drain)] s)"
  have all: "takeWhile (\<lambda>r. fst r \<le> (- 1 :: u64)) xs = xs" for xs :: "(u64 \<times> nat) list" by (simp add: takeWhile_eq_all_conv)
  have run: "ep_run [(k, Sample), (i, Load), (i, Register), (i, Clone), (j, Swap), (j, Tag), (j, Push), (k, Drain)] s = Some s'"
    and s': "ep_threads s' = ?ts[k := CSampled (- 1), i := RLoaded ?e, i := REntered ?e, i := RHolds ?e ?v, j := PSwapped ?v,
          j := PTagged (?e + 1) ?v, j := Idle, k := Idle]"
      "em_active (er_mgr (ep_cell s')) = [?e]" "?v \<in> ep_reclaimed s'" "er_current (ep_cell s') = ep_next s"
      "em_retired (er_mgr (ep_cell s')) = []"
    using t idle none room n
    by (simp_all add: s'_def run_Cons ep_run_def [where steps = "[]"] ep_do_def em_defs em_min_active_def em_ready_def all)
  have "?ts[j := Idle] = ?ts" "?ts[k := Idle] = ?ts" using idle by (metis list_update_id)+
  then have ts: "ep_threads s' = ?ts[i := RHolds ?e ?v]"
    using t unfolding s'(1) by (simp add: list_update_swap)
  have "filter (thread_ref ?v) (ep_threads s') = [RHolds ?e ?v]"
    unfolding ts by (rule filter_update [OF no_readers [OF inv none]]) (use t n in simp_all)
  then have "ep_refs ?v s' = 1" using next_v s'(4,5) by (simp add: ep_refs_def)
  moreover have "ep_threads s' ! i = RHolds ?e ?v" using t n by (simp add: ts)
  ultimately show ?thesis using run s'(2,3) by (intro exI [of _ s'] exI [of _ ?e]) simp
qed

theorem reclaim_race_witness:
  "\<exists>s' e. ep_threads s' ! 0 = RHolds e 0 \<and> e \<in> set (em_active (er_mgr (ep_cell s'))) \<and> 0 \<in> ep_reclaimed s' \<and> ep_refs 0 s' = 1"
proof -
  have "ep_threads (ep_init 3) ! t = Idle" if "t < 3" for t using that by (simp add: ep_init_def)
  then show ?thesis
    using reclaim_race [OF ep_reach.er_init, of 0 3 1 2] by (auto simp: ep_init_def er_new_def em_new_def)
qed

theorem epoch_grace_period_witness:
  "\<exists>s s'. ep_threads s ! 0 = RHolds 0 0 \<and> ep_do 1 Drain s = Some s' \<and> 0 \<notin> ep_reclaimed s'"
proof -
  let ?run = "[(0, Load), (0, Register), (0, Clone), (1, Swap), (1, Tag), (1, Push), (1, Sample)]"
  define s where "s = the (ep_run ?run (ep_init 2))"
  have r: "ep_run ?run (ep_init 2) = Some s"
    and t: "ep_threads s = [RHolds 0 0, CSampled 0]" "0 \<in> ep_seen s 1" "ep_reclaimed s = {}"
    by (simp_all add: s_def ep_run_def ep_init_def ep_do_def er_new_def em_new_def em_defs em_min_active_def em_ready_def
        numeral_2_eq_2)
  have "\<exists>s'. ep_do 1 Drain s = Some s' \<and> 0 \<notin> ep_reclaimed s'"
    by (rule epoch_grace_period [OF ep_run_reach [OF r], of 1 0 0 0 0]) (use t in simp_all)
  moreover have "ep_threads s ! 0 = RHolds 0 0" using t(1) by simp
  ultimately show ?thesis by blast
qed

end
