(* ===== verification/Rt.thy ===== *)
theory Rt
  imports Ks_Prelude
begin

text \<open>
  The cooperative scheduler (\<^verbatim>\<open>src/rt.rs\<close>): a table of task slots with generations, a free list and
  a ready queue. Futures are code of the scheduler's users: their \<^verbatim>\<open>poll\<close> and their destructor are parameters, which
  may spawn tasks, wake any task and change a shared world. A waker is the id it re-queues. Indexing out of range panics: \<open>None\<close>. Slots are
  reused fewer than \<open>2 ^ 64\<close> times, so generations are natural numbers. Shown: a finished task's wakers are
  harmless for ever, and tasks that wake themselves and make progress are all run to their end.
\<close>

subsection \<open>The program\<close>

record task_id =
  t_slot :: nat
  t_generation :: nat

record 'f slot =
  sl_generation :: nat
  sl_live :: bool
  sl_fut :: "'f option"

record 'f sched =
  sc_slots :: "'f slot list"
  sc_free :: "nat list"
  sc_queue :: "task_id list"

definition sc_new :: "'f sched" where
  "sc_new = \<lparr>sc_slots = [], sc_free = [], sc_queue = []\<rparr>"

definition rt_add :: "'f \<Rightarrow> 'f sched \<Rightarrow> (task_id \<times> 'f sched) option" where
  "rt_add fut s =
     (if sc_free s \<noteq> []
      then let slot = last (sc_free s)
           in if slot < length (sc_slots s)
              then let gen = sl_generation (sc_slots s ! slot) + 1;
                       tid = \<lparr>t_slot = slot, t_generation = gen\<rparr>
                   in Some (tid, s\<lparr>sc_free := butlast (sc_free s),
                        sc_slots := (sc_slots s)[slot := \<lparr>sl_generation = gen, sl_live = True, sl_fut = Some fut\<rparr>],
                        sc_queue := sc_queue s @ [tid]\<rparr>)
              else None
      else let tid = \<lparr>t_slot = length (sc_slots s), t_generation = 0\<rparr>
           in Some (tid, s\<lparr>sc_slots := sc_slots s @ [\<lparr>sl_generation = 0, sl_live = True, sl_fut = Some fut\<rparr>],
                sc_queue := sc_queue s @ [tid]\<rparr>))"

definition live_tasks :: "'f sched \<Rightarrow> nat" where
  "live_tasks s = length (filter sl_live (sc_slots s))"

definition slot_count :: "'f sched \<Rightarrow> nat" where
  "slot_count s = length (sc_slots s)"

text \<open>\<^verbatim>\<open>wake\<close> and \<^verbatim>\<open>wake_by_ref\<close> of a task's waker.\<close>

definition rt_wake :: "task_id \<Rightarrow> 'f sched \<Rightarrow> 'f sched" where
  "rt_wake tid s = s\<lparr>sc_queue := sc_queue s @ [tid]\<rparr>"

text \<open>What user code does to the scheduler while it is polled or dropped.\<close>

datatype 'f effect = Spawn 'f | Wake task_id

primrec rt_effects :: "'f effect list \<Rightarrow> 'f sched \<Rightarrow> 'f sched option" where
  "rt_effects [] s = Some s"
| "rt_effects (x # xs) s =
     (case x of
        Spawn f \<Rightarrow> (case rt_add f s of None \<Rightarrow> None | Some (_, s) \<Rightarrow> rt_effects xs s)
      | Wake tid \<Rightarrow> rt_effects xs (rt_wake tid s))"

type_synonym ('f, 'w) poll_fn = "task_id \<Rightarrow> 'f \<Rightarrow> 'w \<Rightarrow> 'f effect list \<times> bool \<times> 'f \<times> 'w"

type_synonym ('f, 'w) drop_fn = "'f \<Rightarrow> 'w \<Rightarrow> 'f effect list \<times> 'w"

text \<open>The future of a queued id, if the id is current and the future is not being polled already.\<close>

definition rt_ready :: "task_id \<Rightarrow> 'f sched \<Rightarrow> 'f option" where
  "rt_ready tid s =
     (if t_slot tid < length (sc_slots s)
      then let sl = sc_slots s ! t_slot tid
           in if sl_live sl \<and> sl_generation sl = t_generation tid then sl_fut sl else None
      else None)"

definition put_fut :: "nat \<Rightarrow> 'f option \<Rightarrow> 'f sched \<Rightarrow> 'f sched" where
  "put_fut i fo s = s\<lparr>sc_slots := (sc_slots s)[i := (sc_slots s ! i)\<lparr>sl_fut := fo\<rparr>]\<rparr>"

definition finish_slot :: "nat \<Rightarrow> 'f sched \<Rightarrow> 'f sched" where
  "finish_slot i s = s\<lparr>sc_slots := (sc_slots s)[i := (sc_slots s ! i)\<lparr>sl_live := False, sl_fut := None\<rparr>],
     sc_free := sc_free s @ [i]\<rparr>"

text \<open>The body of the loop of \<^verbatim>\<open>run\<close> for an id popped from the queue.\<close>

definition rt_step :: "('f, 'w) poll_fn \<Rightarrow> ('f, 'w) drop_fn \<Rightarrow> task_id \<Rightarrow> 'f sched \<Rightarrow> 'w \<Rightarrow> ('f sched \<times> 'w) option" where
  "rt_step poll dropf tid s w =
     (case rt_ready tid s of
        None \<Rightarrow> Some (s, w)
      | Some fut \<Rightarrow>
          (case poll tid fut w of (effs, fin, fut, w) \<Rightarrow>
           case rt_effects effs (put_fut (t_slot tid) None s) of
             None \<Rightarrow> None
           | Some s \<Rightarrow>
               if fin
               then (case dropf fut w of (effs, w) \<Rightarrow>
                     case rt_effects effs s of
                       None \<Rightarrow> None
                     | Some s \<Rightarrow> if t_slot tid < length (sc_slots s) then Some (finish_slot (t_slot tid) s, w) else None)
               else if t_slot tid < length (sc_slots s) then Some (put_fut (t_slot tid) (Some fut) s, w) else None))"

datatype 's run_result = Drained 's | Panicked | Stopped

text \<open>\<^verbatim>\<open>run\<close>, stopped after \<open>n\<close> ids if the queue has not drained.\<close>

fun rt_run :: "nat \<Rightarrow> ('f, 'w) poll_fn \<Rightarrow> ('f, 'w) drop_fn \<Rightarrow> 'f sched \<Rightarrow> 'w \<Rightarrow> ('f sched \<times> 'w) run_result" where
  "rt_run n poll dropf s w =
     (case sc_queue s of
        [] \<Rightarrow> Drained (s, w)
      | tid # q \<Rightarrow>
          (case n of
             0 \<Rightarrow> Stopped
           | Suc n \<Rightarrow>
               (case rt_step poll dropf tid (s\<lparr>sc_queue := q\<rparr>) w of
                  None \<Rightarrow> Panicked
                | Some (s, w) \<Rightarrow> rt_run n poll dropf s w)))"

declare rt_run.simps [simp del]

text \<open>
  \<^verbatim>\<open>block_on\<close>: the root future stows its output in the world, from where \<open>out\<close> reads it; an output
  missing at the end is the panic of \<^verbatim>\<open>expect\<close>.
\<close>

definition rt_block_on :: "nat \<Rightarrow> ('f, 'w) poll_fn \<Rightarrow> ('f, 'w) drop_fn \<Rightarrow> ('w \<Rightarrow> 'o option) \<Rightarrow> 'f \<Rightarrow> 'f sched \<Rightarrow> 'w
    \<Rightarrow> ('o \<times> 'f sched \<times> 'w) run_result" where
  "rt_block_on n poll dropf out root s w =
     (case rt_add root s of
        None \<Rightarrow> Panicked
      | Some (_, s) \<Rightarrow>
          (case rt_run n poll dropf s w of
             Drained (s, w) \<Rightarrow> (case out w of Some v \<Rightarrow> Drained (v, s, w) | None \<Rightarrow> Panicked)
           | Panicked \<Rightarrow> Panicked
           | Stopped \<Rightarrow> Stopped))"

text \<open>The cooperative yield point.\<close>

definition yield_once :: bool where
  "yield_once = False"

definition yield_poll :: "task_id \<Rightarrow> bool \<Rightarrow> 'f effect list \<times> bool \<times> bool" where
  "yield_poll tid inner = (if inner then ([], True, inner) else ([Wake tid], False, True))"

subsection \<open>The table invariant\<close>

text \<open>
  The free list holds the finished slots, each once; a slot holds a future exactly if its task is live and not
  being polled. \<open>T\<close> are the slots being polled.
\<close>

definition sched_ok :: "nat set \<Rightarrow> 'f sched \<Rightarrow> bool" where
  "sched_ok T s \<longleftrightarrow> distinct (sc_free s) \<and> set (sc_free s) = {i. i < length (sc_slots s) \<and> \<not> sl_live (sc_slots s ! i)}
     \<and> (\<forall>i < length (sc_slots s). sl_fut (sc_slots s ! i) \<noteq> None \<longleftrightarrow> sl_live (sc_slots s ! i) \<and> i \<notin> T)
     \<and> (\<forall>i \<in> T. i < length (sc_slots s) \<and> sl_live (sc_slots s ! i))"

definition queued :: "nat set \<Rightarrow> 'f sched \<Rightarrow> bool" where
  "queued T s \<longleftrightarrow> (\<forall>i < length (sc_slots s). sl_live (sc_slots s ! i) \<and> i \<notin> T
     \<longrightarrow> \<lparr>t_slot = i, t_generation = sl_generation (sc_slots s ! i)\<rparr> \<in> set (sc_queue s))"

definition slot_cost :: "('f \<Rightarrow> nat) \<Rightarrow> 'f slot \<Rightarrow> nat" where
  "slot_cost rank sl = (case sl_fut sl of None \<Rightarrow> 0 | Some f \<Rightarrow> rank f)"

definition cost :: "('f \<Rightarrow> nat) \<Rightarrow> 'f sched \<Rightarrow> nat" where
  "cost rank s = sum_list (map (slot_cost rank) (sc_slots s))"

primrec spawned :: "('f \<Rightarrow> nat) \<Rightarrow> 'f effect list \<Rightarrow> nat" where
  "spawned rank [] = 0"
| "spawned rank (x # xs) = (case x of Spawn f \<Rightarrow> rank f | Wake _ \<Rightarrow> 0) + spawned rank xs"

text \<open>An id whose task has finished: its slot has moved on.\<close>

definition rt_dead :: "task_id \<Rightarrow> 'f sched \<Rightarrow> bool" where
  "rt_dead tid s \<longleftrightarrow> t_slot tid < length (sc_slots s)
     \<and> (t_generation tid < sl_generation (sc_slots s ! t_slot tid)
        \<or> t_generation tid = sl_generation (sc_slots s ! t_slot tid) \<and> \<not> sl_live (sc_slots s ! t_slot tid))"

lemma sum_list_update_add: "i < length xs \<Longrightarrow> sum_list (xs[i := (v :: nat)]) + xs ! i = sum_list xs + v"
  by (induction xs arbitrary: i) (auto split: nat.split)

lemma cost_update:
  "i < length (sc_slots s) \<Longrightarrow> cost rank (s\<lparr>sc_slots := (sc_slots s)[i := sl]\<rparr>) + slot_cost rank (sc_slots s ! i) = cost rank s + slot_cost rank sl"
  using sum_list_update_add [of i "map (slot_cost rank) (sc_slots s)" "slot_cost rank sl"] by (simp add: cost_def map_update)

text \<open>What the effects of user code leave of the scheduler.\<close>

definition grown :: "nat set \<Rightarrow> 'f sched \<Rightarrow> 'f sched \<Rightarrow> bool" where
  "grown T s s' \<longleftrightarrow> sched_ok T s' \<and> length (sc_slots s) \<le> length (sc_slots s') \<and> (\<forall>i \<in> T. sc_slots s' ! i = sc_slots s ! i)
     \<and> set (sc_queue s) \<subseteq> set (sc_queue s') \<and> (queued T s \<longrightarrow> queued T s') \<and> (\<forall>tid. rt_dead tid s \<longrightarrow> rt_dead tid s')"

lemma grown_refl: "sched_ok T s \<Longrightarrow> grown T s s"
  by (simp add: grown_def)

lemma grown_trans: "grown T s1 s2 \<Longrightarrow> grown T s2 s3 \<Longrightarrow> grown T s1 s3"
  by (auto simp: grown_def)

lemma add_reuse:
  assumes "sched_ok T s" and "sc_free s \<noteq> []"
  shows "\<exists>tid s'. rt_add f s = Some (tid, s') \<and> grown T s s' \<and> cost rank s' = cost rank s + rank f \<and> (\<forall>d. rt_dead d s \<longrightarrow> tid \<noteq> d)"
proof -
  define i where "i = last (sc_free s)"
  let ?sl = "\<lparr>sl_generation = sl_generation (sc_slots s ! i) + 1, sl_live = True, sl_fut = Some f\<rparr>"
  let ?s = "s\<lparr>sc_free := butlast (sc_free s), sc_slots := (sc_slots s)[i := ?sl],
    sc_queue := sc_queue s @ [\<lparr>t_slot = i, t_generation = sl_generation (sc_slots s ! i) + 1\<rparr>]\<rparr>"
  have free: "sc_free s = butlast (sc_free s) @ [i]" using assms(2) by (simp add: i_def)
  then have "i \<in> set (sc_free s)" by (metis in_set_conv_decomp)
  then have i: "i < length (sc_slots s)" "\<not> sl_live (sc_slots s ! i)" "i \<notin> T" using assms(1) by (auto simp: sched_ok_def)
  have d: "distinct (butlast (sc_free s) @ [i])" using assms(1) free by (simp add: sched_ok_def)
  then have fr: "set (butlast (sc_free s)) = set (sc_free s) - {i}" using free by (metis Diff_insert_absorb List.finite_set distinct_append insert_is_Un set_append list.set(1) list.set(2) sup_commute disjoint_insert(1) Int_commute)
  have ok: "sched_ok T ?s"
    using assms(1) i fr d unfolding sched_ok_def by (auto simp: nth_list_update)
  have "grown T s ?s"
    using ok i unfolding grown_def queued_def rt_dead_def by (auto simp: nth_list_update)
  moreover have "cost rank ?s = cost rank s + rank f"
    using cost_update [OF i(1), of rank ?sl] assms(1) i by (auto simp: sched_ok_def slot_cost_def cost_def)
  moreover have "rt_add f s = Some (\<lparr>t_slot = i, t_generation = sl_generation (sc_slots s ! i) + 1\<rparr>, ?s)"
    using assms(2) i(1) by (simp add: rt_add_def i_def [symmetric] Let_def)
  ultimately show ?thesis by (auto simp: rt_dead_def)
qed

lemma add_fresh:
  assumes "sched_ok T s" and "sc_free s = []"
  shows "\<exists>tid s'. rt_add f s = Some (tid, s') \<and> grown T s s' \<and> cost rank s' = cost rank s + rank f \<and> (\<forall>d. rt_dead d s \<longrightarrow> tid \<noteq> d)"
proof -
  let ?n = "length (sc_slots s)"
  let ?s = "s\<lparr>sc_slots := sc_slots s @ [\<lparr>sl_generation = 0, sl_live = True, sl_fut = Some f\<rparr>],
    sc_queue := sc_queue s @ [\<lparr>t_slot = ?n, t_generation = 0\<rparr>]\<rparr>"
  have "sched_ok T ?s" using assms unfolding sched_ok_def by (auto simp: nth_append less_Suc_eq)
  then have "grown T s ?s"
    using assms(1) unfolding grown_def queued_def rt_dead_def sched_ok_def by (auto simp: nth_append less_Suc_eq)
  moreover have "cost rank ?s = cost rank s + rank f" by (simp add: cost_def slot_cost_def)
  ultimately show ?thesis using assms(2) by (auto simp: rt_add_def rt_dead_def Let_def)
qed

lemma add_ok:
  "sched_ok T s \<Longrightarrow> \<exists>tid s'. rt_add f s = Some (tid, s') \<and> grown T s s' \<and> cost rank s' = cost rank s + rank f \<and> (\<forall>d. rt_dead d s \<longrightarrow> tid \<noteq> d)"
  by (cases "sc_free s = []") (rule add_fresh, assumption+, rule add_reuse, assumption+)

lemma wake_grown: "sched_ok T s \<Longrightarrow> grown T s (rt_wake tid s)"
  by (auto simp: grown_def sched_ok_def queued_def rt_dead_def rt_wake_def)

lemma effects_ok:
  "sched_ok T s \<Longrightarrow> \<exists>s'. rt_effects xs s = Some s' \<and> grown T s s' \<and> cost rank s' = cost rank s + spawned rank xs
     \<and> (\<forall>tid. Wake tid \<in> set xs \<longrightarrow> tid \<in> set (sc_queue s'))"
proof (induction xs arbitrary: s)
  case Nil
  then show ?case by (simp add: grown_refl)
next
  case (Cons x xs)
  obtain s1 where s1: "grown T s s1" "cost rank s1 = cost rank s + spawned rank [x]" "\<forall>tid. x = Wake tid \<longrightarrow> tid \<in> set (sc_queue s1)"
    "rt_effects (x # xs) s = rt_effects xs s1"
  proof (cases x)
    case (Spawn f)
    then show thesis using add_ok [OF Cons.prems, of f rank] that by auto
  next
    case (Wake tid)
    then show thesis using that [of "rt_wake tid s"] wake_grown [OF Cons.prems] by (simp add: cost_def rt_wake_def)
  qed
  obtain s2 where s2: "rt_effects xs s1 = Some s2" "grown T s1 s2" "cost rank s2 = cost rank s1 + spawned rank xs"
    "\<forall>tid. Wake tid \<in> set xs \<longrightarrow> tid \<in> set (sc_queue s2)"
    using Cons.IH [of s1] s1(1) by (auto simp: grown_def)
  have "tid \<in> set (sc_queue s2)" if "Wake tid \<in> set (x # xs)" for tid
    using that s1(3) s2(2,4) by (auto simp: grown_def)
  then show ?case using s1 s2 grown_trans [OF s1(1) s2(2)] by auto
qed

subsection \<open>One poll\<close>

lemma rt_ready_slot:
  assumes "sched_ok {} s"
  shows "rt_ready tid s \<noteq> None \<longleftrightarrow> t_slot tid < length (sc_slots s) \<and> sl_live (sc_slots s ! t_slot tid)
    \<and> sl_generation (sc_slots s ! t_slot tid) = t_generation tid"
  using assms by (auto simp: rt_ready_def sched_ok_def Let_def)


lemma take_fut:
  assumes "sched_ok {} s" and "rt_ready tid s = Some f"
  shows "sched_ok {t_slot tid} (put_fut (t_slot tid) None s)" and "cost rank (put_fut (t_slot tid) None s) + rank f = cost rank s"
    and "rt_dead d s \<Longrightarrow> rt_dead d (put_fut (t_slot tid) None s)"
    and "sc_slots (put_fut (t_slot tid) None s) ! t_slot tid = (sc_slots s ! t_slot tid)\<lparr>sl_fut := None\<rparr>"
proof -
  let ?i = "t_slot tid"
  have i: "?i < length (sc_slots s)" "sl_live (sc_slots s ! ?i)" "sl_fut (sc_slots s ! ?i) = Some f"
    using assms(2) by (auto simp: rt_ready_def Let_def split: if_splits)
  show "sched_ok {?i} (put_fut ?i None s)"
    using assms(1) i unfolding sched_ok_def put_fut_def by (auto simp: nth_list_update)
  show "cost rank (put_fut ?i None s) + rank f = cost rank s"
    using cost_update [OF i(1), of rank "(sc_slots s ! ?i)\<lparr>sl_fut := None\<rparr>"] i(3) by (simp add: put_fut_def slot_cost_def)
  show "rt_dead d s \<Longrightarrow> rt_dead d (put_fut ?i None s)" using i(1) by (auto simp: rt_dead_def put_fut_def nth_list_update)
  show "sc_slots (put_fut ?i None s) ! ?i = (sc_slots s ! ?i)\<lparr>sl_fut := None\<rparr>" using i(1) by (simp add: put_fut_def)
qed

lemma put_back:
  assumes "sched_ok {i} s"
  shows "sched_ok {} (put_fut i (Some f) s)" and "cost rank (put_fut i (Some f) s) = cost rank s + rank f"
    and "rt_dead d s \<Longrightarrow> rt_dead d (put_fut i (Some f) s)"
    and "queued {i} s \<Longrightarrow> \<lparr>t_slot = i, t_generation = sl_generation (sc_slots s ! i)\<rparr> \<in> set (sc_queue s) \<Longrightarrow> queued {} (put_fut i (Some f) s)"
proof -
  have i: "i < length (sc_slots s)" "sl_live (sc_slots s ! i)" "sl_fut (sc_slots s ! i) = None" using assms by (auto simp: sched_ok_def)
  show "sched_ok {} (put_fut i (Some f) s)"
    using assms i unfolding sched_ok_def put_fut_def by (auto simp: nth_list_update)
  show "cost rank (put_fut i (Some f) s) = cost rank s + rank f"
    using cost_update [OF i(1), of rank "(sc_slots s ! i)\<lparr>sl_fut := Some f\<rparr>"] i(3) by (simp add: put_fut_def slot_cost_def)
  show "rt_dead d s \<Longrightarrow> rt_dead d (put_fut i (Some f) s)" using i(1) by (auto simp: rt_dead_def put_fut_def nth_list_update)
  show "queued {i} s \<Longrightarrow> \<lparr>t_slot = i, t_generation = sl_generation (sc_slots s ! i)\<rparr> \<in> set (sc_queue s) \<Longrightarrow> queued {} (put_fut i (Some f) s)"
    using i(1) by (auto simp: queued_def put_fut_def nth_list_update)
qed

lemma finish_ok:
  assumes "sched_ok {i} s"
  shows "sched_ok {} (finish_slot i s)" and "cost rank (finish_slot i s) = cost rank s"
    and "rt_dead d s \<Longrightarrow> rt_dead d (finish_slot i s)" and "queued {i} s \<Longrightarrow> queued {} (finish_slot i s)"
    and "rt_dead \<lparr>t_slot = i, t_generation = sl_generation (sc_slots s ! i)\<rparr> (finish_slot i s)"
proof -
  have i: "i < length (sc_slots s)" "sl_live (sc_slots s ! i)" "sl_fut (sc_slots s ! i) = None" using assms by (auto simp: sched_ok_def)
  show "sched_ok {} (finish_slot i s)"
    using assms i unfolding sched_ok_def finish_slot_def by (auto simp: nth_list_update)
  show "cost rank (finish_slot i s) = cost rank s"
    using cost_update [OF i(1), of rank "(sc_slots s ! i)\<lparr>sl_live := False, sl_fut := None\<rparr>"] i(3)
    by (simp add: finish_slot_def slot_cost_def cost_def)
  show "rt_dead d s \<Longrightarrow> rt_dead d (finish_slot i s)" using i(1) by (auto simp: rt_dead_def finish_slot_def nth_list_update)
  show "queued {i} s \<Longrightarrow> queued {} (finish_slot i s)" using i(1) by (auto simp: queued_def finish_slot_def nth_list_update split: if_splits)
  show "rt_dead \<lparr>t_slot = i, t_generation = sl_generation (sc_slots s ! i)\<rparr> (finish_slot i s)"
    using i(1) by (simp add: rt_dead_def finish_slot_def)
qed

text \<open>A poll that is carried out, from the future it finds to the state it leaves.\<close>

lemma poll_ok:
  assumes ok: "sched_ok {} s" and ready: "rt_ready tid s = Some f" and poll: "poll tid f w = (effs, fin, f', w1)"
  obtains s' w' where "rt_step poll dropf tid s w = Some (s', w')" "sched_ok {} s'" "\<And>d. rt_dead d s \<Longrightarrow> rt_dead d s'"
    "fin \<Longrightarrow> rt_dead tid s'"
    "cost rank s' + rank f = cost rank s + spawned rank effs + (if fin then spawned rank (fst (dropf f' w1)) else rank f')"
    "queued {t_slot tid} s \<Longrightarrow> fin \<or> Wake tid \<in> set effs \<Longrightarrow> queued {} s'"
proof -
  let ?i = "t_slot tid" and ?s0 = "put_fut (t_slot tid) None s"
  note t = take_fut [OF ok ready]
  obtain s1 where s1: "rt_effects effs ?s0 = Some s1" "grown {?i} ?s0 s1" "cost rank s1 = cost rank ?s0 + spawned rank effs"
    "Wake tid \<in> set effs \<Longrightarrow> tid \<in> set (sc_queue s1)" using effects_ok [OF t(1), of effs rank] by blast
  have ok1: "sched_ok {?i} s1" and len1: "?i < length (sc_slots s1)" using s1(2) by (auto simp: grown_def sched_ok_def)
  have gen: "sl_generation (sc_slots s ! ?i) = t_generation tid"
    using ready by (auto simp: rt_ready_def Let_def split: if_splits)
  have tid: "\<lparr>t_slot = ?i, t_generation = sl_generation (sc_slots s1 ! ?i)\<rparr> = tid"
    using s1(2) t(4) gen by (simp add: grown_def)
  have len: "?i < length (sc_slots s)" using ready by (auto simp: rt_ready_def split: if_splits)
  then have "queued {?i} ?s0" if "queued {?i} s" using that by (auto simp: queued_def put_fut_def nth_list_update)
  then have q1: "queued {?i} s1" if "queued {?i} s" using s1(2) that by (simp add: grown_def)
  show thesis
  proof (cases fin)
    case False
    let ?s' = "put_fut ?i (Some f') s1"
    have run: "rt_step poll dropf tid s w = Some (?s', w1)" using ready poll s1(1) len1 False by (simp add: rt_step_def)
    show thesis
      by (rule that [OF run put_back(1) [OF ok1]])
        (use put_back(2-4) [OF ok1] t(2,3) s1 tid q1 False in \<open>auto simp: grown_def\<close>)
  next
    case True
    obtain effs2 w2 where dr: "dropf f' w1 = (effs2, w2)" by fastforce
    obtain s2 where s2: "rt_effects effs2 s1 = Some s2" "grown {?i} s1 s2" "cost rank s2 = cost rank s1 + spawned rank effs2"
      using effects_ok [OF ok1, of effs2 rank] by blast
    have ok2: "sched_ok {?i} s2" and len2: "?i < length (sc_slots s2)" using s2(2) by (auto simp: grown_def sched_ok_def)
    have tid2: "\<lparr>t_slot = ?i, t_generation = sl_generation (sc_slots s2 ! ?i)\<rparr> = tid" using s2(2) tid by (simp add: grown_def)
    have run: "rt_step poll dropf tid s w = Some (finish_slot ?i s2, w2)"
      using ready poll s1(1) s2(1) len2 True dr by (simp add: rt_step_def)
    have q2: "queued {?i} s2" if "queued {?i} s" using s2(2) q1 [OF that] by (simp add: grown_def)
    show thesis
      by (rule that [OF run finish_ok(1) [OF ok2]])
        (use finish_ok(2-5) [OF ok2] t(2,3) s1(2,3) s2(2,3) tid2 q2 True dr in \<open>auto simp: grown_def\<close>)
  qed
qed

subsection \<open>The properties\<close>

text \<open>Schedulers at the points where \<^verbatim>\<open>run\<close> takes the next id: any adds and wakes from outside, any polls.\<close>

inductive rt_reach :: "('f, 'w) poll_fn \<Rightarrow> ('f, 'w) drop_fn \<Rightarrow> 'f sched \<Rightarrow> bool" for poll dropf where
  rr_new: "rt_reach poll dropf sc_new"
| rr_add: "rt_reach poll dropf s \<Longrightarrow> rt_add f s = Some (tid, s') \<Longrightarrow> rt_reach poll dropf s'"
| rr_wake: "rt_reach poll dropf s \<Longrightarrow> rt_reach poll dropf (rt_wake tid s)"
| rr_poll: "rt_reach poll dropf s \<Longrightarrow> sc_queue s = tid # q \<Longrightarrow> rt_step poll dropf tid (s\<lparr>sc_queue := q\<rparr>) w = Some (s', w')
    \<Longrightarrow> rt_reach poll dropf s'"

lemma step_cases:
  assumes "sched_ok {} s"
  obtains (skip) "rt_ready tid s = None" "rt_step poll dropf tid s w = Some (s, w)"
  | (polled) f effs fin f' w1 s' w' where "rt_ready tid s = Some f" "poll tid f w = (effs, fin, f', w1)"
      "rt_step poll dropf tid s w = Some (s', w')" "sched_ok {} s'" "\<And>d. rt_dead d s \<Longrightarrow> rt_dead d s'" "fin \<Longrightarrow> rt_dead tid s'"
      "cost rank s' + rank f = cost rank s + spawned rank effs + (if fin then spawned rank (fst (dropf f' w1)) else rank f')"
      "queued {t_slot tid} s \<Longrightarrow> fin \<or> Wake tid \<in> set effs \<Longrightarrow> queued {} s'"
proof (cases "rt_ready tid s")
  case None
  then show thesis using skip by (simp add: rt_step_def)
next
  case (Some f)
  obtain effs fin f' w1 where p: "poll tid f w = (effs, fin, f', w1)" by (metis prod_cases4)
  show thesis by (rule poll_ok [where poll = poll and w = w and dropf = dropf and rank = rank, OF assms Some p]) (rule polled [OF Some p])
qed

lemma sched_ok_queue: "sched_ok T (s\<lparr>sc_queue := q\<rparr>) = sched_ok T s" and rt_dead_queue: "rt_dead d (s\<lparr>sc_queue := q\<rparr>) = rt_dead d s"
  by (simp_all add: sched_ok_def rt_dead_def)

lemma rt_reach_ok: "rt_reach poll dropf s \<Longrightarrow> sched_ok {} s"
proof (induction rule: rt_reach.induct)
  case rr_new
  then show ?case by (simp add: sched_ok_def sc_new_def)
next
  case (rr_add s f tid s')
  then show ?case using add_ok [of "{}" s f "\<lambda>_. 0"] by (auto simp: grown_def)
next
  case (rr_wake s tid)
  then show ?case using wake_grown by (auto simp: grown_def)
next
  case (rr_poll s tid q w s' w')
  then have "sched_ok {} (s\<lparr>sc_queue := q\<rparr>)" by (simp add: sched_ok_queue)
  then show ?case
    by (cases rule: step_cases [where tid = tid and poll = poll and dropf = dropf and w = w]) (use rr_poll.hyps rr_poll.IH in \<open>auto simp: sched_ok_queue\<close>)
qed


text \<open>
  What the scheduler asks of futures to be run to their end: a pending one has woken itself, and every poll
  makes progress in a measure that counts the tasks it spawns.
\<close>

definition cooperative :: "('f, 'w) poll_fn \<Rightarrow> ('f, 'w) drop_fn \<Rightarrow> ('f \<Rightarrow> nat) \<Rightarrow> bool" where
  "cooperative poll dropf rank \<longleftrightarrow> (\<forall>tid f w effs fin f' w'. poll tid f w = (effs, fin, f', w') \<longrightarrow>
     (if fin then spawned rank effs + spawned rank (fst (dropf f' w')) < rank f
      else Wake tid \<in> set effs \<and> rank f' + spawned rank effs < rank f))"

lemma coop_step:
  assumes coop: "cooperative poll dropf rank" and ok: "sched_ok {} s" and q: "queued {} s" and sq: "sc_queue s = tid # q'"
  shows "\<exists>s' w'. rt_step poll dropf tid (s\<lparr>sc_queue := q'\<rparr>) w = Some (s', w') \<and> sched_ok {} s' \<and> queued {} s'
    \<and> (cost rank s' < cost rank s \<or> cost rank s' = cost rank s \<and> length (sc_queue s') < length (sc_queue s))"
proof -
  let ?s = "s\<lparr>sc_queue := q'\<rparr>"
  have ok': "sched_ok {} ?s" using ok by (simp add: sched_ok_queue)
  have cost: "cost rank ?s = cost rank s" by (simp add: cost_def)
  from ok' show ?thesis
  proof (cases rule: step_cases [where tid = tid and poll = poll and dropf = dropf and w = w and rank = rank])
    case skip
    have "queued {} ?s"
      unfolding queued_def
    proof (intro allI impI)
      fix i
      assume i: "i < length (sc_slots ?s)" "sl_live (sc_slots ?s ! i) \<and> i \<notin> {}"
      let ?t = "\<lparr>t_slot = i, t_generation = sl_generation (sc_slots ?s ! i)\<rparr>"
      have "rt_ready ?t ?s \<noteq> None" using rt_ready_slot [OF ok', of ?t] i by simp
      then have "?t \<noteq> tid" using skip(1) by auto
      moreover have "?t \<in> set (sc_queue s)" using q i by (simp add: queued_def)
      ultimately show "?t \<in> set (sc_queue ?s)" using sq by simp
    qed
    then show ?thesis using skip ok' cost sq by simp
  next
    case (polled f effs fin f' w1 s' w')
    have p: "if fin then spawned rank effs + spawned rank (fst (dropf f' w1)) < rank f
      else Wake tid \<in> set effs \<and> rank f' + spawned rank effs < rank f"
      using coop polled(2) unfolding cooperative_def by blast
    have "queued {t_slot tid} ?s" using q sq by (auto simp: queued_def)
    then have "queued {} s'" using polled(8) p by (auto split: if_splits)
    moreover have "cost rank s' < cost rank s" using polled(7) p cost by (auto split: if_splits)
    ultimately show ?thesis using polled(3,4) by blast
  qed
qed

lemma coop_run:
  assumes coop: "cooperative poll dropf rank"
  shows "sched_ok {} s \<Longrightarrow> queued {} s \<Longrightarrow> \<exists>n s' w'. rt_run n poll dropf s w = Drained (s', w') \<and> live_tasks s' = 0"
proof (induction "(cost rank s, length (sc_queue s))" arbitrary: s w rule: wf_induct_rule [OF wf_lex_prod [OF wf_less wf_less]])
  case less: (1 s w)
  show ?case
  proof (cases "sc_queue s")
    case Nil
    then have "filter sl_live (sc_slots s) = []" using less.prems(2) by (auto simp: queued_def filter_empty_conv in_set_conv_nth)
    moreover have "rt_run 0 poll dropf s w = Drained (s, w)" using Nil by (simp add: rt_run.simps)
    ultimately show ?thesis by (auto simp: live_tasks_def)
  next
    case (Cons tid q)
    obtain s1 w1 where s1: "rt_step poll dropf tid (s\<lparr>sc_queue := q\<rparr>) w = Some (s1, w1)" "sched_ok {} s1" "queued {} s1"
        "cost rank s1 < cost rank s \<or> cost rank s1 = cost rank s \<and> length (sc_queue s1) < length (sc_queue s)"
      using coop_step [OF coop less.prems Cons] by blast
    obtain n s' w' where "rt_run n poll dropf s1 w1 = Drained (s', w')" "live_tasks s' = 0"
      using less.hyps [of s1 w1] s1 by auto
    then have "rt_run (Suc n) poll dropf s w = Drained (s', w')" using Cons s1(1) by (simp add: rt_run.simps [of "Suc n"])
    then show ?thesis using \<open>live_tasks s' = 0\<close> by blast
  qed
qed

lemma rt_reach_queued:
  assumes coop: "cooperative poll dropf rank"
  shows "rt_reach poll dropf s \<Longrightarrow> queued {} s"
proof (induction rule: rt_reach.induct)
  case rr_new
  then show ?case by (simp add: queued_def sc_new_def)
next
  case (rr_add s f tid s')
  then show ?case using add_ok [OF rt_reach_ok, of poll dropf s f "\<lambda>_. 0"] by (auto simp: grown_def)
next
  case (rr_wake s tid)
  then show ?case by (auto simp: queued_def rt_wake_def)
next
  case (rr_poll s tid q w s' w')
  then show ?case using coop_step [OF coop rt_reach_ok [OF rr_poll.hyps(1)] rr_poll.IH rr_poll.hyps(2), of w] by auto
qed

text \<open>
  C34: progress. If futures wake themselves whenever they are pending and every poll makes progress, then from every
  reachable scheduler \<^verbatim>\<open>run\<close> ends, without a panic, with every task finished.
\<close>

theorem run_completes:
  assumes "cooperative poll dropf rank" and "rt_reach poll dropf s"
  shows "\<exists>n s' w'. rt_run n poll dropf s w = Drained (s', w') \<and> live_tasks s' = 0"
  using coop_run [OF assms(1) rt_reach_ok [OF assms(2)] rt_reach_queued [OF assms]] .

subsection \<open>Witnesses\<close>

text \<open>
  A task that awaits \<open>n\<close> yield points and then appends \<open>n\<close> to the world: \<open>(n, k, y)\<close> has \<open>k\<close> yield points left, the
  first of them in state \<open>y\<close>.
\<close>

fun yielder_poll :: "(nat \<times> nat \<times> bool, nat list) poll_fn" where
  "yielder_poll tid (n, 0, y) w = ([], True, (n, 0, y), w @ [n])"
| "yielder_poll tid (n, Suc k, y) w =
     (case yield_poll tid y of
        (effs, False, y) \<Rightarrow> (effs, False, (n, Suc k, y), w)
      | (_, True, _) \<Rightarrow> ([Wake tid], False, (n, k, yield_once), w))"

abbreviation yielder_drop :: "(nat \<times> nat \<times> bool, nat list) drop_fn" where
  "yielder_drop f w \<equiv> ([], w)"

fun yielder_rank :: "nat \<times> nat \<times> bool \<Rightarrow> nat" where
  "yielder_rank (n, k, y) = 2 * k + (if y then 0 else 1) + 1"

lemma yielder_cooperative: "cooperative yielder_poll yielder_drop yielder_rank"
  unfolding cooperative_def
proof (intro allI impI)
  fix tid f w effs fin f' w'
  assume p: "yielder_poll tid f w = (effs, fin, f', w')"
  show "if fin then spawned yielder_rank effs + spawned yielder_rank (fst (yielder_drop f' w')) < yielder_rank f
     else Wake tid \<in> set effs \<and> yielder_rank f' + spawned yielder_rank effs < yielder_rank f"
    using p by (cases "(tid, f, w)" rule: yielder_poll.cases) (auto simp: yield_poll_def yield_once_def split: if_splits)
qed

lemma block_on_yields:
  "rt_block_on 10 yielder_poll yielder_drop (\<lambda>w. if w = [] then None else Some (last w)) (2, 2, yield_once) sc_new []
     = Drained (2, \<lparr>sc_slots = [\<lparr>sl_generation = 0, sl_live = False, sl_fut = None\<rparr>], sc_free = [0], sc_queue = []\<rparr>, [2])"
  by code_simp

theorem run_completes_witness:
  "\<exists>s n s' w'. rt_add (2 :: nat, 2 :: nat, yield_once) sc_new = Some (\<lparr>t_slot = 0, t_generation = 0\<rparr>, s)
     \<and> rt_run n yielder_poll yielder_drop s [] = Drained (s', w') \<and> live_tasks s' = 0"
proof -
  obtain s where s: "rt_add (2 :: nat, 2 :: nat, yield_once) sc_new = Some (\<lparr>t_slot = 0, t_generation = 0\<rparr>, s)"
    by (simp add: rt_add_def sc_new_def Let_def)
  from run_completes [OF yielder_cooperative rr_add [OF rr_new s]] s show ?thesis by blast
qed


end
