(* ===== verification/Async_Driver.thy ===== *)
theory Async_Driver
  imports Rt Raft_Cluster
begin

text \<open>
  The asynchronous interface to the cluster (\<^verbatim>\<open>src/raft/async_driver.rs\<close>): each call is a future that yields once
  and then runs the synchronous operation, driven to its end by a fresh scheduler. The world of the scheduler is the
  cluster behind its shared handle and the place where \<^verbatim>\<open>block_on\<close> stows the output. Shown: a call through the
  runtime returns what the synchronous call returns and leaves the cluster as it does.
\<close>

text \<open>The future of an async function with a body after its only yield point.\<close>

definition async_poll :: "('w \<Rightarrow> 'r \<times> 'w) \<Rightarrow> (bool, 'w \<times> 'r option) poll_fn" where
  "async_poll body tid y wo =
     (case yield_poll tid y of
        (effs, False, y) \<Rightarrow> (effs, False, y, wo)
      | (effs, True, y) \<Rightarrow> (case body (fst wo) of (r, w) \<Rightarrow> (effs, True, y, (w, Some r))))"

definition async_drop :: "(bool, 'w \<times> 'r option) drop_fn" where
  "async_drop fut wo = ([], wo)"

definition ad_run :: "nat \<Rightarrow> ('w \<Rightarrow> 'r \<times> 'w) \<Rightarrow> 'w \<Rightarrow> ('r \<times> bool sched \<times> 'w \<times> 'r option) run_result" where
  "ad_run n body w = rt_block_on n (async_poll body) async_drop snd yield_once sc_new (w, None)"

type_synonym 'r async_result = "('r outcome \<times> bool sched \<times> raft_cluster \<times> 'r outcome option) run_result"

definition ad_put :: "nat \<Rightarrow> bytes \<Rightarrow> bytes \<Rightarrow> raft_cluster \<Rightarrow> nat async_result" where
  "ad_put n key val c = ad_run n (cluster_put key val) c"

definition ad_get :: "nat \<Rightarrow> bytes \<Rightarrow> raft_cluster \<Rightarrow> bytes option async_result" where
  "ad_get n key c = ad_run n (cluster_get key) c"

definition ad_scan :: "nat \<Rightarrow> bytes \<Rightarrow> raft_cluster \<Rightarrow> (bytes \<times> bytes) list async_result" where
  "ad_scan n pref c = ad_run n (cluster_scan pref) c"

text \<open>Two polls drive such a future: the one that yields and the one that runs the body.\<close>

lemma ad_run_sync:
  assumes "2 \<le> n"
  shows "\<exists>s. ad_run n body w = Drained (fst (body w), s, snd (body w), Some (fst (body w))) \<and> live_tasks s = 0"
proof -
  let ?t = "\<lparr>t_slot = 0, t_generation = 0\<rparr>"
  let ?s = "\<lambda>fo q. \<lparr>sc_slots = [\<lparr>sl_generation = 0, sl_live = True, sl_fut = fo\<rparr>], sc_free = [], sc_queue = q\<rparr>"
  let ?e = "\<lparr>sc_slots = [\<lparr>sl_generation = 0, sl_live = False, sl_fut = None\<rparr>], sc_free = [0], sc_queue = []\<rparr>"
  obtain k where n: "n = Suc (Suc k)" using assms by (metis add_2_eq_Suc le_Suc_ex)
  have add: "rt_add yield_once sc_new = Some (?t, ?s (Some False) [?t])"
    by (simp add: rt_add_def sc_new_def yield_once_def Let_def)
  have p1: "rt_step (async_poll body) async_drop ?t (?s (Some False) []) (w, None) = Some (?s (Some True) [?t], (w, None))"
    by (simp add: rt_step_def rt_ready_def put_fut_def async_poll_def yield_poll_def rt_wake_def)
  have p2: "rt_step (async_poll body) async_drop ?t (?s (Some True) []) (w, None) = Some (?e, (snd (body w), Some (fst (body w))))"
    by (simp add: rt_step_def rt_ready_def put_fut_def finish_slot_def async_poll_def yield_poll_def async_drop_def split: prod.split)
  have "rt_run n (async_poll body) async_drop (?s (Some False) [?t]) (w, None) = Drained (?e, (snd (body w), Some (fst (body w))))"
    unfolding n using p1 p2 by (simp add: rt_run.simps)
  then have "ad_run n body w = Drained (fst (body w), ?e, snd (body w), Some (fst (body w)))"
    by (simp add: ad_run_def rt_block_on_def add)
  then show ?thesis by (auto simp: live_tasks_def)
qed

text \<open>
  C36: a put, read or scan through the asynchronous interface runs to its end within two polls of a fresh scheduler, returns
  exactly what the synchronous call on the cluster returns, and leaves the cluster in the same state.
\<close>

theorem async_equals_sync:
  assumes "2 \<le> n"
  shows "(\<exists>s. ad_put n key val c = Drained (fst (cluster_put key val c), s, snd (cluster_put key val c), Some (fst (cluster_put key val c))))
    \<and> (\<exists>s. ad_get n key c = Drained (fst (cluster_get key c), s, snd (cluster_get key c), Some (fst (cluster_get key c))))
    \<and> (\<exists>s. ad_scan n key c = Drained (fst (cluster_scan key c), s, snd (cluster_scan key c), Some (fst (cluster_scan key c))))"
  unfolding ad_put_def ad_get_def ad_scan_def
  using ad_run_sync [OF assms, of "cluster_put key val" c] ad_run_sync [OF assms, of "cluster_get key" c]
    ad_run_sync [OF assms, of "cluster_scan key" c] by blast

theorem async_equals_sync_witness:
  "\<exists>s c'. ad_get 2 [7] (with_model 3 checker_new) = Drained (fst (cluster_get [7] (with_model 3 checker_new)), s, c')"
  using async_equals_sync [of 2 "[7]" "[]" "with_model 3 checker_new"] by auto

end
