(* ===== verification/Crash_Runner.thy ===== *)
theory Crash_Runner
  imports Store_Props
begin

text \<open>
  The crash runner (\<^verbatim>\<open>src/main.rs\<close>): \<^verbatim>\<open>run\<close> commits keys, leaves a marker file and blocks until it is
  killed; \<^verbatim>\<open>verify\<close> reopens the directory, checks every key and takes a checkpoint. The theorem is the one the
  harness tests: once \<^verbatim>\<open>run\<close> has left its marker, a kill at any later moment is followed by a \<^verbatim>\<open>verify\<close>
  that prints \<^verbatim>\<open>OK\<close>.
\<close>

subsection \<open>Decimal formatting and parsing\<close>

text \<open>The formats \<^verbatim>\<open>{i}\<close> and \<^verbatim>\<open>{i:08}\<close>: as many digits as the number needs, at least the width.\<close>

fun dec_len :: "nat \<Rightarrow> nat" where
  "dec_len n = (if n < 10 then 1 else Suc (dec_len (n div 10)))"

declare dec_len.simps [simp del]

definition fmt_dec :: "nat \<Rightarrow> nat \<Rightarrow> string" where
  "fmt_dec w n = dec_digits (max w (dec_len n)) n"

definition as_bytes :: "string \<Rightarrow> bytes" where
  "as_bytes s = map (\<lambda>c. word_of_nat (of_char c)) s"

text \<open>\<^verbatim>\<open>str::parse::<u64>\<close>: an optional plus sign, then at least one digit, within the width.\<close>

definition parse_u64 :: "string \<Rightarrow> u64 option" where
  "parse_u64 s =
     (let ds = (if length s > 1 \<and> hd s = CHR ''+'' then tl s else s)
      in if ds = [] \<or> \<not> list_all is_ascii_digit ds then None
         else if dec_value ds < 2 ^ 64 then Some (word_of_nat (dec_value ds)) else None)"

subsection \<open>The sub-commands\<close>

text \<open>How the process ends: an exit code, blocked until it is killed, or a normal return with its output.\<close>

datatype process = Exits nat | Blocks | Returns string

definition CHILD_DONE :: string where "CHILD_DONE = ''CHILD_DONE''"

definition run_key :: "nat \<Rightarrow> bytes" where "run_key i = as_bytes (''k'' @ fmt_dec 8 i)"

definition run_value :: "nat \<Rightarrow> bytes" where "run_value i = as_bytes (''v'' @ fmt_dec 8 i)"

text \<open>The loop of puts; it stops at the first one that fails.\<close>

primrec put_all :: "nat list \<Rightarrow> store \<Rightarrow> fs \<Rightarrow> unit io_result \<times> store \<times> fs" where
  "put_all [] st d = (Inr (), st, d)"
| "put_all (i # is) st d =
     (case store_put (run_key i) (run_value i) st d of
        (Inl e, st, d) \<Rightarrow> (Inl e, st, d)
      | (Inr _, st, d) \<Rightarrow> put_all is st d)"

text \<open>The call to \<^verbatim>\<open>sync\<close> after the marker changes no file and its result is ignored.\<close>

definition runner_run :: "try_lock \<Rightarrow> u64 \<Rightarrow> fs \<Rightarrow> process \<times> fs" where
  "runner_run lk n d =
     (case store_open lk d of
        (Inl _, d) \<Rightarrow> (Exits 1, d)
      | (Inr st, d) \<Rightarrow>
          (case put_all [0..<unat n] st d of
             (Inl _, _, d) \<Rightarrow> (Exits 1, d)
           | (Inr _, _, d) \<Rightarrow>
               (case io_then (fs_open_truncate CHILD_DONE d) (fs_write_all CHILD_DONE (as_bytes ''1'')) of
                  (Inl _, d) \<Rightarrow> (Exits 1, d)
                | (Inr _, d) \<Rightarrow> (Blocks, d))))"

definition runner_verify :: "try_lock \<Rightarrow> u64 \<Rightarrow> fs \<Rightarrow> process \<times> fs" where
  "runner_verify lk n d =
     (case store_open lk d of
        (Inl _, d) \<Rightarrow> (Exits 1, d)
      | (Inr st, d) \<Rightarrow>
          if store_len st < unat n then (Exits 1, d)
          else if list_ex (\<lambda>i. store_get st (run_key i) \<noteq> Some (run_value i)) [0..<unat n] then (Exits 1, d)
          else (case store_checkpoint st d of
                  (Inr _, _, d) \<Rightarrow> (Returns (''OK '' @ fmt_dec 0 (unat n)), d)
                | (Inl _, _, d) \<Rightarrow> (Exits 1, d)))"

text \<open>\<open>Inl\<close> is the exit code of \<^verbatim>\<open>parse_n\<close> and of \<^verbatim>\<open>usage\<close>.\<close>

definition usage :: nat where "usage = 2"

definition parse_n :: "string option \<Rightarrow> u64 option \<Rightarrow> nat + u64" where
  "parse_n arg dflt =
     (case arg of
        Some s \<Rightarrow> (case parse_u64 s of Some n \<Rightarrow> Inr n | None \<Rightarrow> Inl 2)
      | None \<Rightarrow> (case dflt of Some n \<Rightarrow> Inr n | None \<Rightarrow> Inl usage))"

text \<open>The directory is the one that the second argument names.\<close>

definition runner_main :: "try_lock \<Rightarrow> string list \<Rightarrow> fs \<Rightarrow> process \<times> fs" where
  "runner_main lk args d =
     (if length args \<le> 2 then (Exits usage, d)
      else
        let arg = (if length args > 3 then Some (args ! 3) else None) in
        if args ! 1 = ''run'' then
          (case parse_n arg (Some 1000) of Inl c \<Rightarrow> (Exits c, d) | Inr n \<Rightarrow> runner_run lk n d)
        else if args ! 1 = ''verify'' then
          (case parse_n arg None of Inl c \<Rightarrow> (Exits c, d) | Inr n \<Rightarrow> runner_verify lk n d)
        else (Exits usage, d))"

subsection \<open>Formats are injective, and counts survive the command line\<close>

lemma less_dec_len: "n < 10 ^ dec_len n"
proof (induction n rule: dec_len.induct)
  case (1 n)
  show ?case
  proof (cases "n < 10")
    case False
    with 1 have "n div 10 < 10 ^ dec_len (n div 10)" by simp
    then have "n < 10 ^ Suc (dec_len (n div 10))" by (simp add: less_mult_imp_div_less div_less_iff_less_mult mult.commute)
    with False show ?thesis by (subst dec_len.simps) simp
  qed (simp add: dec_len.simps)
qed

lemma fmt_dec_value: "dec_value (fmt_dec w n) = n"
proof -
  have "n < 10 ^ dec_len n" by (rule less_dec_len)
  also have "\<dots> \<le> 10 ^ max w (dec_len n)" by (rule power_increasing) simp_all
  finally show ?thesis by (simp add: fmt_dec_def dec_value_digits)
qed

lemma fmt_dec_inj [simp]: "fmt_dec w a = fmt_dec w b \<longleftrightarrow> a = b"
  by (metis fmt_dec_value)

lemma dec_len_pos: "0 < dec_len n"
  by (subst dec_len.simps) simp

lemma fmt_dec_digits: "list_all is_ascii_digit (fmt_dec w n)" and fmt_dec_nonempty: "fmt_dec w n \<noteq> []"
proof -
  show "list_all is_ascii_digit (fmt_dec w n)" by (simp add: fmt_dec_def dec_digits_ascii)
  show "fmt_dec w n \<noteq> []"
    using dec_len_pos [of n] by (simp add: fmt_dec_def flip: length_0_conv)
qed

lemma as_bytes_inj [simp]: "as_bytes a = as_bytes b \<longleftrightarrow> a = b"
proof -
  have "inj (\<lambda>c :: char. word_of_nat (of_char c) :: u8)"
  proof (rule injI)
    fix x y :: char
    assume eq: "(word_of_nat (of_char x) :: u8) = word_of_nat (of_char y)"
    have "unat (word_of_nat (of_char c) :: u8) = of_char c" for c :: char
      by (simp add: unat_of_nat take_bit_eq_mod)
    with eq have "(of_char x :: nat) = of_char y" by metis
    then show "x = y" by simp
  qed
  then show ?thesis by (simp add: as_bytes_def inj_map_eq_map)
qed

lemma run_key_inj [simp]: "run_key a = run_key b \<longleftrightarrow> a = b"
  by (simp add: run_key_def)

text \<open>A count that was printed parses to itself, on the command line and in the output.\<close>

lemma parse_fmt_dec: "parse_u64 (fmt_dec w (unat n)) = Some n"
proof -
  have "hd (fmt_dec w (unat n)) \<noteq> CHR ''+''"
    using fmt_dec_digits [of w "unat n"] fmt_dec_nonempty [of w "unat n"]
    by (cases "fmt_dec w (unat n)") (auto simp: is_ascii_digit_def)
  moreover have "unat n < 2 ^ 64" using unat_bound [of n] by simp
  ultimately show ?thesis
    by (simp add: parse_u64_def fmt_dec_digits fmt_dec_nonempty fmt_dec_value)
qed

lemma parse_n_fmt: "parse_n (Some (fmt_dec w (unat n))) dflt = Inr n"
  by (simp add: parse_n_def parse_fmt_dec)

subsection \<open>Calls on a healthy directory\<close>

lemma quiet_calls [simp]:
  assumes "fs_outcomes d = []"
  shows "fs_outcomes (snd (fs_sync ev d)) = []" and "fs_outcomes (snd (fs_call d)) = []" and "fs_outcomes (snd (fs_open_create x d)) = []"
    and "fs_outcomes (snd (fs_write_all x b d)) = []" and "fs_outcomes (snd (fs_set_len x n d)) = []"
  using assms by (simp_all add: fs_sync_def fs_call_def fs_open_create_def fs_write_all_def fs_set_len_def Let_def)

lemma quiet_io_then:
  assumes "fs_outcomes (snd r) = []" and "\<And>d. fs_outcomes d = [] \<Longrightarrow> fs_outcomes (snd (g d)) = []"
  shows "fs_outcomes (snd (io_then r g)) = []"
  using assms by (cases r; cases "fst r") auto

lemma quiet_lock_dir: "fs_outcomes d = [] \<Longrightarrow> fs_outcomes (snd (lock_dir lk d)) = []"
  unfolding lock_dir_def by (rule quiet_io_then) (auto split: try_lock.split)

lemma quiet_repair: "fs_outcomes d = [] \<Longrightarrow> fs_outcomes (snd (repair_tail x d)) = []"
  by (auto simp: repair_tail_def intro!: quiet_io_then split: sum.split option.split)

lemma quiet_bind:
  assumes "fs_outcomes (snd r) = []" and "\<And>x d. fs_outcomes d = [] \<Longrightarrow> fs_outcomes (snd (g x d)) = []"
  shows "fs_outcomes (snd (case r of (Inl e, d) \<Rightarrow> (Inl e, d) | (Inr x, d) \<Rightarrow> g x d)) = []"
  using assms by (cases r; cases "fst r") auto

lemma quiet_wal_open: "fs_outcomes d = [] \<Longrightarrow> fs_outcomes (snd (wal_open mx d)) = []"
  unfolding wal_open_def Let_def by (intro quiet_bind) (auto simp: quiet_repair intro!: quiet_io_then)

lemma quiet_open_with: "fs_outcomes d = [] \<Longrightarrow> fs_outcomes (snd (open_with opts lk d)) = []"
  unfolding open_with_def
proof (intro quiet_io_then quiet_lock_dir quiet_calls)
  fix d :: fs
  assume "fs_outcomes d = []"
  then show "fs_outcomes (snd (open_locked opts d)) = []"
    using quiet_wal_open [of d "opt_wal_segment_size opts"]
    by (auto simp: open_locked_def Let_def split: sum.splits prod.splits)
qed

subsection \<open>The puts extend the history\<close>

definition run_ops :: "nat \<Rightarrow> op list" where
  "run_ops i = [Put (run_key i) (run_value i)]"

lemma open_with_usable: "open_with opts lk d = (Inr st, d') \<Longrightarrow> \<not> wl_poisoned (st_wal st)"
  by (auto simp: open_with_def io_then_def open_locked_def wal_open_def Let_def
      split: prod.splits sum.splits if_splits)

lemma put_all_inv:
  assumes "store_inv st None d H lo UNIV" and "\<not> wl_poisoned (st_wal st)" and "length H + length is < 2 ^ 64"
    and "put_all is st d = (Inr (), st', d')"
  shows "store_inv st' None d' (H @ map run_ops is) lo UNIV \<and> \<not> wl_poisoned (st_wal st')"
  using assms
proof (induction "is" arbitrary: st d H)
  case (Cons i "is")
  obtain idx st1 d1 where f: "flush_group [run_ops i] st d = (Inr idx, st1, d1)" and ok: "check_ops (run_ops i) = Inr ()"
    and rest: "put_all is st1 d1 = (Inr (), st', d')"
    using Cons.prems(4)
    by (auto simp: store_put_def commit_ops_def run_ops_def split: prod.splits sum.splits)
  have "list_all (\<lambda>ops. check_ops ops = Inr ()) [run_ops i]" using ok by simp
  then have "store_inv st1 None d1 (H @ [run_ops i]) lo UNIV"
    using flush_group_inv [OF Cons.prems(1) _ _ _ f] Cons.prems(3) by simp
  from Cons.IH [OF this flush_group_seq(1) [OF f] _ rest] Cons.prems(3) show ?case by simp
qed simp

text \<open>Each key is written once, so it reads back its own value whatever was there before.\<close>

lemma write_runs:
  assumes "distinct is"
  shows "fold write_value (concat (map run_ops is)) f (run_key i)
    = (if i \<in> set is then Some (run_value i) else f (run_key i))"
  using assms
  by (induction "is" arbitrary: f) (auto simp: run_ops_def write_value_def op_value_def)

lemma get_after_runs:
  "i < n \<Longrightarrow> snapshot_get (snap_of (H @ map run_ops [0..<n])) (run_key i) = Some (run_value i)"
  by (simp only: get_snap_of concat_append fold_append comp_def write_runs [OF distinct_upt]) simp

lemma len_after_runs:
  "n \<le> snapshot_len (snap_of (H @ map run_ops [0..<n]))" (is "n \<le> snapshot_len ?s")
proof -
  have "run_key i \<in> dom (bm_get (sn_data ?s))" if "i < n" for i
    using get_after_runs [OF that, of H] by (auto simp: snapshot_get_def split: option.splits)
  then have "run_key ` {..<n} \<subseteq> fst ` set (sn_data ?s)"
    by (auto simp: dom_map_of_conv_image_fst)
  then have "card (run_key ` {..<n}) \<le> length (sn_data ?s)"
    by (metis List.finite_set card_length card_mono finite_imageI le_trans length_map list.set_map)
  moreover have "card (run_key ` {..<n}) = n" by (simp add: card_image inj_on_def)
  ultimately show ?thesis by (simp add: snapshot_len_def)
qed

subsection \<open>What a checkpoint of the recovered store needs\<close>

lemma reach_checked: "store_reach so pin d A T \<Longrightarrow> ops \<in> T \<Longrightarrow> check_ops ops = Inr ()"
  by (induction rule: store_reach.induct) (auto simp: list_all_iff)

lemma bm_insert_set: "set (bm_insert k v m) \<subseteq> insert (k, v) (set m)"
  by (induction m) auto

lemma op_apply_fits:
  assumes "list_all entry_fits m" and "body_len op < 2 ^ 32"
  shows "list_all entry_fits (fst (op_apply op m i))"
proof (cases op)
  case (Put k v)
  have "list_all entry_fits (bm_insert k e m)" if "e_value e = v" for e
    using assms that bm_insert_set [of k e m] by (auto simp: list_all_iff entry_fits_def Put dest!: subsetD)
  with assms(1) Put show ?thesis by (auto simp: Let_def split: option.splits)
next
  case (Delete k)
  with assms(1) show ?thesis by (auto simp: list_all_iff bm_remove_def)
qed

lemma apply_ops_fits:
  "list_all entry_fits m \<Longrightarrow> \<forall>op \<in> set ops. body_len op < 2 ^ 32 \<Longrightarrow> list_all entry_fits (apply_ops ops i m)"
proof (induction ops arbitrary: m)
  case (Cons op ops)
  from Cons.IH [OF op_apply_fits [OF Cons.prems(1)]] Cons.prems(2) show ?case by simp
qed (simp add: apply_ops_def)

lemma check_ops_fits: "check_ops ops = Inr () \<Longrightarrow> op \<in> set ops \<Longrightarrow> body_len op < 2 ^ 32"
  using body_len_le_payload [of op ops] by (auto simp: check_ops_def MAX_PAYLOAD_def split: if_splits)

lemma hist_from_fits:
  "\<forall>ops \<in> set H. check_ops ops = Inr () \<Longrightarrow> list_all entry_fits m \<Longrightarrow> list_all entry_fits (hist_from i H m)"
proof (induction H arbitrary: i m)
  case (Cons ops H)
  have "list_all entry_fits (apply_ops ops (word_of_nat (Suc i)) m)"
    using Cons.prems by (intro apply_ops_fits) (use Cons.prems check_ops_fits in auto)
  with Cons show ?case by (simp del: of_nat_Suc)
qed simp

subsection \<open>The marker, and the segment a reopened log continues\<close>

lemma child_done_free [simp]:
  "segment_seq CHILD_DONE = None" "CHILD_DONE \<noteq> SNAPSHOT_NAME" "CHILD_DONE \<noteq> SNAPSHOT_PREV"
  by (simp_all add: CHILD_DONE_def SNAPSHOT_NAME_def SNAPSHOT_PREV_def segment_seq_def strip_prefix_def)

lemma marker_frame:
  assumes "bm_wf (fs_files d)" and "io_then (fs_open_truncate CHILD_DONE d) (fs_write_all CHILD_DONE b) = (r, d')"
  shows "bm_wf (fs_files d')" and "\<And>x. x \<noteq> CHILD_DONE \<Longrightarrow> file_at d' x = file_at d x"
proof -
  note calls = fs_open_truncate_def fs_write_all_def fs_set_def file_at_def io_then_def
  have "bm_wf (fs_files d') \<and> (\<forall>x. x \<noteq> CHILD_DONE \<longrightarrow> file_at d' x = file_at d x)"
    using assms(2) assms(1)
    by (auto simp: calls bm_wf_insert bm_get_insert_other split: prod.splits sum.splits io_outcome.splits)
  then show "bm_wf (fs_files d')" and "\<And>x. x \<noteq> CHILD_DONE \<Longrightarrow> file_at d' x = file_at d x" by blast+
qed

lemma wal_open_seq:
  assumes "wal_open mx d = (Inr wl, d')" and "list_segments d = fl @ [(segment_path q, c)]"
  shows "wl_seg_seq wl = q"
  using assms by (auto simp: wal_open_def Let_def split: prod.splits sum.splits if_splits)

lemma open_with_seq:
  assumes "open_with opts lk d = (Inr st, d')" and "bm_wf (fs_files d)"
    and "list_segments d = fl @ [(segment_path q, c)]"
  shows "wl_seg_seq (st_wal st) = q"
proof -
  obtain r0 d0 where c0: "fs_call d = (r0, d0)" by force
  then have files: "fs_files d0 = fs_files d" by (rule call_files)
  obtain r1 d1 where c1: "lock_dir lk d0 = (r1, d1)" by force
  have wf1: "bm_wf (fs_files d1)" and "\<And>x. x \<noteq> LOCK_NAME \<Longrightarrow> file_at d1 x = file_at d0 x"
    using lock_dir_frame [OF _ c1] assms(2) files by auto
  then have "list_segments d1 = list_segments d"
    using assms(2) files by (intro list_segments_eqI) (metis file_at_def lock_name_free(1))+
  moreover have "open_locked opts d1 = (Inr st, d')"
    using assms(1) c0 c1 by (cases r0; cases r1) (auto simp: open_with_def)
  then obtain d2 where "wal_open (opt_wal_segment_size opts) d1 = (Inr (st_wal st), d2)"
    by (auto simp: open_locked_def Let_def split: prod.splits sum.splits)
  ultimately show ?thesis using wal_open_seq assms(3) by metis
qed

lemma put_all_seq:
  "put_all is st d = (Inr (), st', d') \<Longrightarrow>
    unat (wl_seg_seq (st_wal st')) \<le> unat (wl_seg_seq (st_wal st)) + length is"
proof (induction "is" arbitrary: st d)
  case (Cons i "is")
  obtain idx st1 d1 where f: "flush_group [run_ops i] st d = (Inr idx, st1, d1)"
    and rest: "put_all is st1 d1 = (Inr (), st', d')"
    using Cons.prems
    by (auto simp: store_put_def commit_ops_def run_ops_def split: prod.splits sum.splits)
  from Cons.IH [OF rest] flush_group_seq(2) [OF f] show ?case by simp
qed simp

subsection \<open>A killed run verifies\<close>

text \<open>What a run that reached its marker leaves in the directory.\<close>

lemma run_leaves:
  assumes inv: "dir_inv d H lo" and opn: "store_open lk d = (Inr st, d1)" and room: "length H + unat n < 2 ^ 64"
    and run: "runner_run lk n d = (Blocks, d')"
  obtains fl q c where "dir_inv d' (H @ map run_ops [0..<unat n]) lo"
    and "list_segments d' = fl @ [(segment_path q, c)]" and "unat q \<le> unat (wl_seg_seq (st_wal st)) + unat n"
proof -
  let ?H = "H @ map run_ops [0..<unat n]"
  note opn = opn [unfolded store_open_def]
  obtain st1 d2 where puts: "put_all [0..<unat n] st d1 = (Inr (), st1, d2)"
    and mark: "io_then (fs_open_truncate CHILD_DONE d2) (fs_write_all CHILD_DONE (as_bytes ''1'')) = (Inr (), d')"
    using run opn by (auto simp: runner_run_def store_open_def split: prod.splits sum.splits)
  have "store_inv st None d1 H lo UNIV"
    using open_with_spec(2) [OF inv opn refl] by (rule store_inv_mono) simp
  then have inv2: "store_inv st1 None d2 ?H lo UNIV" and usable: "\<not> wl_poisoned (st_wal st1)"
    using put_all_inv [OF _ open_with_usable [OF opn] _ puts] room by auto
  have dir2: "dir_inv d2 ?H lo" by (rule store_inv_dir [OF inv2 usable])
  then have wf2: "bm_wf (fs_files d2)" by (auto simp: dir_inv_def torn_log_def)
  note frame = marker_frame [OF wf2 mark]
  have dir': "dir_inv d' ?H lo" by (rule dir_inv_cong [OF dir2 frame(1) frame(2)]) auto
  obtain L where L: "wal_inv (st_wal st1) d2 L" using inv2 usable by (rule store_inv_usable)
  have "list_segments d' = list_segments d2"
    by (rule list_segments_eqI [OF wf2 frame(1)], rule frame(2)) auto
  also have "\<dots> = files_of (butlast L) @ [(segment_path (wl_seg_seq (st_wal st1)), seg_image (snd (last L)))]"
    using L by (cases L rule: rev_cases) (auto simp: wal_inv_def log_is_def files_of_def)
  finally show thesis using that [OF dir'] put_all_seq [OF puts] by simp
qed

lemma verify_accepts:
  assumes inv: "dir_inv d (H @ map run_ops [0..<unat n]) lo" and quiet: "fs_outcomes d = []"
    and checked: "\<forall>ops \<in> set (H @ map run_ops [0..<unat n]). check_ops ops = Inr ()"
    and seg: "list_segments d = fl @ [(segment_path q, c)]" "unat q + 1 < 2 ^ 32"
  shows "\<exists>d'. runner_verify Locked n d = (Returns (''OK '' @ fmt_dec 0 (unat n)), d')"
proof -
  let ?H = "H @ map run_ops [0..<unat n]"
  obtain st d1 where opn: "open_with options_default Locked d = (Inr st, d1)"
    by (rule open_with_succeeds [OF inv quiet])
  have inv1: "store_inv st None d1 ?H lo (set ?H)" by (rule open_with_spec(2) [OF inv opn refl])
  then have snap: "rcu_load (st_snap st) = snap_of ?H" by (simp add: store_inv_def)
  have wf: "bm_wf (fs_files d)" using inv by (auto simp: dir_inv_def torn_log_def)
  have quiet1: "fs_outcomes d1 = []" using quiet_open_with [OF quiet] opn by (metis snd_conv)
  have seq: "unat (wl_seg_seq (st_wal st)) + 1 < 2 ^ 32" using open_with_seq [OF opn wf seg(1)] seg(2) by simp
  have "list_all entry_fits (sn_data (store_snapshot st))"
    using hist_from_fits [OF checked] by (simp add: store_snapshot_def snap snap_of_def)
  then obtain i st' d' where "store_checkpoint st d1 = (Inr i, st', d')"
    by (rule store_checkpoint_ok [OF inv1 open_with_usable [OF opn] quiet1 seq])
  moreover have "\<not> store_len st < unat n"
    using len_after_runs [of "unat n" H] by (simp add: store_len_def snap)
  moreover have "\<not> list_ex (\<lambda>i. store_get st (run_key i) \<noteq> Some (run_value i)) [0..<unat n]"
    by (simp add: list_ex_iff store_get_def snap get_after_runs)
  ultimately show ?thesis by (simp add: runner_verify_def store_open_def opn)
qed

lemma put_all_checked: "put_all is st d = (Inr (), st', d') \<Longrightarrow> i \<in> set is \<Longrightarrow> check_ops (run_ops i) = Inr ()"
  by (induction "is" arbitrary: st d)
    (auto simp: store_put_def commit_ops_def run_ops_def split: prod.splits sum.splits)

lemma run_checked: "runner_run lk n d = (Blocks, d') \<Longrightarrow> i < unat n \<Longrightarrow> check_ops (run_ops i) = Inr ()"
  by (auto simp: runner_run_def split: prod.splits sum.splits dest: put_all_checked)

text \<open>
  C4: the crash harness. From any directory the store can have left, whatever I/O calls fail during it: if
  \<^verbatim>\<open>run\<close> got as far as its marker and was then killed, \<^verbatim>\<open>verify\<close> with the same count, on a directory whose calls
  succeed, recovers every key with its value, checkpoints, and prints \<^verbatim>\<open>OK\<close>. The bounds say that neither
  commit indices nor segment numbers run out.
\<close>

theorem crash_runner_verifies:
  fixes n :: u64
  assumes reach: "store_reach None None d A T" and opn: "store_open lk (d\<lparr>fs_outcomes := outs\<rparr>) = (Inr st, d1)"
    and room: "unat (store_index st) + unat n < 2 ^ 64" "unat (wl_seg_seq (st_wal st)) + unat n + 1 < 2 ^ 32"
    and run: "runner_main lk [prog, ''run'', dir, fmt_dec 0 (unat n)] (d\<lparr>fs_outcomes := outs\<rparr>) = (Blocks, d')"
  shows "\<exists>d2. runner_main Locked [prog, ''verify'', dir, fmt_dec 0 (unat n)] (d'\<lparr>fs_outcomes := []\<rparr>)
    = (Returns (''OK '' @ fmt_dec 0 (unat n)), d2)"
proof -
  obtain H lo where dir: "dir_inv d H lo" and sub: "set H \<subseteq> T" using store_reach_inv [OF reach] by auto
  let ?d = "d\<lparr>fs_outcomes := outs\<rparr>" and ?H = "H @ map run_ops [0..<unat n]"
  have dir': "dir_inv ?d H lo" using dir by (simp add: dir_inv_outcomes)
  have "store_inv st None d1 H lo (set H)" using open_with_spec(2) [OF dir'] opn by (simp add: store_open_def)
  then have len: "length H + unat n < 2 ^ 64"
    using room(1) by (simp add: store_inv_def store_index_def unat_u64_of_nat)
  have run': "runner_run lk n ?d = (Blocks, d')"
    using run by (simp add: runner_main_def parse_n_fmt)
  obtain fl q c where left: "dir_inv d' ?H lo" "list_segments d' = fl @ [(segment_path q, c)]"
      "unat q \<le> unat (wl_seg_seq (st_wal st)) + unat n"
    using run_leaves [OF dir' opn len run'] by blast
  have "\<forall>ops \<in> set ?H. check_ops ops = Inr ()"
    using sub reach_checked [OF reach] run_checked [OF run'] by auto
  then have "\<exists>d2. runner_verify Locked n (d'\<lparr>fs_outcomes := []\<rparr>) = (Returns (''OK '' @ fmt_dec 0 (unat n)), d2)"
    using left room(2) by (intro verify_accepts [of _ H n lo fl q c]) (simp_all add: dir_inv_outcomes list_segments_def)
  then show ?thesis by (simp add: runner_main_def parse_n_fmt)
qed

subsection \<open>On a healthy directory the run reaches its marker\<close>

lemma dec_len_le: "n < 10 ^ Suc k \<Longrightarrow> dec_len n \<le> Suc k"
proof (induction k arbitrary: n)
  case (Suc k)
  then have "dec_len (n div 10) \<le> Suc k" by (simp add: less_mult_imp_div_less)
  then show ?case by (subst dec_len.simps) simp
qed (simp add: dec_len.simps)

lemma run_ops_checked: "i < 2 ^ 64 \<Longrightarrow> check_ops (run_ops i) = Inr ()"
proof -
  assume "i < 2 ^ 64"
  then have "dec_len i \<le> Suc 19" by (intro dec_len_le) simp
  then have "length (run_key i) \<le> 21" "length (run_value i) \<le> 21"
    by (simp_all add: run_key_def run_value_def as_bytes_def fmt_dec_def)
  then show ?thesis by (simp add: check_ops_def run_ops_def payload_len_def MAX_PAYLOAD_def)
qed

lemma put_all_ok:
  assumes "store_inv st None d H lo UNIV" and "\<not> wl_poisoned (st_wal st)" and "fs_outcomes d = []"
    and "length H + length is < 2 ^ 64" and "unat (wl_seg_seq (st_wal st)) + length is < 2 ^ 32" and "\<forall>i \<in> set is. i < 2 ^ 64"
  shows "\<exists>st' d'. put_all is st d = (Inr (), st', d') \<and> fs_outcomes d' = []"
  using assms
proof (induction "is" arbitrary: st d H)
  case (Cons i "is")
  have ok: "list_all (\<lambda>ops. check_ops ops = Inr ()) [run_ops i]" using Cons.prems(6) by (simp add: run_ops_checked)
  have "unat (wl_seg_seq (st_wal st)) + 1 < 2 ^ 32" using Cons.prems(5) by simp
  then obtain st1 d1 where f: "flush_group [run_ops i] st d = (Inr (group_indices (length H) [run_ops i]), st1, d1)"
      "fs_outcomes d1 = []"
    using flush_group_succeeds [OF Cons.prems(1-3) _ ok] by metis
  have "store_inv st1 None d1 (H @ [run_ops i]) lo UNIV"
    using flush_group_inv [OF Cons.prems(1) ok _ _ f(1)] Cons.prems(4) by simp
  then have "\<exists>st' d'. put_all is st1 d1 = (Inr (), st', d') \<and> fs_outcomes d' = []"
    using Cons.prems(4-6) f(2) flush_group_seq [OF f(1)] by (intro Cons.IH) auto
  then show ?case
    using f(1) ok by (auto simp: store_put_def commit_ops_def run_ops_def)
qed simp

lemma run_blocks:
  assumes inv: "dir_inv d H lo" and quiet: "fs_outcomes d = []" and opn: "store_open Locked d = (Inr st, d1)"
    and room: "length H + unat n < 2 ^ 64" "unat (wl_seg_seq (st_wal st)) + unat n < 2 ^ 32"
  shows "\<exists>d'. runner_run Locked n d = (Blocks, d')"
proof -
  note opn' = opn [unfolded store_open_def]
  have "store_inv st None d1 H lo UNIV"
    using open_with_spec(2) [OF inv opn' refl] by (rule store_inv_mono) simp
  moreover have "fs_outcomes d1 = []" using quiet_open_with [OF quiet] opn' by (metis snd_conv)
  moreover have "\<forall>i \<in> set [0..<unat n]. i < 2 ^ 64" using unat_bound [of n] by auto
  ultimately obtain st2 d2 where "put_all [0..<unat n] st d1 = (Inr (), st2, d2)" "fs_outcomes d2 = []"
    using put_all_ok [OF _ open_with_usable [OF opn']] room by (metis length_upt diff_zero)
  then show ?thesis
    by (simp add: runner_run_def opn fs_open_truncate_def fs_write_all_def)
qed

theorem crash_runner_verifies_witness:
  "\<exists>d' d2. runner_main Locked [''crash-runner'', ''run'', ''/tmp/store'', fmt_dec 0 2] empty_dir = (Blocks, d')
    \<and> runner_main Locked [''crash-runner'', ''verify'', ''/tmp/store'', fmt_dec 0 2] (d'\<lparr>fs_outcomes := []\<rparr>)
      = (Returns (''OK '' @ fmt_dec 0 2), d2)"
proof -
  have e: "empty_dir\<lparr>fs_outcomes := []\<rparr> = empty_dir" "fs_outcomes empty_dir = []" by (simp_all add: empty_dir_def)
  obtain st d where opn: "store_open Locked empty_dir = (Inr st, d)" and st: "wl_seg_seq (st_wal st) = 1" "store_index st = 0"
    by (rule fresh_open) (simp add: store_open_def)
  obtain H lo where inv: "dir_inv empty_dir H lo" and H: "H = []" using store_reach_inv [OF empty_dir_reach] by auto
  have "\<exists>d'. runner_run Locked 2 empty_dir = (Blocks, d')"
    by (rule run_blocks [OF inv e(2) opn]) (simp_all add: H st)
  then obtain d' where run: "runner_main Locked [''crash-runner'', ''run'', ''/tmp/store'', fmt_dec 0 (unat (2 :: u64))]
      (empty_dir\<lparr>fs_outcomes := []\<rparr>) = (Blocks, d')"
    using e(1) parse_n_fmt [of 0 2 "Some 1000"] by (auto simp: runner_main_def)
  from crash_runner_verifies [OF empty_dir_reach _ _ _ this, of st d] opn st e(1) run show ?thesis by auto
qed

end
