(* ===== verification/Dirs.thy ===== *)
theory Dirs
  imports Fs
begin

text \<open>
  Creating the store's directory durably (\<^verbatim>\<open>fsync_dir\<close> and \<^verbatim>\<open>create_dir_all_durably\<close> of \<^verbatim>\<open>src/wal.rs\<close>). A directory's entry
  lives in its parent and survives a power failure only once the parent was synced, so the tree of directories here
  says of each entry whether it is durable. Paths list their names from the last to the first. As in \<open>Fs\<close>, a list of
  outcomes says which calls fail.
\<close>

subsection \<open>The tree and the calls\<close>

datatype node_kind = DirNode | FileNode

record dtree =
  dt_nodes :: "string list \<Rightarrow> node_kind option"
  dt_durable :: "string list \<Rightarrow> bool"
  dt_cwd :: "string list"
  dt_outcomes :: "io_outcome list"

datatype path = Abs "string list" | Rel "string list"

primrec resolve :: "dtree \<Rightarrow> path \<Rightarrow> string list" where
  "resolve d (Abs xs) = xs"
| "resolve d (Rel xs) = xs @ dt_cwd d"

fun path_parent :: "path \<Rightarrow> path option" where
  "path_parent (Abs []) = None"
| "path_parent (Rel []) = None"
| "path_parent (Abs (x # xs)) = Some (Abs xs)"
| "path_parent (Rel (x # xs)) = Some (Rel xs)"

definition path_exists :: "path \<Rightarrow> dtree \<Rightarrow> bool" where
  "path_exists p d \<longleftrightarrow> dt_nodes d (resolve d p) \<noteq> None"

definition path_is_dir :: "path \<Rightarrow> dtree \<Rightarrow> bool" where
  "path_is_dir p d \<longleftrightarrow> dt_nodes d (resolve d p) = Some DirNode"

definition dt_call :: "dtree \<Rightarrow> unit io_result \<times> dtree" where
  "dt_call d =
     (case dt_outcomes d of
        [] \<Rightarrow> (Inr (), d)
      | IoOk # outs \<Rightarrow> (Inr (), d\<lparr>dt_outcomes := outs\<rparr>)
      | IoErr k _ # outs \<Rightarrow> (Inl k, d\<lparr>dt_outcomes := outs\<rparr>))"

definition dt_then :: "'a io_result \<times> dtree \<Rightarrow> (dtree \<Rightarrow> 'b io_result \<times> dtree) \<Rightarrow> 'b io_result \<times> dtree" where
  "dt_then r g = (case r of (Inl e, d) \<Rightarrow> (Inl e, d) | (Inr _, d) \<Rightarrow> g d)"

text \<open>\<^verbatim>\<open>mkdir\<close>: the new entry is not durable yet.\<close>

definition mkdir :: "path \<Rightarrow> dtree \<Rightarrow> unit io_result \<times> dtree" where
  "mkdir p d = dt_then (dt_call d) (\<lambda>d.
     let x = resolve d p in
     if dt_nodes d x \<noteq> None then (Inl AlreadyExists, d)
     else case x of
         [] \<Rightarrow> (Inl Other, d)
       | _ # up \<Rightarrow>
           (case dt_nodes d up of
              None \<Rightarrow> (Inl NotFound, d)
            | Some FileNode \<Rightarrow> (Inl Other, d)
            | Some DirNode \<Rightarrow>
                (Inr (), d\<lparr>dt_nodes := (dt_nodes d)(x := Some DirNode), dt_durable := (dt_durable d)(x := False)\<rparr>)))"

definition allow_dir :: "path \<Rightarrow> unit io_result \<times> dtree \<Rightarrow> unit io_result \<times> dtree" where
  "allow_dir p r = (if fst r = Inl AlreadyExists \<and> path_is_dir p (snd r) then (Inr (), snd r) else r)"

text \<open>\<^verbatim>\<open>std::fs::create_dir_all\<close>, for the names of an absolute or a relative path.\<close>

primrec create_dir_all :: "(string list \<Rightarrow> path) \<Rightarrow> string list \<Rightarrow> dtree \<Rightarrow> unit io_result \<times> dtree" where
  "create_dir_all mk [] d = (Inr (), d)"
| "create_dir_all mk (x # xs) d =
     (case allow_dir (mk (x # xs)) (mkdir (mk (x # xs)) d) of
        (Inr _, d) \<Rightarrow> (Inr (), d)
      | (Inl e, d) \<Rightarrow>
          if e = NotFound
          then dt_then (create_dir_all mk xs d) (\<lambda>d. allow_dir (mk (x # xs)) (mkdir (mk (x # xs)) d))
          else (Inl e, d))"

subsection \<open>The program\<close>

text \<open>\<^verbatim>\<open>File::open(dir)?.sync_all()\<close>: every entry of the directory becomes durable.\<close>

definition fsync_dir :: "path \<Rightarrow> dtree \<Rightarrow> unit io_result \<times> dtree" where
  "fsync_dir p d =
     dt_then (dt_call d) (\<lambda>d.
       if \<not> path_exists p d then (Inl NotFound, d)
       else dt_then (dt_call d) (\<lambda>d.
         (Inr (), d\<lparr>dt_durable := (\<lambda>x. dt_durable d x \<or> x \<noteq> [] \<and> tl x = resolve d p \<and> dt_nodes d x \<noteq> None)\<rparr>)))"

text \<open>The loop that collects the path and its parents up to the first that exists, innermost first.\<close>

primrec missing_dirs :: "(string list \<Rightarrow> path) \<Rightarrow> string list \<Rightarrow> dtree \<Rightarrow> path list" where
  "missing_dirs mk [] d = (if mk [] = Rel [] \<or> path_exists (mk []) d then [] else [mk []])"
| "missing_dirs mk (x # xs) d =
     (if path_exists (mk (x # xs)) d then [] else mk (x # xs) # missing_dirs mk xs d)"

text \<open>The path \<^verbatim>\<open>.\<close> is the relative path without names.\<close>

primrec sync_parents :: "path list \<Rightarrow> dtree \<Rightarrow> unit io_result \<times> dtree" where
  "sync_parents [] d = (Inr (), d)"
| "sync_parents (p # ps) d =
     dt_then (case path_parent p of
                Some up \<Rightarrow> if up \<noteq> Rel [] then fsync_dir up d else fsync_dir (Rel []) d
              | None \<Rightarrow> fsync_dir (Rel []) d)
       (sync_parents ps)"

definition create_dir_all_durably :: "path \<Rightarrow> dtree \<Rightarrow> unit io_result \<times> dtree" where
  "create_dir_all_durably p d =
     (case p of
        Abs xs \<Rightarrow> (let missing = missing_dirs Abs xs d in dt_then (create_dir_all Abs xs d) (sync_parents (rev missing)))
      | Rel xs \<Rightarrow> (let missing = missing_dirs Rel xs d in dt_then (create_dir_all Rel xs d) (sync_parents (rev missing))))"

subsection \<open>Power failure\<close>

text \<open>After a power failure an entry is left if it and all its parents are durable.\<close>

primrec survives :: "dtree \<Rightarrow> string list \<Rightarrow> bool" where
  "survives d [] = True"
| "survives d (x # xs) = (dt_durable d (x # xs) \<and> survives d xs)"

definition power_cut :: "dtree \<Rightarrow> dtree" where
  "power_cut d = d\<lparr>dt_nodes := (\<lambda>x. if survives d x then dt_nodes d x else None)\<rparr>"

text \<open>A tree in which every entry's parent is a directory.\<close>

definition tree_ok :: "dtree \<Rightarrow> bool" where
  "tree_ok d \<longleftrightarrow> dt_nodes d [] = Some DirNode \<and> dt_nodes d (dt_cwd d) = Some DirNode
     \<and> (\<forall>x xs. dt_nodes d (x # xs) \<noteq> None \<longrightarrow> dt_nodes d xs = Some DirNode)"

text \<open>The part of a path that exists is durable.\<close>

primrec prefix_durable :: "dtree \<Rightarrow> string list \<Rightarrow> bool" where
  "prefix_durable d [] = True"
| "prefix_durable d (x # xs) = ((dt_nodes d (x # xs) \<noteq> None \<longrightarrow> dt_durable d (x # xs)) \<and> prefix_durable d xs)"

text \<open>What the calls leave alone: directories appear, nothing disappears or changes, and durable entries stay so.\<close>

definition tree_grows :: "dtree \<Rightarrow> dtree \<Rightarrow> bool" where
  "tree_grows d d' \<longleftrightarrow> dt_cwd d' = dt_cwd d \<and> tree_ok d'
     \<and> (\<forall>x. dt_nodes d x \<noteq> None \<longrightarrow> dt_nodes d' x = dt_nodes d x \<and> (dt_durable d x \<longrightarrow> dt_durable d' x))"

lemma tree_grows_refl: "tree_ok d \<Longrightarrow> tree_grows d d"
  by (simp add: tree_grows_def)

lemma tree_grows_trans: "tree_grows d d1 \<Longrightarrow> tree_grows d1 d2 \<Longrightarrow> tree_grows d d2"
  unfolding tree_grows_def by metis

lemma dt_call_frame:
  "dt_call d = (r, d') \<Longrightarrow> dt_nodes d' = dt_nodes d \<and> dt_durable d' = dt_durable d \<and> dt_cwd d' = dt_cwd d"
  by (auto simp: dt_call_def split: list.splits io_outcome.splits)

lemma resolve_cwd: "dt_cwd d' = dt_cwd d \<Longrightarrow> resolve d' p = resolve d p"
  by (cases p) simp_all

lemma mkdir_grows:
  assumes "tree_ok d" and "mkdir p d = (r, d')"
  shows "tree_grows d d'" and "r = Inr () \<Longrightarrow> dt_nodes d' (resolve d p) = Some DirNode"
proof -
  obtain r1 d1 where c: "dt_call d = (r1, d1)" by force
  note f = dt_call_frame [OF c]
  then have ok1: "tree_ok d1" using assms(1) by (simp add: tree_ok_def)
  have g: "tree_grows d d1" using f ok1 by (simp add: tree_grows_def)
  let ?x = "resolve d p"
  have new: "tree_grows d (d1\<lparr>dt_nodes := (dt_nodes d1)(?x := Some DirNode), dt_durable := (dt_durable d1)(?x := False)\<rparr>)"
    if "dt_nodes d ?x = None" "?x = y # up" "dt_nodes d up = Some DirNode" for y up
    using that f ok1 assms(1) by (auto simp: tree_grows_def tree_ok_def)
  have "tree_grows d d' \<and> (r = Inr () \<longrightarrow> dt_nodes d' ?x = Some DirNode)"
    using assms(2) c f g new resolve_cwd [of d1 d p]
    by (auto simp: mkdir_def dt_then_def Let_def split: sum.splits if_splits list.splits option.splits node_kind.splits)
  then show "tree_grows d d'" and "r = Inr () \<Longrightarrow> dt_nodes d' ?x = Some DirNode" by blast+
qed

lemma mkdir_allowed:
  assumes "tree_ok d" and "allow_dir p (mkdir p d) = (r, d')"
  shows "tree_grows d d'" and "r = Inr () \<Longrightarrow> dt_nodes d' (resolve d p) = Some DirNode"
proof -
  obtain r0 d0 where c: "mkdir p d = (r0, d0)" by force
  have d': "d' = d0" using assms(2) c by (auto simp: allow_dir_def split: if_splits)
  show g: "tree_grows d d'" using mkdir_grows(1) [OF assms(1) c] d' by simp
  have "resolve d' p = resolve d p" using g by (intro resolve_cwd) (simp add: tree_grows_def)
  then show "dt_nodes d' (resolve d p) = Some DirNode" if "r = Inr ()"
    using that assms(2) c d' mkdir_grows(2) [OF assms(1) c] by (auto simp: allow_dir_def path_is_dir_def split: if_splits)
qed

lemma create_dir_all_grows:
  assumes "tree_ok d" and "mk [] \<in> {Abs [], Rel []}" and "create_dir_all mk xs d = (r, d')"
  shows "tree_grows d d'" and "r = Inr () \<Longrightarrow> dt_nodes d' (resolve d (mk xs)) = Some DirNode"
proof -
  have "tree_grows d d' \<and> (r = Inr () \<longrightarrow> dt_nodes d' (resolve d (mk xs)) = Some DirNode)"
    using assms(1,3)
  proof (induction xs arbitrary: d r d')
    case Nil
    then show ?case using assms(2) by (auto simp: tree_grows_refl tree_ok_def)
  next
    case (Cons x xs)
    let ?mk = "\<lambda>d. allow_dir (mk (x # xs)) (mkdir (mk (x # xs)) d)"
    obtain r1 d1 where c1: "?mk d = (r1, d1)" by force
    note s1 = mkdir_allowed [OF Cons.prems(1) c1]
    obtain r2 d2 where c2: "create_dir_all mk xs d1 = (r2, d2)" by force
    have s2: "tree_grows d1 d2" using Cons.IH [OF _ c2] s1(1) by (simp add: tree_grows_def)
    then have ok2: "tree_ok d2" by (simp add: tree_grows_def)
    obtain r3 d3 where c3: "?mk d2 = (r3, d3)" by force
    note s3 = mkdir_allowed [OF ok2 c3]
    have cwd: "resolve d2 (mk (x # xs)) = resolve d (mk (x # xs))"
      using s1(1) s2 by (intro resolve_cwd) (simp add: tree_grows_def)
    show ?case
      using Cons.prems(2) c1 c2 c3 s1 s3(2) cwd tree_grows_trans [OF s1(1) s2]
        tree_grows_trans [OF s1(1) tree_grows_trans [OF s2 s3(1)]]
      by (cases r1; cases r2) (simp_all add: dt_then_def split: if_splits, auto)
  qed
  then show "tree_grows d d'" and "r = Inr () \<Longrightarrow> dt_nodes d' (resolve d (mk xs)) = Some DirNode" by blast+
qed

lemma fsync_dir_spec:
  assumes "fsync_dir p d = (r, d')"
  shows "dt_nodes d' = dt_nodes d" and "dt_cwd d' = dt_cwd d" and "dt_durable d x \<Longrightarrow> dt_durable d' x"
    and "r = Inr () \<Longrightarrow> tl x = resolve d p \<Longrightarrow> x \<noteq> [] \<Longrightarrow> dt_nodes d x \<noteq> None \<Longrightarrow> dt_durable d' x"
proof -
  obtain r1 d1 where c1: "dt_call d = (r1, d1)" by force
  obtain r2 d2 where c2: "dt_call d1 = (r2, d2)" by force
  note f = dt_call_frame [OF c1] dt_call_frame [OF c2]
  have "resolve d1 p = resolve d p" "resolve d2 p = resolve d p" by (rule resolve_cwd, simp add: f)+
  then have "dt_nodes d' = dt_nodes d \<and> dt_cwd d' = dt_cwd d \<and> (\<forall>x. dt_durable d x \<longrightarrow> dt_durable d' x)
    \<and> (r = Inr () \<longrightarrow> (\<forall>x. tl x = resolve d p \<and> x \<noteq> [] \<and> dt_nodes d x \<noteq> None \<longrightarrow> dt_durable d' x))"
    using assms c1 c2 f by (auto simp: fsync_dir_def dt_then_def split: sum.splits if_splits)
  then show "dt_nodes d' = dt_nodes d" and "dt_cwd d' = dt_cwd d" and "dt_durable d x \<Longrightarrow> dt_durable d' x"
    and "r = Inr () \<Longrightarrow> tl x = resolve d p \<Longrightarrow> x \<noteq> [] \<Longrightarrow> dt_nodes d x \<noteq> None \<Longrightarrow> dt_durable d' x" by blast+
qed

lemma resolve_parent: "path_parent p = Some up \<Longrightarrow> resolve d p \<noteq> [] \<and> tl (resolve d p) = resolve d up"
  by (cases p rule: path_parent.cases) auto

lemma sync_parents_spec:
  assumes "sync_parents ps d = (r, d')"
  shows "dt_nodes d' = dt_nodes d \<and> dt_cwd d' = dt_cwd d \<and> (\<forall>x. dt_durable d x \<longrightarrow> dt_durable d' x)
    \<and> (r = Inr () \<longrightarrow> (\<forall>p \<in> set ps. path_parent p \<noteq> None \<longrightarrow> dt_nodes d (resolve d p) \<noteq> None
        \<longrightarrow> dt_durable d' (resolve d p)))"
  using assms
proof (induction ps arbitrary: d)
  case (Cons p ps)
  define q where "q = (case path_parent p of Some up \<Rightarrow> up | None \<Rightarrow> Rel [])"
  have head: "sync_parents (p # ps) d = dt_then (fsync_dir q d) (sync_parents ps)"
    by (simp add: q_def split: option.split)
  obtain r1 d1 where c1: "fsync_dir q d = (r1, d1)" by force
  note f = fsync_dir_spec [OF c1]
  have res: "resolve d1 x = resolve d x" for x using f(2) by (rule resolve_cwd)
  have p: "dt_durable d1 (resolve d p)" if "r1 = Inr ()" "path_parent p \<noteq> None" "dt_nodes d (resolve d p) \<noteq> None"
    using f(4) [OF that(1)] that(2,3) resolve_parent [of p _ d] by (auto simp: q_def)
  show ?case
  proof (cases r1)
    case (Inl e)
    with Cons.prems head c1 f show ?thesis by (simp add: dt_then_def)
  next
    case (Inr u)
    then have "sync_parents ps d1 = (r, d')" using Cons.prems head c1 by (simp add: dt_then_def)
    from Cons.IH [OF this] f(1-3) p Inr res show ?thesis by auto
  qed
qed simp

subsection \<open>The path is durable\<close>

lemma survives_grows:
  assumes "tree_ok d" and "tree_grows d d'" and "dt_nodes d x \<noteq> None" and "survives d x"
  shows "survives d' x"
  using assms(3,4)
proof (induction x)
  case (Cons a x)
  have "dt_nodes d x \<noteq> None" using Cons.prems(1) assms(1) unfolding tree_ok_def by (metis option.distinct(1))
  moreover have "dt_durable d' (a # x)" using Cons.prems assms(2) by (simp add: tree_grows_def)
  ultimately show ?case using Cons by simp
qed simp

lemma prefix_survives: "tree_ok d \<Longrightarrow> prefix_durable d x \<Longrightarrow> dt_nodes d x \<noteq> None \<Longrightarrow> survives d x"
proof (induction x)
  case (Cons a x)
  then have "dt_nodes d x \<noteq> None" unfolding tree_ok_def by (metis option.distinct(1))
  with Cons show ?case by simp
qed simp

lemma exists_survives:
  "tree_ok d \<Longrightarrow> prefix_durable d x \<Longrightarrow> tree_grows d d' \<Longrightarrow> dt_nodes d x \<noteq> None \<Longrightarrow> survives d' x"
  using prefix_survives survives_grows by blast

lemma resolve_Cons: "mk = Abs \<or> mk = Rel \<Longrightarrow> resolve d (mk (x # xs)) = x # resolve d (mk xs)"
  by auto

lemma path_survives:
  assumes mk: "mk = Abs \<or> mk = Rel" and ok: "tree_ok d" and grows: "tree_grows d d'"
    and "prefix_durable d (resolve d (mk xs))" and "\<forall>q \<in> set (missing_dirs mk xs d). dt_durable d' (resolve d q)"
  shows "survives d' (resolve d (mk xs))"
  using assms(4,5)
proof (induction xs)
  case Nil
  have "dt_nodes d (resolve d (mk [])) \<noteq> None" using mk ok by (auto simp: tree_ok_def)
  then show ?case by (rule exists_survives [OF ok Nil(1) grows])
next
  case (Cons x xs)
  show ?case
  proof (cases "path_exists (mk (x # xs)) d")
    case True
    then show ?thesis using exists_survives [OF ok Cons.prems(1) grows] by (simp add: path_exists_def)
  next
    case False
    with Cons show ?thesis by (simp add: resolve_Cons [OF mk])
  qed
qed

lemma missing_exist:
  assumes "mk = Abs \<or> mk = Rel" and "tree_ok d" and "tree_ok d'" and "dt_nodes d' (resolve d (mk xs)) \<noteq> None"
    and "q \<in> set (missing_dirs mk xs d)"
  shows "path_parent q \<noteq> None \<and> dt_nodes d' (resolve d q) \<noteq> None"
  using assms(4,5)
proof (induction xs)
  case Nil
  with assms(1,2) show ?case by (auto simp: path_exists_def tree_ok_def split: if_splits)
next
  case (Cons x xs)
  have "dt_nodes d' (resolve d (mk xs)) \<noteq> None"
    using Cons.prems(1) assms(3) by (auto simp: resolve_Cons [OF assms(1)] tree_ok_def)
  with Cons assms(1) show ?case by (auto split: if_splits)
qed

lemma durable_names:
  assumes mk: "mk = Abs \<or> mk = Rel" and ok: "tree_ok d" "prefix_durable d (resolve d (mk xs))"
    and run: "dt_then (create_dir_all mk xs d) (sync_parents (rev (missing_dirs mk xs d))) = (Inr (), d')"
  shows "dt_nodes d' (resolve d (mk xs)) = Some DirNode \<and> survives d' (resolve d (mk xs)) \<and> tree_grows d d'"
proof -
  obtain d1 where c1: "create_dir_all mk xs d = (Inr (), d1)" and c2: "sync_parents (rev (missing_dirs mk xs d)) d1 = (Inr (), d')"
    using run by (auto simp: dt_then_def split: prod.splits sum.splits)
  have g1: "tree_grows d d1" and dir1: "dt_nodes d1 (resolve d (mk xs)) = Some DirNode"
    using create_dir_all_grows [OF ok(1) _ c1] mk by auto
  then have ok1: "tree_ok d1" by (simp add: tree_grows_def)
  have res: "resolve d1 q = resolve d q" for q using g1 by (intro resolve_cwd) (simp add: tree_grows_def)
  note s = sync_parents_spec [OF c2]
  have "tree_ok d'" using ok1 s by (simp add: tree_ok_def)
  then have g: "tree_grows d d'" using g1 s by (simp add: tree_grows_def)
  have "\<forall>q \<in> set (missing_dirs mk xs d). dt_durable d' (resolve d q)"
    using s missing_exist [OF mk ok(1) ok1, of xs] dir1 res by fastforce
  then have "survives d' (resolve d (mk xs))" by (rule path_survives [OF mk ok(1) g ok(2)])
  with g s dir1 show ?thesis by simp
qed

text \<open>
  C18: a directory created durably survives. If \<^verbatim>\<open>create_dir_all_durably\<close> returns \<^verbatim>\<open>Ok\<close> and the part of the path that
  existed before the call was durable, the directory is there after a power failure, with everything that a power
  failure before the call would have left. Without that condition it can be lost (\<open>retried_create_not_durable\<close>).
\<close>

theorem dir_survives_power_cut:
  assumes "tree_ok d" and "prefix_durable d (resolve d p)" and "create_dir_all_durably p d = (Inr (), d')"
  shows "dt_nodes (power_cut d') (resolve d p) = Some DirNode
    \<and> (\<forall>x. dt_nodes (power_cut d) x \<noteq> None \<longrightarrow> dt_nodes (power_cut d') x = dt_nodes d x)"
proof -
  have made: "dt_nodes d' (resolve d p) = Some DirNode \<and> survives d' (resolve d p) \<and> tree_grows d d'"
    using assms(2,3) durable_names [OF _ assms(1), of Abs] durable_names [OF _ assms(1), of Rel]
    by (cases p) (simp_all add: create_dir_all_durably_def)
  then have "survives d' x" if "dt_nodes d x \<noteq> None" "survives d x" for x
    using survives_grows [OF assms(1)] that by blast
  with made show ?thesis by (auto simp: power_cut_def tree_grows_def split: if_splits)
qed

text \<open>A tree with a root and a working directory \<^verbatim>\<open>/srv\<close>, whose calls go as the list says.\<close>

definition srv_tree :: "io_outcome list \<Rightarrow> dtree" where
  "srv_tree outs = \<lparr>dt_nodes = [[] \<mapsto> DirNode, [''srv''] \<mapsto> DirNode], dt_durable = (\<lambda>x. x = [''srv'']),
     dt_cwd = [''srv''], dt_outcomes = outs\<rparr>"

lemma srv_tree_ok: "tree_ok (srv_tree outs)"
  by (auto simp: srv_tree_def tree_ok_def split: if_splits)

lemmas dir_calls = create_dir_all_durably_def path_exists_def path_is_dir_def mkdir_def dt_call_def dt_then_def
  allow_dir_def fsync_dir_def Let_def

theorem dir_survives_power_cut_witness:
  "dt_nodes (power_cut (snd (create_dir_all_durably (Rel [''db'', ''app'']) (srv_tree [])))) [''db'', ''app'', ''srv''] = Some DirNode"
proof -
  let ?run = "create_dir_all_durably (Rel [''db'', ''app'']) (srv_tree [])"
  have ok: "fst ?run = Inr ()" by (simp add: srv_tree_def dir_calls)
  have run: "?run = (Inr (), snd ?run)" using ok by (metis prod.collapse)
  have "prefix_durable (srv_tree []) (resolve (srv_tree []) (Rel [''db'', ''app'']))" by (simp add: srv_tree_def)
  from dir_survives_power_cut [OF srv_tree_ok this run] show ?thesis by (simp add: srv_tree_def)
qed

subsection \<open>A failed sync is not repaired by a retry\<close>

text \<open>The entry of a directory becomes durable only by the sync of its own parent, which comes last.\<close>

lemma mkdir_not_durable:
  assumes "mkdir p d = (r, d')" and "dt_nodes d (resolve d p) = None" and "dt_nodes d' (resolve d p) \<noteq> None"
  shows "r = Inr ()" and "\<not> dt_durable d' (resolve d p)"
proof -
  obtain r1 d1 where c: "dt_call d = (r1, d1)" by force
  note f = dt_call_frame [OF c]
  have "r = Inr () \<and> \<not> dt_durable d' (resolve d p)"
    using assms c f resolve_cwd [of d1 d p]
    by (auto simp: mkdir_def dt_then_def Let_def split: sum.splits if_splits list.splits option.splits node_kind.splits)
  then show "r = Inr ()" "\<not> dt_durable d' (resolve d p)" by simp_all
qed

lemma allowed_not_durable:
  assumes "allow_dir p (mkdir p d) = (r, d')" and "dt_nodes d (resolve d p) = None" and "dt_nodes d' (resolve d p) \<noteq> None"
  shows "r = Inr ()" and "\<not> dt_durable d' (resolve d p)"
  using assms mkdir_not_durable [of p d "fst (mkdir p d)" "snd (mkdir p d)"]
  by (auto simp: allow_dir_def split: if_splits)

lemma allowed_frame:
  assumes "allow_dir p (mkdir p d) = (r, d')" and "y \<noteq> resolve d p"
  shows "dt_nodes d' y = dt_nodes d y" and "dt_cwd d' = dt_cwd d"
proof -
  obtain r1 d1 where c: "dt_call d = (r1, d1)" by force
  note f = dt_call_frame [OF c]
  have "dt_nodes d' y = dt_nodes d y \<and> dt_cwd d' = dt_cwd d"
    using assms c f resolve_cwd [of d1 d p]
    by (auto simp: allow_dir_def mkdir_def dt_then_def Let_def
        split: sum.splits if_splits list.splits option.splits node_kind.splits)
  then show "dt_nodes d' y = dt_nodes d y" "dt_cwd d' = dt_cwd d" by simp_all
qed

lemma create_dir_all_deeper:
  assumes "mk = Abs \<or> mk = Rel" and "create_dir_all mk xs d = (r, d')" and "length (resolve d (mk xs)) < length y"
  shows "dt_nodes d' y = dt_nodes d y \<and> dt_cwd d' = dt_cwd d"
  using assms(2,3)
proof (induction xs arbitrary: d r d')
  case (Cons x xs)
  let ?mk = "\<lambda>d. allow_dir (mk (x # xs)) (mkdir (mk (x # xs)) d)"
  have ne: "y \<noteq> resolve d (mk (x # xs))" using Cons.prems(2) by auto
  obtain r1 d1 where c1: "?mk d = (r1, d1)" by force
  note f1 = allowed_frame [OF c1 ne]
  obtain r2 d2 where c2: "create_dir_all mk xs d1 = (r2, d2)" by force
  have "length (resolve d1 (mk xs)) < length y"
    using Cons.prems(2) f1(2) resolve_cwd [of d1 d "mk xs"] by (simp add: resolve_Cons [OF assms(1)])
  note f2 = Cons.IH [OF c2 this]
  obtain r3 d3 where c3: "?mk d2 = (r3, d3)" by force
  have "resolve d2 (mk (x # xs)) = resolve d (mk (x # xs))" using f1(2) f2 by (intro resolve_cwd) simp
  note f3 = allowed_frame [OF c3, of y] this
  show ?case
    using Cons.prems(1) c1 c2 c3 f1 f2 f3 ne
    by (cases r1; cases r2) (auto simp: dt_then_def split: if_splits)
qed simp

lemma created_not_durable:
  assumes mk: "mk = Abs \<or> mk = Rel" and run: "create_dir_all mk (x # xs) d = (r, d')"
    and new: "dt_nodes d (resolve d (mk (x # xs))) = None" "dt_nodes d' (resolve d (mk (x # xs))) \<noteq> None"
  shows "r = Inr () \<and> \<not> dt_durable d' (resolve d (mk (x # xs)))"
proof -
  let ?p = "mk (x # xs)"
  let ?mk = "\<lambda>d. allow_dir ?p (mkdir ?p d)"
  obtain r1 d1 where c1: "?mk d = (r1, d1)" by force
  have cwd1: "dt_cwd d1 = dt_cwd d" by (rule allowed_frame(2) [OF c1, of "[] # resolve d ?p"]) simp
  note a1 = allowed_not_durable [OF c1 new(1)]
  show ?thesis
  proof (cases "dt_nodes d1 (resolve d ?p) = None")
    case False
    then show ?thesis using a1 run c1 by auto
  next
    case True
    obtain r2 d2 where c2: "create_dir_all mk xs d1 = (r2, d2)" by force
    have res: "resolve d1 q = resolve d q" for q using cwd1 by (rule resolve_cwd)
    have f2: "dt_nodes d2 (resolve d ?p) = None" "dt_cwd d2 = dt_cwd d"
      using create_dir_all_deeper [OF mk c2, of "resolve d ?p"] True cwd1 by (simp_all add: res resolve_Cons [OF mk])
    have res2: "resolve d2 ?p = resolve d ?p" using f2(2) by (rule resolve_cwd)
    obtain r3 d3 where c3: "?mk d2 = (r3, d3)" by force
    note a3 = allowed_not_durable [OF c3, unfolded res2, OF f2(1)]
    have "r1 \<noteq> Inr ()" using True c1 run new(2) by auto
    then show ?thesis using run c1 c2 c3 a3 new(2) f2(1) True
      by (cases r1; cases r2) (auto simp: dt_then_def split: if_splits)
  qed
qed

lemma fsync_dir_only:
  assumes "fsync_dir p d = (r, d')" and "r \<noteq> Inr () \<or> tl y \<noteq> resolve d p"
  shows "dt_durable d' y = dt_durable d y"
proof -
  obtain r1 d1 where c1: "dt_call d = (r1, d1)" by force
  obtain r2 d2 where c2: "dt_call d1 = (r2, d2)" by force
  note f = dt_call_frame [OF c1] dt_call_frame [OF c2]
  have "resolve d2 p = resolve d p" by (rule resolve_cwd) (simp add: f)
  then show ?thesis using assms c1 c2 f by (auto simp: fsync_dir_def dt_then_def split: sum.splits if_splits)
qed

lemma sync_parents_only:
  assumes "sync_parents ps d = (r, d')" and "\<forall>q \<in> set ps. \<exists>up. path_parent q = Some up \<and> tl y \<noteq> resolve d up"
  shows "dt_durable d' y = dt_durable d y"
  using assms
proof (induction ps arbitrary: d)
  case (Cons q ps)
  then obtain up where up: "path_parent q = Some up" "tl y \<noteq> resolve d up" by auto
  have head: "sync_parents (q # ps) d = dt_then (fsync_dir up d) (sync_parents ps)" using up(1) by simp
  obtain r1 d1 where c1: "fsync_dir up d = (r1, d1)" by force
  have y1: "dt_durable d1 y = dt_durable d y" using fsync_dir_only [OF c1] up(2) by blast
  have "resolve d1 x = resolve d x" for x using fsync_dir_spec(2) [OF c1] by (rule resolve_cwd)
  then have tail: "dt_durable d' y = dt_durable d1 y" if "sync_parents ps d1 = (r, d')"
    using Cons.IH [OF that] Cons.prems(2) by simp
  show ?case using Cons.prems(1) head c1 y1 tail by (cases r1) (auto simp: dt_then_def)
qed simp

lemma sync_parents_append: "sync_parents (ps @ qs) d = dt_then (sync_parents ps d) (sync_parents qs)"
  by (induction ps arbitrary: d) (auto simp: dt_then_def split: prod.splits sum.splits)

lemma missing_shorter:
  assumes "mk = Abs \<or> mk = Rel" and "q \<in> set (missing_dirs mk xs d)"
  shows "length (resolve d q) \<le> length (resolve d (mk xs))"
  using assms(2) by (induction xs) (auto simp: resolve_Cons [OF assms(1)] split: if_splits)

lemma synced_frame:
  assumes "mk = Abs \<or> mk = Rel" and "tree_ok d" and "create_dir_all mk xs d = (r1, d1)"
    and "dt_then (create_dir_all mk xs d) (sync_parents ps) = (r, d')"
  shows "dt_nodes d' = dt_nodes d1" and "dt_cwd d' = dt_cwd d"
proof -
  have "dt_cwd d1 = dt_cwd d" using create_dir_all_grows(1) [OF assms(2) _ assms(3)] assms(1) by (auto simp: tree_grows_def)
  then have "dt_nodes d' = dt_nodes d1 \<and> dt_cwd d' = dt_cwd d"
    using assms(3,4) by (cases r1) (auto simp: dt_then_def dest!: sync_parents_spec)
  then show "dt_nodes d' = dt_nodes d1" "dt_cwd d' = dt_cwd d" by simp_all
qed

lemma create_existing:
  assumes "path_is_dir p d" and "dt_outcomes d = []"
  shows "create_dir_all_durably p d = (Inr (), d)"
proof -
  have "mkdir p d = (Inl AlreadyExists, d)"
    using assms by (simp add: mkdir_def dt_call_def dt_then_def path_is_dir_def Let_def)
  then have "allow_dir p (mkdir p d) = (Inr (), d)" using assms(1) by (simp add: allow_dir_def)
  moreover have "path_exists p d" using assms(1) by (simp add: path_is_dir_def path_exists_def)
  ultimately have "dt_then (create_dir_all mk xs d) (sync_parents (rev (missing_dirs mk xs d))) = (Inr (), d)" if "p = mk xs" for mk xs
    using that by (cases xs) (simp_all add: dt_then_def)
  then show ?thesis by (cases p) (simp_all add: create_dir_all_durably_def)
qed

lemma failed_sync_not_durable:
  assumes mk: "mk = Abs \<or> mk = Rel" and ok: "tree_ok d" and new: "dt_nodes d (resolve d (mk (x # xs))) = None"
    and run: "dt_then (create_dir_all mk (x # xs) d) (sync_parents (rev (missing_dirs mk (x # xs) d))) = (Inl e, d')"
    and there: "dt_nodes d' (resolve d (mk (x # xs))) \<noteq> None"
  shows "\<not> dt_durable d' (resolve d (mk (x # xs)))"
proof -
  let ?p = "mk (x # xs)" and ?rest = "missing_dirs mk xs d"
  obtain r1 d1 where c1: "create_dir_all mk (x # xs) d = (r1, d1)" by force
  have g1: "tree_grows d d1" using create_dir_all_grows(1) [OF ok _ c1] mk by auto
  then have ok1: "tree_ok d1" and cwd: "dt_cwd d1 = dt_cwd d" by (simp_all add: tree_grows_def)
  have res: "resolve d1 q = resolve d q" for q using cwd by (rule resolve_cwd)
  have miss: "rev (missing_dirs mk (x # xs) d) = rev ?rest @ [?p]" using new by (simp add: path_exists_def)
  note same = synced_frame [OF mk ok c1 run]
  have made: "r1 = Inr ()" "\<not> dt_durable d1 (resolve d ?p)"
    using created_not_durable [OF mk c1 new] there same(1) by simp_all
  obtain up where up: "path_parent ?p = Some up" "resolve d up = tl (resolve d ?p)" using mk by auto
  obtain r2 d2 where c2: "sync_parents (rev ?rest) d1 = (r2, d2)" by force
  have "\<forall>q \<in> set (rev ?rest). \<exists>up. path_parent q = Some up \<and> tl (resolve d ?p) \<noteq> resolve d1 up"
  proof
    fix q assume "q \<in> set (rev ?rest)"
    then have q: "q \<in> set ?rest" by simp
    have "dt_nodes d1 (resolve d (mk xs)) \<noteq> None"
      using ok1 there same(1) by (auto simp: resolve_Cons [OF mk] tree_ok_def)
    then obtain up' where u: "path_parent q = Some up'" using missing_exist [OF mk ok ok1 _ q] by auto
    have "length (resolve d up') < length (resolve d (mk xs))"
      using missing_shorter [OF mk q] resolve_parent [OF u, of d] by (cases "resolve d q") auto
    then have "tl (resolve d ?p) \<noteq> resolve d up'" by (auto simp: resolve_Cons [OF mk])
    with u show "\<exists>up. path_parent q = Some up \<and> tl (resolve d ?p) \<noteq> resolve d1 up" by (simp add: res)
  qed
  from sync_parents_only [OF c2 this] have d2: "\<not> dt_durable d2 (resolve d ?p)" using made(2) by simp
  obtain r3 d3 where c3: "fsync_dir up d2 = (r3, d3)" by force
  have last: "sync_parents [?p] d2 = (r3, d3)" using up(1) c3 by (cases r3) (auto simp: dt_then_def)
  have tail: "(if r2 = Inr () then (r3, d3) else (r2, d2)) = (Inl e, d')"
    using run c2 last unfolding c1 made(1) miss sync_parents_append by (cases r2) (auto simp: dt_then_def simp del: sync_parents.simps)
  show ?thesis using tail d2 fsync_dir_only [OF c3, of "resolve d ?p"] by (auto split: if_splits)
qed

text \<open>
  C29: a retry does not repair a failed call. Whenever the call fails although the directory, which was missing, has been
  created (so the sync of some parent failed), a second call finds nothing missing, syncs nothing and returns \<^verbatim>\<open>Ok\<close>, even if
  no call fails any more; and a power failure after it loses the directory.
\<close>

theorem retried_create_not_durable:
  assumes "tree_ok d" and "\<not> path_exists p d" and "create_dir_all_durably p d = (Inl e, d1)" and "path_is_dir p d1"
  shows "\<exists>d2. create_dir_all_durably p (d1\<lparr>dt_outcomes := []\<rparr>) = (Inr (), d2)
    \<and> dt_nodes (power_cut d2) (resolve d p) = None"
proof -
  have lost: "\<exists>d2. create_dir_all_durably (mk (x # xs)) (d1\<lparr>dt_outcomes := []\<rparr>) = (Inr (), d2)
      \<and> dt_nodes (power_cut d2) (resolve d (mk (x # xs))) = None"
    if mk: "mk = Abs \<or> mk = Rel" and p: "p = mk (x # xs)" for mk x xs
  proof -
    have run: "dt_then (create_dir_all mk (x # xs) d) (sync_parents (rev (missing_dirs mk (x # xs) d))) = (Inl e, d1)"
      using assms(3) mk unfolding p create_dir_all_durably_def by (elim disjE) (simp_all only: path.case Let_def)
    have "dt_cwd d1 = dt_cwd d" by (rule synced_frame(2) [OF mk assms(1) surjective_pairing run])
    then have res: "resolve (d1\<lparr>dt_outcomes := outs\<rparr>) q = resolve d q" for outs q by (intro resolve_cwd) simp
    have dir: "dt_nodes d1 (resolve d p) = Some DirNode" using assms(4) res [of "dt_outcomes d1"] by (simp add: path_is_dir_def)
    have "\<not> dt_durable d1 (resolve d p)"
      using failed_sync_not_durable [OF mk assms(1) _ run] assms(2) dir p by (simp add: path_exists_def)
    moreover have "create_dir_all_durably p (d1\<lparr>dt_outcomes := []\<rparr>) = (Inr (), d1\<lparr>dt_outcomes := []\<rparr>)"
      by (rule create_existing) (use dir res in \<open>simp_all add: path_is_dir_def\<close>)
    ultimately show ?thesis using mk p by (auto simp: power_cut_def)
  qed
  show ?thesis
  proof (cases p)
    case (Abs xs)
    then show ?thesis using lost [of Abs] assms(1,2) by (cases xs) (auto simp: path_exists_def tree_ok_def)
  next
    case (Rel xs)
    then show ?thesis using lost [of Rel] assms(1,2) by (cases xs) (auto simp: path_exists_def tree_ok_def)
  qed
qed

theorem retried_create_not_durable_witness:
  "\<exists>d1 d2. create_dir_all_durably (Rel [''db'']) (srv_tree [IoOk, IoOk, IoErr Other 0]) = (Inl Other, d1)
     \<and> create_dir_all_durably (Rel [''db'']) (d1\<lparr>dt_outcomes := []\<rparr>) = (Inr (), d2)
     \<and> dt_nodes (power_cut d2) [''db'', ''srv''] = None"
proof -
  let ?d = "srv_tree [IoOk, IoOk, IoErr Other 0]" and ?p = "Rel [''db'']"
  define d1 where "d1 = snd (create_dir_all_durably ?p ?d)"
  have run: "create_dir_all_durably ?p ?d = (Inl Other, d1)" and dir: "path_is_dir ?p d1"
    by (simp_all add: d1_def srv_tree_def dir_calls)
  have "\<not> path_exists ?p ?d" by (simp add: srv_tree_def path_exists_def)
  from retried_create_not_durable [OF srv_tree_ok this run dir] run show ?thesis by (auto simp: srv_tree_def)
qed

end
