(* ===== verification/Rcu_Arc.thy ===== *)
theory Rcu_Arc
  imports Rcu "HOL-Library.Multiset"
begin

text \<open>
  The snapshot-swap cell with its reference counts (\<^verbatim>\<open>src/rcu.rs\<close>). \<open>Rcu\<close> treats loaded values as values; here the
  cell holds a pointer into a heap of counted values, a load takes a share, a store moves one in and hands one out, and a value is
  freed with its last share. Touching a freed value is the outcome \<open>None\<close>. Shown: no share is lost or freed
  twice, a reader's snapshot never changes under it, and a replaced value goes away with its last reader.
\<close>

subsection \<open>Counted values\<close>

record 'a rcu_heap =
  rs_heap :: "nat \<rightharpoonup> 'a \<times> nat"
  rs_cell :: nat

definition arc_new :: "nat \<Rightarrow> 'a \<Rightarrow> 'a rcu_heap \<Rightarrow> 'a rcu_heap" where
  "arc_new a x s = s\<lparr>rs_heap := (rs_heap s)(a \<mapsto> (x, 1))\<rparr>"

definition arc_clone :: "nat \<Rightarrow> 'a rcu_heap \<Rightarrow> 'a rcu_heap option" where
  "arc_clone p s =
     (case rs_heap s p of None \<Rightarrow> None | Some (v, n) \<Rightarrow> Some (s\<lparr>rs_heap := (rs_heap s)(p \<mapsto> (v, n + 1))\<rparr>))"

definition arc_drop :: "nat \<Rightarrow> 'a rcu_heap \<Rightarrow> 'a rcu_heap option" where
  "arc_drop p s =
     (case rs_heap s p of None \<Rightarrow> None
      | Some (v, n) \<Rightarrow> Some (s\<lparr>rs_heap := (rs_heap s)(p := (if n \<le> 1 then None else Some (v, n - 1)))\<rparr>))"

definition arc_get :: "nat \<Rightarrow> 'a rcu_heap \<Rightarrow> 'a option" where
  "arc_get p s = map_option fst (rs_heap s p)"

subsection \<open>The cell\<close>

definition swap_new :: "nat \<Rightarrow> 'a \<Rightarrow> 'a rcu_heap" where
  "swap_new a init = arc_new a init \<lparr>rs_heap = Map.empty, rs_cell = a\<rparr>"

definition swap_load :: "'a rcu_heap \<Rightarrow> (nat \<times> 'a rcu_heap) option" where
  "swap_load s = (case arc_clone (rs_cell s) s of None \<Rightarrow> None | Some s' \<Rightarrow> Some (rs_cell s, s'))"

text \<open>The assignment to the guarded pointer drops the share that the cell had of the old value.\<close>

definition swap_store :: "nat \<Rightarrow> 'a rcu_heap \<Rightarrow> (nat \<times> 'a rcu_heap) option" where
  "swap_store nxt s =
     (let prev = rs_cell s in
      case arc_clone prev s of
        None \<Rightarrow> None
      | Some s \<Rightarrow> (case arc_drop prev s of None \<Rightarrow> None | Some s \<Rightarrow> Some (prev, s\<lparr>rs_cell := nxt\<rparr>)))"

definition live_clones :: "'a rcu_heap \<Rightarrow> nat option" where
  "live_clones s = map_option snd (rs_heap s (rs_cell s))"

subsection \<open>Cells in use\<close>

text \<open>
  The handles that safe code holds, each with the value it was obtained with: readers load, clone and drop; writers
  allocate a value at an unused address and store it.
\<close>

inductive swap_reach :: "'a rcu_heap \<Rightarrow> (nat \<times> 'a) multiset \<Rightarrow> bool" where
  init: "swap_reach (swap_new a x) {#}"
| load: "swap_reach s H \<Longrightarrow> swap_load s = Some (p, s') \<Longrightarrow> arc_get p s = Some v \<Longrightarrow> swap_reach s' (add_mset (p, v) H)"
| alloc: "swap_reach s H \<Longrightarrow> rs_heap s a = None \<Longrightarrow> swap_reach (arc_new a x s) (add_mset (a, x) H)"
| store: "swap_reach s (add_mset (p, v) H) \<Longrightarrow> swap_store p s = Some (q, s') \<Longrightarrow> arc_get q s = Some u
    \<Longrightarrow> swap_reach s' (add_mset (q, u) H)"
| clone: "swap_reach s (add_mset (p, v) H) \<Longrightarrow> arc_clone p s = Some s' \<Longrightarrow> swap_reach s' (add_mset (p, v) (add_mset (p, v) H))"
| drop: "swap_reach s (add_mset (p, v) H) \<Longrightarrow> arc_drop p s = Some s' \<Longrightarrow> swap_reach s' H"

definition strong :: "'a rcu_heap \<Rightarrow> nat \<Rightarrow> nat" where
  "strong s p = (case rs_heap s p of None \<Rightarrow> 0 | Some (v, n) \<Rightarrow> n)"

definition shares :: "'a rcu_heap \<Rightarrow> (nat \<times> 'a) multiset \<Rightarrow> nat \<Rightarrow> nat" where
  "shares s H p = count (image_mset fst H) p + (if p = rs_cell s then 1 else 0)"

text \<open>The count of every value is the number of handles to it, the cell's own included; a value without handles is gone.\<close>

definition swap_inv :: "'a rcu_heap \<Rightarrow> (nat \<times> 'a) multiset \<Rightarrow> bool" where
  "swap_inv s H \<longleftrightarrow> (\<forall>p. strong s p = shares s H p) \<and> (\<forall>p. rs_heap s p \<noteq> None \<longrightarrow> 0 < strong s p)
     \<and> (\<forall>(p, v) \<in># H. arc_get p s = Some v)"

lemma swap_inv_live: "swap_inv s H \<Longrightarrow> rs_heap s p \<noteq> None \<longleftrightarrow> 0 < shares s H p"
  unfolding swap_inv_def strong_def by (metis option.simps(4) less_nat_zero_code)

lemma arc_clone_spec:
  assumes "arc_clone p s = Some s'"
  shows "strong s' q = strong s q + (if q = p then 1 else 0)" and "arc_get q s' = arc_get q s" and "rs_cell s' = rs_cell s"
    and "rs_heap s' q \<noteq> None \<longleftrightarrow> rs_heap s q \<noteq> None"
  using assms by (auto simp: arc_clone_def strong_def arc_get_def split: option.splits if_splits)

lemma arc_drop_spec:
  assumes "arc_drop p s = Some s'" and "0 < strong s p"
  shows "strong s' q = strong s q - (if q = p then 1 else 0)" and "0 < strong s' q \<Longrightarrow> arc_get q s' = arc_get q s"
    and "rs_cell s' = rs_cell s" and "rs_heap s' q \<noteq> None \<longleftrightarrow> rs_heap s q \<noteq> None \<and> (q = p \<longrightarrow> 1 < strong s q)"
  using assms by (auto simp: arc_drop_def strong_def arc_get_def split: option.splits if_splits)

text \<open>
  A store is a move: the cell's share of the old value becomes the handle it returns, and the
  handle given becomes the cell's share.
\<close>

lemma swap_store_spec:
  assumes "swap_store p s = Some (q, s')" and "0 < strong s (rs_cell s)"
  shows "q = rs_cell s" and "s' = s\<lparr>rs_cell := p\<rparr>"
proof -
  obtain v n where c: "rs_heap s (rs_cell s) = Some (v, n)" "0 < n"
    using assms(2) by (auto simp: strong_def split: option.splits)
  then show "q = rs_cell s" using assms(1) by (auto simp: swap_store_def Let_def split: option.splits)
  have "(rs_heap s)(rs_cell s \<mapsto> (v, n)) = rs_heap s" using c(1) by (rule fun_upd_idem)
  then show "s' = s\<lparr>rs_cell := p\<rparr>" using assms(1) c by (auto simp: swap_store_def Let_def arc_clone_def arc_drop_def)
qed

lemma arc_clone_inv:
  assumes inv: "swap_inv s H" and c: "arc_clone p s = Some s'" and v: "arc_get p s = Some v"
  shows "swap_inv s' (add_mset (p, v) H)"
  unfolding swap_inv_def
proof (intro conjI allI impI)
  note sp = arc_clone_spec [OF c]
  show "strong s' q = shares s' (add_mset (p, v) H) q" for q
    using inv sp(1) [of q] sp(3) by (simp add: swap_inv_def shares_def)
  show "0 < strong s' q" if "rs_heap s' q \<noteq> None" for q
    using that inv sp(1) [of q] sp(4) [of q] unfolding swap_inv_def by (metis trans_less_add1)
  show "\<forall>(q, u) \<in># add_mset (p, v) H. arc_get q s' = Some u"
    using inv v sp(2) by (auto simp: swap_inv_def)
qed

lemma arc_new_spec:
  "strong (arc_new a x s) q = (if q = a then 1 else strong s q)"
  "arc_get q (arc_new a x s) = (if q = a then Some x else arc_get q s)" "rs_cell (arc_new a x s) = rs_cell s"
  "rs_heap (arc_new a x s) q \<noteq> None \<longleftrightarrow> q = a \<or> rs_heap s q \<noteq> None"
  by (simp_all add: arc_new_def strong_def arc_get_def)

lemma arc_new_inv:
  assumes inv: "swap_inv s H" and free: "rs_heap s a = None"
  shows "swap_inv (arc_new a x s) (add_mset (a, x) H)"
  unfolding swap_inv_def
proof (intro conjI allI impI)
  have "shares s H a = 0" using swap_inv_live [OF inv, of a] free by simp
  then have none: "count (image_mset fst H) a = 0" "a \<noteq> rs_cell s" by (auto simp: shares_def split: if_splits)
  show "strong (arc_new a x s) q = shares (arc_new a x s) (add_mset (a, x) H) q" for q
    using inv none by (simp add: swap_inv_def shares_def arc_new_spec(1,3))
  show "0 < strong (arc_new a x s) q" if "rs_heap (arc_new a x s) q \<noteq> None" for q
    using that inv unfolding arc_new_spec(1,4) by (auto simp: swap_inv_def)
  have "q \<noteq> a" if "(q, u) \<in># H" for q u using that none(1) by (force simp: count_eq_zero_iff)
  then show "\<forall>(q, u) \<in># add_mset (a, x) H. arc_get q (arc_new a x s) = Some u"
    using inv by (auto simp: swap_inv_def arc_new_spec(2))
qed

lemma arc_drop_inv:
  assumes inv: "swap_inv s (add_mset (p, v) H)" and d: "arc_drop p s = Some s'"
  shows "swap_inv s' H"
  unfolding swap_inv_def
proof (intro conjI allI impI)
  have eq: "strong s q = shares s (add_mset (p, v) H) q" for q using inv by (simp add: swap_inv_def)
  then have pos: "0 < strong s p" by (simp add: shares_def)
  note sp = arc_drop_spec [OF d pos]
  show eq': "strong s' q = shares s' H q" for q
    using eq [of q] sp(1) [of q] sp(3) by (simp add: shares_def)
  show "0 < strong s' q" if "rs_heap s' q \<noteq> None" for q
  proof -
    have "0 < strong s q" using that sp(4) [of q] inv unfolding swap_inv_def by blast
    with that show ?thesis using sp(1) [of q] sp(4) [of q] by auto
  qed
  have "arc_get q s' = Some u" if "(q, u) \<in># H" for q u
  proof -
    have "q \<in># image_mset fst H" using that by force
    then have "0 < strong s' q" by (simp add: eq' shares_def count_greater_zero_iff)
    moreover have "arc_get q s = Some u" using that inv by (auto simp: swap_inv_def)
    ultimately show ?thesis using sp(2) by simp
  qed
  then show "\<forall>(q, u) \<in># H. arc_get q s' = Some u" by auto
qed

lemma swap_reach_inv: "swap_reach s H \<Longrightarrow> swap_inv s H"
proof (induction rule: swap_reach.induct)
  case (init a x)
  show ?case by (auto simp: swap_inv_def swap_new_def arc_new_def strong_def shares_def)
next
  case (load s H p s' v)
  then have "p = rs_cell s" "arc_clone p s = Some s'" by (auto simp: swap_load_def split: option.splits)
  with load.IH load.hyps(3) show ?case by (intro arc_clone_inv)
next
  case (alloc s H a x)
  then show ?case by (intro arc_new_inv)
next
  case (store s p v H q s' u)
  have "0 < strong s (rs_cell s)" using store.IH by (simp add: swap_inv_def shares_def)
  note st = swap_store_spec [OF store.hyps(2) this]
  have "strong s' = strong s" "rs_heap s' = rs_heap s" by (simp_all add: st(2) strong_def [abs_def])
  moreover have "shares s' (add_mset (q, u) H) = shares s (add_mset (p, v) H)"
    by (rule ext) (simp add: st shares_def)
  moreover have "arc_get x s' = arc_get x s" for x by (simp add: st(2) arc_get_def)
  ultimately show ?case using store.IH store.hyps(3) unfolding swap_inv_def by auto
next
  case (clone s p v H s')
  from clone.IH have "arc_get p s = Some v" by (simp add: swap_inv_def)
  with clone.IH clone.hyps(2) show ?case by (rule arc_clone_inv)
next
  case (drop s p v H s')
  from drop.IH drop.hyps(2) show ?case by (rule arc_drop_inv)
qed

text \<open>
  C32: the cell counts exactly. However readers and writers interleave: every handle still reads the value it was obtained
  with, every operation on a handle or on the cell is on a live value, the count of the current value is the
  number of its readers plus the cell's own share, and a value is in memory exactly as long as the cell or a handle refers to it.
\<close>

theorem rcu_counts_exact:
  assumes "swap_reach s H"
  shows "(\<forall>(p, v) \<in># H. arc_get p s = Some v)
    \<and> (\<forall>(p, v) \<in># H. arc_clone p s \<noteq> None \<and> arc_drop p s \<noteq> None \<and> swap_store p s \<noteq> None) \<and> swap_load s \<noteq> None
    \<and> live_clones s = Some (count (image_mset fst H) (rs_cell s) + 1)
    \<and> {p. rs_heap s p \<noteq> None} = insert (rs_cell s) (fst ` set_mset H)"
proof -
  have inv: "swap_inv s H" using assms by (rule swap_reach_inv)
  have live: "rs_heap s p \<noteq> None \<longleftrightarrow> p = rs_cell s \<or> p \<in> fst ` set_mset H" for p
    unfolding swap_inv_live [OF inv] by (simp add: shares_def count_greater_zero_iff)
  obtain v n where cell: "rs_heap s (rs_cell s) = Some (v, n)" using live [of "rs_cell s"] by auto
  moreover have "strong s (rs_cell s) = shares s H (rs_cell s)" using inv by (simp add: swap_inv_def)
  ultimately have n: "n = count (image_mset fst H) (rs_cell s) + 1" by (simp add: strong_def shares_def)
  have "arc_clone p s \<noteq> None \<and> arc_drop p s \<noteq> None \<and> swap_store p s \<noteq> None" if "(p, w) \<in># H" for p w
  proof -
    have "rs_heap s p \<noteq> None" using that live [of p] by force
    with cell show ?thesis by (auto simp: arc_clone_def arc_drop_def swap_store_def Let_def)
  qed
  moreover have "swap_load s \<noteq> None" using cell by (simp add: swap_load_def arc_clone_def)
  ultimately show ?thesis using inv live cell n by (auto simp: swap_inv_def live_clones_def)
qed

text \<open>A reader holds the first value while a writer replaces it: the old value lives until the last of its handles is dropped.\<close>

lemma swap_demo: "swap_reach \<lparr>rs_heap = [0 \<mapsto> (CHR ''a'', 2), 1 \<mapsto> (CHR ''b'', 1)], rs_cell = 1\<rparr> {#(0, CHR ''a''), (0, CHR ''a'')#}"
proof -
  have r0: "swap_reach \<lparr>rs_heap = [0 \<mapsto> (CHR ''a'', 1)], rs_cell = 0\<rparr> {#}"
    using swap_reach.init [of 0 "CHR ''a''"] by (simp add: swap_new_def arc_new_def)
  have r1: "swap_reach \<lparr>rs_heap = [0 \<mapsto> (CHR ''a'', 2)], rs_cell = 0\<rparr> {#(0, CHR ''a'')#}"
    by (rule swap_reach.load [OF r0]) (simp_all add: swap_load_def arc_clone_def arc_get_def numeral_2_eq_2)
  have r2: "swap_reach \<lparr>rs_heap = [0 \<mapsto> (CHR ''a'', 2), 1 \<mapsto> (CHR ''b'', 1)], rs_cell = 0\<rparr> {#(1, CHR ''b''), (0, CHR ''a'')#}"
    using swap_reach.alloc [OF r1, of 1 "CHR ''b''"] by (simp add: arc_new_def)
  show ?thesis
    by (rule swap_reach.store [OF r2]) (simp_all add: swap_store_def arc_clone_def arc_drop_def arc_get_def Let_def fun_eq_iff)
qed

theorem rcu_counts_exact_witness:
  "live_clones \<lparr>rs_heap = [0 \<mapsto> (CHR ''a'', 2), 1 \<mapsto> (CHR ''b'', 1)], rs_cell = 1\<rparr> = Some 1
   \<and> {p. rs_heap \<lparr>rs_heap = [0 \<mapsto> (CHR ''a'', 2), 1 \<mapsto> (CHR ''b'', 1)], rs_cell = 1\<rparr> p \<noteq> None} = {1, 0}"
  using rcu_counts_exact [OF swap_demo] by simp

end
