(* ===== verification/Wakers.thy ===== *)
theory Wakers
  imports Rt
begin

text \<open>
  The raw wakers of the scheduler (\<^verbatim>\<open>src/rt.rs\<close>). A waker is a pointer to a box that holds a task id and a share of
  the ready queue, and four functions of a table that the standard library calls on it. The heap is explicit: a call on a
  pointer that owns no box (a use after free, a double free) is the outcome \<open>None\<close>. Shown: under every use that
  safe code can make of wakers the table is memory safe, leaks nothing, and wakes exactly the tasks it should, so a
  waker is the id it re-queues, as \<open>Rt\<close> has it.
\<close>

subsection \<open>The program\<close>

record waker_raw =
  wr_id :: task_id

text \<open>
  The boxes by address, the queue, and the strong count of its shared handle: one for the
  scheduler and one for each box.
\<close>

record wheap =
  wh_boxes :: "nat \<rightharpoonup> waker_raw"
  wh_queue :: "task_id list"
  wh_strong :: nat

text \<open>
  \<^verbatim>\<open>Box::into_raw (Box::new ...)\<close> at the address that the allocator chose, which is unused, and
  \<^verbatim>\<open>Box::from_raw\<close> followed by the drop of the box and of its share of the queue.
\<close>

definition box_new :: "nat \<Rightarrow> task_id \<Rightarrow> wheap \<Rightarrow> wheap option" where
  "box_new a i h =
     (if wh_boxes h a = None
      then Some (h\<lparr>wh_boxes := (wh_boxes h)(a \<mapsto> \<lparr>wr_id = i\<rparr>), wh_strong := wh_strong h + 1\<rparr>)
      else None)"

definition box_free :: "nat \<Rightarrow> wheap \<Rightarrow> wheap" where
  "box_free p h = h\<lparr>wh_boxes := (wh_boxes h)(p := None), wh_strong := wh_strong h - 1\<rparr>"

definition push_task :: "task_id \<Rightarrow> wheap \<Rightarrow> wheap" where
  "push_task i h = h\<lparr>wh_queue := wh_queue h @ [i]\<rparr>"

definition waker_for_task :: "task_id \<Rightarrow> nat \<Rightarrow> wheap \<Rightarrow> wheap option" where
  "waker_for_task i a h = box_new a i h"

definition vt_clone :: "nat \<Rightarrow> nat \<Rightarrow> wheap \<Rightarrow> wheap option" where
  "vt_clone p a h = (case wh_boxes h p of None \<Rightarrow> None | Some r \<Rightarrow> box_new a (wr_id r) h)"

definition vt_wake :: "nat \<Rightarrow> wheap \<Rightarrow> wheap option" where
  "vt_wake p h = (case wh_boxes h p of None \<Rightarrow> None | Some r \<Rightarrow> Some (box_free p (push_task (wr_id r) h)))"

definition vt_wake_by_ref :: "nat \<Rightarrow> wheap \<Rightarrow> wheap option" where
  "vt_wake_by_ref p h = (case wh_boxes h p of None \<Rightarrow> None | Some r \<Rightarrow> Some (push_task (wr_id r) h))"

definition vt_drop :: "nat \<Rightarrow> wheap \<Rightarrow> wheap option" where
  "vt_drop p h = (case wh_boxes h p of None \<Rightarrow> None | Some _ \<Rightarrow> Some (box_free p h))"

subsection \<open>Wakers as safe code uses them\<close>

text \<open>
  Safe code creates a waker, clones one it holds, wakes by reference one it holds, and gives up one it holds by
  waking or dropping it. The abstract state is the wakers that are held, with the task each is for, and the queue;
  \<open>None\<close> is a use that safe code cannot make. The new address of a creation or clone is any unused one.
\<close>

datatype waker_use = New task_id nat | Clone nat nat | WakeVal nat | WakeRef nat | DropVal nat

type_synonym held = "(nat \<rightharpoonup> task_id) \<times> task_id list"

fun held_use :: "waker_use \<Rightarrow> held \<Rightarrow> held option" where
  "held_use (New i a) (m, q) = (if m a = None then Some (m(a \<mapsto> i), q) else None)"
| "held_use (Clone p a) (m, q) =
     (case m p of None \<Rightarrow> None | Some i \<Rightarrow> if m a = None then Some (m(a \<mapsto> i), q) else None)"
| "held_use (WakeVal p) (m, q) = (case m p of None \<Rightarrow> None | Some i \<Rightarrow> Some (m(p := None), q @ [i]))"
| "held_use (WakeRef p) (m, q) = (case m p of None \<Rightarrow> None | Some i \<Rightarrow> Some (m, q @ [i]))"
| "held_use (DropVal p) (m, q) = (case m p of None \<Rightarrow> None | Some i \<Rightarrow> Some (m(p := None), q))"

fun vt_use :: "waker_use \<Rightarrow> wheap \<Rightarrow> wheap option" where
  "vt_use (New i a) h = waker_for_task i a h"
| "vt_use (Clone p a) h = vt_clone p a h"
| "vt_use (WakeVal p) h = vt_wake p h"
| "vt_use (WakeRef p) h = vt_wake_by_ref p h"
| "vt_use (DropVal p) h = vt_drop p h"

primrec run_uses :: "(waker_use \<Rightarrow> 's \<Rightarrow> 's option) \<Rightarrow> waker_use list \<Rightarrow> 's \<Rightarrow> 's option" where
  "run_uses f [] s = Some s"
| "run_uses f (u # us) s = (case f u s of None \<Rightarrow> None | Some s \<Rightarrow> run_uses f us s)"

text \<open>The tasks that a sequence of uses wakes, in order.\<close>

primrec woken :: "(nat \<rightharpoonup> task_id) \<Rightarrow> waker_use list \<Rightarrow> task_id list" where
  "woken m [] = []"
| "woken m (u # us) =
     (case held_use u (m, []) of None \<Rightarrow> [] | Some (m', q) \<Rightarrow> q @ woken m' us)"

subsection \<open>The contract of a waker table\<close>

text \<open>
  What \<^verbatim>\<open>std::task::RawWakerVTable\<close> asks of the four functions: \<open>clone\<close> makes data of its own, \<open>wake\<close> and \<open>drop\<close> release the
  data, \<open>wake_by_ref\<close> does not. Under it every sequence of safe uses goes through.
\<close>

locale waker_table =
  fixes owns :: "'h \<Rightarrow> nat \<rightharpoonup> task_id" and queue :: "'h \<Rightarrow> task_id list" and inv :: "'h \<Rightarrow> bool"
    and use_fn :: "waker_use \<Rightarrow> 'h \<Rightarrow> 'h option"
  assumes use_ok: "inv h \<Longrightarrow> held_use u (owns h, queue h) = Some (m, q) \<Longrightarrow>
      \<exists>h'. use_fn u h = Some h' \<and> inv h' \<and> owns h' = m \<and> queue h' = q"
begin

lemma uses_ok:
  "inv h \<Longrightarrow> run_uses held_use us (owns h, queue h) = Some (m, q) \<Longrightarrow>
    \<exists>h'. run_uses use_fn us h = Some h' \<and> inv h' \<and> owns h' = m \<and> queue h' = q"
proof (induction us arbitrary: h)
  case (Cons u us)
  obtain m1 q1 where u: "held_use u (owns h, queue h) = Some (m1, q1)" and rest: "run_uses held_use us (m1, q1) = Some (m, q)"
    using Cons.prems(2) by (auto split: option.splits)
  obtain h1 where "use_fn u h = Some h1" "inv h1" "owns h1 = m1" "queue h1 = q1"
    using use_ok [OF Cons.prems(1) u] by blast
  with Cons.IH [of h1] rest show ?case by simp
qed simp

end

text \<open>The invariant of the heap: every box, and nothing else, holds a share of the queue.\<close>

definition wheap_inv :: "wheap \<Rightarrow> bool" where
  "wheap_inv h \<longleftrightarrow> finite (dom (wh_boxes h)) \<and> wh_strong h = card (dom (wh_boxes h)) + 1"

definition wh_owns :: "wheap \<Rightarrow> nat \<rightharpoonup> task_id" where
  "wh_owns h p = map_option wr_id (wh_boxes h p)"

lemma wh_owns_eq: "wh_owns h p = Some i \<longleftrightarrow> wh_boxes h p = Some \<lparr>wr_id = i\<rparr>" "wh_owns h p = None \<longleftrightarrow> wh_boxes h p = None"
  by (auto simp: wh_owns_def)

lemma box_new_ok:
  assumes "wheap_inv h" and "wh_owns h a = None"
  obtains h' where "box_new a i h = Some h'" and "wheap_inv h'" and "wh_owns h' = (wh_owns h)(a \<mapsto> i)"
    and "wh_queue h' = wh_queue h"
proof -
  have "a \<notin> dom (wh_boxes h)" using assms(2) by (simp add: wh_owns_eq domIff)
  with assms that show thesis
    by (simp add: box_new_def wh_owns_eq wheap_inv_def wh_owns_def fun_eq_iff)
qed

lemma box_free_ok:
  assumes "wheap_inv h" and "wh_owns h p = Some i"
  shows "wheap_inv (box_free p h)" and "wh_owns (box_free p h) = (wh_owns h)(p := None)"
    and "wh_queue (box_free p h) = wh_queue h"
proof -
  have "p \<in> dom (wh_boxes h)" using assms(2) by (auto simp: wh_owns_eq)
  with assms(1) have "card (dom (wh_boxes h)) = Suc (card (dom (wh_boxes h) - {p}))"
    unfolding wheap_inv_def by (metis card_Suc_Diff1)
  with assms(1) show "wheap_inv (box_free p h)" by (simp add: wheap_inv_def box_free_def)
qed (simp_all add: box_free_def wh_owns_def fun_eq_iff)

lemma push_task_simps [simp]:
  "wheap_inv (push_task i h) = wheap_inv h" "wh_owns (push_task i h) = wh_owns h"
  "wh_queue (push_task i h) = wh_queue h @ [i]"
  by (simp_all add: push_task_def wheap_inv_def wh_owns_def fun_eq_iff)

interpretation rw: waker_table wh_owns wh_queue wheap_inv vt_use
proof
  fix h u m q
  assume inv: "wheap_inv h" and use: "held_use u (wh_owns h, wh_queue h) = Some (m, q)"
  show "\<exists>h'. vt_use u h = Some h' \<and> wheap_inv h' \<and> wh_owns h' = m \<and> wh_queue h' = q"
  proof (cases u)
    case (New i a)
    with use have free: "wh_owns h a = None" by (auto split: if_splits)
    obtain h' where "box_new a i h = Some h'" "wheap_inv h'" "wh_owns h' = (wh_owns h)(a \<mapsto> i)" "wh_queue h' = wh_queue h"
      using box_new_ok [OF inv free] by blast
    with New use free show ?thesis by (simp add: waker_for_task_def)
  next
    case (Clone p a)
    with use obtain i where i: "wh_owns h p = Some i" and free: "wh_owns h a = None"
      by (auto split: if_splits option.splits)
    obtain h' where "box_new a i h = Some h'" "wheap_inv h'" "wh_owns h' = (wh_owns h)(a \<mapsto> i)" "wh_queue h' = wh_queue h"
      using box_new_ok [OF inv free] by blast
    with Clone use i free show ?thesis by (simp add: vt_clone_def wh_owns_eq)
  next
    case (WakeVal p)
    with use obtain i where i: "wh_owns h p = Some i" by (auto split: option.splits)
    with use WakeVal have "m = (wh_owns h)(p := None)" "q = wh_queue h @ [i]" by auto
    with box_free_ok [of "push_task i h" p i] i inv WakeVal show ?thesis
      by (simp add: vt_wake_def wh_owns_eq)
  next
    case (WakeRef p)
    with use inv show ?thesis by (auto simp: vt_wake_by_ref_def wh_owns_eq split: option.splits)
  next
    case (DropVal p)
    with use obtain i where i: "wh_owns h p = Some i" by (auto split: option.splits)
    with use DropVal have "m = (wh_owns h)(p := None)" "q = wh_queue h" by auto
    with box_free_ok [OF inv i] i DropVal show ?thesis by (simp add: vt_drop_def wh_owns_eq)
  qed
qed

subsection \<open>Ownership of wakers\<close>

lemma held_use_queue:
  "held_use u (m, q) = map_option (\<lambda>(m', q'). (m', q @ q')) (held_use u (m, []))"
  by (cases u) (auto split: option.splits)

lemma woken_queue:
  "run_uses held_use us (m, q) = Some (m', q') \<Longrightarrow> q' = q @ woken m us"
proof (induction us arbitrary: m q)
  case (Cons u us)
  from Cons.prems obtain m1 q1 where "held_use u (m, []) = Some (m1, q1)" "run_uses held_use us (m1, q @ q1) = Some (m', q')"
    using held_use_queue [of u m q] by (auto split: option.splits)
  with Cons.IH show ?case by fastforce
qed simp

lemma fold_rt_wake: "sc_queue (fold rt_wake ids s) = sc_queue s @ ids"
  by (induction ids arbitrary: s) (simp_all add: rt_wake_def)

definition wheap_new :: "task_id list \<Rightarrow> wheap" where
  "wheap_new q = \<lparr>wh_boxes = Map.empty, wh_queue = q, wh_strong = 1\<rparr>"

text \<open>
  C35: wakers are memory safe and are the ids they re-queue. Starting from a scheduler with no wakers, every
  sequence of creations, clones, wakes and drops that safe code can make runs in the raw table without a use after free or a double
  free; a box exists for exactly the wakers still held, and the strong count of the queue is theirs plus the
  scheduler's, so nothing leaks once all are given up; and the ready queue is that of the scheduler after waking the
  same tasks in the same order.
\<close>

theorem wakers_safe:
  assumes "run_uses held_use us (Map.empty, sc_queue s) = Some (m, q)"
  shows "\<exists>h. run_uses vt_use us (wheap_new (sc_queue s)) = Some h \<and> wh_owns h = m
    \<and> finite (dom m) \<and> wh_strong h = card (dom m) + 1
    \<and> wh_queue h = sc_queue (fold rt_wake (woken Map.empty us) s)"
proof -
  let ?h = "wheap_new (sc_queue s)"
  have start: "wheap_inv ?h" "wh_owns ?h = Map.empty" "wh_queue ?h = sc_queue s"
    by (simp_all add: wheap_new_def wheap_inv_def wh_owns_def fun_eq_iff)
  obtain h where h: "run_uses vt_use us ?h = Some h" "wheap_inv h" "wh_owns h = m" "wh_queue h = q"
    using rw.uses_ok [OF start(1), of us m q] assms start by auto
  have "dom (wh_boxes h) = dom m" by (auto simp: wh_owns_def simp flip: h(3))
  with h woken_queue [OF assms] show ?thesis
    by (auto simp: wheap_inv_def fold_rt_wake)
qed

theorem wakers_safe_witness:
  "\<exists>h. run_uses vt_use [New \<lparr>t_slot = 4, t_generation = 1\<rparr> 10, Clone 10 11, WakeVal 10, Clone 11 10, WakeRef 10, DropVal 11, DropVal 10]
      (wheap_new []) = Some h
    \<and> wh_strong h = 1
    \<and> wh_queue h = [\<lparr>t_slot = 4, t_generation = 1\<rparr>, \<lparr>t_slot = 4, t_generation = 1\<rparr>]"
proof -
  let ?t = "\<lparr>t_slot = 4, t_generation = 1\<rparr>"
  let ?us = "[New ?t 10, Clone 10 11, WakeVal 10, Clone 11 10, WakeRef 10, DropVal 11, DropVal 10]"
  have run: "run_uses held_use ?us (Map.empty, sc_queue sc_new) = Some (Map.empty, [?t, ?t])"
    by (simp add: sc_new_def fun_eq_iff)
  have "woken Map.empty ?us = [?t, ?t]" by simp
  with wakers_safe [OF run] show ?thesis 
    by (auto simp: rt_wake_def sc_new_def simp del: vt_use.simps)
qed

end
