(* ===== verification/Reactor.thy ===== *)
theory Reactor
  imports Ks_Prelude
begin

text \<open>
  The event-loop reactor (\<^verbatim>\<open>src/asyncio.rs\<close>). The platform poller is the crate \<^verbatim>\<open>mio\<close>; together with the
  clock and the two ends of the socket pair it is a parameter, the record \<open>platform\<close>: each call
  reads and changes a state of the outside world of any type. What is documented of the clock and the poller is the hypothesis \<open>clock_ok\<close>.
\<close>

record event =
  ev_token :: nat
  ev_readable :: bool

text \<open>
  Times are in nanoseconds. \<open>pf_open\<close> makes the poller; \<open>pf_poll\<close> returns its result and what it leaves in the event
  buffer, waiting at most the given time if there is one; \<open>pf_write\<close> is \<^verbatim>\<open>write_all\<close> on the peer; \<open>pf_read\<close> is one non-blocking read and returns its byte count.
\<close>

record 'w platform =
  pf_now :: "'w \<Rightarrow> nat \<times> 'w"
  pf_open :: "'w \<Rightarrow> unit io_result \<times> 'w"
  pf_poll :: "nat option \<Rightarrow> 'w \<Rightarrow> unit io_result \<times> event list \<times> 'w"
  pf_set_nonblocking :: "nat \<Rightarrow> 'w \<Rightarrow> unit io_result \<times> 'w"
  pf_register :: "nat \<Rightarrow> nat \<Rightarrow> 'w \<Rightarrow> unit io_result \<times> 'w"
  pf_deregister :: "nat \<Rightarrow> 'w \<Rightarrow> unit io_result \<times> 'w"
  pf_write :: "bytes \<Rightarrow> 'w \<Rightarrow> unit io_result \<times> 'w"
  pf_read :: "nat \<Rightarrow> 'w \<Rightarrow> nat io_result \<times> 'w"

record reactor =
  re_events :: "event list"
  re_next :: nat

definition DURATION_MAX :: nat where "DURATION_MAX = (2 ^ 64 - 1) * 1000000000 + 999999999"

text \<open>\<^verbatim>\<open>Instant::checked_add\<close>; the last instant the platform can represent is an argument.\<close>

definition checked_add :: "nat \<Rightarrow> nat \<Rightarrow> nat \<Rightarrow> nat option" where
  "checked_add latest now timeout = (if now + timeout \<le> latest then Some (now + timeout) else None)"

subsection \<open>Registration\<close>

definition reactor_new :: "'w platform \<Rightarrow> 'w \<Rightarrow> reactor io_result \<times> 'w" where
  "reactor_new pf w =
     (case pf_open pf w of
        (Inl e, w) \<Rightarrow> (Inl e, w)
      | (Inr _, w) \<Rightarrow> (Inr \<lparr>re_events = [], re_next = 1\<rparr>, w))"

text \<open>The token counter advances as soon as the stream is non-blocking, even if the registration then fails.\<close>

definition register_readable :: "'w platform \<Rightarrow> nat \<Rightarrow> reactor \<Rightarrow> 'w \<Rightarrow> nat io_result \<times> reactor \<times> 'w" where
  "register_readable pf fd r w =
     (case pf_set_nonblocking pf fd w of
        (Inl e, w) \<Rightarrow> (Inl e, r, w)
      | (Inr _, w) \<Rightarrow>
          let token = re_next r; r = r\<lparr>re_next := re_next r + 1\<rparr> in
          (case pf_register pf fd token w of
             (Inl e, w) \<Rightarrow> (Inl e, r, w)
           | (Inr _, w) \<Rightarrow> (Inr token, r, w)))"

definition deregister :: "'w platform \<Rightarrow> nat \<Rightarrow> reactor \<Rightarrow> 'w \<Rightarrow> unit io_result \<times> reactor \<times> 'w" where
  "deregister pf fd r w = (case pf_deregister pf fd w of (res, w) \<Rightarrow> (res, r, w))"

subsection \<open>Waiting\<close>

text \<open>The test at the head of the loop: \<open>None\<close> once the deadline has passed, else the time to wait.\<close>

definition next_wait :: "'w platform \<Rightarrow> nat option \<Rightarrow> 'w \<Rightarrow> nat option option \<times> 'w" where
  "next_wait pf deadline w =
     (case deadline of
        Some dl \<Rightarrow>
          (case pf_now pf w of (now, w) \<Rightarrow> (if now \<ge> dl then None else Some (Some (dl - now)), w))
      | None \<Rightarrow> (Some None, w))"

definition is_ready :: "nat \<Rightarrow> event list \<Rightarrow> bool" where
  "is_ready token evs \<longleftrightarrow> list_ex (\<lambda>ev. ev_token ev = token \<and> ev_readable ev) evs"

partial_function (option) wait_loop ::
  "'w platform \<Rightarrow> nat \<Rightarrow> nat option \<Rightarrow> reactor \<Rightarrow> 'w \<Rightarrow> (bool io_result \<times> reactor \<times> 'w) option" where
  "wait_loop pf token deadline r w =
     (case next_wait pf deadline w of
        (None, w) \<Rightarrow> Some (Inr False, r, w)
      | (Some wait, w) \<Rightarrow>
          (case pf_poll pf wait w of (polled, evs, w) \<Rightarrow>
           let r = r\<lparr>re_events := evs\<rparr> in
           case polled of
             Inl e \<Rightarrow> if e = Interrupted then wait_loop pf token deadline r w else Some (Inl e, r, w)
           | Inr _ \<Rightarrow> if is_ready token evs then Some (Inr True, r, w) else wait_loop pf token deadline r w))"

definition wait_readable ::
  "'w platform \<Rightarrow> nat \<Rightarrow> nat \<Rightarrow> nat \<Rightarrow> reactor \<Rightarrow> 'w \<Rightarrow> (bool io_result \<times> reactor \<times> 'w) option" where
  "wait_readable pf latest token timeout r w =
     (case pf_now pf w of (now, w) \<Rightarrow> wait_loop pf token (checked_add latest now timeout) r w)"

subsection \<open>The round trip\<close>

definition remaining_time :: "'w platform \<Rightarrow> nat option \<Rightarrow> 'w \<Rightarrow> nat \<times> 'w" where
  "remaining_time pf deadline w =
     (case deadline of
        Some dl \<Rightarrow> (case pf_now pf w of (now, w) \<Rightarrow> (dl - now, w))
      | None \<Rightarrow> (DURATION_MAX, w))"

partial_function (option) trip_loop ::
  "'w platform \<Rightarrow> nat \<Rightarrow> nat \<Rightarrow> nat option \<Rightarrow> reactor \<Rightarrow> 'w \<Rightarrow> (nat io_result \<times> reactor \<times> 'w) option" where
  "trip_loop pf latest token deadline r w =
     (case remaining_time pf deadline w of (remaining, w) \<Rightarrow>
      if remaining = 0 then Some (Inl TimedOut, r, w)
      else Option.bind (wait_readable pf latest token remaining r w) (\<lambda>(res, r, w).
        case res of
          Inl e \<Rightarrow> Some (Inl e, r, w)
        | Inr ready \<Rightarrow>
            if \<not> ready then Some (Inl TimedOut, r, w)
            else (case pf_read pf 4096 w of
                    (Inr n, w) \<Rightarrow> if n = 0 then Some (Inl UnexpectedEof, r, w) else Some (Inr n, r, w)
                  | (Inl e, w) \<Rightarrow>
                      if e \<in> {WouldBlock, Interrupted} then trip_loop pf latest token deadline r w
                      else Some (Inl e, r, w))))"

definition round_trip ::
  "'w platform \<Rightarrow> nat \<Rightarrow> nat \<Rightarrow> bytes \<Rightarrow> nat \<Rightarrow> reactor \<Rightarrow> 'w \<Rightarrow> (nat io_result \<times> reactor \<times> 'w) option" where
  "round_trip pf latest token payload timeout r w =
     (case pf_now pf w of (now, w) \<Rightarrow>
      let deadline = checked_add latest now timeout in
      case pf_write pf payload w of
        (Inl e, w) \<Rightarrow> Some (Inl e, r, w)
      | (Inr _, w) \<Rightarrow> trip_loop pf latest token deadline r w)"

subsection \<open>Deadlines\<close>

text \<open>
  What the documentation promises of the clock and the poller. An \<^verbatim>\<open>Instant\<close> is never earlier than one measured before it, and
  \<^verbatim>\<open>Poll::poll\<close> blocks until an event is received or the timeout has elapsed. \<open>clock w\<close> is the latest instant that has passed in the world \<open>w\<close>.
\<close>

definition clock_ok :: "'w platform \<Rightarrow> ('w \<Rightarrow> nat) \<Rightarrow> bool" where
  "clock_ok pf clock \<longleftrightarrow>
     (\<forall>w t w'. pf_now pf w = (t, w') \<longrightarrow> t = clock w' \<and> clock w \<le> clock w')
   \<and> (\<forall>tm w res evs w'. pf_poll pf tm w = (res, evs, w') \<longrightarrow> clock w \<le> clock w')
   \<and> (\<forall>tm w w'. pf_poll pf (Some tm) w = (Inr (), [], w') \<longrightarrow> clock w + tm \<le> clock w')
   \<and> (\<forall>n w res w'. pf_read pf n w = (res, w') \<longrightarrow> clock w \<le> clock w')
   \<and> (\<forall>b w res w'. pf_write pf b w = (res, w') \<longrightarrow> clock w \<le> clock w')"

lemma clock_okD:
  assumes "clock_ok pf clock"
  shows "pf_now pf w = (t, w') \<Longrightarrow> t = clock w' \<and> clock w \<le> clock w'"
    and "pf_poll pf tmo w = (res, evs, w') \<Longrightarrow> clock w \<le> clock w'"
    and "pf_poll pf (Some tm) w = (Inr (), [], w') \<Longrightarrow> clock w + tm \<le> clock w'"
    and "pf_read pf n w = (rres, w') \<Longrightarrow> clock w \<le> clock w'"
  using assms unfolding clock_ok_def by blast+

text \<open>
  A wait is disturbed when the poller is interrupted or reports events before the time is up; in between there are only clock
  readings and reads that found nothing. The documentation sets no limit to how often that happens, so that it does
  not go on for ever before the last instant is a condition on the surroundings.
\<close>

definition quiet_call :: "'w platform \<Rightarrow> 'w \<Rightarrow> 'w \<Rightarrow> bool" where
  "quiet_call pf w w' \<longleftrightarrow> (\<exists>t. pf_now pf w = (t, w')) \<or> (\<exists>e \<in> {WouldBlock, Interrupted}. pf_read pf 4096 w = (Inl e, w'))"

definition disturbed :: "'w platform \<Rightarrow> ('w \<Rightarrow> nat) \<Rightarrow> nat \<Rightarrow> 'w \<Rightarrow> 'w \<Rightarrow> bool" where
  "disturbed pf clock latest w' w \<longleftrightarrow>
     (\<exists>w1 tm res evs. (quiet_call pf)\<^sup>*\<^sup>* w w1 \<and> pf_poll pf (Some tm) w1 = (res, evs, w')
        \<and> (res = Inl Interrupted \<or> res = Inr () \<and> evs \<noteq> []) \<and> clock w' < latest)"

definition endless_noise :: "'w platform \<Rightarrow> ('w \<Rightarrow> nat) \<Rightarrow> nat \<Rightarrow> 'w \<Rightarrow> bool" where
  "endless_noise pf clock latest w \<longleftrightarrow> (\<exists>run. run 0 = w \<and> (\<forall>n. disturbed pf clock latest (run (Suc n)) (run n)))"

text \<open>
  Two readings of the clock in a row are never so far apart that the remaining time, added to the second, passes the last instant
  the platform can represent. Otherwise the inner wait loses its deadline (\<open>deadline_lost\<close>).
\<close>

definition in_range :: "'w platform \<Rightarrow> nat \<Rightarrow> nat \<Rightarrow> bool" where
  "in_range pf latest dl \<longleftrightarrow>
     (\<forall>w t w1 t1 w2. pf_now pf w = (t, w1) \<and> pf_now pf w1 = (t1, w2) \<and> t < dl \<longrightarrow> t1 + (dl - t) \<le> latest)"

lemma noise_accessible:
  assumes "\<not> endless_noise pf clock latest w"
  shows "Wellfounded.accp (disturbed pf clock latest) w"
proof (rule ccontr)
  let ?R = "disturbed pf clock latest"
  assume na: "\<not> Wellfounded.accp ?R w"
  have "\<exists>run. run 0 = w \<and> (\<forall>n. \<not> Wellfounded.accp ?R (run n) \<and> ?R (run (Suc n)) (run n))"
    using dependent_nat_choice [of "\<lambda>n x. \<not> Wellfounded.accp ?R x \<and> (n = 0 \<longrightarrow> x = w)" "\<lambda>n x y. ?R y x"] na
    by (metis not_accp_down nat.distinct(1))
  with assms show False unfolding endless_noise_def by blast
qed

text \<open>It cannot go on for ever if each disturbance takes time.\<close>

lemma noise_takes_time:
  assumes "\<And>w w'. disturbed pf clock latest w' w \<Longrightarrow> clock w < clock w'"
  shows "\<not> endless_noise pf clock latest w"
proof
  assume "endless_noise pf clock latest w"
  then obtain run where run: "\<And>n. disturbed pf clock latest (run (Suc n)) (run n)" unfolding endless_noise_def by blast
  have "n \<le> clock (run n)" for n
  proof (induction n)
    case (Suc n)
    then show ?case using assms [OF run [of n]] by simp
  qed simp
  moreover have "clock (run (Suc latest)) < latest" using run [of latest] unfolding disturbed_def by blast
  ultimately show False by (meson Suc_n_not_le_n le_trans less_imp_le_nat not_less_eq_eq)
qed

lemma disturbed_quiet:
  assumes "(quiet_call pf)\<^sup>*\<^sup>* w w1" and "disturbed pf clock latest y w1"
  shows "disturbed pf clock latest y w"
proof -
  obtain w2 tm res evs where p: "(quiet_call pf)\<^sup>*\<^sup>* w1 w2" "pf_poll pf (Some tm) w2 = (res, evs, y)"
      "res = Inl Interrupted \<or> res = Inr () \<and> evs \<noteq> []" "clock y < latest"
    using assms(2) unfolding disturbed_def by blast
  from rtranclp_trans [OF assms(1) p(1)] p(2-4) show ?thesis unfolding disturbed_def by blast
qed

lemma quiet_accessible:
  assumes "Wellfounded.accp (disturbed pf clock latest) w" and "(quiet_call pf)\<^sup>*\<^sup>* w w1"
  shows "Wellfounded.accp (disturbed pf clock latest) w1"
proof (rule accp.accI)
  fix y assume "disturbed pf clock latest y w1"
  with assms(2) have "disturbed pf clock latest y w" by (rule disturbed_quiet)
  with assms(1) show "Wellfounded.accp (disturbed pf clock latest) y" by (rule accp_downward)
qed

text \<open>How a wait with a deadline ends, and when.\<close>

definition wait_ended :: "'w platform \<Rightarrow> ('w \<Rightarrow> nat) \<Rightarrow> nat \<Rightarrow> nat \<Rightarrow> bool io_result \<Rightarrow> reactor \<Rightarrow> 'w \<Rightarrow> bool" where
  "wait_ended pf clock token dl res r w \<longleftrightarrow>
     (case res of
        Inr True \<Rightarrow> is_ready token (re_events r)
      | Inr False \<Rightarrow> dl \<le> clock w
      | Inl e \<Rightarrow> e \<noteq> Interrupted \<and> (\<exists>tm v evs. pf_poll pf tm v = (Inl e, evs, w)))"

lemma wait_loop_late:
  assumes "clock_ok pf clock" and "dl \<le> clock w"
  shows "\<exists>w'. wait_loop pf token (Some dl) r w = Some (Inr False, r, w') \<and> dl \<le> clock w'"
proof -
  obtain now w1 where n: "pf_now pf w = (now, w1)" by force
  from clock_okD(1) [OF assms(1) n] assms(2) n show ?thesis
    by (subst wait_loop.simps) (simp add: next_wait_def)
qed

lemma wait_loop_ends:
  assumes ok: "clock_ok pf clock" and dl: "dl \<le> latest" and "Wellfounded.accp (disturbed pf clock latest) w"
  shows "\<exists>res r' w'. wait_loop pf token (Some dl) r w = Some (res, r', w') \<and> wait_ended pf clock token dl res r' w'
    \<and> (res = Inr True \<longrightarrow> (disturbed pf clock latest)\<^sup>+\<^sup>+ w' w \<or> latest \<le> clock w')"
  using assms(3)
proof (induction w arbitrary: r rule: accp_induct_rule)
  case (1 w)
  let ?R = "disturbed pf clock latest"
  obtain now w1 where n: "pf_now pf w = (now, w1)" by force
  note w1 = clock_okD(1) [OF ok n]
  have late: "\<exists>res r' w'. wait_loop pf token (Some dl) r w2 = Some (res, r', w') \<and> wait_ended pf clock token dl res r' w'
      \<and> (res = Inr True \<longrightarrow> ?R\<^sup>+\<^sup>+ w' w \<or> latest \<le> clock w')" if "dl \<le> clock w2" for w2 r
    using wait_loop_late [OF ok that, of token r] by (auto simp: wait_ended_def)
  show ?case
  proof (cases "dl \<le> now")
    case True
    then show ?thesis using w1 n by (subst wait_loop.simps) (simp add: next_wait_def wait_ended_def)
  next
    case False
    obtain polled evs w2 where p: "pf_poll pf (Some (dl - now)) w1 = (polled, evs, w2)" by (metis prod_cases3)
    let ?r = "r\<lparr>re_events := evs\<rparr>"
    have step: "wait_loop pf token (Some dl) r w = (case polled of
        Inl e \<Rightarrow> if e = Interrupted then wait_loop pf token (Some dl) ?r w2 else Some (Inl e, ?r, w2)
      | Inr _ \<Rightarrow> if is_ready token evs then Some (Inr True, ?r, w2) else wait_loop pf token (Some dl) ?r w2)"
      using n p False by (subst wait_loop.simps) (simp add: next_wait_def Let_def)
    have "(quiet_call pf)\<^sup>*\<^sup>* w w1" using n by (auto simp: quiet_call_def)
    then have noise: "?R w2 w \<or> latest \<le> clock w2" if "polled = Inl Interrupted \<or> polled = Inr () \<and> evs \<noteq> []"
      using p that unfolding disturbed_def not_le [symmetric] by blast
    have again: "\<exists>res r' w'. wait_loop pf token (Some dl) ?r w2 = Some (res, r', w') \<and> wait_ended pf clock token dl res r' w'
      \<and> (res = Inr True \<longrightarrow> ?R\<^sup>+\<^sup>+ w' w \<or> latest \<le> clock w')" if "polled = Inl Interrupted \<or> polled = Inr ()"
    proof (cases "polled = Inr () \<and> evs = []")
      case True
      then show ?thesis using clock_okD(3) [OF ok] p w1 False by (intro late) fastforce
    next
      case False
      with noise that consider "?R w2 w" | "dl \<le> clock w2" using dl by fastforce
      then show ?thesis
      proof cases
        case 1
        then show ?thesis using "1.IH" by (meson tranclp.trancl_into_trancl)
      qed (rule late)
    qed
    have ready: "evs \<noteq> []" if "is_ready token evs" using that by (auto simp: is_ready_def)
    show ?thesis
      using step again noise ready p by (cases polled) (auto simp: wait_ended_def intro: tranclp.r_into_trancl)
  qed
qed

text \<open>How a round trip ends: every result has its cause, and a timeout of the trip itself is never early.\<close>

definition trip_ended :: "'w platform \<Rightarrow> ('w \<Rightarrow> nat) \<Rightarrow> nat \<Rightarrow> nat \<Rightarrow> nat io_result \<Rightarrow> reactor \<Rightarrow> 'w \<Rightarrow> bool" where
  "trip_ended pf clock token dl res r w \<longleftrightarrow>
     (case res of
        Inr n \<Rightarrow> 0 < n \<and> is_ready token (re_events r) \<and> (\<exists>v. pf_read pf 4096 v = (Inr n, w))
      | Inl e \<Rightarrow> e = TimedOut \<and> dl \<le> clock w
          \<or> e = UnexpectedEof \<and> (\<exists>v. pf_read pf 4096 v = (Inr 0, w))
          \<or> e \<noteq> Interrupted \<and> (\<exists>tm v evs. pf_poll pf tm v = (Inl e, evs, w))
          \<or> e \<notin> {WouldBlock, Interrupted} \<and> (\<exists>v. pf_read pf 4096 v = (Inl e, w)))"

lemma trip_loop_late:
  assumes "clock_ok pf clock" and "dl \<le> clock w"
  shows "\<exists>w'. trip_loop pf latest token (Some dl) r w = Some (Inl TimedOut, r, w') \<and> dl \<le> clock w'"
proof -
  obtain now w1 where n: "pf_now pf w = (now, w1)" by force
  from clock_okD(1) [OF assms(1) n] assms(2) n show ?thesis
    by (subst trip_loop.simps) (simp add: remaining_time_def)
qed

text \<open>One turn of the trip, from a world that only quiet calls separate from \<open>x\<close>.\<close>

lemma trip_turn:
  assumes ok: "clock_ok pf clock" and fits: "dl \<le> latest" "in_range pf latest dl"
    and acc: "Wellfounded.accp (disturbed pf clock latest) x" and q: "(quiet_call pf)\<^sup>*\<^sup>* x w"
    and again: "\<And>z y w r. disturbed pf clock latest z x \<Longrightarrow> (disturbed pf clock latest)\<^sup>*\<^sup>* y z \<Longrightarrow> (quiet_call pf)\<^sup>*\<^sup>* y w
      \<Longrightarrow> \<exists>res r' w'. trip_loop pf latest token (Some dl) r w = Some (res, r', w') \<and> trip_ended pf clock token dl res r' w'"
  shows "\<exists>res r' w'. trip_loop pf latest token (Some dl) r w = Some (res, r', w') \<and> trip_ended pf clock token dl res r' w'"
proof -
  let ?R = "disturbed pf clock latest"
  obtain t w1 where n: "pf_now pf w = (t, w1)" by force
  note w1 = clock_okD(1) [OF ok n]
  show ?thesis
  proof (cases "dl \<le> t")
    case True
    then show ?thesis using w1 n by (subst trip_loop.simps) (simp add: remaining_time_def trip_ended_def)
  next
    case False
    obtain t1 w2 where n1: "pf_now pf w1 = (t1, w2)" by force
    have add: "checked_add latest t1 (dl - t) = Some (t1 + (dl - t))" and far: "t1 + (dl - t) \<le> latest"
    proof -
      show "t1 + (dl - t) \<le> latest" using fits(2) n n1 False unfolding in_range_def by (meson not_le)
      then show "checked_add latest t1 (dl - t) = Some (t1 + (dl - t))" by (simp add: checked_add_def)
    qed
    have dl': "dl \<le> t1 + (dl - t)" using clock_okD(1) [OF ok n1] w1 False by linarith
    have q2: "(quiet_call pf)\<^sup>*\<^sup>* x w2"
      using q n n1 by (meson quiet_call_def rtranclp.rtrancl_into_rtrancl)
    obtain res r3 w3 where wr: "wait_loop pf token (Some (t1 + (dl - t))) r w2 = Some (res, r3, w3)"
        "wait_ended pf clock token (t1 + (dl - t)) res r3 w3" "res = Inr True \<longrightarrow> ?R\<^sup>+\<^sup>+ w3 w2 \<or> latest \<le> clock w3"
      using wait_loop_ends [OF ok far quiet_accessible [OF acc q2], of token r] by blast
    obtain rd w4 where rd: "pf_read pf 4096 w3 = (rd, w4)" by force
    have step: "trip_loop pf latest token (Some dl) r w = (case res of
        Inl e \<Rightarrow> Some (Inl e, r3, w3)
      | Inr ready \<Rightarrow> if \<not> ready then Some (Inl TimedOut, r3, w3)
          else (case rd of
              Inr n \<Rightarrow> if n = 0 then Some (Inl UnexpectedEof, r3, w4) else Some (Inr n, r3, w4)
            | Inl e \<Rightarrow> if e \<in> {WouldBlock, Interrupted} then trip_loop pf latest token (Some dl) r3 w4
                else Some (Inl e, r3, w4)))"
      using n n1 add wr(1) rd False by (subst trip_loop.simps) (simp add: remaining_time_def wait_readable_def split: sum.split)
    have rest: "\<exists>res r' w'. trip_loop pf latest token (Some dl) r3 w4 = Some (res, r', w') \<and> trip_ended pf clock token dl res r' w'"
      if "res = Inr True" "rd = Inl e" "e \<in> {WouldBlock, Interrupted}" for e
    proof (cases "latest \<le> clock w3")
      case True
      then have "dl \<le> clock w4" using fits(1) clock_okD(4) [OF ok rd] by simp
      then show ?thesis using trip_loop_late [OF ok] by (fastforce simp: trip_ended_def)
    next
      case False
      then have "?R\<^sup>+\<^sup>+ w3 w2" using wr(3) that(1) by blast
      then obtain z where z: "?R z w2" "?R\<^sup>*\<^sup>* w3 z" by cases (auto dest: tranclp_into_rtranclp)
      have "?R z x" using q2 z(1) by (rule disturbed_quiet)
      moreover have "(quiet_call pf)\<^sup>*\<^sup>* w3 w4" using rd that(2,3) by (auto simp: quiet_call_def)
      ultimately show ?thesis using z(2) by (intro again)
    qed
    show ?thesis
      using step wr(2) dl' rest rd by (cases res; cases rd) (auto simp: trip_ended_def wait_ended_def split: bool.splits if_splits)
  qed
qed

lemma trip_loop_ends:
  assumes "clock_ok pf clock" and "dl \<le> latest" and "in_range pf latest dl" and "\<not> endless_noise pf clock latest w"
  shows "\<exists>res r' w'. trip_loop pf latest token (Some dl) r w = Some (res, r', w') \<and> trip_ended pf clock token dl res r' w'"
proof -
  let ?R = "disturbed pf clock latest"
  let ?ends = "\<lambda>r w. \<exists>res r' w'. trip_loop pf latest token (Some dl) r w = Some (res, r', w') \<and> trip_ended pf clock token dl res r' w'"
  have "\<forall>y w r. ?R\<^sup>*\<^sup>* y x \<longrightarrow> (quiet_call pf)\<^sup>*\<^sup>* y w \<longrightarrow> ?ends r w" if "Wellfounded.accp ?R x" for x
    using that
  proof (induction x rule: accp_induct_rule)
    case (1 x)
    show ?case
    proof (intro allI impI)
      fix y w r assume y: "?R\<^sup>*\<^sup>* y x" and q: "(quiet_call pf)\<^sup>*\<^sup>* y w"
      show "?ends r w"
      proof (cases "y = x")
        case True
        have q': "(quiet_call pf)\<^sup>*\<^sup>* x w" using q True by simp
        show ?thesis by (rule trip_turn [OF assms(1-3) 1(1) q']) (use "1.IH" in blast)
      next
        case False
        then obtain z where "?R\<^sup>*\<^sup>* y z" "?R z x" using y by (metis rtranclp.cases)
        then show ?thesis using "1.IH" q by blast
      qed
    qed
  qed
  from this [OF noise_accessible [OF assms(4)]] show ?thesis by blast
qed

text \<open>
  C37: a round trip with a deadline ends. Assume what is documented of the clock and the poller, that the surroundings do not
  interrupt or wake the poller for ever before the last instant, and that the remaining time can be added to the clock. Then whatever the
  poller reports (other tokens, spurious readiness, interrupted calls), the trip returns; a byte count is positive and was read
  after a readiness event for the token; \<^verbatim>\<open>TimedOut\<close> is not returned before the deadline unless a call of
  the platform failed with it, \<^verbatim>\<open>UnexpectedEof\<close> only after an empty read or from a call that failed with it, and an interrupted call or a
  spurious wake-up never ends the trip.
\<close>

theorem round_trip_returns:
  assumes "clock_ok pf clock" and "pf_now pf w = (now, w1)" and "pf_write pf payload w1 = (wr, w2)"
    and "now + timeout \<le> latest" and "in_range pf latest (now + timeout)" and "\<not> endless_noise pf clock latest w2"
  shows "\<exists>res r' w'. round_trip pf latest token payload timeout r w = Some (res, r', w')
    \<and> (case wr of Inl e \<Rightarrow> res = Inl e | Inr _ \<Rightarrow> trip_ended pf clock token (now + timeout) res r' w')"
proof -
  obtain res r' w' where "trip_loop pf latest token (Some (now + timeout)) r w2 = Some (res, r', w')"
      "trip_ended pf clock token (now + timeout) res r' w'"
    using trip_loop_ends [OF assms(1,4-6)] by blast
  with assms(2-4) show ?thesis by (cases wr) (auto simp: round_trip_def checked_add_def)
qed

text \<open>A platform whose poller plays back a script, one list of events per poll of five nanoseconds, and then lets every timeout elapse.\<close>

definition scripted :: "(nat \<times> event list list) platform" where
  "scripted = \<lparr>pf_now = (\<lambda>w. (fst w, w)), pf_open = (\<lambda>w. (Inr (), w)),
     pf_poll = (\<lambda>tm w. case snd w of
         [] \<Rightarrow> (Inr (), [], fst w + (case tm of None \<Rightarrow> 0 | Some t \<Rightarrow> t), [])
       | evs # rest \<Rightarrow> (Inr (), evs, fst w + (if evs = [] then case tm of None \<Rightarrow> 0 | Some t \<Rightarrow> t else 5), rest)),
     pf_set_nonblocking = (\<lambda>_ w. (Inr (), w)), pf_register = (\<lambda>_ _ w. (Inr (), w)),
     pf_deregister = (\<lambda>_ w. (Inr (), w)), pf_write = (\<lambda>_ w. (Inr (), w)), pf_read = (\<lambda>_ w. (Inr 2, w))\<rparr>"

lemma scripted_simps [simp]:
  "pf_now scripted w = (fst w, w)" "pf_write scripted b w = (Inr (), w)" "pf_read scripted n w = (Inr 2, w)"
  "pf_poll scripted tm (t, []) = (Inr (), [], t + (case tm of None \<Rightarrow> 0 | Some t \<Rightarrow> t), [])"
  "pf_poll scripted tm (t, evs # rest) = (Inr (), evs, t + (if evs = [] then case tm of None \<Rightarrow> 0 | Some t \<Rightarrow> t else 5), rest)"
  by (simp_all add: scripted_def)

lemma scripted_clock: "clock_ok scripted fst"
proof -
  have "fst w \<le> fst w' \<and> (tm = Some x \<and> evs = [] \<longrightarrow> fst w + x \<le> fst w')"
    if "pf_poll scripted tm w = (res, evs, w')" for tm w res evs w' x
    using that by (cases w; cases "snd w") (auto split: if_splits option.splits)
  then show ?thesis unfolding clock_ok_def by (metis Pair_inject le_refl scripted_simps(1-3))
qed

lemma scripted_noise: "\<not> endless_noise scripted fst latest w"
proof (rule noise_takes_time)
  fix w w' assume "disturbed scripted fst latest w' w"
  then obtain w1 tm res evs where d: "(quiet_call scripted)\<^sup>*\<^sup>* w w1" "pf_poll scripted (Some tm) w1 = (res, evs, w')"
      "res = Inl Interrupted \<or> res = Inr () \<and> evs \<noteq> []" unfolding disturbed_def by blast
  have "w1 = w" using d(1) by induction (auto simp: quiet_call_def)
  with d(2,3) show "fst w < fst w'" by (cases w; cases "snd w") (auto split: if_splits)
qed

theorem round_trip_returns_witness:
  "\<exists>r' w'. round_trip scripted 1000 1 [1, 2] 100 \<lparr>re_events = [], re_next = 2\<rparr>
       (7, [[\<lparr>ev_token = 3, ev_readable = True\<rparr>], [\<lparr>ev_token = 1, ev_readable = True\<rparr>]]) = Some (Inr 2, r', w')
     \<and> trip_ended scripted fst 1 107 (Inr 2) r' w'"
proof -
  let ?w = "(7, [[\<lparr>ev_token = 3, ev_readable = True\<rparr>], [\<lparr>ev_token = 1, ev_readable = True\<rparr>]]) :: nat \<times> event list list"
  let ?run = "round_trip scripted 1000 1 [1, 2] 100 \<lparr>re_events = [], re_next = 2\<rparr> ?w"
  have "\<exists>r' w'. ?run = Some (Inr 2, r', w')"
    unfolding round_trip_def
    by (simp add: checked_add_def, subst trip_loop.simps, simp add: checked_add_def remaining_time_def wait_readable_def)
      (subst wait_loop.simps, simp add: next_wait_def is_ready_def Let_def,
       subst wait_loop.simps, simp add: next_wait_def is_ready_def Let_def)
  moreover have "in_range scripted 1000 (7 + 100)" by (simp add: in_range_def)
  ultimately show ?thesis
    using round_trip_returns [OF scripted_clock, of ?w 7 ?w "[1, 2]" "Inr ()" ?w 100 1000 1 "\<lparr>re_events = [], re_next = 2\<rparr>"]
      scripted_noise [of 1000 ?w] by auto
qed

subsection \<open>A deadline the inner wait can lose\<close>

text \<open>Without a deadline, a wait on a poller that never reports its token never returns.\<close>

definition deaf :: "'w platform \<Rightarrow> nat \<Rightarrow> bool" where
  "deaf pf token \<longleftrightarrow> (\<forall>w. \<exists>evs w'. pf_poll pf None w = (Inr (), evs, w') \<and> \<not> is_ready token evs)"

lemma deaf_wait_diverges:
  assumes "deaf pf token"
  shows "wait_loop pf token None r w = None"
proof -
  have "deadline \<noteq> None \<or> \<not> deaf pf token" if "wait_loop pf token deadline r w = Some y"
    for pf :: "'a platform" and token deadline r w y
  proof (rule wait_loop.raw_induct [OF _ that])
    fix f :: "'a platform \<Rightarrow> nat \<Rightarrow> nat option \<Rightarrow> reactor \<Rightarrow> 'a \<Rightarrow> (bool io_result \<times> reactor \<times> 'a) option"
    fix pf token deadline r w y
    assume IH: "\<And>pf token deadline r w y. f pf token deadline r w = Some y \<Longrightarrow> deadline \<noteq> None \<or> \<not> deaf pf token"
      and run: "(case next_wait pf deadline w of
        (None, w) \<Rightarrow> Some (Inr False, r, w)
      | (Some wait, w) \<Rightarrow>
          (case pf_poll pf wait w of (polled, evs, w) \<Rightarrow>
           let r = r\<lparr>re_events := evs\<rparr> in
           case polled of
             Inl e \<Rightarrow> if e = Interrupted then f pf token deadline r w else Some (Inl e, r, w)
           | Inr _ \<Rightarrow> if is_ready token evs then Some (Inr True, r, w) else f pf token deadline r w)) = Some y"
    show "deadline \<noteq> None \<or> \<not> deaf pf token"
    proof (rule ccontr)
      assume "\<not> (deadline \<noteq> None \<or> \<not> deaf pf token)"
      then have dl: "deadline = None" and quiet: "deaf pf token" by simp_all
      obtain evs w1 where "pf_poll pf None w = (Inr (), evs, w1)" "\<not> is_ready token evs"
        using quiet unfolding deaf_def by blast
      with run dl have "f pf token None (r\<lparr>re_events := evs\<rparr>) w1 = Some y" by (simp add: next_wait_def Let_def)
      from IH [OF this] quiet show False by simp
    qed
  qed
  with assms show ?thesis by (metis option.exhaust)
qed

text \<open>
  \<^verbatim>\<open>round_trip\<close> hands \<^verbatim>\<open>wait_readable\<close> the time that remains, and \<^verbatim>\<open>wait_readable\<close> adds it to a later reading of the
  clock. When the deadline is the last representable instant, that sum overflows, \<^verbatim>\<open>checked_add\<close> gives no
  deadline, and a trip that has one waits for ever while only another token has events.
\<close>

definition slow_clock :: "nat platform" where
  "slow_clock = \<lparr>pf_now = (\<lambda>w. (w + 1, w + 1)), pf_open = (\<lambda>w. (Inr (), w)),
     pf_poll = (\<lambda>_ w. (Inr (), [\<lparr>ev_token = 2, ev_readable = True\<rparr>], w + 1)), pf_set_nonblocking = (\<lambda>_ w. (Inr (), w)),
     pf_register = (\<lambda>_ _ w. (Inr (), w)), pf_deregister = (\<lambda>_ w. (Inr (), w)),
     pf_write = (\<lambda>_ w. (Inr (), w)), pf_read = (\<lambda>_ w. (Inl WouldBlock, w))\<rparr>"

lemma slow_clock_simps [simp]:
  "pf_now slow_clock w = (w + 1, w + 1)" "pf_write slow_clock b w = (Inr (), w)"
  "pf_read slow_clock n w = (Inl WouldBlock, w)" "pf_poll slow_clock tm w = (Inr (), [\<lparr>ev_token = 2, ev_readable = True\<rparr>], w + 1)"
  by (simp_all add: slow_clock_def)

theorem deadline_lost:
  "clock_ok slow_clock id \<and> checked_add 1000 1 999 = Some 1000
    \<and> round_trip slow_clock 1000 1 [] 999 r 0 = None"
proof (intro conjI)
  show "clock_ok slow_clock id" by (simp add: clock_ok_def)
  show "checked_add 1000 1 999 = Some 1000" by (simp add: checked_add_def)
  have "deaf slow_clock 1" by (simp add: deaf_def is_ready_def)
  then have "wait_loop slow_clock 1 None r 3 = None" by (rule deaf_wait_diverges)
  then show "round_trip slow_clock 1000 1 [] 999 r 0 = None"
    by (simp add: round_trip_def checked_add_def)
      (subst trip_loop.simps, simp add: remaining_time_def wait_readable_def checked_add_def numeral_3_eq_3)
qed

subsection \<open>Tokens\<close>

text \<open>The tokens a sequence of registrations hands out: increasing, so no two streams share one.\<close>

primrec register_all :: "'w platform \<Rightarrow> nat list \<Rightarrow> reactor \<Rightarrow> 'w \<Rightarrow> nat list" where
  "register_all pf [] r w = []"
| "register_all pf (fd # fds) r w =
     (case register_readable pf fd r w of
        (Inl _, r, w) \<Rightarrow> register_all pf fds r w
      | (Inr token, r, w) \<Rightarrow> token # register_all pf fds r w)"

lemma register_readable_token:
  assumes "register_readable pf fd r w = (res, r', w')"
  shows "re_next r \<le> re_next r'" and "res = Inr token \<Longrightarrow> token = re_next r \<and> re_next r' = token + 1"
  using assms by (auto simp: register_readable_def Let_def split: prod.splits sum.splits)

lemma tokens_increase:
  "sorted_wrt (<) (register_all pf fds r w) \<and> (\<forall>t \<in> set (register_all pf fds r w). re_next r \<le> t)"
proof (induction fds arbitrary: r w)
  case (Cons fd fds)
  obtain res r' w' where reg: "register_readable pf fd r w = (res, r', w')" by (metis prod_cases3)
  from register_readable_token(1) [OF reg] register_readable_token(2) [OF reg] Cons.IH [of r' w'] reg show ?case
    by (cases res) fastforce+
qed simp

end
