(* ===== verification/Spec2Isabelle.thy ===== *)
theory Spec2Isabelle
  imports Raft_Props Value_Power Btree_Doc Epoch_Rcu Async_Driver Crash_Runner Dirs Rcu_Arc Wakers Reactor
begin

text \<open>
  \<^bold>\<open>Verification of keystory\<close>

  keystory is an embedded key-value store in Rust: a write-ahead log, checkpoints and an in-memory snapshot
  published to readers, a group commit, a consistency checker, a Raft cluster of in-process nodes that
  replicates the same operations, and several primitives beside them (an off-heap value store, a B+ tree, epoch-based
  reclamation, a cooperative runtime, an event-loop reactor). A small program, the crash runner, drives the store
  through a kill and a recovery. All paths below are under \<^verbatim>\<open>src/src/\<close>.

  \<^bold>\<open>How the parts interact.\<close> A commit encodes its operations as a log record, appends a group of them to the
  current segment of the log (\<^verbatim>\<open>wal.rs\<close>), applies them to a copy of the snapshot (\<^verbatim>\<open>types.rs\<close>) and publishes it in
  the snapshot cell (\<^verbatim>\<open>rcu.rs\<close>); concurrent callers share one flush through a queue of tickets (\<^verbatim>\<open>engine.rs\<close>). A
  checkpoint pins a snapshot, rotates the log, writes the snapshot atomically (\<^verbatim>\<open>checkpoint.rs\<close>) and removes the
  segments it covers. Opening a store loads a checkpoint and replays the log after it. A Raft cluster
  (\<^verbatim>\<open>raft/cluster.rs\<close>) drives nodes (\<^verbatim>\<open>raft/node.rs\<close>) by direct calls and may record every
  acknowledged call in the checker (\<^verbatim>\<open>checker.rs\<close>); \<^verbatim>\<open>raft/async_driver.rs\<close> reaches it through the
  scheduler of \<^verbatim>\<open>rt.rs\<close>. The crash runner (\<^verbatim>\<open>main.rs\<close>) opens a store, commits keys, is killed, and checks them after the
  next open.

  \<^bold>\<open>The theories and the code.\<close>
  \<^item> \<open>Ks_Prelude\<close>: machine integers (\<open>u8\<close>, \<open>u32\<close>, \<open>u64\<close> are words), \<open>io_result\<close> for \<^verbatim>\<open>io::Result\<close>, \<^verbatim>\<open>partition_point\<close>, the byte
    order of keys, lemma collections. \<open>Ordered_Map\<close>: \<^verbatim>\<open>BTreeMap\<close> as a sorted association list, and the interface \<open>kv_map\<close>, interpreted on it and
    on the B+ tree. \<open>Codec\<close>: fixed-width integers as bytes, one interface for both byte orders and widths. \<open>Framing\<close>: the contract
    \<open>framed_log\<close> between a log of frames and the scanner that recovers it, interpreted on the write-ahead log and on
    the value store. \<open>Fs\<close>: the directory, an ordered map from names to contents, with a list of outcomes that says which
    call fails and how much of a write got through; a theorem for every such list is one for every pattern of failures of the calls that
    open, create, write, truncate, sync, rename and remove. Calls that only read do not fail. Beside it, in \<open>Disk\<close>,
    the medium: what a power failure at this moment may leave of the files and of the directory.
  \<^item> \<open>Crc\<close> (\<^verbatim>\<open>crc.rs\<close>): the table, one-shot and streaming checksum; one damaged byte is always detected.
  \<^item> \<open>Types\<close> (\<^verbatim>\<open>types.rs\<close>): operations, entries, snapshots, prefix and range scans and their
    double-ended iterator, each with its specification.
  \<^item> \<open>Wal_Codec\<close>, \<open>Wal_Log\<close>, \<open>Wal\<close> (\<^verbatim>\<open>wal.rs\<close>): the record format and the scanner; segments, open with repair, append with roll
    back, poisoning, rotation and removal; lives of a log over any failures.
  \<^item> \<open>Checkpoint\<close> (\<^verbatim>\<open>checkpoint.rs\<close>): the file format, the atomic publish with its fall-back generation, loading.
  \<^item> \<open>Dirs\<close> (\<^verbatim>\<open>wal.rs\<close>): the durable creation of the store's directory, in a tree that tells durable entries from others; a
    directory it reports survives a power failure if the part of its path that existed was durable, which is not so after a failed sync and a retry.
  \<^item> \<open>Rcu\<close>, \<open>Rcu_Arc\<close> (\<^verbatim>\<open>rcu.rs\<close>): the publication cell and its interface \<open>publish_cell\<close>; the same cell over a heap of counted
    values, with exact counts, no use after free and no leak.
  \<^item> \<open>Engine\<close>, \<open>History\<close>, \<open>Store_Inv\<close>, \<open>Durability\<close>, \<open>Store_Props\<close> (\<^verbatim>\<open>engine.rs\<close>): the operations of the store; the abstract state, which
    is a history of commits; the invariant that relates them; the simulation over any number of lives (\<open>store_reach\<close>); and what follows
    for commits, failed commits, checkpoints, reads and the versions of entries.
  \<^item> \<open>Power_Dir\<close>, \<open>Power_Images\<close>, \<open>Power_Log\<close>, \<open>Power_Rotate\<close>, \<open>Power_Open\<close>, \<open>Power_Ckpt\<close>, \<open>Power_Reclaim\<close>, \<open>Power_Store\<close>: the store and power
    failures. Every directory the medium may hold is one a store can be opened from with all acknowledged commits; first
    the images of the log and of the checkpoints, then that appends, rotation, recovery, checkpoints and removal of segments keep it so.
  \<^item> \<open>Group_Commit\<close> (\<^verbatim>\<open>engine.rs\<close>): \<^verbatim>\<open>commit\<close> and \<^verbatim>\<open>checkpoint\<close> as step relations, one step per lock section (the write of a
    checkpoint and the removal of segments are one), with the sleepers of the condition variable, for any number of
    concurrent callers: acknowledged commits are durable, tickets are never lost or mixed up,
    snapshots taken beside the writers are states of one growing history, no wake-up is lost and every call returns.
  \<^item> \<open>Checker\<close> (\<^verbatim>\<open>checker.rs\<close>): recording and the check, with an exact characterisation of its verdict.
  \<^item> \<open>Raft_Node\<close>, \<open>Raft_Cluster\<close>, \<open>Raft_Props\<close> (\<^verbatim>\<open>raft/node.rs\<close>, \<^verbatim>\<open>raft/cluster.rs\<close>): votes, log matching, commit and
    apply of one node; elections, catch-up, replication and reads of the cluster; the invariant \<open>cl_inv\<close> over all reachable clusters and the refinement
    of one sequential store. Assertions of the source are the outcome \<open>Panic\<close>, shown unreachable.
  \<^item> \<open>Value_Store\<close> (\<^verbatim>\<open>valuestore.rs\<close>): the blob log, its recovery and compaction, over any failures and lives. \<open>Value_Power\<close>: its
    handles and power failures, with the two failed directory syncs after which a returned handle can be lost.
  \<^item> \<open>Btree\<close>, \<open>Btree_Doc\<close> (\<^verbatim>\<open>btree_store.rs\<close>): the tree against the sorted map, its shape and height; the document it is saved in,
    its bounded parser and the atomic commit.
  \<^item> \<open>Epoch_Rcu\<close> (\<^verbatim>\<open>epoch_rcu.rs\<close>): the reclamation protocol as interleaved atomic steps, what it guarantees and the race
    it leaves open; reclaiming a version is dropping the reference the queue has of it.
  \<^item> \<open>Rt\<close>, \<open>Wakers\<close>, \<open>Async_Driver\<close> (\<^verbatim>\<open>rt.rs\<close>, \<^verbatim>\<open>raft/async_driver.rs\<close>): the scheduler with user futures as parameters; the raw
    waker table over an explicit heap of boxes, under the contract \<open>waker_table\<close>, which refines the wake of \<open>Rt\<close>; the asynchronous
    calls equal the synchronous ones.
  \<^item> \<open>Reactor\<close> (\<^verbatim>\<open>asyncio.rs\<close>): registration, the wait with a deadline and the round trip. The \<^verbatim>\<open>mio\<close> poller, the sockets and the clock are
    the parameter \<open>platform\<close>; what is documented of the clock and the poller is the hypothesis \<open>clock_ok\<close>.
  \<^item> \<open>Crash_Runner\<close> (\<^verbatim>\<open>main.rs\<close>): the arguments, \<^verbatim>\<open>run\<close> and \<^verbatim>\<open>verify\<close>, and the theorem the harness tests, by the durability of
    the store.

  \<^bold>\<open>State and errors.\<close> A struct is a record and each method a function that returns the updated record, with the directory threaded
  through where the method does I/O. \<^verbatim>\<open>Result\<close> is a sum with the error kind on the left; panics are explicit outcomes. A crash is
  the end of a life at any call: every later call of the interrupted operation fails, the files stay, the memory is
  gone.

  \<^bold>\<open>Power failures.\<close> A power failure (\<open>cut\<close>) also loses what was not synced. The directory therefore carries a
  medium (\<open>fs_disk\<close>), which no operation reads: the set of contents each file may have and the set of states the directory may be in. A write
  adds contents, creation, renaming and removal add states of the directory; the sync of a file makes its present contents the only ones, and
  the sync of the directory does so for its entries. Two assumptions on the file system order what is lost: the bytes of an
  append reach the medium front to back, and entries of the directory change in the order of the calls. Syncs that fail make nothing certain. The main
  theorem (\<open>store_recovers_acknowledged\<close>), the group commit and the puts of the value store (\<open>put_survives_power_cut\<close>) cover such failures;
  the B+ tree, the crash runner and compaction are shown for crashes of the process.

  \<^bold>\<open>Bounds and fuel.\<close> Log indices, versions, epochs and blob ids are 64-bit words, and theorems state where they need them not
  to wrap. File offsets, Raft terms and indices, and slot generations are natural numbers, since they stay below \<open>2 ^ 64\<close>
  in any run of the store, a cluster or a scheduler; the votes of a single node, which can be sent any term, are counted modulo \<open>2 ^ 64\<close>
  (\<open>start_election_u64\<close>). Loops are structural or have a termination proof, with two exceptions. \<open>rt_run\<close> takes fuel, because user futures may run
  for ever, and \<open>run_completes\<close> shows that cooperative ones need only finitely much. The loops of the reactor are partial functions,
  because a wait without a deadline may last for ever, and \<open>round_trip_returns\<close> shows that a trip with one returns unless it is
  disturbed for ever or its deadline cannot be represented.

  \<^bold>\<open>Not modelled.\<close> \<^verbatim>\<open>lib.rs\<close> (module declarations and re-exports) has no logic. Of the modelled files, the test modules, error
  message texts and \<^verbatim>\<open>Debug\<close> output are left out, and so is the advisory lock's system call, whose outcome is an argument
  of \<^verbatim>\<open>open\<close>. In \<open>open_with\<close> the creation of the directory and the resolution of its path are one call that may
  fail and changes no file; \<open>Dirs\<close> has the creation itself. Reference counts are modelled where the code manages
  them by hand or rests on them (\<open>Wakers\<close>, \<open>Rcu_Arc\<close>) and nowhere else.
\<close>

end
